(* ===== verification/Monet_Prelude.thy ===== *)
theory Monet_Prelude
  imports Main "HOL-Library.Multiset" "HOL-Library.Signed_Division"
begin

text \<open>
  Prelude of the development: C integer division, the C conversion to a narrower signed
  type, the comparison contract of GDK atoms and the codec contract of the atom modules,
  and the list lemmas the components share.

  C's signed \<open>/\<close> and \<open>%\<close> truncate towards zero: they are \<open>sdiv\<close> and \<open>smod\<close> of
  HOL-Library.Signed_Division.  A C integer is modelled by the HOL integer it denotes;
  signed arithmetic that would leave the type is undefined behaviour in C, so the
  components prove that it does not happen, and a conversion to a narrower type is
  written out as \<open>signed_take_bit\<close>.
\<close>

named_theorems cint_simps \<open>evaluation of C integer operations\<close>

section \<open>C integers\<close>

lemma sdiv_nonneg [cint_simps]: "0 \<le> a \<Longrightarrow> 0 \<le> b \<Longrightarrow> a sdiv b = a div (b::int)"
  by (cases "b = 0"; cases "a = 0")
    (auto simp: signed_divide_int_def sgn_if)

lemma sdiv_neg_left [cint_simps]: "a \<le> 0 \<Longrightarrow> 0 \<le> b \<Longrightarrow> a sdiv b = - ((- a) div (b::int))"
  by (cases "b = 0"; cases "a = 0")
    (auto simp: signed_divide_int_def sgn_if)

lemma smod_nonneg [cint_simps]: "0 \<le> a \<Longrightarrow> 0 \<le> b \<Longrightarrow> a smod b = a mod (b::int)"
  by (rule smod_mod_positive)

lemma smod_neg_left [cint_simps]: "a \<le> 0 \<Longrightarrow> 0 \<le> b \<Longrightarrow> a smod b = - ((- a) mod (b::int))"
  using smod_mod_positive [of "- a" b] by simp

text \<open>Conversion of a C integer to a signed type of \<open>w\<close> bits.\<close>

definition c_cast :: "nat \<Rightarrow> int \<Rightarrow> int" where
  "c_cast w x = signed_take_bit (w - 1) x"

lemma c_cast_id:
  "- (2 ^ (w - 1)) \<le> x \<Longrightarrow> x < 2 ^ (w - 1) \<Longrightarrow> c_cast w x = x"
  by (simp add: c_cast_def signed_take_bit_int_eq_self)

text \<open>Quotients by a positive divisor.\<close>

lemma int_div_less_mult: "a < b * c \<Longrightarrow> 0 < c \<Longrightarrow> a div c < (b :: int)"
proof (rule ccontr)
  assume "a < b * c" "0 < c" "\<not> a div c < b"
  then have "b * c \<le> (a div c) * c" by (simp add: mult_right_mono)
  also have "(a div c) * c \<le> a"
    using div_mult_mod_eq [of a c] pos_mod_sign [OF \<open>0 < c\<close>, of a] by linarith
  finally show False using \<open>a < b * c\<close> by simp
qed

lemma div_step:
  assumes "0 < k"
  shows "y div k = (y - 1) div k + (if k dvd y then 1 else 0 :: int)"
proof (cases "k dvd y")
  case True
  then obtain m where y: "y = k * m" by blast
  have "(k * m - 1) div k = m - 1"
    using assms by (intro int_div_pos_eq [of _ _ _ "k - 1"]) (auto simp: algebra_simps)
  then show ?thesis using assms y by simp
next
  case False
  then have "y mod k \<ge> 1" "y mod k < k"
    using assms by (auto simp: dvd_eq_mod_eq_0 int_one_le_iff_zero_less le_neq_trans)
  then have "(y - 1) div k = y div k"
    by (intro int_div_pos_eq [of _ _ _ "y mod k - 1"]) (auto simp: algebra_simps)
  then show ?thesis using False by simp
qed

lemma neg_div_neg:
  assumes "0 < k"
  shows "- ((- y) div k) = (y - 1) div k + (1::int)"
proof -
  have "(- y) div k = - ((y - 1) div k) - 1"
    using assms pos_mod_bound [of k "y - 1"] pos_mod_sign [of k "y - 1"]
    by (intro int_div_pos_eq [of _ _ _ "k - 1 - (y - 1) mod k"])
      (auto simp: algebra_simps minus_div_mult_eq_mod [symmetric])
  then show ?thesis by simp
qed

lemma smod_eq_0_iff: "0 < k \<Longrightarrow> y smod k = 0 \<longleftrightarrow> k dvd (y::int)"
  by (auto simp: smod_int_alt_def sgn_if dvd_eq_mod_eq_0 [symmetric])

section \<open>Outcomes\<close>

text \<open>
  What becomes of a call: \<open>Crash\<close> is a violation of memory safety or a failed assertion,
  \<open>Failed\<close> an error that is reported (\<open>GDK_FAIL\<close> or \<open>NULL\<close>).
\<close>

datatype 'r outcome = Crash | Failed | Done 'r

fun andthen :: "'r outcome \<Rightarrow> ('r \<Rightarrow> 's outcome) \<Rightarrow> 's outcome" where
  "andthen Crash f = Crash"
| "andthen Failed f = Failed"
| "andthen (Done x) f = f x"

section \<open>The comparison contract of atoms\<close>

text \<open>
  \<open>ATOMcompare\<close> of a type and the \<open>simple_CMP\<close> macro both return a negative, zero or
  positive integer.  The search, sort and top-N code relies on nothing but the laws below.
\<close>

locale atom_order =
  fixes cmp :: "'a \<Rightarrow> 'a \<Rightarrow> int"
  assumes cmp_swap: "cmp x y < 0 \<longleftrightarrow> 0 < cmp y x"
    and cmp_trans: "cmp x y \<le> 0 \<Longrightarrow> cmp y z \<le> 0 \<Longrightarrow> cmp x z \<le> 0"
begin

lemma cmp_refl [simp]: "cmp x x = 0"
  using cmp_swap [of x x] by linarith

lemma cmp_le_swap: "cmp x y \<le> 0 \<longleftrightarrow> 0 \<le> cmp y x"
  using cmp_swap [of y x] by linarith

lemma cmp_eq_swap: "cmp x y = 0 \<longleftrightarrow> cmp y x = 0"
  using cmp_le_swap [of x y] cmp_le_swap [of y x] by linarith

lemma cmp_lt_le_trans: "cmp x y < 0 \<Longrightarrow> cmp y z \<le> 0 \<Longrightarrow> cmp x z < 0"
  using cmp_trans [of y z x] cmp_swap [of x y] cmp_swap [of x z] cmp_le_swap [of z x]
    cmp_le_swap [of x z] by (smt (verit))

lemma cmp_le_lt_trans: "cmp x y \<le> 0 \<Longrightarrow> cmp y z < 0 \<Longrightarrow> cmp x z < 0"
  using cmp_trans [of z x y] cmp_swap [of y z] cmp_swap [of x z] cmp_le_swap [of z x]
  by (smt (verit))

lemma cmp_ge_trans: "0 \<le> cmp x y \<Longrightarrow> 0 \<le> cmp y z \<Longrightarrow> 0 \<le> cmp x z"
  using cmp_trans [of z y x] cmp_le_swap by blast

lemma dual_order: "atom_order (\<lambda>x y. - cmp x y)"
proof unfold_locales
  fix x y z
  show "- cmp x y < 0 \<longleftrightarrow> 0 < - cmp y x" using cmp_swap [of y x] by linarith
  assume "- cmp x y \<le> 0" and "- cmp y z \<le> 0"
  then show "- cmp x z \<le> 0" using cmp_ge_trans [of x y z] by linarith
qed

end

section \<open>The codec contract\<close>

text \<open>
  An encoding of values of a type, with the domain on which decoding undoes it.  The date,
  daytime, blob and UTF-8 code provide such pairs.
\<close>

locale codec =
  fixes valid :: "'a \<Rightarrow> bool" and enc :: "'a \<Rightarrow> 'b" and dec :: "'b \<Rightarrow> 'a"
  assumes dec_enc: "valid x \<Longrightarrow> dec (enc x) = x"
begin

lemma enc_inj: "valid x \<Longrightarrow> valid y \<Longrightarrow> enc x = enc y \<longleftrightarrow> x = y"
  using dec_enc by metis

lemma enc_inj_on: "inj_on enc {x. valid x}"
  by (rule inj_onI) (use enc_inj in auto)

lemma dec_image: "valid x \<Longrightarrow> y = enc x \<Longrightarrow> enc (dec y) = y"
  by (simp add: dec_enc)

end

section \<open>Lists\<close>

lemma takeWhile_length_unique:
  assumes "n \<le> length xs" and "\<And>i. i < n \<Longrightarrow> P (xs ! i)"
    and "n < length xs \<Longrightarrow> \<not> P (xs ! n)"
  shows "length (takeWhile P xs) = n"
proof -
  have "takeWhile P xs = take n xs"
    by (rule takeWhile_eq_take_P_nth) (use assms in auto)
  then show ?thesis using assms(1) by simp
qed

lemma length_takeWhile_mono:
  "(\<And>x. P x \<Longrightarrow> Q x) \<Longrightarrow> length (takeWhile P xs) \<le> length (takeWhile Q xs)"
  by (induction xs) auto

end
