(* ===== verification/Gdk_Atoms.thy ===== *)
theory Gdk_Atoms
  imports Monet_Prelude
begin

text \<open>
  The numeric atoms of GDK (\<open>gdk/gdk_atoms.h\<close>): their widths, ranges and nil values, the
  \<open>simple_CMP\<close> family of comparison macros, and \<open>BUN\<close>/\<open>oid\<close> constants of a 64-bit build
  (\<open>gdk/gdk.h\<close>).
\<close>

datatype atom_type = TYPE_bte | TYPE_sht | TYPE_int | TYPE_lng | TYPE_hge

fun atom_bits :: "atom_type \<Rightarrow> nat" where
  "atom_bits TYPE_bte = 8"
| "atom_bits TYPE_sht = 16"
| "atom_bits TYPE_int = 32"
| "atom_bits TYPE_lng = 64"
| "atom_bits TYPE_hge = 128"

fun GDK_min :: "atom_type \<Rightarrow> int" where
  "GDK_min TYPE_bte = -128"
| "GDK_min TYPE_sht = -32768"
| "GDK_min TYPE_int = -2147483648"
| "GDK_min TYPE_lng = -9223372036854775808"
| "GDK_min TYPE_hge = -170141183460469231731687303715884105728"

fun GDK_max :: "atom_type \<Rightarrow> int" where
  "GDK_max TYPE_bte = 127"
| "GDK_max TYPE_sht = 32767"
| "GDK_max TYPE_int = 2147483647"
| "GDK_max TYPE_lng = 9223372036854775807"
| "GDK_max TYPE_hge = 2 ^ 126 - 1 + 2 ^ 126"

text \<open>The nil of a numeric type is its smallest value.\<close>

definition nil :: "atom_type \<Rightarrow> int" where
  "nil t = GDK_min t"

text \<open>The values a variable of the type can hold, and those that are not nil.\<close>

definition of_type :: "atom_type \<Rightarrow> int \<Rightarrow> bool" where
  "of_type t x \<longleftrightarrow> GDK_min t \<le> x \<and> x \<le> GDK_max t"

definition non_nil :: "atom_type \<Rightarrow> int \<Rightarrow> bool" where
  "non_nil t x \<longleftrightarrow> of_type t x \<and> x \<noteq> nil t"

lemma GDK_max_pos [simp]: "0 < GDK_max t"
  by (cases t) simp_all

lemma GDK_min_max: "GDK_min t = - GDK_max t - 1"
  by (cases t) simp_all

lemma GDK_max_bits: "GDK_max t = 2 ^ (atom_bits t - 1) - 1"
  by (cases t) simp_all

lemma non_nil_iff: "non_nil t x \<longleftrightarrow> - GDK_max t \<le> x \<and> x \<le> GDK_max t"
  by (auto simp: non_nil_def of_type_def nil_def GDK_min_max)

lemma nil_of_type [simp]: "of_type t (nil t)"
  by (cases t) (simp_all add: of_type_def nil_def)

lemma nil_not_non_nil [simp]: "\<not> non_nil t (nil t)"
  by (simp add: non_nil_def)

text \<open>BUN positions and object identifiers are \<open>size_t\<close>; these are their special values.\<close>

definition BUN_NONE :: nat where
  "BUN_NONE = 9223372036854775807"

definition oid_nil :: nat where
  "oid_nil = 9223372036854775808"

section \<open>Comparison macros\<close>

definition simple_CMP :: "'a::linorder \<Rightarrow> 'a \<Rightarrow> int" where
  "simple_CMP x y = (if x > y then 1 else 0) - (if x < y then 1 else 0)"

definition atom_EQ :: "('a \<Rightarrow> 'a \<Rightarrow> int) \<Rightarrow> 'a \<Rightarrow> 'a \<Rightarrow> bool" where
  "atom_EQ cmp x y \<longleftrightarrow> cmp x y = 0"

definition atom_LE :: "('a \<Rightarrow> 'a \<Rightarrow> int) \<Rightarrow> 'a \<Rightarrow> 'a \<Rightarrow> bool" where
  "atom_LE cmp x y \<longleftrightarrow> cmp x y \<le> 0"

definition atom_GE :: "('a \<Rightarrow> 'a \<Rightarrow> int) \<Rightarrow> 'a \<Rightarrow> 'a \<Rightarrow> bool" where
  "atom_GE cmp x y \<longleftrightarrow> 0 \<le> cmp x y"

lemma simple_CMP_sign:
  "simple_CMP x y < 0 \<longleftrightarrow> x < y" "simple_CMP x y = 0 \<longleftrightarrow> x = y"
  "0 < simple_CMP x y \<longleftrightarrow> y < x" "simple_CMP x y \<le> 0 \<longleftrightarrow> x \<le> y"
  "0 \<le> simple_CMP x y \<longleftrightarrow> y \<le> x"
  by (auto simp: simple_CMP_def)

interpretation simple: atom_order simple_CMP
  by unfold_locales (auto simp: simple_CMP_sign)

end
