(* ===== verification/Gdk_Search.thy ===== *)
theory Gdk_Search
  imports Gdk_Atoms
begin

text \<open>
  Binary search in an ordered column (\<open>gdk/gdk_search.c\<close>): the loop macro
  \<open>SORTfndloop\<close>, the driver \<open>SORTfndwhich\<close> and its three clients.  A column is the tail of
  a BAT: either virtual (\<open>TYPE_void\<close>, with its \<open>tseqbase\<close>) or the list of its values from
  \<open>BUNfirst\<close> on, with the descriptor properties \<open>tsorted\<close>, \<open>trevsorted\<close> and \<open>tkey\<close>.
  \<open>cmp\<close> is the comparison function of the column's type and \<open>as_oid\<close> reads a search value
  as an \<open>oid\<close>, as the code does for virtual columns.
\<close>

datatype 'a tail = TVoid nat | TVals "'a list"

record 'a column =
  batFirst :: nat
  batCount :: nat
  ttail :: "'a tail"
  tsorted :: bool
  trevsorted :: bool
  tkey :: bool

datatype find_which = FIND_FIRST | FIND_ANY | FIND_LAST

definition BUNfirst :: "'a column \<Rightarrow> nat" where
  "BUNfirst b = batFirst b"

definition BUNlast :: "'a column \<Rightarrow> nat" where
  "BUNlast b = batFirst b + batCount b"

definition BATtdense :: "'a column \<Rightarrow> bool" where
  "BATtdense b = (case ttail b of TVoid seq \<Rightarrow> seq \<noteq> oid_nil | TVals _ \<Rightarrow> False)"

text \<open>\<open>BUNtail(bi, p)\<close> for a materialised column.\<close>

definition BUNtail :: "'a column \<Rightarrow> nat \<Rightarrow> 'a" where
  "BUNtail b p = (case ttail b of TVals vs \<Rightarrow> vs ! (p - batFirst b))"

text \<open>
  The loop macro.  \<open>c p\<close> is \<open>CMP(BUNtail(bi, p), v)\<close>; the result holds the final values of
  \<open>cur\<close> and \<open>cmp\<close> (\<open>lo\<close> and \<open>hi\<close> are not used afterwards).
\<close>

function SORTfndloop :: "(nat \<Rightarrow> int) \<Rightarrow> nat \<Rightarrow> nat \<Rightarrow> nat \<Rightarrow> int \<Rightarrow> nat \<times> int" where
  "SORTfndloop c lo hi cur cm =
     (if lo < hi then
        let mid = (lo + hi) div 2; r = c mid in
        if r < 0 then SORTfndloop c (mid + 1) hi (mid + 1) r
        else if 0 < r then SORTfndloop c lo mid mid r
        else (mid, r)
      else (cur, cm))"
  by pat_completeness auto
termination
  by (relation "measure (\<lambda>(c, lo, hi, cur, cm). hi - lo)") auto

declare SORTfndloop.simps [simp del]

text \<open>
  "Shift over multiple equals": the nested loops that move \<open>cur\<close> to the first (last) of the
  equal values by steps of halving length.  \<open>eq p\<close> is \<open>atom_EQ(BUNtail(bi, p), v)\<close>.
\<close>

function shift_down_while :: "(nat \<Rightarrow> bool) \<Rightarrow> nat \<Rightarrow> nat \<Rightarrow> nat \<Rightarrow> nat" where
  "shift_down_while eq end diff cur =
     (if 0 < diff \<and> end + diff \<le> cur \<and> eq (cur - diff)
      then shift_down_while eq end diff (cur - diff) else cur)"
  by pat_completeness auto
termination
  by (relation "measure (\<lambda>(eq, end, diff, cur). cur)") auto

function shift_down :: "(nat \<Rightarrow> bool) \<Rightarrow> nat \<Rightarrow> nat \<Rightarrow> nat \<Rightarrow> nat" where
  "shift_down eq end diff cur =
     (if diff = 0 then cur
      else shift_down eq end (diff div 2) (shift_down_while eq end diff cur))"
  by pat_completeness auto
termination
  by (relation "measure (\<lambda>(eq, end, diff, cur). diff)") auto

function shift_up_while :: "(nat \<Rightarrow> bool) \<Rightarrow> nat \<Rightarrow> nat \<Rightarrow> nat \<Rightarrow> nat" where
  "shift_up_while eq end diff cur =
     (if 0 < diff \<and> cur + diff < end \<and> eq (cur + diff)
      then shift_up_while eq end diff (cur + diff) else cur)"
  by pat_completeness auto
termination
  by (relation "measure (\<lambda>(eq, end, diff, cur). end - cur)") auto

function shift_up :: "(nat \<Rightarrow> bool) \<Rightarrow> nat \<Rightarrow> nat \<Rightarrow> nat \<Rightarrow> nat" where
  "shift_up eq end diff cur =
     (if diff = 0 then cur
      else shift_up eq end (diff div 2) (shift_up_while eq end diff cur))"
  by pat_completeness auto
termination
  by (relation "measure (\<lambda>(eq, end, diff, cur). diff)") auto

declare shift_down_while.simps [simp del] shift_down.simps [simp del]
  shift_up_while.simps [simp del] shift_up.simps [simp del]

lemma shift_0 [simp]: "shift_down eq end 0 cur = cur" "shift_up eq end 0 cur = cur"
  by (simp_all add: shift_down.simps [of eq "end" 0] shift_up.simps [of eq "end" 0])

text \<open>The branches of \<open>SORTfndwhich\<close> for virtual columns.\<close>

definition SORTfnd_dense :: "nat \<Rightarrow> nat \<Rightarrow> nat \<Rightarrow> nat \<Rightarrow> nat \<Rightarrow> find_which \<Rightarrow> nat" where
  "SORTfnd_dense seq cnt lo hi v which =
     (if v < seq \<or> v = oid_nil then (if which = FIND_ANY then BUN_NONE else lo)
      else if seq + cnt \<le> v then (if which = FIND_ANY then BUN_NONE else hi)
      else (v - seq) + lo + (if which = FIND_LAST then 1 else 0))"

definition SORTfnd_nilvoid :: "nat \<Rightarrow> nat \<Rightarrow> nat \<Rightarrow> find_which \<Rightarrow> nat" where
  "SORTfnd_nilvoid lo hi v which =
     (case which of
        FIND_FIRST \<Rightarrow> if v = oid_nil then lo else hi
      | FIND_LAST \<Rightarrow> hi
      | FIND_ANY \<Rightarrow> if lo < hi \<and> v = oid_nil then lo else BUN_NONE)"

text \<open>The branch for materialised columns: shortcut, search loop, shift.\<close>

definition SORTfnd_vals ::
  "('a \<Rightarrow> 'a \<Rightarrow> int) \<Rightarrow> 'a column \<Rightarrow> 'a \<Rightarrow> find_which \<Rightarrow> nat" where
  "SORTfnd_vals cmp b v which =
    (let lo = BUNfirst b; hi = BUNlast b;
         loop = SORTfndloop
                  (\<lambda>p. if tsorted b then cmp (BUNtail b p) v else - cmp (BUNtail b p) v)
                  lo hi BUN_NONE 1;
         cur = fst loop; cm = snd loop;
         eq = (\<lambda>p. atom_EQ cmp (BUNtail b p) v)
     in case which of
          FIND_FIRST \<Rightarrow>
            if hi \<le> lo \<or> (if tsorted b then atom_GE cmp (BUNtail b lo) v
                                       else atom_LE cmp (BUNtail b lo) v) then lo
            else if cm = 0 \<and> \<not> tkey b then shift_down eq lo (cur - lo) cur
            else cur
        | FIND_LAST \<Rightarrow>
            if hi \<le> lo \<or> (if tsorted b then atom_LE cmp (BUNtail b (hi - 1)) v
                                       else atom_GE cmp (BUNtail b (hi - 1)) v) then hi
            else (if cm = 0 \<and> \<not> tkey b then shift_up eq hi ((hi - cur) div 2) cur else cur)
                 + (if cm = 0 then 1 else 0)
        | FIND_ANY \<Rightarrow>
            if hi \<le> lo then BUN_NONE
            else if cm \<noteq> 0 then BUN_NONE else cur)"

definition SORTfndwhich ::
  "('a \<Rightarrow> nat) \<Rightarrow> ('a \<Rightarrow> 'a \<Rightarrow> int) \<Rightarrow> 'a column option \<Rightarrow> 'a \<Rightarrow> find_which \<Rightarrow> nat" where
  "SORTfndwhich as_oid cmp bo v which =
     (case bo of
        None \<Rightarrow> BUN_NONE
      | Some b \<Rightarrow>
          if \<not> tsorted b \<and> \<not> trevsorted b then BUN_NONE
          else case ttail b of
                 TVoid seq \<Rightarrow>
                   if BATtdense b
                   then SORTfnd_dense seq (batCount b) (BUNfirst b) (BUNlast b) (as_oid v) which
                   else SORTfnd_nilvoid (BUNfirst b) (BUNlast b) (as_oid v) which
               | TVals vs \<Rightarrow> SORTfnd_vals cmp b v which)"

definition SORTfnd ::
  "('a \<Rightarrow> nat) \<Rightarrow> ('a \<Rightarrow> 'a \<Rightarrow> int) \<Rightarrow> 'a column option \<Rightarrow> 'a \<Rightarrow> nat" where
  "SORTfnd as_oid cmp b v = SORTfndwhich as_oid cmp b v FIND_ANY"

definition SORTfndfirst ::
  "('a \<Rightarrow> nat) \<Rightarrow> ('a \<Rightarrow> 'a \<Rightarrow> int) \<Rightarrow> 'a column option \<Rightarrow> 'a \<Rightarrow> nat" where
  "SORTfndfirst as_oid cmp b v = SORTfndwhich as_oid cmp b v FIND_FIRST"

definition SORTfndlast ::
  "('a \<Rightarrow> nat) \<Rightarrow> ('a \<Rightarrow> 'a \<Rightarrow> int) \<Rightarrow> 'a column option \<Rightarrow> 'a \<Rightarrow> nat" where
  "SORTfndlast as_oid cmp b v = SORTfndwhich as_oid cmp b v FIND_LAST"


section \<open>The loops\<close>

text \<open>
  A probe function \<open>c\<close> over the positions \<open>L..<H\<close> that is negative, then zero, then
  positive: what a column that is ordered in the direction of the probe gives.
\<close>

definition probe_mono :: "(nat \<Rightarrow> int) \<Rightarrow> nat \<Rightarrow> nat \<Rightarrow> bool" where
  "probe_mono c L H \<longleftrightarrow>
     (\<forall>p q. L \<le> p \<longrightarrow> p \<le> q \<longrightarrow> q < H \<longrightarrow> (0 \<le> c p \<longrightarrow> 0 \<le> c q) \<and> (0 < c p \<longrightarrow> 0 < c q))"

lemma probe_monoD:
  assumes "probe_mono c L H" "L \<le> p" "p \<le> q" "q < H"
  shows "0 \<le> c p \<Longrightarrow> 0 \<le> c q" and "0 < c p \<Longrightarrow> 0 < c q"
    and "c q < 0 \<Longrightarrow> c p < 0" and "c q \<le> 0 \<Longrightarrow> c p \<le> 0"
  using assms unfolding probe_mono_def by (meson leD leI)+

lemma SORTfndloop_correct:
  assumes "probe_mono c L H" "L \<le> lo" "lo \<le> hi" "hi \<le> H"
    and "\<And>p. L \<le> p \<Longrightarrow> p < lo \<Longrightarrow> c p < 0"
    and "\<And>p. hi \<le> p \<Longrightarrow> p < H \<Longrightarrow> 0 < c p"
    and "lo < hi \<or> cur = lo \<and> cm \<noteq> 0"
    and "SORTfndloop c lo hi cur cm = (cur', cm')"
  shows "if cm' = 0 then L \<le> cur' \<and> cur' < H \<and> c cur' = 0
         else L \<le> cur' \<and> cur' \<le> H \<and> (\<forall>p. L \<le> p \<longrightarrow> p < cur' \<longrightarrow> c p < 0)
              \<and> (\<forall>p. cur' \<le> p \<longrightarrow> p < H \<longrightarrow> 0 < c p)"
  using assms
proof (induction c lo hi cur cm rule: SORTfndloop.induct)
  case (1 c lo hi cur cm)
  define mid where "mid = (lo + hi) div 2"
  note step = "1.prems"(8) [unfolded SORTfndloop.simps [of c lo hi cur cm] Let_def,
      folded mid_def]
  show ?case
  proof (cases "lo < hi")
    case False
    with "1.prems" step show ?thesis by auto
  next
    case True
    then have mid: "lo \<le> mid" "mid < hi" "L \<le> mid" "mid < H"
      using "1.prems"(2,4) by (auto simp: mid_def)
    consider "c mid < 0" | "0 < c mid" | "c mid = 0" by linarith
    then show ?thesis
    proof cases
      case 1
      show ?thesis
      proof (rule "1.IH"(1) [OF True mid_def refl 1 "1.prems"(1)])
        fix p assume "L \<le> p" "p < mid + 1"
        then show "c p < 0"
          using probe_monoD(3) [OF "1.prems"(1) \<open>L \<le> p\<close>, of mid] 1 mid by simp
      qed (use True 1 mid step "1.prems" in auto)
    next
      case 2
      then have "\<not> c mid < 0" by simp
      show ?thesis
      proof (rule "1.IH"(2) [OF True mid_def refl \<open>\<not> c mid < 0\<close> 2 "1.prems"(1)])
        fix p assume "mid \<le> p" "p < H"
        then show "0 < c p"
          using probe_monoD(2) [OF "1.prems"(1) \<open>L \<le> mid\<close>, of p] 2 by simp
      qed (use True 2 mid step "1.prems" in auto)
    next
      case 3
      with True mid step show ?thesis by simp
    qed
  qed
qed

lemma shift_down_while_correct:
  "eq cur \<Longrightarrow> end \<le> cur \<Longrightarrow> r = shift_down_while eq end diff cur \<Longrightarrow>
   eq r \<and> end \<le> r \<and> r \<le> cur \<and> (0 < diff \<longrightarrow> end + diff \<le> r \<longrightarrow> \<not> eq (r - diff))"
proof (induction eq "end" diff cur arbitrary: r rule: shift_down_while.induct)
  case (1 eq "end" diff cur)
  show ?case
  proof (cases "0 < diff \<and> end + diff \<le> cur \<and> eq (cur - diff)")
    case True
    then have "end \<le> cur - diff" "cur - diff \<le> cur" by linarith+
    with True "1.IH" [OF True, of r] "1.prems"(3) show ?thesis
      by (auto simp: shift_down_while.simps [of eq "end" diff cur])
  next
    case False
    with "1.prems" show ?thesis
      by (auto simp: shift_down_while.simps [of eq "end" diff cur])
  qed
qed

lemma shift_down_correct:
  "eq cur \<Longrightarrow> end \<le> cur \<Longrightarrow> r = shift_down eq end diff cur \<Longrightarrow>
   eq r \<and> end \<le> r \<and> r \<le> cur \<and> (0 < diff \<longrightarrow> end < r \<longrightarrow> \<not> eq (r - 1))"
proof (induction eq "end" diff cur arbitrary: r rule: shift_down.induct)
  case (1 eq "end" diff cur)
  show ?case
  proof (cases "diff = 0")
    case True
    with "1.prems" show ?thesis by simp
  next
    case False
    define cur' where "cur' = shift_down_while eq end diff cur"
    have cur': "eq cur' \<and> end \<le> cur' \<and> cur' \<le> cur \<and>
        (0 < diff \<longrightarrow> end + diff \<le> cur' \<longrightarrow> \<not> eq (cur' - diff))"
      by (rule shift_down_while_correct [OF "1.prems"(1,2) cur'_def])
    have r: "r = shift_down eq end (diff div 2) cur'"
      using False "1.prems"(3) by (simp add: shift_down.simps [of eq "end" diff cur] cur'_def)
    have IH: "eq r \<and> end \<le> r \<and> r \<le> cur' \<and> (0 < diff div 2 \<longrightarrow> end < r \<longrightarrow> \<not> eq (r - 1))"
      using "1.IH" [OF False, of r] cur' r by (simp add: cur'_def)
    show ?thesis
    proof (cases "diff = 1")
      case True
      then have "r = cur'" using r by simp
      with True cur' IH show ?thesis by auto
    next
      case 2: False
      with False have "0 < diff div 2" by simp
      with IH cur' show ?thesis by auto
    qed
  qed
qed

lemma shift_up_while_correct:
  "eq cur \<Longrightarrow> cur < end \<Longrightarrow> r = shift_up_while eq end diff cur \<Longrightarrow>
   eq r \<and> cur \<le> r \<and> r < end \<and> (0 < diff \<longrightarrow> r + diff < end \<longrightarrow> \<not> eq (r + diff))"
proof (induction eq "end" diff cur arbitrary: r rule: shift_up_while.induct)
  case (1 eq "end" diff cur)
  show ?case
  proof (cases "0 < diff \<and> cur + diff < end \<and> eq (cur + diff)")
    case True
    with "1.IH" [OF True, of r] "1.prems"(3) show ?thesis
      by (simp add: shift_up_while.simps [of eq "end" diff cur])
  next
    case False
    with "1.prems" show ?thesis
      by (auto simp: shift_up_while.simps [of eq "end" diff cur])
  qed
qed

lemma shift_up_correct:
  "eq cur \<Longrightarrow> cur < end \<Longrightarrow> r = shift_up eq end diff cur \<Longrightarrow>
   eq r \<and> cur \<le> r \<and> r < end \<and> (0 < diff \<longrightarrow> Suc r < end \<longrightarrow> \<not> eq (Suc r))"
proof (induction eq "end" diff cur arbitrary: r rule: shift_up.induct)
  case (1 eq "end" diff cur)
  show ?case
  proof (cases "diff = 0")
    case True
    with "1.prems" show ?thesis by simp
  next
    case False
    define cur' where "cur' = shift_up_while eq end diff cur"
    have cur': "eq cur' \<and> cur \<le> cur' \<and> cur' < end \<and>
        (0 < diff \<longrightarrow> cur' + diff < end \<longrightarrow> \<not> eq (cur' + diff))"
      by (rule shift_up_while_correct [OF "1.prems"(1,2) cur'_def])
    have r: "r = shift_up eq end (diff div 2) cur'"
      using False "1.prems"(3) by (simp add: shift_up.simps [of eq "end" diff cur] cur'_def)
    have IH: "eq r \<and> cur' \<le> r \<and> r < end \<and> (0 < diff div 2 \<longrightarrow> Suc r < end \<longrightarrow> \<not> eq (Suc r))"
      using "1.IH" [OF False, of r] cur' r by (simp add: cur'_def)
    show ?thesis
    proof (cases "diff = 1")
      case True
      then have "r = cur'" using r by simp
      with True cur' IH show ?thesis by auto
    next
      case 2: False
      with False have "0 < diff div 2" by simp
      with IH cur' show ?thesis by auto
    qed
  qed
qed


section \<open>What the searches return\<close>

text \<open>
  The descriptor properties as an invariant of the column: the value list has \<open>batCount\<close>
  entries, and the flags that are set hold of it.
\<close>

definition column_ok :: "('a \<Rightarrow> 'a \<Rightarrow> int) \<Rightarrow> 'a column \<Rightarrow> bool" where
  "column_ok cmp b \<longleftrightarrow>
     batFirst b + batCount b < BUN_NONE \<and>
     (case ttail b of
        TVoid seq \<Rightarrow> seq = oid_nil \<or> seq + batCount b \<le> oid_nil
      | TVals vs \<Rightarrow>
          length vs = batCount b \<and>
          (tsorted b \<longrightarrow> sorted_wrt (\<lambda>x y. cmp x y \<le> 0) vs) \<and>
          (trevsorted b \<longrightarrow> sorted_wrt (\<lambda>x y. 0 \<le> cmp x y) vs) \<and>
          (tkey b \<longrightarrow> sorted_wrt (\<lambda>x y. cmp x y \<noteq> 0) vs))"

text \<open>The values that come before \<open>v\<close>, and those that do not come after it, in column order.\<close>

definition before :: "('a \<Rightarrow> 'a \<Rightarrow> int) \<Rightarrow> 'a column \<Rightarrow> 'a \<Rightarrow> 'a \<Rightarrow> bool" where
  "before cmp b v x = (if tsorted b then cmp x v < 0 else 0 < cmp x v)"

definition not_after :: "('a \<Rightarrow> 'a \<Rightarrow> int) \<Rightarrow> 'a column \<Rightarrow> 'a \<Rightarrow> 'a \<Rightarrow> bool" where
  "not_after cmp b v x = (if tsorted b then cmp x v \<le> 0 else 0 \<le> cmp x v)"

definition probe :: "('a \<Rightarrow> 'a \<Rightarrow> int) \<Rightarrow> 'a column \<Rightarrow> 'a \<Rightarrow> nat \<Rightarrow> int" where
  "probe cmp b v p = (if tsorted b then cmp (BUNtail b p) v else - cmp (BUNtail b p) v)"

lemma probe_before:
  "ttail b = TVals vs \<Longrightarrow> before cmp b v (vs ! i) \<longleftrightarrow> probe cmp b v (batFirst b + i) < 0"
  "ttail b = TVals vs \<Longrightarrow> not_after cmp b v (vs ! i) \<longleftrightarrow> probe cmp b v (batFirst b + i) \<le> 0"
  "ttail b = TVals vs \<Longrightarrow> cmp (vs ! i) v = 0 \<longleftrightarrow> probe cmp b v (batFirst b + i) = 0"
  by (auto simp: before_def not_after_def probe_def BUNtail_def)

lemma probe_fold:
  "(\<lambda>p. if tsorted b then cmp (BUNtail b p) v else - cmp (BUNtail b p) v) = probe cmp b v"
  by (simp add: fun_eq_iff probe_def)

lemma probe_ends:
  "(if tsorted b then atom_GE cmp (BUNtail b p) v else atom_LE cmp (BUNtail b p) v)
     \<longleftrightarrow> 0 \<le> probe cmp b v p"
  "(if tsorted b then atom_LE cmp (BUNtail b p) v else atom_GE cmp (BUNtail b p) v)
     \<longleftrightarrow> probe cmp b v p \<le> 0"
  by (simp_all add: probe_def atom_GE_def atom_LE_def)

context atom_order begin

lemma probe_mono_column:
  assumes ok: "column_ok cmp b" and vs: "ttail b = TVals vs"
    and dir: "tsorted b \<or> trevsorted b"
  shows "probe_mono (probe cmp b v) (BUNfirst b) (BUNlast b)"
  unfolding probe_mono_def
proof (intro allI impI)
  fix p q
  assume p: "BUNfirst b \<le> p" and pq: "p \<le> q" and q: "q < BUNlast b"
  define i where "i = p - batFirst b"
  define j where "j = q - batFirst b"
  have ij: "i \<le> j" "j < length vs"
    using p pq q ok vs by (auto simp: i_def j_def BUNfirst_def BUNlast_def column_ok_def)
  have t: "BUNtail b p = vs ! i" "BUNtail b q = vs ! j"
    by (simp_all add: BUNtail_def vs i_def j_def)
  have srt: "if tsorted b then cmp (vs ! i) (vs ! j) \<le> 0 else 0 \<le> cmp (vs ! i) (vs ! j)"
  proof (cases "i = j")
    case False
    then have "i < j" using ij by simp
    then show ?thesis
      using ok vs dir ij sorted_wrt_nth_less [of _ vs i j] by (auto simp: column_ok_def)
  qed simp
  show "(0 \<le> probe cmp b v p \<longrightarrow> 0 \<le> probe cmp b v q) \<and>
      (0 < probe cmp b v p \<longrightarrow> 0 < probe cmp b v q)"
  proof (cases "tsorted b")
    case True
    then have xy: "cmp (vs ! i) (vs ! j) \<le> 0" using srt by simp
    have "cmp (vs ! j) v < 0 \<Longrightarrow> cmp (vs ! i) v < 0" by (rule cmp_le_lt_trans [OF xy])
    moreover have "cmp (vs ! j) v \<le> 0 \<Longrightarrow> cmp (vs ! i) v \<le> 0" by (rule cmp_trans [OF xy])
    ultimately show ?thesis using True t by (simp add: probe_def) linarith
  next
    case False
    then have yx: "cmp (vs ! j) (vs ! i) \<le> 0" using srt cmp_le_swap by simp
    have "cmp (vs ! i) v < 0 \<Longrightarrow> cmp (vs ! j) v < 0" by (rule cmp_le_lt_trans [OF yx])
    moreover have "cmp (vs ! i) v \<le> 0 \<Longrightarrow> cmp (vs ! j) v \<le> 0" by (rule cmp_trans [OF yx])
    ultimately show ?thesis using False t by (simp add: probe_def)
  qed
qed

lemma probe_key:
  assumes ok: "column_ok cmp b" and vs: "ttail b = TVals vs" and key: "tkey b"
    and p: "BUNfirst b \<le> p" "p < q" "q < BUNlast b" and eq: "probe cmp b v q = 0"
  shows "probe cmp b v p \<noteq> 0"
proof
  assume "probe cmp b v p = 0"
  define i where "i = p - batFirst b"
  define j where "j = q - batFirst b"
  have ij: "i < j" "j < length vs"
    using p ok vs by (auto simp: i_def j_def BUNfirst_def BUNlast_def column_ok_def)
  have "cmp (vs ! i) v = 0" "cmp (vs ! j) v = 0"
    using \<open>probe cmp b v p = 0\<close> eq
    by (auto simp: probe_def BUNtail_def vs i_def j_def split: if_splits)
  then have "cmp (vs ! i) (vs ! j) = 0"
    using cmp_trans [of "vs ! i" v "vs ! j"] cmp_ge_trans [of "vs ! i" v "vs ! j"]
      cmp_eq_swap [of "vs ! j" v] by simp
  moreover have "cmp (vs ! i) (vs ! j) \<noteq> 0"
    using ok vs key ij sorted_wrt_nth_less [of _ vs i j] by (auto simp: column_ok_def)
  ultimately show False by simp
qed


text \<open>The outcome of the search loop on a non-empty column.\<close>

lemma loop_column:
  assumes "column_ok cmp b" "ttail b = TVals vs" "tsorted b \<or> trevsorted b"
    and "BUNfirst b < BUNlast b"
    and "SORTfndloop (probe cmp b v) (BUNfirst b) (BUNlast b) BUN_NONE 1 = (cur, cm)"
  shows "if cm = 0 then BUNfirst b \<le> cur \<and> cur < BUNlast b \<and> probe cmp b v cur = 0
         else BUNfirst b \<le> cur \<and> cur \<le> BUNlast b
              \<and> (\<forall>p. BUNfirst b \<le> p \<longrightarrow> p < cur \<longrightarrow> probe cmp b v p < 0)
              \<and> (\<forall>p. cur \<le> p \<longrightarrow> p < BUNlast b \<longrightarrow> 0 < probe cmp b v p)"
  by (rule SORTfndloop_correct [OF probe_mono_column [OF assms(1-3)] order_refl _ order_refl])
    (use assms(4,5) in auto)

lemma SORTfnd_vals_first:
  assumes ok: "column_ok cmp b" and vs: "ttail b = TVals vs"
    and dir: "tsorted b \<or> trevsorted b" and r: "r = SORTfnd_vals cmp b v FIND_FIRST"
  shows "BUNfirst b \<le> r \<and> r \<le> BUNlast b
    \<and> (\<forall>p. BUNfirst b \<le> p \<longrightarrow> p < r \<longrightarrow> probe cmp b v p < 0)
    \<and> (\<forall>p. r \<le> p \<longrightarrow> p < BUNlast b \<longrightarrow> 0 \<le> probe cmp b v p)"
proof -
  let ?c = "probe cmp b v" and ?lo = "BUNfirst b" and ?hi = "BUNlast b"
  note mono = probe_mono_column [OF ok vs dir, of v]
  note below = probe_monoD(3) [OF mono] and above = probe_monoD(1) [OF mono]
  have lohi: "?lo \<le> ?hi" by (simp add: BUNfirst_def BUNlast_def)
  obtain cur cm where loop: "SORTfndloop ?c ?lo ?hi BUN_NONE 1 = (cur, cm)" by fastforce
  have eq: "(\<lambda>p. atom_EQ cmp (BUNtail b p) v) = (\<lambda>p. ?c p = 0)"
    by (auto simp: atom_EQ_def probe_def)
  have r': "r = (if ?hi \<le> ?lo \<or> 0 \<le> ?c ?lo then ?lo
      else if cm = 0 \<and> \<not> tkey b then shift_down (\<lambda>p. ?c p = 0) ?lo (cur - ?lo) cur else cur)"
    using r loop unfolding SORTfnd_vals_def Let_def eq probe_fold
    by (simp add: probe_ends)
  consider "?hi \<le> ?lo \<or> 0 \<le> ?c ?lo" | "?lo < ?hi" "?c ?lo < 0" by linarith
  then show ?thesis
  proof cases
    case 1
    then show ?thesis using r' lohi above by auto
  next
    case 2
    note L = loop_column [OF ok vs dir 2(1) loop]
    consider "cm \<noteq> 0" | "cm = 0" "tkey b" | "cm = 0" "\<not> tkey b" by blast
    then show ?thesis
    proof cases
      case c1: 1
      then show ?thesis using L r' 2 by (auto intro: less_imp_le)
    next
      case c2: 2
      then have cur: "?lo \<le> cur" "cur < ?hi" "?c cur = 0" and "r = cur"
        using L r' 2 by auto
      moreover have "?c p < 0" if "?lo \<le> p" "p < cur" for p
        using probe_key [OF ok vs c2(2) that(1,2) cur(2,3)]
          probe_monoD(4) [OF mono that(1) less_imp_le [OF that(2)] cur(2)] cur(3) by simp
      ultimately show ?thesis using above [of cur] by auto
    next
      case c3: 3
      then have cur: "?lo \<le> cur" "cur < ?hi" "?c cur = 0" using L by auto
      have R: "?c r = 0 \<and> ?lo \<le> r \<and> r \<le> cur \<and>
          (0 < cur - ?lo \<longrightarrow> ?lo < r \<longrightarrow> ?c (r - 1) \<noteq> 0)"
        by (rule shift_down_correct) (use c3 r' 2 cur in auto)
      have "?c p < 0" if "?lo \<le> p" "p < r" for p
      proof -
        have "?c (r - 1) < 0"
          using R that probe_monoD(4) [OF mono, of "r - 1" r] cur by force
        moreover have "p \<le> r - 1" "r - 1 < ?hi" using that R cur by linarith+
        ultimately show ?thesis using below [of p "r - 1"] that(1) by blast
      qed
      then show ?thesis using R cur above [of r] by auto
    qed
  qed
qed

lemma SORTfnd_vals_last:
  assumes ok: "column_ok cmp b" and vs: "ttail b = TVals vs"
    and dir: "tsorted b \<or> trevsorted b" and r: "r = SORTfnd_vals cmp b v FIND_LAST"
  shows "BUNfirst b \<le> r \<and> r \<le> BUNlast b
    \<and> (\<forall>p. BUNfirst b \<le> p \<longrightarrow> p < r \<longrightarrow> probe cmp b v p \<le> 0)
    \<and> (\<forall>p. r \<le> p \<longrightarrow> p < BUNlast b \<longrightarrow> 0 < probe cmp b v p)"
proof -
  let ?c = "probe cmp b v" and ?lo = "BUNfirst b" and ?hi = "BUNlast b"
  note mono = probe_mono_column [OF ok vs dir, of v]
  note below = probe_monoD(4) [OF mono] and above = probe_monoD(2) [OF mono]
  have lohi: "?lo \<le> ?hi" by (simp add: BUNfirst_def BUNlast_def)
  obtain cur cm where loop: "SORTfndloop ?c ?lo ?hi BUN_NONE 1 = (cur, cm)" by fastforce
  have eq: "(\<lambda>p. atom_EQ cmp (BUNtail b p) v) = (\<lambda>p. ?c p = 0)"
    by (auto simp: atom_EQ_def probe_def)
  have r': "r = (if ?hi \<le> ?lo \<or> ?c (?hi - 1) \<le> 0 then ?hi
      else (if cm = 0 \<and> \<not> tkey b then shift_up (\<lambda>p. ?c p = 0) ?hi ((?hi - cur) div 2) cur
            else cur) + (if cm = 0 then 1 else 0))"
    using r loop unfolding SORTfnd_vals_def Let_def eq probe_fold
    by (simp add: probe_ends)
  consider "?hi \<le> ?lo" | "?lo < ?hi" "?c (?hi - 1) \<le> 0" | "?lo < ?hi" "0 < ?c (?hi - 1)"
    by linarith
  then show ?thesis
  proof cases
    case 1
    then show ?thesis using r' lohi by auto
  next
    case 2
    have "?c p \<le> 0" if "?lo \<le> p" "p < ?hi" for p
      by (rule below [of p "?hi - 1"]) (use that 2 in auto)
    then show ?thesis using 2 r' lohi by auto
  next
    case 3
    note L = loop_column [OF ok vs dir 3(1) loop]
    consider "cm \<noteq> 0" | "cm = 0" "tkey b" | "cm = 0" "\<not> tkey b" by blast
    then show ?thesis
    proof cases
      case c1: 1
      then show ?thesis using L r' 3 by (auto intro: less_imp_le)
    next
      case c2: 2
      then have cur: "?lo \<le> cur" "cur < ?hi" "?c cur = 0" and "r = Suc cur"
        using L r' 3 by auto
      moreover have "0 < ?c p" if "cur < p" "p < ?hi" for p
        using probe_key [OF ok vs c2(2) cur(1) that] cur(3)
          probe_monoD(1) [OF mono cur(1) less_imp_le [OF that(1)] that(2)] by force
      ultimately show ?thesis using below [of _ cur] by auto
    next
      case c3: 3
      then have cur: "?lo \<le> cur" "cur < ?hi" "?c cur = 0" using L by auto
      define r0 where "r0 = shift_up (\<lambda>p. ?c p = 0) ?hi ((?hi - cur) div 2) cur"
      have R: "?c r0 = 0 \<and> cur \<le> r0 \<and> r0 < ?hi \<and>
          (0 < (?hi - cur) div 2 \<longrightarrow> Suc r0 < ?hi \<longrightarrow> ?c (Suc r0) \<noteq> 0)"
        by (rule shift_up_correct) (use cur r0_def in auto)
      have rr: "r = Suc r0" using r' 3 c3 by (simp add: r0_def)
      have "0 < ?c p" if "Suc r0 \<le> p" "p < ?hi" for p
      proof -
        have "0 < ?c (Suc r0)"
          using R that cur probe_monoD(1) [OF mono, of r0 "Suc r0"] by force
        then show ?thesis using above [of "Suc r0" p] that R cur by simp
      qed
      then show ?thesis using R cur rr below [of _ r0] by auto
    qed
  qed
qed

lemma SORTfnd_vals_any:
  assumes ok: "column_ok cmp b" and vs: "ttail b = TVals vs"
    and dir: "tsorted b \<or> trevsorted b" and r: "r = SORTfnd_vals cmp b v FIND_ANY"
  shows "if \<exists>p. BUNfirst b \<le> p \<and> p < BUNlast b \<and> probe cmp b v p = 0
    then BUNfirst b \<le> r \<and> r < BUNlast b \<and> probe cmp b v r = 0 else r = BUN_NONE"
proof -
  let ?c = "probe cmp b v" and ?lo = "BUNfirst b" and ?hi = "BUNlast b"
  obtain cur cm where loop: "SORTfndloop ?c ?lo ?hi BUN_NONE 1 = (cur, cm)" by fastforce
  have r': "r = (if ?hi \<le> ?lo then BUN_NONE else if cm \<noteq> 0 then BUN_NONE else cur)"
    using r loop unfolding SORTfnd_vals_def Let_def probe_fold by simp
  show ?thesis
  proof (cases "?lo < ?hi")
    case True
    have "?c p \<noteq> 0" if "cm \<noteq> 0" "?lo \<le> p" "p < ?hi" for p
    proof -
      have "?c p < 0 \<or> 0 < ?c p"
        using loop_column [OF ok vs dir True loop] that by (meson not_le)
      then show ?thesis by linarith
    qed
    then show ?thesis using loop_column [OF ok vs dir True loop] r' True by (auto split: if_splits)
  qed (use r' in auto)
qed

end

section \<open>Properties\<close>

text \<open>Reading the search functions off the shared description of positions.\<close>

lemma SORTfndwhich_vals:
  "ttail b = TVals vs \<Longrightarrow> tsorted b \<or> trevsorted b \<Longrightarrow>
   SORTfndwhich as_oid cmp (Some b) v which = SORTfnd_vals cmp b v which"
  by (auto simp: SORTfndwhich_def)

lemma takeWhile_position:
  assumes "length vs = batCount b" "batFirst b \<le> r" "r \<le> BUNlast b"
    and "\<And>p. batFirst b \<le> p \<Longrightarrow> p < r \<Longrightarrow> P (vs ! (p - batFirst b))"
    and "\<And>p. r \<le> p \<Longrightarrow> p < BUNlast b \<Longrightarrow> \<not> P (vs ! (p - batFirst b))"
  shows "r = batFirst b + length (takeWhile P vs)"
proof -
  have "length (takeWhile P vs) = r - batFirst b"
  proof (rule takeWhile_length_unique)
    show "P (vs ! i)" if "i < r - batFirst b" for i
      using assms(4) [of "batFirst b + i"] that by simp
  qed (use assms in \<open>auto simp: BUNlast_def\<close>)
  then show ?thesis using assms(2) by simp
qed

context atom_order begin

lemma which_first:
  assumes "column_ok cmp b" and "ttail b = TVals vs" and "tsorted b \<or> trevsorted b"
  shows "SORTfndwhich as_oid cmp (Some b) v FIND_FIRST
         = batFirst b + length (takeWhile (before cmp b v) vs)"
proof -
  define r where "r = SORTfnd_vals cmp b v FIND_FIRST"
  note R = SORTfnd_vals_first [OF assms r_def]
  have "r = batFirst b + length (takeWhile (before cmp b v) vs)"
    by (rule takeWhile_position)
      (use assms(1,2) R in \<open>force simp: probe_before column_ok_def BUNfirst_def\<close>)+
  then show ?thesis using assms(2,3) by (simp add: SORTfndwhich_vals r_def)
qed

lemma which_last:
  assumes "column_ok cmp b" and "ttail b = TVals vs" and "tsorted b \<or> trevsorted b"
  shows "SORTfndwhich as_oid cmp (Some b) v FIND_LAST
         = batFirst b + length (takeWhile (not_after cmp b v) vs)"
proof -
  define r where "r = SORTfnd_vals cmp b v FIND_LAST"
  note R = SORTfnd_vals_last [OF assms r_def]
  have "r = batFirst b + length (takeWhile (not_after cmp b v) vs)"
    by (rule takeWhile_position)
      (use assms(1,2) R in \<open>force simp: probe_before column_ok_def BUNfirst_def\<close>)+
  then show ?thesis using assms(2,3) by (simp add: SORTfndwhich_vals r_def)
qed

lemma which_any:
  assumes "column_ok cmp b" and "ttail b = TVals vs" and "tsorted b \<or> trevsorted b"
    and rr: "r = SORTfndwhich as_oid cmp (Some b) v FIND_ANY"
  shows "if \<exists>x\<in>set vs. cmp x v = 0
         then batFirst b \<le> r \<and> r < batFirst b + length vs \<and> cmp (vs ! (r - batFirst b)) v = 0
         else r = BUN_NONE"
proof -
  have r': "r = SORTfnd_vals cmp b v FIND_ANY"
    using assms(2,3) rr by (simp add: SORTfndwhich_vals)
  note R = SORTfnd_vals_any [OF assms(1-3) r']
  have len: "length vs = batCount b" using assms(1,2) by (simp add: column_ok_def)
  have ex: "(\<exists>x\<in>set vs. cmp x v = 0)
      \<longleftrightarrow> (\<exists>p. BUNfirst b \<le> p \<and> p < BUNlast b \<and> probe cmp b v p = 0)"
  proof
    assume "\<exists>x\<in>set vs. cmp x v = 0"
    then obtain i where "i < length vs" "cmp (vs ! i) v = 0" by (auto simp: in_set_conv_nth)
    then show "\<exists>p. BUNfirst b \<le> p \<and> p < BUNlast b \<and> probe cmp b v p = 0"
      using len probe_before(3) [OF assms(2), of cmp i v]
      by (auto simp: BUNfirst_def BUNlast_def intro!: exI [of _ "batFirst b + i"])
  next
    assume "\<exists>p. BUNfirst b \<le> p \<and> p < BUNlast b \<and> probe cmp b v p = 0"
    then obtain p where "batFirst b \<le> p" "p < BUNlast b" "probe cmp b v p = 0"
      by (auto simp: BUNfirst_def)
    then show "\<exists>x\<in>set vs. cmp x v = 0"
      using len probe_before(3) [OF assms(2), of cmp "p - batFirst b" v]
      by (auto simp: BUNlast_def intro!: bexI [of _ "vs ! (p - batFirst b)"])
  qed
  show ?thesis
    unfolding ex using R len probe_before(3) [OF assms(2), of cmp "r - batFirst b" v]
    by (auto simp: BUNfirst_def BUNlast_def split: if_splits)
qed

end

text \<open>
  C21. On a column whose descriptor properties hold, \<open>SORTfndfirst\<close> returns the position of
  the first value that does not come before \<open>v\<close> in the order of the column (ascending or
  descending), \<open>BUNlast\<close> if every value comes before it: the insertion point on the left.
\<close>

theorem SORTfndfirst_correct:
  assumes "atom_order cmp" and "column_ok cmp b" and "ttail b = TVals vs"
    and "tsorted b \<or> trevsorted b"
  shows "SORTfndfirst as_oid cmp (Some b) v
         = batFirst b + length (takeWhile (before cmp b v) vs)"
  unfolding SORTfndfirst_def by (rule atom_order.which_first [OF assms])

text \<open>
  C22. \<open>SORTfndlast\<close> returns the position just beyond the last value that does not come
  after \<open>v\<close>: the insertion point on the right.
\<close>

theorem SORTfndlast_correct:
  assumes "atom_order cmp" and "column_ok cmp b" and "ttail b = TVals vs"
    and "tsorted b \<or> trevsorted b"
  shows "SORTfndlast as_oid cmp (Some b) v
         = batFirst b + length (takeWhile (not_after cmp b v) vs)"
  unfolding SORTfndlast_def by (rule atom_order.which_last [OF assms])

text \<open>
  C23. \<open>SORTfnd\<close> returns a position that holds a value equal to \<open>v\<close> if the column has one,
  and \<open>BUN_NONE\<close> otherwise.
\<close>

theorem SORTfnd_correct:
  assumes "atom_order cmp" and "column_ok cmp b" and "ttail b = TVals vs"
    and "tsorted b \<or> trevsorted b" and "r = SORTfnd as_oid cmp (Some b) v"
  shows "if \<exists>x\<in>set vs. cmp x v = 0
         then batFirst b \<le> r \<and> r < batFirst b + length vs \<and> cmp (vs ! (r - batFirst b)) v = 0
         else r = BUN_NONE"
  by (rule atom_order.which_any [OF assms(1-4)]) (use assms(5) in \<open>simp add: SORTfnd_def\<close>)

text \<open>Search in a virtual column and in the column of the same values written out.\<close>

definition dense_column :: "nat \<Rightarrow> nat \<Rightarrow> nat \<Rightarrow> nat column" where
  "dense_column f0 seq cnt =
     \<lparr>batFirst = f0, batCount = cnt, ttail = TVoid seq,
      tsorted = True, trevsorted = (cnt \<le> 1), tkey = True\<rparr>"

definition materialize :: "nat column \<Rightarrow> nat column" where
  "materialize b = (case ttail b of TVoid seq \<Rightarrow> b\<lparr>ttail := TVals [seq..<seq + batCount b]\<rparr>
                                  | TVals _ \<Rightarrow> b)"

lemma materialize_dense:
  "materialize (dense_column f0 seq cnt) =
     \<lparr>batFirst = f0, batCount = cnt, ttail = TVals [seq..<seq + cnt],
      tsorted = True, trevsorted = (cnt \<le> 1), tkey = True\<rparr>"
  by (simp add: materialize_def dense_column_def)

lemma column_ok_materialize_dense:
  "f0 + cnt < BUN_NONE \<Longrightarrow> column_ok simple_CMP (materialize (dense_column f0 seq cnt))"
  by (auto simp: column_ok_def materialize_dense simple_CMP_sign sorted_wrt_iff_nth_less)

lemma takeWhile_upt: "length (takeWhile (\<lambda>x. x < v) [a..<a + n]) = min n (v - a)"
  by (rule takeWhile_length_unique) auto

text \<open>
  C28. The branch for dense virtual columns, which computes the position instead of
  searching, returns what the binary search returns on the column written out.
\<close>

theorem SORTfndwhich_dense_refines:
  assumes "f0 + cnt < BUN_NONE" and "seq < oid_nil" and "v < oid_nil"
  shows "SORTfndwhich id simple_CMP (Some (dense_column f0 seq cnt)) v which
         = SORTfndwhich id simple_CMP (Some (materialize (dense_column f0 seq cnt))) v which"
proof -
  define m where "m = materialize (dense_column f0 seq cnt)"
  note M = column_ok_materialize_dense [OF assms(1), of seq, folded m_def]
  have m: "batFirst m = f0" "ttail m = TVals [seq..<seq + cnt]" "tsorted m"
    by (simp_all add: m_def materialize_dense)
  have dir: "tsorted m \<or> trevsorted m" using m by simp
  have bf: "before simple_CMP m v = (\<lambda>x. x < v)" "not_after simple_CMP m v = (\<lambda>x. x < Suc v)"
    using m(3) by (auto simp: before_def not_after_def simple_CMP_sign fun_eq_iff)
  have dense: "SORTfndwhich id simple_CMP (Some (dense_column f0 seq cnt)) v which
      = SORTfnd_dense seq cnt f0 (f0 + cnt) v which"
    using assms(2) by (simp add: SORTfndwhich_def dense_column_def BATtdense_def
        BUNfirst_def BUNlast_def)
  show ?thesis
  proof (cases which)
    case FIND_FIRST
    show ?thesis
      unfolding dense m_def [symmetric] unfolding FIND_FIRST
      using assms simple.which_first [OF M m(2) dir, of id v]
      by (auto simp: m bf takeWhile_upt SORTfnd_dense_def)
  next
    case FIND_LAST
    show ?thesis
      unfolding dense m_def [symmetric] unfolding FIND_LAST
      using assms simple.which_last [OF M m(2) dir, of id v]
      by (auto simp: m bf takeWhile_upt SORTfnd_dense_def)
  next
    case FIND_ANY
    define r where "r = SORTfndwhich id simple_CMP (Some m) v FIND_ANY"
    have "if seq \<le> v \<and> v < seq + cnt
        then f0 \<le> r \<and> r < f0 + cnt \<and> [seq..<seq + cnt] ! (r - f0) = v else r = BUN_NONE"
      using simple.which_any [OF M m(2) dir r_def] m(1)
      by (auto simp: simple_CMP_sign split: if_splits)
    then show ?thesis
      unfolding dense m_def [symmetric] unfolding FIND_ANY r_def [symmetric]
      using assms by (auto simp: SORTfnd_dense_def split: if_splits)
  qed
qed

definition col_example :: "int column" where
  "col_example = \<lparr>batFirst = 2, batCount = 7, ttail = TVals [9, 7, 7, 7, 7, 3, 1],
                  tsorted = False, trevsorted = True, tkey = False\<rparr>"

lemma col_example_ok: "column_ok simple_CMP col_example"
  by (simp add: column_ok_def col_example_def BUN_NONE_def simple_CMP_def)

theorem SORTfndfirst_correct_witness:
  "SORTfndfirst nat simple_CMP (Some col_example) 7 = 3"
  using SORTfndfirst_correct [OF simple.atom_order_axioms col_example_ok,
      of "[9, 7, 7, 7, 7, 3, 1]" nat 7]
  by (simp add: col_example_def before_def simple_CMP_def)

theorem SORTfndlast_correct_witness:
  "SORTfndlast nat simple_CMP (Some col_example) 7 = 7"
  using SORTfndlast_correct [OF simple.atom_order_axioms col_example_ok,
      of "[9, 7, 7, 7, 7, 3, 1]" nat 7]
  by (simp add: col_example_def not_after_def simple_CMP_def)

theorem SORTfnd_correct_witness:
  "SORTfnd nat simple_CMP (Some col_example) 4 = BUN_NONE"
  using SORTfnd_correct [OF simple.atom_order_axioms col_example_ok,
      of "[9, 7, 7, 7, 7, 3, 1]" _ nat 4]
  by (simp add: col_example_def simple_CMP_def)

theorem SORTfndwhich_dense_refines_witness:
  "SORTfndwhich id simple_CMP (Some (materialize (dense_column 1 100 50))) 120 FIND_LAST = 22"
  using SORTfndwhich_dense_refines [of 1 50 100 120 FIND_LAST]
  by (simp add: BUN_NONE_def oid_nil_def SORTfndwhich_def dense_column_def BATtdense_def
      SORTfnd_dense_def BUNfirst_def BUNlast_def)

end
