(* ===== verification/Gdk_Cand.thy ===== *)
theory Gdk_Cand
  imports Gdk_Search
begin

text \<open>
  Candidate lists (\<open>gdk/gdk_cand.h\<close>).  The macro \<open>CANDINIT\<close> turns the optional candidate
  list \<open>s\<close> of a BAT \<open>b\<close> into a range of positions \<open>start..<end\<close> of \<open>b\<close> and, unless the
  list is dense, a pointer range into its oids.  Only the head sequence and the count of \<open>b\<close>
  matter.  The pointer range \<open>cand..candend\<close> is modelled by the list of the oids in it,
  \<open>None\<close> being the NULL pointer.
\<close>

record cand_range =
  c_start :: nat
  c_end :: nat
  c_cnt :: nat
  c_cand :: "nat list option"

text \<open>The oids of a candidate list: \<open>(const oid *) Tloc(s, BUNfirst(s))\<close> and on.\<close>

definition tail_oids :: "nat column \<Rightarrow> nat list" where
  "tail_oids s = (case ttail s of TVals vs \<Rightarrow> vs | TVoid seq \<Rightarrow> [seq..<seq + batCount s])"

definition adjust_start :: "nat \<Rightarrow> nat \<Rightarrow> nat \<Rightarrow> nat" where
  "adjust_start hseq cnt start =
     (if start \<le> hseq then 0 else if hseq + cnt \<le> start then cnt else start - hseq)"

definition adjust_end :: "nat \<Rightarrow> nat \<Rightarrow> nat \<Rightarrow> nat" where
  "adjust_end hseq cnt end =
     (if hseq + cnt \<le> end then cnt else if end \<le> hseq then 0 else end - hseq)"

definition CANDINIT :: "nat \<Rightarrow> nat \<Rightarrow> nat column option \<Rightarrow> cand_range" where
  "CANDINIT hseq cnt so =
    (case so of
       None \<Rightarrow> \<lparr>c_start = 0, c_end = cnt, c_cnt = cnt, c_cand = None\<rparr>
     | Some s \<Rightarrow>
         if batCount s = 0 then \<lparr>c_start = 0, c_end = 0, c_cnt = cnt, c_cand = None\<rparr>
         else
          (let (start, end, cand) =
             (if BATtdense s
              then (let start = (case ttail s of TVoid seq \<Rightarrow> seq | TVals _ \<Rightarrow> 0)
                    in (start, start + batCount s, None))
              else
               (let x = hseq;
                    start = SORTfndfirst id simple_CMP (Some s) x;
                    end = SORTfndfirst id simple_CMP (Some s) (x + cnt);
                    cand = take (end - start) (drop (start - batFirst s) (tail_oids s))
                in if start = end then (0, 0, Some cand)
                   else (hd cand, cand ! (end - start - 1) + 1, Some cand)))
           in \<lparr>c_start = adjust_start hseq cnt start, c_end = adjust_end hseq cnt end,
               c_cnt = cnt, c_cand = cand\<rparr>))"

text \<open>
  The positions the users of the macro visit: those named by the candidate pointer, or the
  whole range when it is NULL.
\<close>

definition cand_positions :: "nat \<Rightarrow> cand_range \<Rightarrow> nat list" where
  "cand_positions hseq r =
     (case c_cand r of
        None \<Rightarrow> [c_start r..<c_end r]
      | Some cand \<Rightarrow> map (\<lambda>x. x - hseq) cand)"

text \<open>The positions a candidate list stands for: its oids that name a row of \<open>b\<close>.\<close>

definition selected :: "nat \<Rightarrow> nat \<Rightarrow> nat column option \<Rightarrow> nat list" where
  "selected hseq cnt so =
     (case so of
        None \<Rightarrow> [0..<cnt]
      | Some s \<Rightarrow> map (\<lambda>x. x - hseq) (filter (\<lambda>x. hseq \<le> x \<and> x < hseq + cnt) (tail_oids s)))"

text \<open>
  A candidate list is an oid column in strictly ascending order: virtual, or materialised
  with \<open>tsorted\<close> and \<open>tkey\<close> set and true.
\<close>

definition cand_ok :: "nat column \<Rightarrow> bool" where
  "cand_ok s \<longleftrightarrow>
     column_ok simple_CMP s \<and> tsorted s \<and> tkey s \<and>
     (case ttail s of TVoid seq \<Rightarrow> seq < oid_nil | TVals vs \<Rightarrow> True)"

lemma sorted_take_drop_filter:
  assumes "sorted_wrt (<) (xs :: nat list)" and "l \<le> h"
  shows "take (length (takeWhile (\<lambda>x. x < h) xs) - length (takeWhile (\<lambda>x. x < l) xs))
           (drop (length (takeWhile (\<lambda>x. x < l) xs)) xs)
         = filter (\<lambda>x. l \<le> x \<and> x < h) xs"
  using assms
proof (induction xs)
  case Nil
  then show ?case by simp
next
  case (Cons x xs)
  then have IH: "take (length (takeWhile (\<lambda>x. x < h) xs) - length (takeWhile (\<lambda>x. x < l) xs))
           (drop (length (takeWhile (\<lambda>x. x < l) xs)) xs)
         = filter (\<lambda>x. l \<le> x \<and> x < h) xs"
    and gt: "\<forall>y\<in>set xs. x < y" by auto
  consider "x < l" | "l \<le> x" "x < h" | "h \<le> x" by linarith
  then show ?case
  proof cases
    case 1
    then have "x < h" using Cons.prems(2) by simp
    with 1 IH show ?thesis by simp
  next
    case 2
    then have "takeWhile (\<lambda>x. x < l) xs = []"
      using gt by (cases xs) auto
    with 2 IH show ?thesis by simp
  next
    case 3
    then have "filter (\<lambda>x. l \<le> x \<and> x < h) xs = []" using gt by (auto simp: filter_empty_conv)
    with 3 Cons.prems(2) show ?thesis by simp
  qed
qed

lemma upt_filter_range:
  "filter (\<lambda>x. l \<le> x \<and> x < h) [a..<b] = [max a l..<min b h]"
  by (induction b) (auto simp: max_def min_def not_le le_less_Suc_eq)

lemma map_minus_upt: "map (\<lambda>x. x - k) [a..<b] = [a - k..<b - k]" if "k \<le> a \<or> b \<le> a"
  using that
proof (induction b)
  case (Suc b)
  then show ?case by (cases "a \<le> b") (auto simp: Suc_diff_le)
qed simp

lemma candinit_dense:
  assumes "ttail s = TVoid seq" "seq < oid_nil" "batCount s \<noteq> 0"
  shows "cand_positions hseq (CANDINIT hseq cnt (Some s)) = selected hseq cnt (Some s)"
proof -
  have "cand_positions hseq (CANDINIT hseq cnt (Some s))
      = [adjust_start hseq cnt seq..<adjust_end hseq cnt (seq + batCount s)]"
    using assms by (simp add: CANDINIT_def BATtdense_def cand_positions_def)
  also have "\<dots> = [max seq hseq - hseq..<min (seq + batCount s) (hseq + cnt) - hseq]"
    by (auto simp: adjust_start_def adjust_end_def max_def min_def)
  also have "\<dots> = selected hseq cnt (Some s)"
    using assms by (simp add: selected_def tail_oids_def upt_filter_range map_minus_upt)
  finally show ?thesis .
qed

lemma cand_ok_vals:
  assumes "cand_ok s" "ttail s = TVals vs"
  shows "sorted_wrt (<) vs" "length vs = batCount s"
    "SORTfndfirst id simple_CMP (Some s) x = batFirst s + length (takeWhile (\<lambda>y. y < x) vs)"
proof -
  have ok: "column_ok simple_CMP s" "tsorted s" "tkey s"
    using assms by (auto simp: cand_ok_def)
  then show "sorted_wrt (<) vs"
    using assms(2) by (auto simp: column_ok_def simple_CMP_sign sorted_wrt_iff_nth_less le_neq_trans)
  show "length vs = batCount s" using ok assms(2) by (simp add: column_ok_def)
  have "before simple_CMP s x = (\<lambda>y. y < x)"
    using ok by (auto simp: before_def simple_CMP_sign fun_eq_iff)
  then show "SORTfndfirst id simple_CMP (Some s) x
      = batFirst s + length (takeWhile (\<lambda>y. y < x) vs)"
    using simple.which_first [OF ok(1) assms(2), of id x] ok(2)
    by (simp add: SORTfndfirst_def)
qed

lemma candinit_vals:
  fixes hseq cnt :: nat and vs :: "nat list"
  assumes ok: "cand_ok s" and vs: "ttail s = TVals vs" and ne: "batCount s \<noteq> 0"
  defines "sel \<equiv> filter (\<lambda>x. hseq \<le> x \<and> x < hseq + cnt) vs"
  shows "CANDINIT hseq cnt (Some s) =
    \<lparr>c_start = adjust_start hseq cnt (if sel = [] then 0 else hd sel),
     c_end = adjust_end hseq cnt (if sel = [] then 0 else last sel + 1),
     c_cnt = cnt, c_cand = Some sel\<rparr>"
proof -
  note S = cand_ok_vals [OF ok vs]
  let ?l = "length (takeWhile (\<lambda>y. y < hseq) vs)"
  let ?h = "length (takeWhile (\<lambda>y. y < hseq + cnt) vs)"
  have sel: "take (?h - ?l) (drop ?l vs) = sel"
    unfolding sel_def by (rule sorted_take_drop_filter) (use S in auto)
  have le: "?l \<le> ?h" by (rule length_takeWhile_mono) simp
  have "?h \<le> length vs" by (rule length_takeWhile_le)
  with le have len: "length sel = ?h - ?l" by (simp add: sel [symmetric])
  have "sel = [] \<longleftrightarrow> ?l = ?h" using len le by (auto simp flip: length_0_conv)
  moreover have "sel \<noteq> [] \<Longrightarrow> sel ! (?h - ?l - 1) = last sel"
    by (simp add: last_conv_nth len)
  ultimately show ?thesis
    using ne vs by (simp add: CANDINIT_def BATtdense_def S(3) tail_oids_def sel)
qed


text \<open>
  C29. \<open>CANDINIT\<close> makes its users visit exactly the rows of \<open>b\<close> that the candidate list
  names, in order: oids outside the head range of \<open>b\<close> are skipped, a dense list becomes a
  range, and no list at all means every row.
\<close>

theorem CANDINIT_positions:
  assumes "\<And>s. so = Some s \<Longrightarrow> cand_ok s"
  shows "cand_positions hseq (CANDINIT hseq cnt so) = selected hseq cnt so"
proof (cases so)
  case None
  then show ?thesis by (simp add: CANDINIT_def cand_positions_def selected_def)
next
  case (Some s)
  with assms have ok: "cand_ok s" by simp
  show ?thesis
  proof (cases "batCount s = 0")
    case True
    then show ?thesis
      using Some ok by (auto simp: CANDINIT_def cand_positions_def selected_def tail_oids_def
          cand_ok_def column_ok_def split: tail.splits)
  next
    case False
    show ?thesis
    proof (cases "ttail s")
      case (TVoid seq)
      then show ?thesis using Some ok False candinit_dense by (simp add: cand_ok_def)
    next
      case (TVals vs)
      then show ?thesis
        using Some candinit_vals [OF ok TVals False]
        by (simp add: cand_positions_def selected_def tail_oids_def)
    qed
  qed
qed

text \<open>The bounds that the first and the last selected oid give.\<close>

lemma adjust_bounds:
  assumes "sorted_wrt (<) sel" "sel \<noteq> []" "\<forall>x\<in>set sel. hseq \<le> x \<and> x < hseq + cnt"
  shows "adjust_start hseq cnt (hd sel) = hd sel - hseq" "adjust_end hseq cnt (last sel + 1) = Suc (last sel - hseq)"
    "Suc (last sel - hseq) \<le> cnt" "\<forall>x\<in>set sel. hd sel - hseq \<le> x - hseq \<and> x - hseq < Suc (last sel - hseq)"
proof -
  have h: "hseq \<le> hd sel" "hd sel < hseq + cnt" "hseq \<le> last sel" "last sel < hseq + cnt"
    using assms(2,3) hd_in_set [of sel] last_in_set [of sel] by auto
  then show "adjust_start hseq cnt (hd sel) = hd sel - hseq" "adjust_end hseq cnt (last sel + 1) = Suc (last sel - hseq)"
    "Suc (last sel - hseq) \<le> cnt"
    by (auto simp: adjust_start_def adjust_end_def)
  have "hd sel \<le> x" if "x \<in> set sel" for x using that assms(1) by (cases sel) auto
  moreover have "x \<le> last sel" if "x \<in> set sel" for x
    using that assms(1) by (cases sel rule: rev_cases) (auto simp: sorted_wrt_append)
  ultimately show "\<forall>x\<in>set sel. hd sel - hseq \<le> x - hseq \<and> x - hseq < Suc (last sel - hseq)"
    by (simp add: diff_le_mono le_imp_less_Suc)
qed

text \<open>
  C30. The range \<open>start..<end\<close> that \<open>CANDINIT\<close> computes lies within the BAT and encloses
  every visited position; a candidate pointer is only set when the first and last position
  are the bounds of the range, so the consumers' fill loops cover the rest.
\<close>

theorem CANDINIT_range:
  assumes "\<And>s. so = Some s \<Longrightarrow> cand_ok s" and "r = CANDINIT hseq cnt so"
  shows "c_end r \<le> cnt \<and> c_start r \<le> cnt \<and> c_cnt r = cnt
    \<and> (\<forall>p\<in>set (cand_positions hseq r). c_start r \<le> p \<and> p < c_end r)
    \<and> (\<forall>cand. c_cand r = Some cand \<longrightarrow> cand \<noteq> [] \<longrightarrow>
         c_start r = hd cand - hseq \<and> c_end r = Suc (last cand - hseq))"
proof (cases so)
  case None
  then show ?thesis using assms(2) by (simp add: CANDINIT_def cand_positions_def)
next
  case (Some s)
  with assms have ok: "cand_ok s" by simp
  have adj: "adjust_start hseq cnt x \<le> cnt" "adjust_end hseq cnt x \<le> cnt" for x
    by (auto simp: adjust_start_def adjust_end_def)
  show ?thesis
  proof (cases "batCount s = 0 \<or> (\<exists>seq. ttail s = TVoid seq)")
    case True
    then show ?thesis
      using Some ok assms(2)
      by (auto simp: CANDINIT_def cand_positions_def BATtdense_def cand_ok_def Let_def
          adj split: tail.splits)
  next
    case False
    then obtain vs where vs: "ttail s = TVals vs" and ne: "batCount s \<noteq> 0"
      by (cases "ttail s") auto
    define sel where "sel = filter (\<lambda>x. hseq \<le> x \<and> x < hseq + cnt) vs"
    note C = candinit_vals [OF ok vs ne, of hseq cnt, folded sel_def]
    have srt: "sorted_wrt (<) sel"
      using cand_ok_vals(1) [OF ok vs] by (simp add: sel_def sorted_wrt_filter)
    have inr: "\<forall>x\<in>set sel. hseq \<le> x \<and> x < hseq + cnt" by (simp add: sel_def)
    show ?thesis
    proof (cases "sel = []")
      case True
      then show ?thesis using Some C assms(2) by (simp add: adj cand_positions_def)
    next
      case ne: False
      note bounds = adjust_bounds [OF srt ne inr]
      have "hd sel - hseq \<le> cnt" using bounds(3) bspec [OF bounds(4) hd_in_set [OF ne]] by linarith
      then show ?thesis using Some C assms(2) ne bounds by (auto simp: cand_positions_def)
    qed
  qed
qed

definition cand_example :: "nat column" where
  "cand_example = \<lparr>batFirst = 1, batCount = 5, ttail = TVals [2, 11, 13, 14, 30],
                   tsorted = True, trevsorted = False, tkey = True\<rparr>"

lemma cand_example_ok: "cand_ok cand_example"
  by (simp add: cand_ok_def column_ok_def cand_example_def BUN_NONE_def simple_CMP_sign)

theorem CANDINIT_positions_witness:
  "cand_positions 10 (CANDINIT 10 5 (Some cand_example)) = [1, 3, 4]"
  using CANDINIT_positions [of "Some cand_example" 10 5] cand_example_ok
  by (simp add: selected_def tail_oids_def cand_example_def)

theorem CANDINIT_range_witness:
  "c_end (CANDINIT 10 5 (Some cand_example)) \<le> 5"
  using CANDINIT_range [of "Some cand_example" _ 10 5] cand_example_ok by simp

end
