(* ===== verification/Gdk_Checked.thy ===== *)
theory Gdk_Checked
  imports Gdk_Atoms
begin

text \<open>
  Overflow-checked arithmetic on single values (\<open>gdk/gdk_calc_private.h\<close>).  A macro either
  executes its \<open>on_overflow\<close> argument (only when \<open>abort_on_error\<close> is set), modelled by
  \<open>None\<close>, or assigns \<open>dst\<close> and adds to \<open>nils\<close>, modelled by \<open>Some (dst, increment)\<close>.
\<close>

text \<open>\<open>(TYPE) x\<close>\<close>

definition to_type :: "atom_type \<Rightarrow> int \<Rightarrow> int" where
  "to_type t x = c_cast (atom_bits t) x"

lemma to_type_id [simp]: "of_type t x \<Longrightarrow> to_type t x = x"
  by (cases t) (auto simp: to_type_def of_type_def intro!: c_cast_id)

definition ADD_WITH_CHECK :: "atom_type \<Rightarrow> int \<Rightarrow> int \<Rightarrow> int \<Rightarrow> bool \<Rightarrow> (int \<times> nat) option" where
  "ADD_WITH_CHECK t3 lft rgt mx abort_on_error =
     (if rgt < 1 then
        (if - mx - rgt > lft then (if abort_on_error then None else Some (nil t3, 1))
         else Some (to_type t3 (to_type t3 lft + rgt), 0))
      else
        (if mx - rgt < lft then (if abort_on_error then None else Some (nil t3, 1))
         else Some (to_type t3 (to_type t3 lft + rgt), 0)))"

definition SUB_WITH_CHECK :: "atom_type \<Rightarrow> int \<Rightarrow> int \<Rightarrow> int \<Rightarrow> bool \<Rightarrow> (int \<times> nat) option" where
  "SUB_WITH_CHECK t3 lft rgt mx abort_on_error =
     (if rgt < 1 then
        (if mx + rgt < lft then (if abort_on_error then None else Some (nil t3, 1))
         else Some (to_type t3 (to_type t3 lft - rgt), 0))
      else
        (if - mx + rgt > lft then (if abort_on_error then None else Some (nil t3, 1))
         else Some (to_type t3 (to_type t3 lft - rgt), 0)))"

definition MUL4_WITH_CHECK ::
  "atom_type \<Rightarrow> atom_type \<Rightarrow> int \<Rightarrow> int \<Rightarrow> int \<Rightarrow> bool \<Rightarrow> (int \<times> nat) option" where
  "MUL4_WITH_CHECK t3 t4 lft rgt mx abort_on_error =
     (let c = to_type t4 (to_type t4 lft * rgt) in
      if c < to_type t4 (- mx) \<or> c > to_type t4 mx
      then (if abort_on_error then None else Some (nil t3, 1))
      else Some (to_type t3 c, 0))"

text \<open>
  \<open>LNGMUL_CHECK\<close> and \<open>HGEMUL_CHECK\<close> are the same text over different widths: the
  operands are split into halves of \<open>h\<close> bits, unsigned arithmetic is modulo \<open>2 ^ (2 * h)\<close>,
  and the tests \<open>c & (~0 << (h-1))\<close> and \<open>c & (1 << (2h-1))\<close> ask whether \<open>c\<close> has a bit at
  or above that position.
\<close>

definition HALFMUL_CHECK ::
  "nat \<Rightarrow> atom_type \<Rightarrow> int \<Rightarrow> int \<Rightarrow> int \<Rightarrow> bool \<Rightarrow> (int \<times> nat) option" where
  "HALFMUL_CHECK h t lft rgt mx abort_on_error =
     (let (a, s1) = (if lft < 0 then (- lft, -1) else (lft, 1));
          (b, sign) = (if rgt < 0 then (- rgt, - s1) else (rgt, s1));
          a1 = (a div 2 ^ h) mod 2 ^ h; a2 = a mod 2 ^ h;
          b1 = (b div 2 ^ h) mod 2 ^ h; b2 = b mod 2 ^ h;
          c = (a1 * b2 + a2 * b1) mod 2 ^ (2 * h);
          c' = (c * 2 ^ h + a2 * b2) mod 2 ^ (2 * h)
      in if (a1 = 0 \<or> b1 = 0) \<and> c div 2 ^ (h - 1) = 0 \<and> c' div 2 ^ (2 * h - 1) = 0 \<and> c' \<le> mx
         then Some (sign * c', 0)
         else if abort_on_error then None
         else Some (nil t, 1))"

definition LNGMUL_CHECK :: "int \<Rightarrow> int \<Rightarrow> int \<Rightarrow> bool \<Rightarrow> (int \<times> nat) option" where
  "LNGMUL_CHECK = HALFMUL_CHECK 32 TYPE_lng"

definition HGEMUL_CHECK :: "int \<Rightarrow> int \<Rightarrow> int \<Rightarrow> bool \<Rightarrow> (int \<times> nat) option" where
  "HGEMUL_CHECK = HALFMUL_CHECK 64 TYPE_hge"

section \<open>The contract of a checked operation\<close>

text \<open>The exact result when its magnitude is at most the parameter \<open>mx\<close> (\<open>max\<close> in the source), else an error or nil.\<close>

definition checked_result :: "atom_type \<Rightarrow> int \<Rightarrow> int \<Rightarrow> bool \<Rightarrow> (int \<times> nat) option" where
  "checked_result t3 r mx abort_on_error =
     (if \<bar>r\<bar> \<le> mx then Some (r, 0) else if abort_on_error then None else Some (nil t3, 1))"

text \<open>
  The contract the column kernels and the aggregates rely on: \<open>dom\<close> says which operands the
  operation is compiled for.
\<close>

locale checked_op =
  fixes dom :: "int \<Rightarrow> int \<Rightarrow> int \<Rightarrow> bool" and exact :: "int \<Rightarrow> int \<Rightarrow> int"
    and t3 :: atom_type and check :: "int \<Rightarrow> int \<Rightarrow> int \<Rightarrow> bool \<Rightarrow> (int \<times> nat) option"
  assumes check_exact:
      "dom lft rgt mx \<Longrightarrow> check lft rgt mx ab = checked_result t3 (exact lft rgt) mx ab"
    and dom_max: "dom lft rgt mx \<Longrightarrow> mx \<le> GDK_max t3"
begin

lemma check_Some:
  assumes "dom lft rgt mx" "check lft rgt mx ab = Some (v, n)"
  shows "(v = exact lft rgt \<and> n = 0 \<and> non_nil t3 v) \<or> (v = nil t3 \<and> n = 1 \<and> \<not> ab)"
  using assms check_exact dom_max
  by (force simp: checked_result_def non_nil_iff split: if_splits)

lemma check_nils: "dom lft rgt mx \<Longrightarrow> check lft rgt mx ab = Some (v, n) \<Longrightarrow>
    n = (if v = nil t3 then 1 else 0)"
  by (drule (1) check_Some) auto

lemma check_abort: "dom lft rgt mx \<Longrightarrow> check lft rgt mx True = Some (v, n) \<Longrightarrow>
    v = exact lft rgt \<and> n = 0"
  by (drule (1) check_Some) simp

lemma check_None: "dom lft rgt mx \<Longrightarrow> check lft rgt mx ab = None \<longleftrightarrow>
    ab \<and> mx < \<bar>exact lft rgt\<bar>"
  using check_exact by (auto simp: checked_result_def)

end

text \<open>
  Operands of \<open>+\<close> and \<open>-\<close>: the right one is not nil, and the left one is itself within the
  limit, which the macros need since they test one side of the limit only.
\<close>

definition add_dom :: "atom_type \<Rightarrow> int \<Rightarrow> int \<Rightarrow> int \<Rightarrow> bool" where
  "add_dom t3 lft rgt mx \<longleftrightarrow> \<bar>lft\<bar> \<le> mx \<and> non_nil t3 rgt \<and> mx \<le> GDK_max t3"

lemma of_type_between: "- GDK_max t \<le> x \<Longrightarrow> x \<le> GDK_max t \<Longrightarrow> of_type t x"
  by (simp add: of_type_def GDK_min_max)

lemma ADD_WITH_CHECK_eq:
  assumes "add_dom t3 lft rgt mx"
  shows "ADD_WITH_CHECK t3 lft rgt mx ab = checked_result t3 (lft + rgt) mx ab"
proof -
  have l: "of_type t3 lft" "mx \<le> GDK_max t3" "0 \<le> mx"
    using assms by (auto simp: add_dom_def abs_le_iff intro!: of_type_between)
  have "\<bar>lft + rgt\<bar> \<le> mx \<Longrightarrow> of_type t3 (lft + rgt)"
    by (rule of_type_between) (use l in linarith)+
  then show ?thesis
    using assms l by (auto simp: ADD_WITH_CHECK_def checked_result_def add_dom_def non_nil_iff)
qed

lemma SUB_WITH_CHECK_eq:
  assumes "add_dom t3 lft rgt mx"
  shows "SUB_WITH_CHECK t3 lft rgt mx ab = checked_result t3 (lft - rgt) mx ab"
proof -
  have l: "of_type t3 lft" "mx \<le> GDK_max t3" "0 \<le> mx"
    using assms by (auto simp: add_dom_def abs_le_iff intro!: of_type_between)
  have "\<bar>lft - rgt\<bar> \<le> mx \<Longrightarrow> of_type t3 (lft - rgt)"
    by (rule of_type_between) (use l in linarith)+
  then show ?thesis
    using assms l by (auto simp: SUB_WITH_CHECK_def checked_result_def add_dom_def non_nil_iff)
qed


section \<open>Multiplication\<close>

text \<open>\<open>MUL4_WITH_CHECK\<close> is used with a \<open>TYPE4\<close> that holds every product of the operands.\<close>

definition mul4_dom ::
  "atom_type \<Rightarrow> atom_type \<Rightarrow> atom_type \<Rightarrow> atom_type \<Rightarrow> int \<Rightarrow> int \<Rightarrow> int \<Rightarrow> bool" where
  "mul4_dom t1 t2 t3 t4 lft rgt mx \<longleftrightarrow>
     non_nil t1 lft \<and> non_nil t2 rgt \<and> GDK_max t1 * GDK_max t2 \<le> GDK_max t4 \<and>
     GDK_max t3 \<le> GDK_max t4 \<and> 0 \<le> mx \<and> mx \<le> GDK_max t3"

lemma abs_mult_le: "\<bar>a\<bar> \<le> A \<Longrightarrow> \<bar>b\<bar> \<le> B \<Longrightarrow> \<bar>a * b\<bar> \<le> A * (B :: int)"
  by (simp add: abs_mult mult_mono')

lemma GDK_max_ge1: "1 \<le> GDK_max t"
  using GDK_max_pos [of t] by linarith

lemma MUL4_WITH_CHECK_eq:
  assumes "mul4_dom t1 t2 t3 t4 lft rgt mx"
  shows "MUL4_WITH_CHECK t3 t4 lft rgt mx ab = checked_result t3 (lft * rgt) mx ab"
proof -
  have d: "\<bar>lft\<bar> \<le> GDK_max t1" "\<bar>rgt\<bar> \<le> GDK_max t2" "GDK_max t1 * GDK_max t2 \<le> GDK_max t4"
    "GDK_max t3 \<le> GDK_max t4" "0 \<le> mx" "mx \<le> GDK_max t3"
    using assms by (auto simp: mul4_dom_def non_nil_iff abs_le_iff)
  have p: "\<bar>lft * rgt\<bar> \<le> GDK_max t4"
    using abs_mult_le [OF d(1,2)] d(3) by linarith
  have "GDK_max t1 * 1 \<le> GDK_max t1 * GDK_max t2"
    by (rule mult_left_mono) (simp_all add: GDK_max_ge1 less_imp_le)
  then have "GDK_max t1 \<le> GDK_max t4" using d(3) by (metis mult.right_neutral order_trans)
  then have "of_type t4 lft" "of_type t4 (lft * rgt)" "of_type t4 mx" "of_type t4 (- mx)"
    using d p by (auto intro!: of_type_between simp: abs_le_iff)
  moreover have "\<bar>lft * rgt\<bar> \<le> mx \<Longrightarrow> of_type t3 (lft * rgt)"
    by (rule of_type_between) (use d in linarith)+
  ultimately show ?thesis
    using d by (auto simp: MUL4_WITH_CHECK_def checked_result_def Let_def)
qed

text \<open>
  The split multiplication.  Either both high halves are non-zero and the product is at
  least \<open>2 ^ (2 * h)\<close>, or the cross terms alone exceed it, or no step wraps.
\<close>

lemma half_split:
  assumes "0 \<le> a" "a < 2 ^ (2 * h - 1)" "0 < h"
  shows "(a div 2 ^ h) mod 2 ^ h = (a div 2 ^ h :: int)" and "a div 2 ^ h < 2 ^ (h - 1)"
    and "a = (a div 2 ^ h) * 2 ^ h + a mod 2 ^ h"
proof -
  have "(2::int) ^ (2 * h - 1) = 2 ^ (h - 1) * 2 ^ h"
    using assms(3) by (simp add: power_add [symmetric])
  then show 2: "a div 2 ^ h < 2 ^ (h - 1)"
    using assms by (intro int_div_less_mult) auto
  have "(2::int) ^ (h - 1) \<le> 2 ^ h" by (rule power_increasing) auto
  then have "a div 2 ^ h < 2 ^ h" using 2 by (rule order.strict_trans2 [rotated])
  then show "(a div 2 ^ h) mod 2 ^ h = a div 2 ^ h"
    by (intro mod_pos_pos_trivial) (use assms in \<open>auto simp: pos_imp_zdiv_nonneg_iff\<close>)
  show "a = (a div 2 ^ h) * 2 ^ h + a mod 2 ^ h" by (rule div_mult_mod_eq [symmetric])
qed

lemma halfmul_no_wrap:
  fixes a1 a2 b1 b2 H G :: int
  assumes "0 \<le> a1" "0 \<le> a2" "0 \<le> b1" "0 \<le> b2" "a1 < G" "b1 < G" "a2 < H" "b2 < H" "H = 2 * G"
    and z: "a1 = 0 \<or> b1 = 0" and c: "a1 * b2 + a2 * b1 < G"
  shows "(a1 * b2 + a2 * b1) * H + a2 * b2 < H * H"
proof -
  have lt: "x * H + y * z < H * H" if "0 \<le> x" "x < G" "0 \<le> y" "y < H" "0 \<le> z" "z < G"
    for x y z :: int
  proof -
    have "y * z \<le> H * G" by (rule mult_mono) (use that assms in auto)
    moreover have "x * H \<le> (G - 1) * H" by (rule mult_right_mono) (use that assms in auto)
    ultimately show ?thesis using assms that by (simp add: algebra_simps)
  qed
  have le: "y \<le> x * y" if "1 \<le> x" "0 \<le> y" for x y :: int
    using mult_right_mono [OF that] by simp
  consider "a1 = 0" "b1 = 0" | "1 \<le> a1" "b1 = 0" | "a1 = 0" "1 \<le> b1"
    using z assms(1,3) by linarith
  then show ?thesis
  proof cases
    case 1
    then show ?thesis using mult_strict_mono' [of a2 H b2 H] assms by simp
  next
    case 2
    then have "b2 < G" using le [OF 2(1) assms(4)] c by simp
    then show ?thesis using lt [of "a1 * b2" a2 b2] 2 assms c by simp
  next
    case 3
    then have "a2 < G" using le [OF 3(2) assms(2)] c by (simp add: mult.commute)
    then show ?thesis using lt [of "a2 * b1" b2 a2] 3 assms c by (simp add: mult.commute)
  qed
qed


lemma HALFMUL_CHECK_eq:
  assumes h: "0 < h" and l: "\<bar>lft\<bar> < 2 ^ (2 * h - 1)" and r: "\<bar>rgt\<bar> < 2 ^ (2 * h - 1)"
    and m: "mx < 2 ^ (2 * h - 1)"
  shows "HALFMUL_CHECK h t lft rgt mx ab = checked_result t (lft * rgt) mx ab"
proof -
  define a b where "a = \<bar>lft\<bar>" and "b = \<bar>rgt\<bar>"
  define a1 a2 b1 b2 where "a1 = a div 2 ^ h" and "a2 = a mod 2 ^ h"
    and "b1 = b div 2 ^ h" and "b2 = b mod 2 ^ h"
  note parts = a1_def a2_def b1_def b2_def
  define H G :: int where "H = 2 ^ h" and "G = 2 ^ (h - 1)"
  define c where "c = a1 * b2 + a2 * b1"
  define s1 sign :: int where "s1 = (if lft < 0 then - 1 else 1)"
    and "sign = (if rgt < 0 then - s1 else s1)"
  have a: "0 \<le> a" "a < 2 ^ (2 * h - 1)" and b: "0 \<le> b" "b < 2 ^ (2 * h - 1)"
    using l r by (auto simp: a_def b_def)
  have HG: "H = 2 * G" "0 < G" using h by (cases h; simp add: H_def G_def)+
  have pw: "(2::int) ^ (2 * h) = H * H" "(2::int) ^ (2 * h - 1) = G * H"
    using h by (simp_all add: H_def G_def power_add [symmetric] mult_2)
  note sa = half_split [OF a h, folded a1_def a2_def H_def G_def]
  note sb = half_split [OF b h, folded b1_def b2_def H_def G_def]
  have rng: "0 \<le> a1" "0 \<le> b1" "0 \<le> a2" "a2 < H" "0 \<le> b2" "b2 < H"
    using a b by (simp_all add: a1_def b1_def a2_def b2_def H_def pos_imp_zdiv_nonneg_iff)
  have prod: "a * b = a1 * b1 * (H * H) + c * H + a2 * b2"
    by (rule trans [OF arg_cong2 [where f = "(*)", OF sa(3) sb(3)]])
      (simp add: c_def algebra_simps)
  have absm: "\<bar>lft * rgt\<bar> = a * b" and sgnm: "lft * rgt = sign * (a * b)"
    by (auto simp: a_def b_def sign_def s1_def abs_mult)
  have mult_lt: "x * y < H * H" if "0 \<le> x" "x < G" "0 \<le> y" "y < H" for x y
    using mult_strict_mono' [of x H y H] that HG by simp
  have cH: "0 \<le> c \<and> c < H * H" if "a1 = 0 \<or> b1 = 0"
    using that mult_lt [of a1 b2] mult_lt [of b1 a2] rng sa(2) sb(2)
    by (auto simp: c_def mult.commute)
  have fits: "c * H + a2 * b2 < H * H" if "a1 = 0 \<or> b1 = 0" "c < G"
    unfolding c_def
    by (rule halfmul_no_wrap) (use rng sa(2) sb(2) HG that in \<open>auto simp: c_def\<close>)
  have big1: "mx < a * b" if "a1 \<noteq> 0" "b1 \<noteq> 0"
  proof -
    have "1 \<le> a1 * b1" using that rng by (simp add: int_one_le_iff_zero_less le_neq_trans)
    then have "H * H \<le> a1 * b1 * (H * H)" using mult_right_mono [of 1 "a1 * b1" "H * H"] HG by simp
    moreover have "0 \<le> c * H" "0 \<le> a2 * b2" using rng HG by (simp_all add: c_def)
    moreover have "G * H < H * H" using HG by simp
    ultimately show ?thesis using prod m pw(2) by linarith
  qed
  have big2: "mx < a * b" if "G \<le> c"
  proof -
    have "G * H \<le> c * H" using that HG by (simp add: mult_right_mono)
    moreover have "0 \<le> a1 * b1 * (H * H)" "0 \<le> a2 * b2" using rng HG by simp_all
    ultimately show ?thesis using prod m pw(2) by linarith
  qed
  define ok where "ok \<longleftrightarrow> (a1 = 0 \<or> b1 = 0) \<and> (c mod (H * H)) div G = 0 \<and>
      ((c mod (H * H)) * H + a2 * b2) mod (H * H) div (G * H) = 0 \<and>
      ((c mod (H * H)) * H + a2 * b2) mod (H * H) \<le> mx"
  have ok: "ok \<longleftrightarrow> a * b \<le> mx"
    and val: "ok \<Longrightarrow> ((c mod (H * H)) * H + a2 * b2) mod (H * H) = a * b"
  proof -
    have small: "(c mod (H * H)) * H + a2 * b2 = a * b \<and> a * b < H * H"
      if "a1 = 0 \<or> b1 = 0" "c < G"
      using that cH fits prod by auto
    have divG: "c div G = 0 \<longleftrightarrow> c < G" if "a1 = 0 \<or> b1 = 0"
      using cH [OF that] HG by (auto simp: zdiv_eq_0_iff)
    have okD: "(a1 = 0 \<or> b1 = 0) \<and> c < G" if ok using that divG cH by (auto simp: ok_def)
    then show v: "ok \<Longrightarrow> ((c mod (H * H)) * H + a2 * b2) mod (H * H) = a * b"
      using small a(1) b(1) by auto
    have ab0: "0 \<le> a * b" using a(1) b(1) by simp
    have ok_if: "ok" if "a * b \<le> mx"
    proof -
      have z: "a1 = 0 \<or> b1 = 0" and "c < G" using that big1 big2 by fastforce+
      then show ?thesis
        using small divG cH ab0 that m pw(2) by (auto simp: ok_def div_pos_pos_trivial)
    qed
    have "a * b \<le> mx" if ok
    proof -
      have "((c mod (H * H)) * H + a2 * b2) mod (H * H) \<le> mx" using that unfolding ok_def by blast
      then show ?thesis using v [OF that] by simp
    qed
    then show "ok \<longleftrightarrow> a * b \<le> mx" using ok_if by blast
  qed
  have "HALFMUL_CHECK h t lft rgt mx ab =
      (if ok then Some (sign * (((c mod (H * H)) * H + a2 * b2) mod (H * H)), 0)
       else if ab then None else Some (nil t, 1))"
  proof -
    have e: "(if lft < 0 then (- lft, - 1) else (lft, 1)) = (a, s1)"
      "(if rgt < 0 then (- rgt, - s1) else (rgt, s1)) = (b, sign)"
      by (simp_all add: a_def b_def s1_def sign_def)
    show ?thesis
      unfolding HALFMUL_CHECK_def e Let_def prod.case pw ok_def H_def [symmetric] G_def [symmetric]
        parts [folded H_def, symmetric] sa(1) sb(1) c_def [symmetric] by (rule refl)
  qed
  then show ?thesis using ok val by (simp add: checked_result_def absm sgnm [symmetric])
qed


definition halfmul_dom :: "nat \<Rightarrow> atom_type \<Rightarrow> int \<Rightarrow> int \<Rightarrow> int \<Rightarrow> bool" where
  "halfmul_dom h t lft rgt mx \<longleftrightarrow>
     GDK_max t < 2 ^ (2 * h - 1) \<and> non_nil t lft \<and> non_nil t rgt \<and> 0 < h \<and> mx \<le> GDK_max t"

section \<open>The macros satisfy the contract\<close>

interpretation add_op: checked_op "add_dom t3" "(+)" t3 "ADD_WITH_CHECK t3" for t3
  by unfold_locales (auto simp: ADD_WITH_CHECK_eq add_dom_def)

interpretation sub_op: checked_op "add_dom t3" "(-)" t3 "SUB_WITH_CHECK t3" for t3
  by unfold_locales (auto simp: SUB_WITH_CHECK_eq add_dom_def)

interpretation mul_op: checked_op "mul4_dom t1 t2 t3 t4" "(*)" t3 "MUL4_WITH_CHECK t3 t4"
  for t1 t2 t3 t4
  by unfold_locales (auto simp: MUL4_WITH_CHECK_eq mul4_dom_def)

interpretation halfmul_op: checked_op "halfmul_dom h t" "(*)" t "HALFMUL_CHECK h t" for h t
  by unfold_locales (auto simp: halfmul_dom_def non_nil_iff intro!: HALFMUL_CHECK_eq)

text \<open>
  C31. \<open>ADD_WITH_CHECK\<close> and \<open>SUB_WITH_CHECK\<close>, which test one side of the limit only and never
  form a sum before testing it, return the exact result when its magnitude is at most
  \<open>max\<close>, and overflow exactly otherwise; every intermediate value fits the result type.
\<close>

theorem ADD_SUB_WITH_CHECK_exact:
  assumes "add_dom t3 lft rgt mx"
  shows "ADD_WITH_CHECK t3 lft rgt mx ab = checked_result t3 (lft + rgt) mx ab
    \<and> SUB_WITH_CHECK t3 lft rgt mx ab = checked_result t3 (lft - rgt) mx ab
    \<and> (if rgt < 1 then of_type t3 (- mx - rgt) \<and> of_type t3 (mx + rgt)
       else of_type t3 (mx - rgt) \<and> of_type t3 (- mx + rgt))"
  using assms by (auto simp: ADD_WITH_CHECK_eq SUB_WITH_CHECK_eq add_dom_def non_nil_iff
      abs_le_iff intro!: of_type_between)

text \<open>
  C32. The split multiplications \<open>LNGMUL_CHECK\<close> (64 bits by 32-bit halves) and
  \<open>HGEMUL_CHECK\<close> (128 bits by 64-bit halves) return the exact product when its magnitude is
  at most \<open>max\<close> and overflow otherwise, although the cross terms and the sum are computed in
  wrapping unsigned arithmetic.
\<close>

theorem LNGMUL_HGEMUL_exact:
  "(non_nil TYPE_lng lft \<and> non_nil TYPE_lng rgt \<and> mx \<le> GDK_max TYPE_lng \<longrightarrow>
      LNGMUL_CHECK lft rgt mx ab = checked_result TYPE_lng (lft * rgt) mx ab)
   \<and> (non_nil TYPE_hge lft \<and> non_nil TYPE_hge rgt \<and> mx \<le> GDK_max TYPE_hge \<longrightarrow>
      HGEMUL_CHECK lft rgt mx ab = checked_result TYPE_hge (lft * rgt) mx ab)"
  unfolding LNGMUL_CHECK_def HGEMUL_CHECK_def
  by (intro conjI impI; rule halfmul_op.check_exact; simp add: halfmul_dom_def)

theorem ADD_SUB_WITH_CHECK_exact_witness:
  "ADD_WITH_CHECK TYPE_bte 100 28 127 False = Some (- 128, 1)
   \<and> SUB_WITH_CHECK TYPE_bte 100 28 127 True = Some (72, 0)
   \<and> of_type TYPE_bte (127 - 28)"
  using ADD_SUB_WITH_CHECK_exact [of TYPE_bte 100 28 127 False]
    ADD_SUB_WITH_CHECK_exact [of TYPE_bte 100 28 127 True]
  by (simp add: add_dom_def checked_result_def nil_def non_nil_iff)

theorem LNGMUL_HGEMUL_exact_witness:
  "LNGMUL_CHECK (- 3037000499) 3037000499 9223372036854775807 True
     = Some (- 9223372030926249001, 0)
   \<and> LNGMUL_CHECK 3037000500 3037000500 9223372036854775807 False
     = Some (- 9223372036854775808, 1)"
  using LNGMUL_HGEMUL_exact [of "- 3037000499" 3037000499 9223372036854775807 True]
    LNGMUL_HGEMUL_exact [of 3037000500 3037000500 9223372036854775807 False]
  by (simp add: checked_result_def nil_def non_nil_iff)

end
