(* ===== verification/Gdk_Calc.thy ===== *)
theory Gdk_Calc
  imports Gdk_Cand Gdk_Checked
begin

text \<open>
  The column kernels of \<open>gdk/gdk_calc.c\<close>: the macros \<open>CANDLOOP\<close> and \<open>CHECKCAND\<close>, the
  element steps of \<open>ADD_3TYPE\<close>, \<open>SUB_3TYPE\<close>, \<open>MUL_4TYPE\<close>, \<open>DIV_3TYPE\<close>, \<open>MOD_3TYPE\<close> and
  their enlarging variants over the integer types, and the type switches of a build with
  128-bit integers and without \<open>FULL_IMPLEMENTATION\<close>.

  All kernels share one loop; they differ in the step applied to a pair of operands.  A
  step either makes the kernel return an error code (\<open>BUN_NONE\<close> and beyond), \<open>Inl code\<close>, or
  gives the value of \<open>dst[k]\<close> and the increment of \<open>nils\<close>, \<open>Inr (v, n)\<close>.
\<close>

type_synonym step_result = "nat + (int \<times> nat)"

section \<open>Element steps\<close>

definition on_overflow :: "(int \<times> nat) option \<Rightarrow> step_result" where
  "on_overflow r = (case r of None \<Rightarrow> Inl BUN_NONE | Some p \<Rightarrow> Inr p)"

definition nil_operand :: "atom_type \<Rightarrow> atom_type \<Rightarrow> int \<Rightarrow> int \<Rightarrow> bool" where
  "nil_operand t1 t2 l r \<longleftrightarrow> l = nil t1 \<or> r = nil t2"

definition add_3type ::
  "atom_type \<Rightarrow> atom_type \<Rightarrow> atom_type \<Rightarrow> int \<Rightarrow> bool \<Rightarrow> int \<Rightarrow> int \<Rightarrow> step_result" where
  "add_3type t1 t2 t3 mx ab l r =
     (if nil_operand t1 t2 l r then Inr (nil t3, 1)
      else on_overflow (ADD_WITH_CHECK t3 l r mx ab))"

definition add_3type_enlarge ::
  "atom_type \<Rightarrow> atom_type \<Rightarrow> atom_type \<Rightarrow> int \<Rightarrow> bool \<Rightarrow> int \<Rightarrow> int \<Rightarrow> step_result" where
  "add_3type_enlarge t1 t2 t3 mx ab l r =
     (if mx < to_type t3 (to_type t3 (GDK_max t1) + to_type t3 (GDK_max t2)) then
        (if nil_operand t1 t2 l r then Inr (nil t3, 1)
         else on_overflow (ADD_WITH_CHECK t3 l r mx ab))
      else
        (if nil_operand t1 t2 l r then Inr (nil t3, 1)
         else Inr (to_type t3 (to_type t3 l + r), 0)))"

definition sub_3type ::
  "atom_type \<Rightarrow> atom_type \<Rightarrow> atom_type \<Rightarrow> int \<Rightarrow> bool \<Rightarrow> int \<Rightarrow> int \<Rightarrow> step_result" where
  "sub_3type t1 t2 t3 mx ab l r =
     (if nil_operand t1 t2 l r then Inr (nil t3, 1)
      else on_overflow (SUB_WITH_CHECK t3 l r mx ab))"

definition sub_3type_enlarge ::
  "atom_type \<Rightarrow> atom_type \<Rightarrow> atom_type \<Rightarrow> int \<Rightarrow> bool \<Rightarrow> int \<Rightarrow> int \<Rightarrow> step_result" where
  "sub_3type_enlarge t1 t2 t3 mx ab l r =
     (if mx < to_type t3 (to_type t3 (GDK_max t1) + to_type t3 (GDK_max t2)) then
        (if nil_operand t1 t2 l r then Inr (nil t3, 1)
         else on_overflow (SUB_WITH_CHECK t3 l r mx ab))
      else
        (if nil_operand t1 t2 l r then Inr (nil t3, 1)
         else Inr (to_type t3 (to_type t3 l - r), 0)))"

definition mul_4type ::
  "atom_type \<Rightarrow> atom_type \<Rightarrow> atom_type \<Rightarrow> atom_type \<Rightarrow> int \<Rightarrow> bool \<Rightarrow> int \<Rightarrow> int \<Rightarrow> step_result" where
  "mul_4type t1 t2 t3 t4 mx ab l r =
     (if nil_operand t1 t2 l r then Inr (nil t3, 1)
      else on_overflow (MUL4_WITH_CHECK t3 t4 l r mx ab))"

definition mul_3type_enlarge ::
  "atom_type \<Rightarrow> atom_type \<Rightarrow> atom_type \<Rightarrow> int \<Rightarrow> bool \<Rightarrow> int \<Rightarrow> int \<Rightarrow> step_result" where
  "mul_3type_enlarge t1 t2 t3 mx ab l r =
     (if mx < to_type t3 (to_type t3 (GDK_max t1) * to_type t3 (GDK_max t2)) then
        (if nil_operand t1 t2 l r then Inr (nil t3, 1)
         else on_overflow (MUL4_WITH_CHECK t3 t3 l r mx ab))
      else
        (if nil_operand t1 t2 l r then Inr (nil t3, 1)
         else Inr (to_type t3 (to_type t3 l * r), 0)))"

definition mul_2type_hge ::
  "atom_type \<Rightarrow> atom_type \<Rightarrow> int \<Rightarrow> bool \<Rightarrow> int \<Rightarrow> int \<Rightarrow> step_result" where
  "mul_2type_hge t1 t2 mx ab l r =
     (if nil_operand t1 t2 l r then Inr (nil TYPE_hge, 1)
      else on_overflow (HGEMUL_CHECK l r mx ab))"

definition mul_2type_lng ::
  "atom_type \<Rightarrow> atom_type \<Rightarrow> int \<Rightarrow> bool \<Rightarrow> int \<Rightarrow> int \<Rightarrow> step_result" where
  "mul_2type_lng t1 t2 mx ab l r =
     (if nil_operand t1 t2 l r then Inr (nil TYPE_lng, 1)
      else on_overflow (LNGMUL_CHECK l r mx ab))"

definition div_3type ::
  "atom_type \<Rightarrow> atom_type \<Rightarrow> atom_type \<Rightarrow> int \<Rightarrow> bool \<Rightarrow> int \<Rightarrow> int \<Rightarrow> step_result" where
  "div_3type t1 t2 t3 mx ab l r =
     (if nil_operand t1 t2 l r then Inr (nil t3, 1)
      else if r = 0 then (if ab then Inl (BUN_NONE + 1) else Inr (nil t3, 1))
      else (let d = to_type t3 (l sdiv r) in
            if d < - mx \<or> d > mx then (if ab then Inl (BUN_NONE + 2) else Inr (nil t3, 1))
            else Inr (d, 0)))"

text \<open>In \<open>(TYPE3) lft[i] % rgt[j]\<close> the conversion applies to \<open>lft[i]\<close>, not to the remainder.\<close>

definition mod_3type ::
  "atom_type \<Rightarrow> atom_type \<Rightarrow> atom_type \<Rightarrow> bool \<Rightarrow> int \<Rightarrow> int \<Rightarrow> step_result" where
  "mod_3type t1 t2 t3 ab l r =
     (if nil_operand t1 t2 l r then Inr (nil t3, 1)
      else if r = 0 then (if ab then Inl (BUN_NONE + 1) else Inr (nil t3, 1))
      else Inr (to_type t3 (to_type t3 l smod r), 0))"

section \<open>The kernel loop\<close>

text \<open>\<open>CANDLOOP(dst, i, NIL, low, high)\<close>, without its contribution to \<open>nils\<close>.\<close>

definition CANDLOOP :: "int list \<Rightarrow> int \<Rightarrow> nat \<Rightarrow> nat \<Rightarrow> int list" where
  "CANDLOOP dst NIL low high = fold (\<lambda>i d. d[i := NIL]) [low..<high] dst"

text \<open>
  The loop over \<open>k\<close> with \<open>CHECKCAND\<close> inlined: a row before the next candidate becomes nil;
  at a candidate the pointer moves on, and the last candidate ends the loop.  The result
  holds the final \<open>end\<close>, \<open>dst\<close> and \<open>nils\<close>.
\<close>

function calc_loop ::
  "(int \<Rightarrow> int \<Rightarrow> step_result) \<Rightarrow> int \<Rightarrow> int list \<Rightarrow> nat \<Rightarrow> int list \<Rightarrow> nat \<Rightarrow> nat \<Rightarrow>
   nat \<Rightarrow> nat \<Rightarrow> nat \<Rightarrow> nat \<Rightarrow> nat list option \<Rightarrow> int list \<Rightarrow> nat \<Rightarrow> nat + (nat \<times> int list \<times> nat)"
where
  "calc_loop step NIL lft incr1 rgt incr2 candoff i j k end cand dst nils =
    (if k < end then
       (if (case cand of Some (c # cs) \<Rightarrow> k < c - candoff | _ \<Rightarrow> False)
        then calc_loop step NIL lft incr1 rgt incr2 candoff (i + incr1) (j + incr2) (k + 1)
               end cand (dst[k := NIL]) (nils + 1)
        else
          (let cand' = map_option tl cand;
               end' = (if cand' = Some [] then k + 1 else end)
           in case step (lft ! i) (rgt ! j) of
                Inl e \<Rightarrow> Inl e
              | Inr (v, n) \<Rightarrow>
                  calc_loop step NIL lft incr1 rgt incr2 candoff (i + incr1) (j + incr2) (k + 1)
                    end' cand' (dst[k := v]) (nils + n)))
     else Inr (end, dst, nils))"
  by pat_completeness auto
termination
  by (relation "measure (\<lambda>(step, NIL, lft, incr1, rgt, incr2, candoff, i, j, k, end, cand, dst, nils).
        end - k)") (auto split: if_splits)

declare calc_loop.simps [simp del]

text \<open>The body common to all kernels; \<open>dst\<close> is the fresh tail of the result BAT.\<close>

definition calc_kernel ::
  "(int \<Rightarrow> int \<Rightarrow> step_result) \<Rightarrow> int \<Rightarrow> int list \<Rightarrow> nat \<Rightarrow> int list \<Rightarrow> nat \<Rightarrow> int list \<Rightarrow>
   nat \<Rightarrow> nat \<Rightarrow> nat \<Rightarrow> nat list option \<Rightarrow> nat \<Rightarrow> nat + (int list \<times> nat)"
where
  "calc_kernel step NIL lft incr1 rgt incr2 dst cnt start end cand candoff =
     (case calc_loop step NIL lft incr1 rgt incr2 candoff (start * incr1) (start * incr2)
             start end cand (CANDLOOP dst NIL 0 start) start of
        Inl e \<Rightarrow> Inl e
      | Inr (end', dst', nils) \<Rightarrow> Inr (CANDLOOP dst' NIL end' cnt, nils + (cnt - end')))"


section \<open>The kernel is a map over the rows\<close>

text \<open>
  The rows of a result: the step at selected rows, nil at the others; \<open>collect\<close> runs them in
  order, stops at the first error code and counts the nils.
\<close>

definition calc_row ::
  "(int \<Rightarrow> int \<Rightarrow> step_result) \<Rightarrow> int \<Rightarrow> int list \<Rightarrow> nat \<Rightarrow> int list \<Rightarrow> nat \<Rightarrow> (nat \<Rightarrow> bool) \<Rightarrow>
   nat \<Rightarrow> step_result"
where
  "calc_row step NIL lft incr1 rgt incr2 sel k =
     (if sel k then step (lft ! (k * incr1)) (rgt ! (k * incr2)) else Inr (NIL, 1))"

fun collect :: "step_result list \<Rightarrow> nat + (int list \<times> nat)" where
  "collect [] = Inr ([], 0)"
| "collect (Inl e # rs) = Inl e"
| "collect (Inr (v, n) # rs) =
     (case collect rs of Inl e \<Rightarrow> Inl e | Inr (vs, m) \<Rightarrow> Inr (v # vs, n + m))"

lemma collect_append:
  "collect (rs @ ss) =
     (case collect rs of Inl e \<Rightarrow> Inl e
      | Inr (vs, n) \<Rightarrow> (case collect ss of Inl e \<Rightarrow> Inl e | Inr (ws, m) \<Rightarrow> Inr (vs @ ws, n + m)))"
  by (induction rs rule: collect.induct) (auto split: sum.splits prod.splits)

lemma collect_const: "collect (replicate n (Inr (v, Suc 0))) = Inr (replicate n v, n)"
  by (induction n) auto

lemma collect_length: "collect rs = Inr (vs, n) \<Longrightarrow> length vs = length rs"
  by (induction rs arbitrary: vs n rule: collect.induct) (auto split: sum.splits)

lemma collect_Inr_nth:
  "collect rs = Inr (vs, n) \<Longrightarrow> k < length rs \<Longrightarrow> \<exists>m. rs ! k = Inr (vs ! k, m)"
  by (induction rs arbitrary: vs n k rule: collect.induct)
    (auto split: sum.splits prod.splits simp: nth_Cons')

lemma collect_nils:
  assumes "collect rs = Inr (vs, n)"
    and "\<And>v m. Inr (v, m) \<in> set rs \<Longrightarrow> m = (if v = NIL then 1 else 0)"
  shows "n = count_list vs NIL"
  using assms
proof (induction rs arbitrary: vs n rule: collect.induct)
  case (3 v m rs)
  then obtain ws k where ws: "collect rs = Inr (ws, k)" "vs = v # ws" "n = m + k"
    by (auto split: sum.splits)
  moreover have "k = count_list ws NIL" by (rule "3.IH" [OF ws(1)]) (use "3.prems"(2) in auto)
  moreover have "m = (if v = NIL then 1 else 0)" using "3.prems"(2) by simp
  ultimately show ?case by auto
qed auto

definition cand_inv :: "(nat \<Rightarrow> bool) \<Rightarrow> nat \<Rightarrow> nat \<Rightarrow> nat \<Rightarrow> nat list option \<Rightarrow> bool" where
  "cand_inv sel candoff k end cand \<longleftrightarrow>
     (case cand of
        None \<Rightarrow> \<forall>p. k \<le> p \<longrightarrow> p < end \<longrightarrow> sel p
      | Some cs \<Rightarrow>
          sorted_wrt (<) cs \<and> (\<forall>c\<in>set cs. candoff + k \<le> c) \<and>
          (if cs = [] then end \<le> k else end = Suc (last cs - candoff)) \<and>
          (\<forall>p. k \<le> p \<longrightarrow> p < end \<longrightarrow> sel p = (p + candoff \<in> set cs)))"

lemma cand_inv_skip:
  "cand_inv sel candoff k end (Some (c # cs)) \<Longrightarrow> k < c - candoff \<Longrightarrow> k < end \<Longrightarrow>
   \<not> sel k \<and> cand_inv sel candoff (Suc k) end (Some (c # cs))"
  by (force simp: cand_inv_def)

lemma cand_inv_take:
  assumes inv: "cand_inv sel candoff k end cand" and k: "k < end"
    and "\<not> (case cand of Some (c # cs) \<Rightarrow> k < c - candoff | _ \<Rightarrow> False)"
  shows "sel k \<and> (if map_option tl cand = Some [] then k + 1 else end) = end
     \<and> cand_inv sel candoff (Suc k) end (map_option tl cand)"
proof (cases cand)
  case None
  then show ?thesis using inv k by (auto simp: cand_inv_def)
next
  case (Some cs')
  then obtain c cs where cs': "cs' = c # cs"
    using inv k by (cases cs') (auto simp: cand_inv_def)
  have c: "c = candoff + k" using assms Some cs' by (auto simp: cand_inv_def)
  have gt: "\<forall>d\<in>set cs. c < d" and srt: "sorted_wrt (<) cs"
    using inv Some cs' by (auto simp: cand_inv_def)
  have e: "end = Suc (last (c # cs) - candoff)" using inv Some cs' by (simp add: cand_inv_def)
  have sel: "\<forall>p. k \<le> p \<longrightarrow> p < end \<longrightarrow> sel p = (p + candoff \<in> set (c # cs))"
    using inv Some cs' by (simp add: cand_inv_def)
  then have "sel k" using k c by (simp add: add.commute)
  moreover have "\<forall>p. Suc k \<le> p \<longrightarrow> p < end \<longrightarrow> sel p = (p + candoff \<in> set cs)"
    using sel c by auto
  moreover have "\<forall>d\<in>set cs. candoff + Suc k \<le> d" using gt c by auto
  ultimately show ?thesis
    using Some cs' e srt c by (auto simp: cand_inv_def)
qed

lemma take_update_snoc: "k < length dst \<Longrightarrow> take (Suc k) (dst[k := v]) = take k dst @ [v]"
  by (simp add: take_Suc_conv_app_nth)

lemma calc_loop_collect:
  assumes "i = k * incr1" "j = k * incr2" "k \<le> end" "end \<le> length dst"
    and "cand_inv sel candoff k end cand"
  shows "calc_loop step NIL lft incr1 rgt incr2 candoff i j k end cand dst nils =
    (case collect (map (calc_row step NIL lft incr1 rgt incr2 sel) [k..<end]) of
       Inl e \<Rightarrow> Inl e
     | Inr (vs, n) \<Rightarrow> Inr (end, take k dst @ vs @ drop end dst, nils + n))"
  using assms
proof (induction step NIL lft incr1 rgt incr2 candoff i j k "end" cand dst nils
    rule: calc_loop.induct)
  case (1 step NIL lft incr1 rgt incr2 candoff i j k "end" cand dst nils)
  let ?row = "calc_row step NIL lft incr1 rgt incr2 sel"
  let ?skip = "case cand of Some (c # cs) \<Rightarrow> k < c - candoff | _ \<Rightarrow> False"
  note unf = calc_loop.simps [of step NIL lft incr1 rgt incr2 candoff i j k "end" cand dst nils]
  show ?case
  proof (cases "k < end")
    case False
    then show ?thesis using "1.prems"(3,4) unfolding unf by auto
  next
    case True
    then have upt: "[k..<end] = k # [Suc k..<end]" by (simp add: upt_rec)
    have len: "k < length dst" using True "1.prems"(4) by simp
    show ?thesis
    proof (cases ?skip)
      case skip: True
      then obtain c cs where cand: "cand = Some (c # cs)" "k < c - candoff"
        by (auto split: option.splits list.splits)
      note inv = cand_inv_skip [OF "1.prems"(5) [unfolded cand(1)] cand(2) True]
      then have row: "?row k = Inr (NIL, 1)" by (simp add: calc_row_def)
      have "calc_loop step NIL lft incr1 rgt incr2 candoff (i + incr1) (j + incr2) (k + 1) end
          cand (dst[k := NIL]) (nils + 1) =
        (case collect (map ?row [k + 1..<end]) of Inl e \<Rightarrow> Inl e
         | Inr (vs, n) \<Rightarrow> Inr (end, take (k + 1) (dst[k := NIL]) @ vs @ drop end (dst[k := NIL]),
             nils + 1 + n))"
        by (rule "1.IH"(1) [OF True skip])
          (use "1.prems" True inv cand in \<open>auto simp: algebra_simps\<close>)
      then show ?thesis
        using True skip len
        by (simp add: unf upt row take_update_snoc split: sum.split)
    next
      case noskip: False
      note inv = cand_inv_take [OF "1.prems"(5) True noskip]
      then have row: "?row k = step (lft ! i) (rgt ! j)"
        using "1.prems"(1,2) by (simp add: calc_row_def)
      show ?thesis
      proof (cases "step (lft ! i) (rgt ! j)")
        case (Inl e)
        then show ?thesis using True noskip by (simp add: unf upt row Let_def)
      next
        case (Inr p)
        obtain v n where p: "p = (v, n)" by fastforce
        have e: "(if map_option tl cand = Some [] then k + 1 else end) = end" using inv by blast
        have "calc_loop step NIL lft incr1 rgt incr2 candoff (i + incr1) (j + incr2) (k + 1)
            end (map_option tl cand) (dst[k := v]) (nils + n) =
          (case collect (map ?row [k + 1..<end]) of
             Inl e \<Rightarrow> Inl e
           | Inr (vs, m) \<Rightarrow>
               Inr (end, take (k + 1) (dst[k := v]) @ vs @ drop end (dst[k := v]), nils + n + m))"
          by (rule "1.IH"(2) [OF True noskip refl e [symmetric] Inr p [symmetric]])
            (use "1.prems" True inv in \<open>auto simp: algebra_simps\<close>)
        then have "calc_loop step NIL lft incr1 rgt incr2 candoff i j k end cand dst nils =
          (case collect (map ?row [k + 1..<end]) of
             Inl e \<Rightarrow> Inl e
           | Inr (vs, m) \<Rightarrow>
               Inr (end, take (k + 1) (dst[k := v]) @ vs @ drop end (dst[k := v]), nils + n + m))"
          unfolding unf Let_def e using True noskip by (simp add: Inr p)
        then show ?thesis
          using True len by (simp add: upt row Inr p take_update_snoc split: sum.split)
      qed
    qed
  qed
qed

lemma CANDLOOP_eq:
  "low \<le> high \<Longrightarrow> high \<le> length dst \<Longrightarrow>
   CANDLOOP dst NIL low high = take low dst @ replicate (high - low) NIL @ drop high dst"
proof (induction "high - low" arbitrary: high)
  case 0
  then show ?case by (simp add: CANDLOOP_def)
next
  case (Suc n)
  then obtain h where h: "high = Suc h" "low \<le> h" by (cases high) auto
  have "CANDLOOP dst NIL low h = take low dst @ replicate (h - low) NIL @ drop h dst"
    by (rule Suc.hyps(1)) (use Suc h in auto)
  moreover have "CANDLOOP dst NIL low (Suc h) = (CANDLOOP dst NIL low h)[h := NIL]"
    using h by (simp add: CANDLOOP_def)
  moreover have "drop h dst = dst ! h # drop (Suc h) dst"
    using h Suc.prems by (simp add: Cons_nth_drop_Suc)
  moreover have "replicate n NIL @ NIL # xs = replicate (Suc n) NIL @ xs" for n xs
    using replicate_append_same [of n NIL] by simp
  ultimately show ?case
    using h Suc.prems by (simp add: list_update_append Suc_diff_le)
qed

definition cand_init_ok :: "(nat \<Rightarrow> bool) \<Rightarrow> nat \<Rightarrow> nat \<Rightarrow> cand_range \<Rightarrow> bool" where
  "cand_init_ok sel hseq cnt r \<longleftrightarrow>
     c_start r \<le> c_end r \<and> c_end r \<le> cnt \<and> (\<forall>p<c_start r. \<not> sel p) \<and>
     (\<forall>p\<ge>c_end r. \<not> sel p) \<and> cand_inv sel hseq (c_start r) (c_end r) (c_cand r)"

lemma cand_init_dense:
  assumes "ttail s = TVoid seq" "seq < oid_nil" "batCount s \<noteq> 0"
  shows "cand_init_ok (\<lambda>p. p \<in> set (selected hseq cnt (Some s))) hseq cnt
           (CANDINIT hseq cnt (Some s))"
proof -
  let ?r = "CANDINIT hseq cnt (Some s)"
  have r: "c_start ?r = adjust_start hseq cnt seq"
    "c_end ?r = adjust_end hseq cnt (seq + batCount s)" "c_cand ?r = None"
    using assms by (simp_all add: CANDINIT_def BATtdense_def)
  have sel: "p \<in> set (selected hseq cnt (Some s)) \<longleftrightarrow>
      seq \<le> p + hseq \<and> p + hseq < seq + batCount s \<and> p < cnt" for p
  proof -
    have "selected hseq cnt (Some s)
        = [max seq hseq - hseq..<min (seq + batCount s) (hseq + cnt) - hseq]"
      using assms by (simp add: selected_def tail_oids_def upt_filter_range map_minus_upt)
    then show ?thesis using assms(3) by auto
  qed
  show ?thesis
    unfolding cand_init_ok_def r sel cand_inv_def
    using assms(3) by (auto simp: adjust_start_def adjust_end_def)
qed

lemma cand_init_vals:
  assumes ok: "cand_ok s" and vs: "ttail s = TVals vs" and ne: "batCount s \<noteq> 0"
  shows "cand_init_ok (\<lambda>p. p \<in> set (selected hseq cnt (Some s))) hseq cnt
           (CANDINIT hseq cnt (Some s))"
proof -
  let ?r = "CANDINIT hseq cnt (Some s)"
  define cs where "cs = filter (\<lambda>x. hseq \<le> x \<and> x < hseq + cnt) vs"
  note C = candinit_vals [OF ok vs ne, of hseq cnt, folded cs_def]
  have srt: "sorted_wrt (<) cs"
    using cand_ok_vals(1) [OF ok vs] by (simp add: cs_def sorted_wrt_filter)
  have inr: "hseq \<le> x \<and> x < hseq + cnt" if "x \<in> set cs" for x
    using that by (simp add: cs_def)
  have bnd: "hd cs \<le> x \<and> x \<le> last cs" if "x \<in> set cs" for x
  proof
    show "hd cs \<le> x" using that srt by (cases cs) auto
    show "x \<le> last cs"
      using that srt by (cases cs rule: rev_cases) (auto simp: sorted_wrt_append)
  qed
  have selp: "p \<in> set (selected hseq cnt (Some s)) \<longleftrightarrow> p + hseq \<in> set cs" for p
  proof -
    have "p \<in> set (selected hseq cnt (Some s)) \<longleftrightarrow> p \<in> (\<lambda>x. x - hseq) ` set cs"
      using vs by (simp add: selected_def tail_oids_def cs_def)
    also have "\<dots> \<longleftrightarrow> p + hseq \<in> set cs"
    proof
      assume "p \<in> (\<lambda>x. x - hseq) ` set cs"
      then show "p + hseq \<in> set cs" using inr by fastforce
    next
      assume "p + hseq \<in> set cs"
      then show "p \<in> (\<lambda>x. x - hseq) ` set cs" by (rule rev_image_eqI) simp
    qed
    finally show ?thesis .
  qed
  show ?thesis
  proof (cases "cs = []")
    case True
    then show ?thesis
      unfolding cand_init_ok_def selp C by (simp add: adjust_start_def adjust_end_def cand_inv_def)
  next
    case ne: False
    then have h: "hd cs \<in> set cs" "last cs \<in> set cs" by simp_all
    have st: "c_start ?r = hd cs - hseq"
      using inr [OF h(1)] C ne by (auto simp: adjust_start_def)
    have en: "c_end ?r = Suc (last cs - hseq)"
      using inr [OF h(2)] C ne by (auto simp: adjust_end_def)
    have ca: "c_cand ?r = Some cs" using C by simp
    have b: "hseq \<le> x \<and> hd cs \<le> x \<and> x \<le> last cs" if "x \<in> set cs" for x
      using inr bnd that by blast
    have "hd cs - hseq \<le> Suc (last cs - hseq)" "Suc (last cs - hseq) \<le> cnt"
      using inr [OF h(2)] bnd [OF h(1)] by linarith+
    moreover have "\<forall>p<hd cs - hseq. p + hseq \<notin> set cs" using b by fastforce
    moreover have "\<forall>p\<ge>Suc (last cs - hseq). p + hseq \<notin> set cs" using b by fastforce
    moreover have "\<forall>c\<in>set cs. hseq + (hd cs - hseq) \<le> c" using b inr [OF h(1)] by fastforce
    ultimately show ?thesis
      unfolding cand_init_ok_def selp st en ca cand_inv_def using ne srt by simp
  qed
qed

lemma cand_init_ok:
  assumes "\<And>s. so = Some s \<Longrightarrow> cand_ok s"
  shows "cand_init_ok (\<lambda>p. p \<in> set (selected hseq cnt so)) hseq cnt (CANDINIT hseq cnt so)"
proof (cases so)
  case None
  then show ?thesis by (auto simp: cand_init_ok_def CANDINIT_def selected_def cand_inv_def)
next
  case (Some s)
  with assms have ok: "cand_ok s" by simp
  show ?thesis
  proof (cases "batCount s = 0")
    case True
    then have "tail_oids s = []"
      using ok by (auto simp: tail_oids_def cand_ok_def column_ok_def split: tail.splits)
    then show ?thesis
      using Some True by (simp add: cand_init_ok_def CANDINIT_def selected_def cand_inv_def)
  next
    case False
    then show ?thesis
      using Some ok cand_init_dense cand_init_vals
      by (cases "ttail s") (auto simp: cand_ok_def)
  qed
qed

lemma upt_split: "a \<le> b \<Longrightarrow> b \<le> c \<Longrightarrow> [a..<c] = [a..<b] @ [b..<c]"
  using upt_add_eq_append [of a b "c - b"] by simp

lemma calc_rows_nil:
  assumes "\<And>p. a \<le> p \<Longrightarrow> p < b \<Longrightarrow> \<not> sel p"
  shows "map (calc_row step NIL lft incr1 rgt incr2 sel) [a..<b] = replicate (b - a) (Inr (NIL, 1))"
  using assms by (intro nth_equalityI) (auto simp: calc_row_def)

lemma calc_kernel_rows:
  assumes ok: "\<And>s. so = Some s \<Longrightarrow> cand_ok s" and dst: "length dst = cnt"
    and r: "r = CANDINIT hseq cnt so"
  shows "calc_kernel step NIL lft incr1 rgt incr2 dst cnt (c_start r) (c_end r) (c_cand r) hseq =
    collect (map (calc_row step NIL lft incr1 rgt incr2
                   (\<lambda>p. p \<in> set (selected hseq cnt so))) [0..<cnt])"
proof -
  define sel where "sel = (\<lambda>p. p \<in> set (selected hseq cnt so))"
  let ?row = "calc_row step NIL lft incr1 rgt incr2 sel"
  let ?s = "c_start r" and ?e = "c_end r"
  have "cand_init_ok sel hseq cnt r" unfolding r sel_def by (rule cand_init_ok) (rule ok)
  then have I: "?s \<le> ?e" "?e \<le> cnt" "\<And>p. p < ?s \<Longrightarrow> \<not> sel p" "\<And>p. ?e \<le> p \<Longrightarrow> \<not> sel p"
    "cand_inv sel hseq ?s ?e (c_cand r)"
    by (auto simp: cand_init_ok_def)
  have upt: "[0..<cnt] = [0..<?s] @ [?s..<?e] @ [?e..<cnt]"
    using I(1,2) upt_split [of 0 ?s cnt] upt_split [of ?s ?e cnt] by simp
  have pre: "map ?row [0..<?s] = replicate ?s (Inr (NIL, 1))"
    using calc_rows_nil [of 0 ?s sel] I(3) by simp
  have post: "map ?row [?e..<cnt] = replicate (cnt - ?e) (Inr (NIL, 1))"
    using calc_rows_nil [of ?e cnt sel] I(4) by simp
  have d0: "CANDLOOP dst NIL 0 ?s = replicate ?s NIL @ drop ?s dst"
    using CANDLOOP_eq [of 0 ?s dst NIL] I(1,2) dst by simp
  have loop: "calc_loop step NIL lft incr1 rgt incr2 hseq (?s * incr1) (?s * incr2) ?s ?e
      (c_cand r) (CANDLOOP dst NIL 0 ?s) ?s =
    (case collect (map ?row [?s..<?e]) of
       Inl e \<Rightarrow> Inl e
     | Inr (vs, n) \<Rightarrow> Inr (?e, replicate ?s NIL @ vs @ drop ?e dst, ?s + n))"
    unfolding d0
    by (subst calc_loop_collect [OF refl refl I(1) _ I(5)])
      (use I(1,2) dst in \<open>auto split: sum.split\<close>)
  show ?thesis
  proof (cases "collect (map ?row [?s..<?e])")
    case (Inl e)
    then show ?thesis
      unfolding calc_kernel_def loop
      by (simp add: upt map_append collect_append pre collect_const flip: sel_def)
  next
    case (Inr p)
    obtain vs n where p: "p = (vs, n)" by fastforce
    have "length vs = ?e - ?s" using collect_length [OF Inr [unfolded p]] by simp
    then have "CANDLOOP (replicate ?s NIL @ vs @ drop ?e dst) NIL ?e cnt =
        replicate ?s NIL @ vs @ replicate (cnt - ?e) NIL"
      using CANDLOOP_eq [of ?e cnt "replicate ?s NIL @ vs @ drop ?e dst" NIL] I(1,2) dst by simp
    then show ?thesis
      unfolding calc_kernel_def loop
      by (simp add: upt map_append collect_append pre post collect_const Inr p flip: sel_def)
  qed
qed

end
