(* ===== verification/Gdk_BatCalc.thy ===== *)
theory Gdk_BatCalc
  imports Gdk_Calc
begin

text \<open>
  The arithmetic entry points of \<open>gdk/gdk_calc.c\<close> for the integer types: the type switches
  \<open>add_typeswitchloop\<close> and its siblings, and the \<open>BATcalc...\<close> and \<open>VARcalc...\<close> functions built
  on them.  A BAT here has a dense head and a tail of one of the integer types; a failing
  call (\<open>NULL\<close>, \<open>GDK_FAIL\<close>) is \<open>None\<close>.  The flag \<open>hge\<close> is the compile-time \<open>HAVE_HGE\<close>, and
  \<open>FULL_IMPLEMENTATION\<close> is not defined, as in the default build.
\<close>

section \<open>Type switches\<close>

text \<open>The integer types are ordered by their width.\<close>

instantiation atom_type :: linorder
begin

definition less_eq_atom_type :: "atom_type \<Rightarrow> atom_type \<Rightarrow> bool" where
  "less_eq_atom_type t u \<longleftrightarrow> atom_bits t \<le> atom_bits u"

definition less_atom_type :: "atom_type \<Rightarrow> atom_type \<Rightarrow> bool" where
  "less_atom_type t u \<longleftrightarrow> atom_bits t < atom_bits u"

instance
proof
  fix t u :: atom_type
  show "t \<le> u \<Longrightarrow> u \<le> t \<Longrightarrow> t = u"
    by (cases t; cases u) (simp_all add: less_eq_atom_type_def)
qed (auto simp: less_eq_atom_type_def less_atom_type_def)

end

fun next_type :: "atom_type \<Rightarrow> atom_type option" where
  "next_type TYPE_bte = Some TYPE_sht"
| "next_type TYPE_sht = Some TYPE_int"
| "next_type TYPE_int = Some TYPE_lng"
| "next_type TYPE_lng = Some TYPE_hge"
| "next_type TYPE_hge = None"

definition available :: "bool \<Rightarrow> atom_type \<Rightarrow> bool" where
  "available hge t \<longleftrightarrow> hge \<or> t \<noteq> TYPE_hge"

type_synonym calc_switch = "atom_type \<Rightarrow> atom_type \<Rightarrow> atom_type \<Rightarrow> bool \<Rightarrow> (int \<Rightarrow> int \<Rightarrow> step_result) option"

text \<open>
  The switch on the three types: which kernel is called and with which maximum, \<open>None\<close> being
  the label \<open>unsupported\<close>.
\<close>

definition add_switch :: "bool \<Rightarrow> calc_switch" where
  "add_switch hge tp1 tp2 tp ab =
     (if \<not> (available hge tp1 \<and> available hge tp2 \<and> available hge tp) then None
      else if tp = max tp1 tp2 then Some (add_3type tp1 tp2 tp (GDK_max tp) ab)
      else if next_type (max tp1 tp2) = Some tp
           then Some (add_3type_enlarge tp1 tp2 tp (GDK_max tp) ab)
      else None)"

definition sub_switch :: "bool \<Rightarrow> calc_switch" where
  "sub_switch hge tp1 tp2 tp ab =
     (if \<not> (available hge tp1 \<and> available hge tp2 \<and> available hge tp) then None
      else if tp = max tp1 tp2 then Some (sub_3type tp1 tp2 tp (GDK_max tp) ab)
      else if next_type (max tp1 tp2) = Some tp
           then Some (sub_3type_enlarge tp1 tp2 tp (GDK_max tp) ab)
      else None)"

definition mul_switch :: "bool \<Rightarrow> calc_switch" where
  "mul_switch hge tp1 tp2 tp ab =
     (if \<not> (available hge tp1 \<and> available hge tp2 \<and> available hge tp) then None
      else if tp = max tp1 tp2 then
        (if tp = TYPE_hge then Some (mul_2type_hge tp1 tp2 (GDK_max tp) ab)
         else if tp = TYPE_lng \<and> \<not> hge then Some (mul_2type_lng tp1 tp2 (GDK_max tp) ab)
         else Some (mul_4type tp1 tp2 tp (the (next_type tp)) (GDK_max tp) ab))
      else if next_type (max tp1 tp2) = Some tp
           then Some (mul_3type_enlarge tp1 tp2 tp (GDK_max tp) ab)
      else None)"

definition div_switch :: "bool \<Rightarrow> calc_switch" where
  "div_switch hge tp1 tp2 tp ab =
     (if \<not> (available hge tp1 \<and> available hge tp2) then None
      else if tp = tp1 then Some (div_3type tp1 tp2 tp (GDK_max tp) ab)
      else None)"

definition mod_switch :: "bool \<Rightarrow> calc_switch" where
  "mod_switch hge tp1 tp2 tp ab =
     (if \<not> (available hge tp1 \<and> available hge tp2) then None
      else if tp = min tp1 tp2 then Some (mod_3type tp1 tp2 tp ab)
      else None)"

text \<open>A \<open>..._typeswitchloop\<close>: the switch, then the kernel, its result passed on.\<close>

definition typeswitchloop ::
  "calc_switch \<Rightarrow> int list \<Rightarrow> atom_type \<Rightarrow> nat \<Rightarrow> int list \<Rightarrow> atom_type \<Rightarrow> nat \<Rightarrow> int list \<Rightarrow>
   atom_type \<Rightarrow> nat \<Rightarrow> nat \<Rightarrow> nat \<Rightarrow> nat list option \<Rightarrow> nat \<Rightarrow> bool \<Rightarrow> nat + (int list \<times> nat)"
where
  "typeswitchloop switch lft tp1 incr1 rgt tp2 incr2 dst tp cnt start end cand candoff ab =
     (case switch tp1 tp2 tp ab of
        None \<Rightarrow> Inl BUN_NONE
      | Some step \<Rightarrow>
          calc_kernel step (nil tp) lft incr1 rgt incr2 dst cnt start end cand candoff)"

section \<open>BATs and values\<close>

record nbat =
  hseq :: nat
  ntype :: atom_type
  vals :: "int list"
  nsorted :: bool
  nrevsorted :: bool
  nkey :: bool
  has_nil :: bool
  nonil :: bool

record valrecord =
  vtype :: atom_type
  vval :: int

text \<open>The tail of a BAT made by \<open>BATnew\<close>: room for \<open>cnt\<close> values.\<close>

definition BATnew_tail :: "nat \<Rightarrow> int list" where
  "BATnew_tail cnt = replicate cnt 0"

definition checkbats :: "nbat \<Rightarrow> nbat option \<Rightarrow> bool" where
  "checkbats b1 b2 = (case b2 of None \<Rightarrow> True | Some b \<Rightarrow> length (vals b1) = length (vals b))"

text \<open>\<open>CANDINIT\<close> and the kernel call, shared by all entry points.\<close>

definition run_switch ::
  "calc_switch \<Rightarrow> nat \<Rightarrow> nat \<Rightarrow> nat column option \<Rightarrow> int list \<Rightarrow> atom_type \<Rightarrow> nat \<Rightarrow>
   int list \<Rightarrow> atom_type \<Rightarrow> nat \<Rightarrow> atom_type \<Rightarrow> bool \<Rightarrow> nat + (int list \<times> nat)"
where
  "run_switch switch hs cnt s lft tp1 incr1 rgt tp2 incr2 tp ab =
     (let r = CANDINIT hs cnt s in
      typeswitchloop switch lft tp1 incr1 rgt tp2 incr2 (BATnew_tail cnt) tp
        cnt (c_start r) (c_end r) (c_cand r) hs ab)"

text \<open>
  \<open>BATsetcount\<close>, \<open>BATseqbase\<close> and the flags all entry points compute alike; \<open>sorted\<close> and
  \<open>revsorted\<close> add the entry point's own reason to \<open>cnt <= 1 || nils == cnt\<close>.
\<close>

definition result_bat ::
  "nat \<Rightarrow> atom_type \<Rightarrow> nat \<Rightarrow> int list \<Rightarrow> nat \<Rightarrow> bool \<Rightarrow> bool \<Rightarrow> nbat"
where
  "result_bat hs tp cnt vs nils srt rsrt =
     \<lparr>hseq = hs, ntype = tp, vals = vs,
      nsorted = (srt \<or> cnt \<le> 1 \<or> nils = cnt), nrevsorted = (rsrt \<or> cnt \<le> 1 \<or> nils = cnt),
      nkey = (cnt \<le> 1), has_nil = (nils \<noteq> 0), nonil = (nils = 0)\<rparr>"

definition finish_bat ::
  "nat \<Rightarrow> atom_type \<Rightarrow> nat \<Rightarrow> nat + (int list \<times> nat) \<Rightarrow> (nat \<Rightarrow> bool) \<Rightarrow> (nat \<Rightarrow> bool) \<Rightarrow> nbat option"
where
  "finish_bat hs tp cnt res srt rsrt =
     (case res of
        Inl e \<Rightarrow> None
      | Inr (vs, nils) \<Rightarrow> Some (result_bat hs tp cnt vs nils (srt nils) (rsrt nils)))"

section \<open>Addition\<close>

definition BATcalcadd ::
  "bool \<Rightarrow> nbat \<Rightarrow> nbat \<Rightarrow> nat column option \<Rightarrow> atom_type \<Rightarrow> bool \<Rightarrow> nbat option"
where
  "BATcalcadd hge b1 b2 s tp ab =
     (if \<not> checkbats b1 (Some b2) then None
      else finish_bat (hseq b1) tp (length (vals b1))
        (run_switch (add_switch hge) (hseq b1) (length (vals b1)) s
           (vals b1) (ntype b1) 1 (vals b2) (ntype b2) 1 tp ab)
        (\<lambda>nils. ab \<and> nsorted b1 \<and> nsorted b2 \<and> nils = 0)
        (\<lambda>nils. ab \<and> nrevsorted b1 \<and> nrevsorted b2 \<and> nils = 0))"

definition BATcalcaddcst ::
  "bool \<Rightarrow> nbat \<Rightarrow> valrecord \<Rightarrow> nat column option \<Rightarrow> atom_type \<Rightarrow> bool \<Rightarrow> nbat option"
where
  "BATcalcaddcst hge b v s tp ab =
     finish_bat (hseq b) tp (length (vals b))
       (run_switch (add_switch hge) (hseq b) (length (vals b)) s
          (vals b) (ntype b) 1 [vval v] (vtype v) 0 tp ab)
       (\<lambda>nils. ab \<and> nsorted b \<and> nils = 0) (\<lambda>nils. ab \<and> nrevsorted b \<and> nils = 0)"

definition BATcalccstadd ::
  "bool \<Rightarrow> valrecord \<Rightarrow> nbat \<Rightarrow> nat column option \<Rightarrow> atom_type \<Rightarrow> bool \<Rightarrow> nbat option"
where
  "BATcalccstadd hge v b s tp ab =
     finish_bat (hseq b) tp (length (vals b))
       (run_switch (add_switch hge) (hseq b) (length (vals b)) s
          [vval v] (vtype v) 0 (vals b) (ntype b) 1 tp ab)
       (\<lambda>nils. ab \<and> nsorted b \<and> nils = 0) (\<lambda>nils. ab \<and> nrevsorted b \<and> nils = 0)"

text \<open>A \<open>VARcalc...\<close> function runs the same loop on one row without candidates.\<close>

definition VARcalc :: "calc_switch \<Rightarrow> valrecord \<Rightarrow> valrecord \<Rightarrow> atom_type \<Rightarrow> bool \<Rightarrow> valrecord option" where
  "VARcalc switch lft rgt tp ab =
     (case typeswitchloop switch [vval lft] (vtype lft) 0 [vval rgt] (vtype rgt) 0 [0] tp
             1 0 1 None 0 ab of
        Inl e \<Rightarrow> None
      | Inr (vs, nils) \<Rightarrow> Some \<lparr>vtype = tp, vval = hd vs\<rparr>)"

definition VARcalcadd :: "bool \<Rightarrow> valrecord \<Rightarrow> valrecord \<Rightarrow> atom_type \<Rightarrow> bool \<Rightarrow> valrecord option" where
  "VARcalcadd hge = VARcalc (add_switch hge)"

text \<open>
  Increment and decrement, given the switch to use.  The second component is the input BAT,
  whose nil flags the function also updates.
\<close>

definition BATcalcincrdecr ::
  "calc_switch \<Rightarrow> nbat \<Rightarrow> nat column option \<Rightarrow> bool \<Rightarrow> nbat option \<times> nbat"
where
  "BATcalcincrdecr switch b s ab =
     (case run_switch switch (hseq b) (length (vals b)) s
             (vals b) (ntype b) 1 [1] TYPE_bte 0 (ntype b) ab of
        Inl e \<Rightarrow> (None, b)
      | Inr (vs, nils) \<Rightarrow>
          (Some (result_bat (hseq b) (ntype b) (length (vals b)) vs nils
                   (ab \<and> nsorted b) (ab \<and> nrevsorted b)),
           b\<lparr>has_nil := has_nil b \<or> nils \<noteq> 0, nonil := nonil b \<or> nils = 0\<rparr>))"

definition BATcalcincr :: "bool \<Rightarrow> nbat \<Rightarrow> nat column option \<Rightarrow> bool \<Rightarrow> nbat option \<times> nbat" where
  "BATcalcincr hge = BATcalcincrdecr (add_switch hge)"

definition VARcalcincr :: "bool \<Rightarrow> valrecord \<Rightarrow> atom_type \<Rightarrow> bool \<Rightarrow> valrecord option" where
  "VARcalcincr hge v tp ab = VARcalc (add_switch hge) v \<lparr>vtype = TYPE_bte, vval = 1\<rparr> tp ab"

section \<open>Subtraction\<close>

definition BATcalcsub ::
  "bool \<Rightarrow> nbat \<Rightarrow> nbat \<Rightarrow> nat column option \<Rightarrow> atom_type \<Rightarrow> bool \<Rightarrow> nbat option"
where
  "BATcalcsub hge b1 b2 s tp ab =
     (if \<not> checkbats b1 (Some b2) then None
      else finish_bat (hseq b1) tp (length (vals b1))
        (run_switch (sub_switch hge) (hseq b1) (length (vals b1)) s
           (vals b1) (ntype b1) 1 (vals b2) (ntype b2) 1 tp ab)
        (\<lambda>nils. False) (\<lambda>nils. False))"

definition BATcalcsubcst ::
  "bool \<Rightarrow> nbat \<Rightarrow> valrecord \<Rightarrow> nat column option \<Rightarrow> atom_type \<Rightarrow> bool \<Rightarrow> nbat option"
where
  "BATcalcsubcst hge b v s tp ab =
     finish_bat (hseq b) tp (length (vals b))
       (run_switch (sub_switch hge) (hseq b) (length (vals b)) s
          (vals b) (ntype b) 1 [vval v] (vtype v) 0 tp ab)
       (\<lambda>nils. ab \<and> nsorted b \<and> nils = 0) (\<lambda>nils. ab \<and> nrevsorted b \<and> nils = 0)"

definition BATcalccstsub ::
  "bool \<Rightarrow> valrecord \<Rightarrow> nbat \<Rightarrow> nat column option \<Rightarrow> atom_type \<Rightarrow> bool \<Rightarrow> nbat option"
where
  "BATcalccstsub hge v b s tp ab =
     finish_bat (hseq b) tp (length (vals b))
       (run_switch (sub_switch hge) (hseq b) (length (vals b)) s
          [vval v] (vtype v) 0 (vals b) (ntype b) 1 tp ab)
       (\<lambda>nils. ab \<and> nils = 0 \<and> nrevsorted b) (\<lambda>nils. ab \<and> nils = 0 \<and> nsorted b)"

definition VARcalcsub :: "bool \<Rightarrow> valrecord \<Rightarrow> valrecord \<Rightarrow> atom_type \<Rightarrow> bool \<Rightarrow> valrecord option" where
  "VARcalcsub hge = VARcalc (sub_switch hge)"

definition BATcalcdecr :: "bool \<Rightarrow> nbat \<Rightarrow> nat column option \<Rightarrow> bool \<Rightarrow> nbat option \<times> nbat" where
  "BATcalcdecr hge = BATcalcincrdecr (sub_switch hge)"

definition VARcalcdecr :: "bool \<Rightarrow> valrecord \<Rightarrow> atom_type \<Rightarrow> bool \<Rightarrow> valrecord option" where
  "VARcalcdecr hge v tp ab = VARcalc (sub_switch hge) v \<lparr>vtype = TYPE_bte, vval = 1\<rparr> tp ab"

section \<open>Multiplication\<close>

text \<open>The sign as a \<open>bte\<close>, the nil of every type giving the nil of \<open>bte\<close>.\<close>

definition VARcalcsign :: "valrecord \<Rightarrow> int" where
  "VARcalcsign v =
     (if vval v = nil (vtype v) then nil TYPE_bte
      else if vval v < 0 then -1 else if 0 < vval v then 1 else 0)"

definition BATcalcmuldivmod ::
  "calc_switch \<Rightarrow> nbat \<Rightarrow> nbat \<Rightarrow> nat column option \<Rightarrow> atom_type \<Rightarrow> bool \<Rightarrow> nbat option"
where
  "BATcalcmuldivmod switch b1 b2 s tp ab =
     (if \<not> checkbats b1 (Some b2) then None
      else finish_bat (hseq b1) tp (length (vals b1))
        (run_switch switch (hseq b1) (length (vals b1)) s
           (vals b1) (ntype b1) 1 (vals b2) (ntype b2) 1 tp ab)
        (\<lambda>nils. False) (\<lambda>nils. False))"

definition BATcalcmul ::
  "bool \<Rightarrow> nbat \<Rightarrow> nbat \<Rightarrow> nat column option \<Rightarrow> atom_type \<Rightarrow> bool \<Rightarrow> nbat option"
where
  "BATcalcmul hge = BATcalcmuldivmod (mul_switch hge)"

definition BATcalcmulcst ::
  "bool \<Rightarrow> nbat \<Rightarrow> valrecord \<Rightarrow> nat column option \<Rightarrow> atom_type \<Rightarrow> bool \<Rightarrow> nbat option"
where
  "BATcalcmulcst hge b v s tp ab =
     finish_bat (hseq b) tp (length (vals b))
       (run_switch (mul_switch hge) (hseq b) (length (vals b)) s
          (vals b) (ntype b) 1 [vval v] (vtype v) 0 tp ab)
       (\<lambda>nils. ab \<and> (0 \<le> VARcalcsign v \<and> nsorted b \<and> nils = 0 \<or>
                   VARcalcsign v \<le> 0 \<and> nrevsorted b \<and> nils = 0))
       (\<lambda>nils. ab \<and> (0 \<le> VARcalcsign v \<and> nrevsorted b \<and> nils = 0 \<or>
                   VARcalcsign v \<le> 0 \<and> nsorted b \<and> nils = 0))"

definition BATcalccstmul ::
  "bool \<Rightarrow> valrecord \<Rightarrow> nbat \<Rightarrow> nat column option \<Rightarrow> atom_type \<Rightarrow> bool \<Rightarrow> nbat option"
where
  "BATcalccstmul hge v b s tp ab =
     finish_bat (hseq b) tp (length (vals b))
       (run_switch (mul_switch hge) (hseq b) (length (vals b)) s
          [vval v] (vtype v) 0 (vals b) (ntype b) 1 tp ab)
       (\<lambda>nils. ab \<and> (0 \<le> VARcalcsign v \<and> nsorted b \<and> nils = 0 \<or>
                   VARcalcsign v \<le> 0 \<and> nrevsorted b \<and> nils = 0))
       (\<lambda>nils. ab \<and> (0 \<le> VARcalcsign v \<and> nrevsorted b \<and> nils = 0 \<or>
                   VARcalcsign v \<le> 0 \<and> nsorted b \<and> nils = 0))"

definition VARcalcmul :: "bool \<Rightarrow> valrecord \<Rightarrow> valrecord \<Rightarrow> atom_type \<Rightarrow> bool \<Rightarrow> valrecord option" where
  "VARcalcmul hge = VARcalc (mul_switch hge)"

section \<open>Division and modulo\<close>

definition BATcalcdiv ::
  "bool \<Rightarrow> nbat \<Rightarrow> nbat \<Rightarrow> nat column option \<Rightarrow> atom_type \<Rightarrow> bool \<Rightarrow> nbat option"
where
  "BATcalcdiv hge = BATcalcmuldivmod (div_switch hge)"

text \<open>
  \<open>BATcalcdivcst\<close> computes the flags from the sign of the constant and then overwrites both,
  so only \<open>cnt <= 1 || nils == cnt\<close> is left.
\<close>

definition BATcalcdivcst ::
  "bool \<Rightarrow> nbat \<Rightarrow> valrecord \<Rightarrow> nat column option \<Rightarrow> atom_type \<Rightarrow> bool \<Rightarrow> nbat option"
where
  "BATcalcdivcst hge b v s tp ab =
     finish_bat (hseq b) tp (length (vals b))
       (run_switch (div_switch hge) (hseq b) (length (vals b)) s
          (vals b) (ntype b) 1 [vval v] (vtype v) 0 tp ab)
       (\<lambda>nils. False) (\<lambda>nils. False)"

definition BATcalccstdiv ::
  "bool \<Rightarrow> valrecord \<Rightarrow> nbat \<Rightarrow> nat column option \<Rightarrow> atom_type \<Rightarrow> bool \<Rightarrow> nbat option"
where
  "BATcalccstdiv hge v b s tp ab =
     finish_bat (hseq b) tp (length (vals b))
       (run_switch (div_switch hge) (hseq b) (length (vals b)) s
          [vval v] (vtype v) 0 (vals b) (ntype b) 1 tp ab)
       (\<lambda>nils. False) (\<lambda>nils. False)"

definition VARcalcdiv :: "bool \<Rightarrow> valrecord \<Rightarrow> valrecord \<Rightarrow> atom_type \<Rightarrow> bool \<Rightarrow> valrecord option" where
  "VARcalcdiv hge = VARcalc (div_switch hge)"

definition BATcalcmod ::
  "bool \<Rightarrow> nbat \<Rightarrow> nbat \<Rightarrow> nat column option \<Rightarrow> atom_type \<Rightarrow> bool \<Rightarrow> nbat option"
where
  "BATcalcmod hge = BATcalcmuldivmod (mod_switch hge)"

definition BATcalcmodcst ::
  "bool \<Rightarrow> nbat \<Rightarrow> valrecord \<Rightarrow> nat column option \<Rightarrow> atom_type \<Rightarrow> bool \<Rightarrow> nbat option"
where
  "BATcalcmodcst hge b v s tp ab =
     finish_bat (hseq b) tp (length (vals b))
       (run_switch (mod_switch hge) (hseq b) (length (vals b)) s
          (vals b) (ntype b) 1 [vval v] (vtype v) 0 tp ab)
       (\<lambda>nils. False) (\<lambda>nils. False)"

definition BATcalccstmod ::
  "bool \<Rightarrow> valrecord \<Rightarrow> nbat \<Rightarrow> nat column option \<Rightarrow> atom_type \<Rightarrow> bool \<Rightarrow> nbat option"
where
  "BATcalccstmod hge v b s tp ab =
     finish_bat (hseq b) tp (length (vals b))
       (run_switch (mod_switch hge) (hseq b) (length (vals b)) s
          [vval v] (vtype v) 0 (vals b) (ntype b) 1 tp ab)
       (\<lambda>nils. False) (\<lambda>nils. False)"

definition VARcalcmod :: "bool \<Rightarrow> valrecord \<Rightarrow> valrecord \<Rightarrow> atom_type \<Rightarrow> bool \<Rightarrow> valrecord option" where
  "VARcalcmod hge = VARcalc (mod_switch hge)"

section \<open>The steps of supported type combinations\<close>

text \<open>
  The reference row: nil for a nil operand, else the exact result if it fits the result type,
  else overflow.
\<close>

definition arith_row ::
  "(int \<Rightarrow> int \<Rightarrow> int) \<Rightarrow> atom_type \<Rightarrow> atom_type \<Rightarrow> atom_type \<Rightarrow> bool \<Rightarrow> int \<Rightarrow> int \<Rightarrow> step_result"
where
  "arith_row exact t1 t2 t3 ab l r =
     (if nil_operand t1 t2 l r then Inr (nil t3, 1)
      else on_overflow (checked_result t3 (exact l r) (GDK_max t3) ab))"

lemma GDK_max_mono: "t \<le> u \<Longrightarrow> GDK_max t \<le> GDK_max u"
  by (cases t; cases u) (simp_all add: less_eq_atom_type_def)

lemma non_nil_mono: "non_nil t x \<Longrightarrow> t \<le> u \<Longrightarrow> non_nil u x"
  using GDK_max_mono [of t u] by (auto simp: non_nil_iff)

lemma next_type_max:
  assumes "next_type u = Some v"
  shows "GDK_max u + GDK_max u \<le> GDK_max v" "GDK_max u * GDK_max u \<le> GDK_max v" "u \<le> v"
  using assms by (cases u; auto simp: less_eq_atom_type_def)+

lemma next_type_bounds:
  assumes "next_type (max t1 t2) = Some t3"
  shows "GDK_max t1 + GDK_max t2 \<le> GDK_max t3" "GDK_max t1 * GDK_max t2 \<le> GDK_max t3"
    "t1 \<le> t3" "t2 \<le> t3"
proof -
  note M = next_type_max [OF assms]
  have le: "GDK_max t1 \<le> GDK_max (max t1 t2)" "GDK_max t2 \<le> GDK_max (max t1 t2)"
    by (auto intro: GDK_max_mono)
  show "GDK_max t1 + GDK_max t2 \<le> GDK_max t3" using M(1) le by linarith
  have "GDK_max t1 * GDK_max t2 \<le> GDK_max (max t1 t2) * GDK_max (max t1 t2)"
    by (rule mult_mono) (use le in \<open>auto simp: less_imp_le\<close>)
  then show "GDK_max t1 * GDK_max t2 \<le> GDK_max t3" using M(2) by linarith
  show "t1 \<le> t3" "t2 \<le> t3" using M(3) by auto
qed

lemma operand_cases:
  assumes "of_type t1 l" "of_type t2 r" "\<not> nil_operand t1 t2 l r"
  shows "non_nil t1 l" "non_nil t2 r"
  using assms by (auto simp: nil_operand_def non_nil_def)

lemma add_dom_types:
  "non_nil t1 l \<Longrightarrow> non_nil t2 r \<Longrightarrow> t1 \<le> t3 \<Longrightarrow> t2 \<le> t3 \<Longrightarrow> add_dom t3 l r (GDK_max t3)"
  using non_nil_mono [of t1 l t3] non_nil_mono [of t2 r t3]
  by (simp add: add_dom_def non_nil_iff abs_le_iff)

lemma add_switch_row:
  assumes "add_switch hge t1 t2 t3 ab = Some stp" "of_type t1 l" "of_type t2 r"
  shows "stp l r = arith_row (+) t1 t2 t3 ab l r"
proof (cases "nil_operand t1 t2 l r")
  case True
  then show ?thesis
    using assms(1) by (auto simp: add_switch_def arith_row_def add_3type_def
        add_3type_enlarge_def split: if_splits)
next
  case False
  note nn = operand_cases [OF assms(2,3) False]
  have D: "t3 = max t1 t2 \<or> next_type (max t1 t2) = Some t3"
    using assms(1) by (auto simp: add_switch_def split: if_splits)
  then have le: "t1 \<le> t3" "t2 \<le> t3" using next_type_bounds(3,4) [of t1 t2 t3] by auto
  note eq = ADD_WITH_CHECK_eq [OF add_dom_types [OF nn le]]
  have big: "to_type t3 (to_type t3 l + r) = l + r \<and> \<bar>l + r\<bar> \<le> GDK_max t3"
    if "next_type (max t1 t2) = Some t3"
  proof -
    have "\<bar>l + r\<bar> \<le> GDK_max t3"
      using nn next_type_bounds(1) [OF that] by (simp add: non_nil_iff abs_le_iff)
    moreover have "of_type t3 l" using non_nil_mono [OF nn(1) le(1)] by (simp add: non_nil_def)
    ultimately show ?thesis by (simp add: abs_le_iff to_type_id of_type_between)
  qed
  have "add_3type t1 t2 t3 (GDK_max t3) ab l r = arith_row (+) t1 t2 t3 ab l r"
    using False eq by (simp add: add_3type_def arith_row_def)
  moreover have "next_type (max t1 t2) = Some t3 \<Longrightarrow>
      add_3type_enlarge t1 t2 t3 (GDK_max t3) ab l r = arith_row (+) t1 t2 t3 ab l r"
    using False eq big
    by (simp add: add_3type_enlarge_def arith_row_def on_overflow_def checked_result_def)
  ultimately show ?thesis
    using assms(1) by (auto simp: add_switch_def split: if_splits)
qed

lemma sub_switch_row:
  assumes "sub_switch hge t1 t2 t3 ab = Some stp" "of_type t1 l" "of_type t2 r"
  shows "stp l r = arith_row (-) t1 t2 t3 ab l r"
proof (cases "nil_operand t1 t2 l r")
  case True
  then show ?thesis
    using assms(1) by (auto simp: sub_switch_def arith_row_def sub_3type_def
        sub_3type_enlarge_def split: if_splits)
next
  case False
  note nn = operand_cases [OF assms(2,3) False]
  have D: "t3 = max t1 t2 \<or> next_type (max t1 t2) = Some t3"
    using assms(1) by (auto simp: sub_switch_def split: if_splits)
  then have le: "t1 \<le> t3" "t2 \<le> t3" using next_type_bounds(3,4) [of t1 t2 t3] by auto
  note eq = SUB_WITH_CHECK_eq [OF add_dom_types [OF nn le]]
  have big: "to_type t3 (to_type t3 l - r) = l - r \<and> \<bar>l - r\<bar> \<le> GDK_max t3"
    if "next_type (max t1 t2) = Some t3"
  proof -
    have "\<bar>l - r\<bar> \<le> GDK_max t3"
      using nn next_type_bounds(1) [OF that] by (simp add: non_nil_iff abs_le_iff)
    moreover have "of_type t3 l" using non_nil_mono [OF nn(1) le(1)] by (simp add: non_nil_def)
    ultimately show ?thesis by (simp add: abs_le_iff to_type_id of_type_between)
  qed
  have "sub_3type t1 t2 t3 (GDK_max t3) ab l r = arith_row (-) t1 t2 t3 ab l r"
    using False eq by (simp add: sub_3type_def arith_row_def)
  moreover have "next_type (max t1 t2) = Some t3 \<Longrightarrow>
      sub_3type_enlarge t1 t2 t3 (GDK_max t3) ab l r = arith_row (-) t1 t2 t3 ab l r"
    using False eq big
    by (simp add: sub_3type_enlarge_def arith_row_def on_overflow_def checked_result_def)
  ultimately show ?thesis
    using assms(1) by (auto simp: sub_switch_def split: if_splits)
qed

lemma mul4_dom_types:
  assumes "non_nil t1 l" "non_nil t2 r" "t3 = max t1 t2" "next_type t3 = Some t4"
  shows "mul4_dom t1 t2 t3 t4 l r (GDK_max t3)"
  using assms(1,2) next_type_bounds(2) [of t1 t2 t4] next_type_max(3) [OF assms(4)]
    GDK_max_mono [of t3 t4] assms(3,4)
  by (simp add: mul4_dom_def less_imp_le)

lemma mul_switch_row:
  assumes "mul_switch hge t1 t2 t3 ab = Some stp" "of_type t1 l" "of_type t2 r"
  shows "stp l r = arith_row (*) t1 t2 t3 ab l r"
proof (cases "nil_operand t1 t2 l r")
  case True
  then show ?thesis
    using assms(1) by (auto simp: mul_switch_def arith_row_def mul_4type_def mul_2type_hge_def
        mul_2type_lng_def mul_3type_enlarge_def split: if_splits)
next
  case False
  note nn = operand_cases [OF assms(2,3) False]
  consider (mx) "t3 = max t1 t2" | (nxt) "t3 \<noteq> max t1 t2" "next_type (max t1 t2) = Some t3"
    using assms(1) by (auto simp: mul_switch_def split: if_splits)
  then show ?thesis
  proof cases
    case mx
    then have nn3: "non_nil t3 l" "non_nil t3 r"
      using non_nil_mono [OF nn(1), of t3] non_nil_mono [OF nn(2), of t3] by simp_all
    have h: "mul_2type_hge t1 t2 (GDK_max t3) ab l r = arith_row (*) t1 t2 t3 ab l r"
      if "t3 = TYPE_hge"
      using False nn3 that halfmul_op.check_exact [of 64 TYPE_hge l r "GDK_max TYPE_hge" ab]
      by (simp add: mul_2type_hge_def arith_row_def HGEMUL_CHECK_def halfmul_dom_def
          del: GDK_max.simps) (simp add: halfmul_dom_def)
    have n: "mul_2type_lng t1 t2 (GDK_max t3) ab l r = arith_row (*) t1 t2 t3 ab l r"
      if "t3 = TYPE_lng"
      using False nn3 that halfmul_op.check_exact [of 32 TYPE_lng l r "GDK_max TYPE_lng" ab]
      by (simp add: mul_2type_lng_def arith_row_def LNGMUL_CHECK_def halfmul_dom_def
          del: GDK_max.simps) (simp add: halfmul_dom_def)
    have "mul_4type t1 t2 t3 (the (next_type t3)) (GDK_max t3) ab l r
        = arith_row (*) t1 t2 t3 ab l r" if "t3 \<noteq> TYPE_hge"
    proof -
      have "\<exists>t4. next_type t3 = Some t4" using that by (cases t3) auto
      then obtain t4 where t4: "next_type t3 = Some t4" by blast
      show ?thesis
        using MUL4_WITH_CHECK_eq [OF mul4_dom_types [OF nn mx t4]] False t4
        by (simp add: mul_4type_def arith_row_def)
    qed
    then show ?thesis
      using assms(1) mx h n by (auto simp: mul_switch_def split: if_splits)
  next
    case nxt
    note B = next_type_bounds [OF nxt(2)]
    have "mul4_dom t1 t2 t3 t3 l r (GDK_max t3)"
      using nn B(2) by (simp add: mul4_dom_def less_imp_le)
    note eq = MUL4_WITH_CHECK_eq [OF this]
    have p: "\<bar>l * r\<bar> \<le> GDK_max t3"
      using abs_mult_le [of l "GDK_max t1" r "GDK_max t2"] nn B(2)
      by (simp add: non_nil_iff abs_le_iff)
    then have "of_type t3 (l * r)" by (simp add: abs_le_iff of_type_between)
    moreover have "of_type t3 l" using non_nil_mono [OF nn(1) B(3)] by (simp add: non_nil_def)
    ultimately have "mul_3type_enlarge t1 t2 t3 (GDK_max t3) ab l r
        = arith_row (*) t1 t2 t3 ab l r"
      using False eq p
      by (simp add: mul_3type_enlarge_def arith_row_def on_overflow_def checked_result_def)
    then show ?thesis using assms(1) nxt by (auto simp: mul_switch_def split: if_splits)
  qed
qed

text \<open>Division: the truncated quotient; modulo: the step as coded, with its early conversion.\<close>

definition div_row ::
  "atom_type \<Rightarrow> atom_type \<Rightarrow> atom_type \<Rightarrow> bool \<Rightarrow> int \<Rightarrow> int \<Rightarrow> step_result"
where
  "div_row t1 t2 t3 ab l r =
     (if nil_operand t1 t2 l r then Inr (nil t3, 1)
      else if r = 0 then (if ab then Inl (BUN_NONE + 1) else Inr (nil t3, 1))
      else Inr (l sdiv r, 0))"

definition mod_row ::
  "atom_type \<Rightarrow> atom_type \<Rightarrow> atom_type \<Rightarrow> bool \<Rightarrow> int \<Rightarrow> int \<Rightarrow> step_result"
where
  "mod_row t1 t2 t3 ab l r =
     (if nil_operand t1 t2 l r then Inr (nil t3, 1)
      else if r = 0 then (if ab then Inl (BUN_NONE + 1) else Inr (nil t3, 1))
      else Inr (l smod r, 0))"

lemma abs_sdiv_le: "\<bar>l sdiv r\<bar> \<le> \<bar>l :: int\<bar>"
proof (cases "r = 0")
  case False
  have "\<bar>l sdiv r\<bar> \<le> \<bar>l\<bar> div \<bar>r\<bar>"
    using False by (auto simp: signed_divide_int_def abs_mult sgn_if pos_imp_zdiv_nonneg_iff)
  also have "\<dots> \<le> \<bar>l\<bar> div 1" by (rule zdiv_mono2) (use False in auto)
  finally show ?thesis by simp
qed simp

lemma abs_smod_less: "r \<noteq> 0 \<Longrightarrow> \<bar>l smod r\<bar> < \<bar>r :: int\<bar>"
  by (auto simp: smod_int_alt_def abs_mult sgn_if)

lemma div_switch_row:
  assumes "div_switch hge t1 t2 t3 ab = Some stp" "of_type t1 l" "of_type t2 r"
  shows "stp l r = div_row t1 t2 t3 ab l r \<and> (\<not> nil_operand t1 t2 l r \<longrightarrow> non_nil t3 (l sdiv r))"
proof (cases "nil_operand t1 t2 l r")
  case True
  then show ?thesis
    using assms(1) by (auto simp: div_switch_def div_row_def div_3type_def split: if_splits)
next
  case False
  note nn = operand_cases [OF assms(2,3) False]
  have t3: "t3 = t1" and stp: "stp = div_3type t1 t2 t3 (GDK_max t3) ab"
    using assms(1) by (auto simp: div_switch_def split: if_splits)
  have b: "\<bar>l sdiv r\<bar> \<le> GDK_max t3"
    using abs_sdiv_le [of l r] nn(1) unfolding t3 non_nil_iff by linarith
  then have "to_type t3 (l sdiv r) = l sdiv r" by (simp add: abs_le_iff of_type_between)
  then show ?thesis
    using b False by (simp add: stp div_3type_def div_row_def Let_def non_nil_iff abs_le_iff)
qed

lemma abs_smod_le: "\<bar>l smod r\<bar> \<le> \<bar>l :: int\<bar>"
  by (cases "r = 0") (auto simp: smod_int_alt_def abs_mult sgn_if zmod_le_nonneg_dividend)

lemma mod_switch_step:
  assumes "mod_switch hge t1 t2 t3 ab = Some stp" "of_type t1 l" "of_type t2 r"
    "\<not> nil_operand t1 t2 l r" "r \<noteq> 0"
  shows "stp l r = Inr (to_type t3 l smod r, 0)" "non_nil t3 (to_type t3 l smod r)"
    "t1 \<le> t2 \<Longrightarrow> to_type t3 l = l"
proof -
  note nn = operand_cases [OF assms(2,3,4)]
  have t3: "t3 = min t1 t2" and stp: "stp = mod_3type t1 t2 t3 ab"
    using assms(1) by (auto simp: mod_switch_def split: if_splits)
  show id: "t1 \<le> t2 \<Longrightarrow> to_type t3 l = l" using t3 assms(2) by (simp add: min_def)
  show 2: "non_nil t3 (to_type t3 l smod r)"
  proof (cases "t1 \<le> t2")
    case True
    have "\<bar>l smod r\<bar> \<le> GDK_max t1"
      using abs_smod_le [of l r] nn(1) unfolding non_nil_iff by linarith
    then show ?thesis using True id t3 by (simp add: non_nil_iff min_def abs_le_iff)
  next
    case False
    then have "t3 = t2" using t3 by (simp add: min_def)
    moreover have "\<bar>to_type t3 l smod r\<bar> \<le> GDK_max t2"
      using abs_smod_less [OF assms(5), of "to_type t3 l"] nn(2) unfolding non_nil_iff by linarith
    ultimately show ?thesis by (simp add: non_nil_iff abs_le_iff)
  qed
  then have "to_type t3 (to_type t3 l smod r) = to_type t3 l smod r" by (simp add: non_nil_def)
  then show "stp l r = Inr (to_type t3 l smod r, 0)"
    using assms(4,5) by (simp add: stp mod_3type_def)
qed

text \<open>
  C18. For every supported combination of types, in builds with and without 128-bit
  integers, the checked, the enlarging and the split-multiplication kernels all compute the
  same thing: nil for a nil operand, else the exact sum, difference or product when it fits
  the result type, else overflow.  The unchecked fast path never overflows.
\<close>

theorem arith_switch_exact:
  assumes "of_type t1 l" and "of_type t2 r"
  shows "(case add_switch hge t1 t2 t3 ab of None \<Rightarrow> True
          | Some step \<Rightarrow> step l r = arith_row (+) t1 t2 t3 ab l r)
    \<and> (case sub_switch hge t1 t2 t3 ab of None \<Rightarrow> True
       | Some step \<Rightarrow> step l r = arith_row (-) t1 t2 t3 ab l r)
    \<and> (case mul_switch hge t1 t2 t3 ab of None \<Rightarrow> True
       | Some step \<Rightarrow> step l r = arith_row (*) t1 t2 t3 ab l r)"
  using assms add_switch_row sub_switch_row mul_switch_row by (simp split: option.split)

theorem arith_switch_exact_witness:
  "(case mul_switch False TYPE_lng TYPE_int TYPE_lng True of None \<Rightarrow> False
    | Some step \<Rightarrow> step 4611686018427387904 2 = Inl BUN_NONE)
   \<and> (case add_switch True TYPE_bte TYPE_bte TYPE_sht True of None \<Rightarrow> False
      | Some step \<Rightarrow> step 127 127 = Inr (254, 0))"
proof -
  have "(case mul_switch False TYPE_lng TYPE_int TYPE_lng True of None \<Rightarrow> True
      | Some step \<Rightarrow> step 4611686018427387904 2
          = arith_row (*) TYPE_lng TYPE_int TYPE_lng True 4611686018427387904 2)"
    using arith_switch_exact [where hge = False and ?t3.0 = TYPE_lng and ab = True,
        of TYPE_lng 4611686018427387904 TYPE_int 2]
    by (simp add: of_type_def)
  moreover have "(case add_switch True TYPE_bte TYPE_bte TYPE_sht True of None \<Rightarrow> True
      | Some step \<Rightarrow> step 127 127 = arith_row (+) TYPE_bte TYPE_bte TYPE_sht True 127 127)"
    using arith_switch_exact [where hge = True and ?t3.0 = TYPE_sht and ab = True,
        of TYPE_bte 127 TYPE_bte 127]
    by (simp add: of_type_def)
  ultimately show ?thesis
    by (simp add: mul_switch_def add_switch_def available_def arith_row_def nil_operand_def
        nil_def checked_result_def on_overflow_def max_def less_eq_atom_type_def)
qed

text \<open>
  C20. Division truncates towards zero, reports a zero divisor as its own error code when
  \<open>abort_on_error\<close> is set and as nil otherwise, and its range check never fires; modulo
  gives the C remainder when the left type is not the wider one.
\<close>

theorem div_mod_exact:
  assumes "of_type t1 l" and "of_type t2 r"
  shows "(case div_switch hge t1 t2 t3 ab of None \<Rightarrow> True
          | Some step \<Rightarrow> step l r = div_row t1 t2 t3 ab l r)
    \<and> (case mod_switch hge t1 t2 t3 ab of None \<Rightarrow> True
       | Some step \<Rightarrow> (if t1 \<le> t2 then step l r = mod_row t1 t2 t3 ab l r else True))"
proof -
  have "step l r = mod_row t1 t2 t3 ab l r"
    if m: "mod_switch hge t1 t2 t3 ab = Some step" and "t1 \<le> t2" for step
  proof (cases "nil_operand t1 t2 l r \<or> r = 0")
    case True
    then show ?thesis
      using m by (auto simp: mod_switch_def mod_row_def mod_3type_def split: if_splits)
  next
    case False
    then show ?thesis
      using mod_switch_step [OF m assms] that(2) by (simp add: mod_row_def)
  qed
  then show ?thesis using div_switch_row assms by (simp split: option.split)
qed

theorem div_mod_exact_witness:
  "(case div_switch True TYPE_int TYPE_bte TYPE_int True of None \<Rightarrow> False
    | Some step \<Rightarrow> step (- 7) 2 = Inr (- 3, 0) \<and> step 7 0 = Inl (BUN_NONE + 1))"
proof -
  have "(case div_switch True TYPE_int TYPE_bte TYPE_int True of None \<Rightarrow> True
      | Some step \<Rightarrow> step (- 7) 2 = div_row TYPE_int TYPE_bte TYPE_int True (- 7) 2)"
    "(case div_switch True TYPE_int TYPE_bte TYPE_int True of None \<Rightarrow> True
      | Some step \<Rightarrow> step 7 0 = div_row TYPE_int TYPE_bte TYPE_int True 7 0)"
    using div_mod_exact [where hge = True and ?t3.0 = TYPE_int and ab = True, of TYPE_int "- 7" TYPE_bte 2]
      div_mod_exact [where hge = True and ?t3.0 = TYPE_int and ab = True, of TYPE_int 7 TYPE_bte 0]
    by (simp_all add: of_type_def)
  then show ?thesis
    by (simp add: div_switch_def available_def div_row_def nil_operand_def nil_def
        sdiv_neg_left)
qed

text \<open>
  The conversion before the remainder: \<open>300 % 7\<close> in a \<open>sht\<close> by \<open>bte\<close> modulo is \<open>6\<close>, but the
  kernel truncates \<open>300\<close> to \<open>44\<close> first.
\<close>

lemma mod_narrow_wrong:
  "the (mod_switch True TYPE_sht TYPE_bte TYPE_bte True) 300 7 = Inr (2, 0) \<and> 300 smod 7 = (6::int)"
  by (simp add: mod_switch_def available_def mod_3type_def nil_operand_def nil_def min_def
      less_eq_atom_type_def to_type_def c_cast_def smod_int_alt_def signed_take_bit_eq_take_bit_minus
      take_bit_eq_mod bit_iff_odd)

section \<open>The contract of a switch\<close>

text \<open>What the flags of a BAT promise.\<close>

definition nbat_ok :: "nbat \<Rightarrow> bool" where
  "nbat_ok b \<longleftrightarrow>
     (\<forall>v\<in>set (vals b). of_type (ntype b) v) \<and>
     (nsorted b \<longrightarrow> sorted_wrt (\<le>) (vals b)) \<and> (nrevsorted b \<longrightarrow> sorted_wrt (\<ge>) (vals b)) \<and>
     (nkey b \<longrightarrow> distinct (vals b)) \<and>
     (has_nil b \<longrightarrow> nil (ntype b) \<in> set (vals b)) \<and> (nonil b \<longrightarrow> nil (ntype b) \<notin> set (vals b))"

definition cands_ok :: "nat column option \<Rightarrow> bool" where
  "cands_ok s \<longleftrightarrow> (case s of None \<Rightarrow> True | Some c \<Rightarrow> cand_ok c)"

definition operand_ok :: "atom_type \<Rightarrow> int list \<Rightarrow> nat \<Rightarrow> nat \<Rightarrow> bool" where
  "operand_ok t xs incr cnt \<longleftrightarrow> (\<forall>k<cnt. of_type t (xs ! (k * incr)))"

lemma operand_ok_bat: "nbat_ok b \<Longrightarrow> operand_ok (ntype b) (vals b) 1 (length (vals b))"
  by (simp add: operand_ok_def nbat_ok_def)

lemma operand_ok_val: "of_type t x \<Longrightarrow> operand_ok t [x] 0 cnt"
  by (simp add: operand_ok_def)

lemma all_nil_replicate: "count_list vs x = length vs \<Longrightarrow> vs = replicate (length vs) x"
proof (induction vs)
  case (Cons v vs)
  then show ?case using count_le_length [of vs x] by (simp split: if_splits)
qed simp

lemma sorted_wrt_replicate: "R x x \<Longrightarrow> sorted_wrt R (replicate n x)"
  by (induction n) auto

lemma sorted_wrt_short: "length xs \<le> 1 \<Longrightarrow> sorted_wrt R xs"
  by (cases xs) (auto simp: Suc_le_eq)

lemma distinct_short: "length xs \<le> 1 \<Longrightarrow> distinct xs"
  by (cases xs) (auto simp: Suc_le_eq)

lemma result_bat_ok:
  assumes "length vs = cnt" "\<forall>v\<in>set vs. of_type tp v" "nils = count_list vs (nil tp)"
    and "srt \<Longrightarrow> sorted_wrt (\<le>) vs" "rsrt \<Longrightarrow> sorted_wrt (\<ge>) vs"
  shows "nbat_ok (result_bat hs tp cnt vs nils srt rsrt)"
proof -
  have "sorted_wrt (\<le>) vs \<and> sorted_wrt (\<ge>) vs" if "cnt \<le> 1 \<or> nils = cnt"
    using that assms(1) sorted_wrt_short [of vs]
      all_nil_replicate [of vs "nil tp"] sorted_wrt_replicate [of _ "nil tp" cnt]
    by (metis assms(3) order_refl)
  moreover have "cnt \<le> 1 \<Longrightarrow> distinct vs" using assms(1) by (simp add: distinct_short)
  moreover have "nils \<noteq> 0 \<longleftrightarrow> nil tp \<in> set vs" using assms(3) by (simp add: count_list_0_iff)
  ultimately show ?thesis using assms(2,4,5) by (auto simp: nbat_ok_def result_bat_def)
qed

text \<open>
  The laws every switch obeys: values of the result type, and one nil counted per nil
  stored.
\<close>

locale nil_switch =
  fixes switch :: calc_switch
  assumes step_Inr: "switch t1 t2 t3 ab = Some stp \<Longrightarrow> of_type t1 l \<Longrightarrow> of_type t2 r \<Longrightarrow>
      stp l r = Inr (v, n) \<Longrightarrow> of_type t3 v \<and> n = (if v = nil t3 then 1 else 0)"
begin

lemma run_switch_Inr:
  assumes cand: "cands_ok s"
    and run: "run_switch switch hs cnt s lft t1 i1 rgt t2 i2 t3 ab = Inr (vs, nils)"
    and l: "operand_ok t1 lft i1 cnt" and r: "operand_ok t2 rgt i2 cnt"
  obtains stp where "switch t1 t2 t3 ab = Some stp" "length vs = cnt"
    "\<forall>v\<in>set vs. of_type t3 v" "nils = count_list vs (nil t3)"
    "\<And>k. k < cnt \<Longrightarrow> vs ! k \<noteq> nil t3 \<Longrightarrow> k \<in> set (selected hs cnt s) \<and>
       stp (lft ! (k * i1)) (rgt ! (k * i2)) = Inr (vs ! k, 0)"
proof -
  obtain stp where stp: "switch t1 t2 t3 ab = Some stp"
    using run by (auto simp: run_switch_def typeswitchloop_def Let_def split: option.splits)
  let ?sel = "\<lambda>p. p \<in> set (selected hs cnt s)"
  let ?rows = "map (calc_row stp (nil t3) lft i1 rgt i2 ?sel) [0..<cnt]"
  have rows: "collect ?rows = Inr (vs, nils)"
  proof -
    have "cand_ok c" if "s = Some c" for c using cand that by (simp add: cands_ok_def)
    from calc_kernel_rows [OF this, of s "BATnew_tail cnt" cnt _ hs stp "nil t3" lft i1 rgt i2,
        OF _ _ refl]
    show ?thesis
      using run stp by (simp add: run_switch_def typeswitchloop_def Let_def BATnew_tail_def)
  qed
  have row: "of_type t3 v \<and> m = (if v = nil t3 then 1 else 0)"
    if "k < cnt" "calc_row stp (nil t3) lft i1 rgt i2 ?sel k = Inr (v, m)" for k v m
  proof (cases "?sel k")
    case True
    have "of_type t1 (lft ! (k * i1))" "of_type t2 (rgt ! (k * i2))"
      using l r that(1) by (auto simp: operand_ok_def)
    then show ?thesis by (rule step_Inr [OF stp]) (use that True in \<open>simp add: calc_row_def\<close>)
  qed (use that in \<open>auto simp: calc_row_def\<close>)
  have len: "length vs = cnt" using collect_length [OF rows] by simp
  have nth: "\<exists>m. calc_row stp (nil t3) lft i1 rgt i2 ?sel k = Inr (vs ! k, m)" if "k < cnt" for k
    using collect_Inr_nth [OF rows, of k] that by simp
  have "\<forall>v\<in>set vs. of_type t3 v" using nth row len by (metis in_set_conv_nth)
  moreover have "nils = count_list vs (nil t3)"
  proof (rule collect_nils [OF rows])
    fix v m
    assume "Inr (v, m) \<in> set ?rows"
    then obtain k where "k < cnt" "calc_row stp (nil t3) lft i1 rgt i2 ?sel k = Inr (v, m)"
      by auto
    then show "m = (if v = nil t3 then 1 else 0)" using row by blast
  qed
  moreover have "?sel k \<and> stp (lft ! (k * i1)) (rgt ! (k * i2)) = Inr (vs ! k, 0)"
    if "k < cnt" "vs ! k \<noteq> nil t3" for k
    using nth [OF that(1)] row [OF that(1)] that(2) by (fastforce simp: calc_row_def split: if_splits)
  ultimately show ?thesis using that [OF stp len] by blast
qed

lemma finish_ok:
  assumes "cands_ok s" "operand_ok t1 lft i1 cnt" "operand_ok t2 rgt i2 cnt"
    and fin: "finish_bat hs t3 cnt (run_switch switch hs cnt s lft t1 i1 rgt t2 i2 t3 ab) srt rsrt
      = Some bn"
    and srt: "\<And>vs nils. run_switch switch hs cnt s lft t1 i1 rgt t2 i2 t3 ab = Inr (vs, nils) \<Longrightarrow>
      srt nils \<Longrightarrow> sorted_wrt (\<le>) vs"
    and rsrt: "\<And>vs nils. run_switch switch hs cnt s lft t1 i1 rgt t2 i2 t3 ab = Inr (vs, nils) \<Longrightarrow>
      rsrt nils \<Longrightarrow> sorted_wrt (\<ge>) vs"
  shows "nbat_ok bn"
proof -
  obtain vs nils where run: "run_switch switch hs cnt s lft t1 i1 rgt t2 i2 t3 ab = Inr (vs, nils)"
    and bn: "bn = result_bat hs t3 cnt vs nils (srt nils) (rsrt nils)"
    using fin by (auto simp: finish_bat_def split: sum.splits)
  obtain stp where "length vs = cnt" "\<forall>v\<in>set vs. of_type t3 v" "nils = count_list vs (nil t3)"
    by (rule run_switch_Inr [OF assms(1) run assms(2,3)])
  then show ?thesis unfolding bn by (rule result_bat_ok) (use run srt rsrt in auto)
qed

lemma finish_ok_unsorted:
  assumes "cands_ok s" "operand_ok t1 lft i1 cnt" "operand_ok t2 rgt i2 cnt"
    and "finish_bat hs t3 cnt (run_switch switch hs cnt s lft t1 i1 rgt t2 i2 t3 ab)
      (\<lambda>_. False) (\<lambda>_. False) = Some bn"
  shows "nbat_ok bn"
  by (rule finish_ok [OF assms]) auto

end

text \<open>A switch that computes an exact operation: no nil in the result means every row is exact.\<close>

locale exact_switch =
  fixes switch :: calc_switch and exact :: "int \<Rightarrow> int \<Rightarrow> int"
  assumes switch_exact: "switch t1 t2 t3 ab = Some stp \<Longrightarrow> of_type t1 l \<Longrightarrow> of_type t2 r \<Longrightarrow>
      stp l r = arith_row exact t1 t2 t3 ab l r"

sublocale exact_switch \<subseteq> nil_switch switch
proof
  fix t1 t2 t3 ab stp l r v n
  assume "switch t1 t2 t3 ab = Some stp" "of_type t1 l" "of_type t2 r" "stp l r = Inr (v, n)"
  then show "of_type t3 v \<and> n = (if v = nil t3 then 1 else 0)"
    using switch_exact [of t1 t2 t3 ab stp l r] nil_not_non_nil [of t3]
    by (auto simp: arith_row_def on_overflow_def checked_result_def non_nil_iff abs_le_iff
        of_type_between split: if_splits)
qed

context exact_switch
begin

lemma row_value:
  assumes "switch t1 t2 t3 ab = Some stp" "of_type t1 l" "of_type t2 r"
    "stp l r = Inr (v, n)" "v \<noteq> nil t3"
  shows "v = exact l r" "non_nil t1 l" "non_nil t2 r"
proof -
  have *: "arith_row exact t1 t2 t3 ab l r = Inr (v, n)"
    using switch_exact [OF assms(1-3)] assms(4) by simp
  then show "v = exact l r"
    using assms(5)
    by (auto simp: arith_row_def on_overflow_def checked_result_def split: if_splits)
  have "\<not> nil_operand t1 t2 l r" using * assms(5) by (auto simp: arith_row_def)
  then show "non_nil t1 l" "non_nil t2 r" using assms(2,3) by (auto intro: operand_cases)
qed

lemma run_switch_exact:
  assumes "cands_ok s"
    and run: "run_switch switch hs cnt s lft t1 i1 rgt t2 i2 t3 ab = Inr (vs, 0)"
    and l: "operand_ok t1 lft i1 cnt" and r: "operand_ok t2 rgt i2 cnt"
  shows "length vs = cnt \<and> (\<forall>k<cnt. vs ! k = exact (lft ! (k * i1)) (rgt ! (k * i2)) \<and>
    non_nil t1 (lft ! (k * i1)) \<and> non_nil t2 (rgt ! (k * i2)))"
proof (rule run_switch_Inr [OF assms(1) run l r])
  fix stp
  assume stp: "switch t1 t2 t3 ab = Some stp" and len: "length vs = cnt"
    and nils: "0 = count_list vs (nil t3)"
    and row: "\<And>k. k < cnt \<Longrightarrow> vs ! k \<noteq> nil t3 \<Longrightarrow> k \<in> set (selected hs cnt s) \<and>
       stp (lft ! (k * i1)) (rgt ! (k * i2)) = Inr (vs ! k, 0)"
  have "nil t3 \<notin> set vs" using nils by (metis count_list_0_iff)
  then have nn: "vs ! k \<noteq> nil t3" if "k < cnt" for k using that len by (metis nth_mem)
  have ops: "of_type t1 (lft ! (k * i1)) \<and> of_type t2 (rgt ! (k * i2))" if "k < cnt" for k
    using l r that by (auto simp: operand_ok_def)
  show ?thesis
    using len row_value [OF stp conjunct1 [OF ops] conjunct2 [OF ops] conjunct2 [OF row] nn] nn
    by blast
qed

text \<open>The two ways a sorted operand gives a sorted result.\<close>

lemma run_switch_sorted:
  assumes "cands_ok s"
    and "run_switch switch hs cnt s lft t1 i1 rgt t2 i2 t3 ab = Inr (vs, 0)"
    and "operand_ok t1 lft i1 cnt" "operand_ok t2 rgt i2 cnt"
    and mono: "\<And>j k. j < k \<Longrightarrow> k < cnt \<Longrightarrow>
      non_nil t1 (lft ! (k * i1)) \<Longrightarrow> non_nil t2 (rgt ! (k * i2)) \<Longrightarrow>
      R (exact (lft ! (j * i1)) (rgt ! (j * i2))) (exact (lft ! (k * i1)) (rgt ! (k * i2)))"
  shows "sorted_wrt R vs"
  using run_switch_exact [OF assms(1-4)] mono by (simp add: sorted_wrt_iff_nth_less)

end

text \<open>The value of a selected row, and when it overflows.\<close>

definition arith_value ::
  "(int \<Rightarrow> int \<Rightarrow> int) \<Rightarrow> atom_type \<Rightarrow> atom_type \<Rightarrow> atom_type \<Rightarrow> int \<Rightarrow> int \<Rightarrow> int"
where
  "arith_value exact t1 t2 t3 l r =
     (if nil_operand t1 t2 l r \<or> GDK_max t3 < \<bar>exact l r\<bar> then nil t3 else exact l r)"

definition arith_overflow ::
  "(int \<Rightarrow> int \<Rightarrow> int) \<Rightarrow> atom_type \<Rightarrow> atom_type \<Rightarrow> atom_type \<Rightarrow> int \<Rightarrow> int \<Rightarrow> bool"
where
  "arith_overflow exact t1 t2 t3 l r \<longleftrightarrow> \<not> nil_operand t1 t2 l r \<and> GDK_max t3 < \<bar>exact l r\<bar>"

lemma collect_uniform:
  "(\<And>k. k \<in> set ks \<Longrightarrow> row k = (if bad k then Inl e else Inr (f k, g k))) \<Longrightarrow>
   collect (map row ks) =
     (if \<exists>k\<in>set ks. bad k then Inl e else Inr (map f ks, sum_list (map g ks)))"
  by (induction ks) auto

lemma selected_less: "p \<in> set (selected hs cnt s) \<Longrightarrow> p < cnt"
  by (auto simp: selected_def split: option.splits)

context exact_switch
begin

lemma run_switch_values:
  assumes cand: "cands_ok s" and l: "operand_ok t1 lft i1 cnt" and r: "operand_ok t2 rgt i2 cnt"
  shows "map_sum id fst (run_switch switch hs cnt s lft t1 i1 rgt t2 i2 t3 ab) =
    (if switch t1 t2 t3 ab = None \<or> (ab \<and> (\<exists>k\<in>set (selected hs cnt s).
          arith_overflow exact t1 t2 t3 (lft ! (k * i1)) (rgt ! (k * i2))))
     then Inl BUN_NONE
     else Inr (map (\<lambda>k. if k \<in> set (selected hs cnt s)
            then arith_value exact t1 t2 t3 (lft ! (k * i1)) (rgt ! (k * i2))
            else nil t3) [0..<cnt]))"
proof (cases "switch t1 t2 t3 ab")
  case None
  then show ?thesis by (simp add: run_switch_def typeswitchloop_def Let_def)
next
  case (Some stp)
  let ?sel = "\<lambda>p. p \<in> set (selected hs cnt s)"
  let ?ovf = "\<lambda>k. arith_overflow exact t1 t2 t3 (lft ! (k * i1)) (rgt ! (k * i2))"
  let ?val = "\<lambda>k. if ?sel k then arith_value exact t1 t2 t3 (lft ! (k * i1)) (rgt ! (k * i2))
    else nil t3"
  have "cand_ok c" if "s = Some c" for c using cand that by (simp add: cands_ok_def)
  from calc_kernel_rows [OF this, of s "BATnew_tail cnt" cnt _ hs stp "nil t3" lft i1 rgt i2,
      OF _ _ refl]
  have run: "run_switch switch hs cnt s lft t1 i1 rgt t2 i2 t3 ab =
      collect (map (calc_row stp (nil t3) lft i1 rgt i2 ?sel) [0..<cnt])"
    using Some by (simp add: run_switch_def typeswitchloop_def Let_def BATnew_tail_def)
  have row: "calc_row stp (nil t3) lft i1 rgt i2 ?sel k =
      (if ?sel k \<and> ab \<and> ?ovf k then Inl BUN_NONE
       else Inr (?val k, if ?val k = nil t3 then 1 else 0))" if "k < cnt" for k
  proof -
    have "stp (lft ! (k * i1)) (rgt ! (k * i2))
        = arith_row exact t1 t2 t3 ab (lft ! (k * i1)) (rgt ! (k * i2))"
      using l r that by (intro switch_exact [OF Some]) (auto simp: operand_ok_def)
    moreover have "\<bar>x\<bar> \<le> GDK_max t3 \<Longrightarrow> x \<noteq> nil t3" for x
      using nil_not_non_nil [of t3] by (auto simp: non_nil_iff abs_le_iff)
    ultimately show ?thesis
      by (auto simp: calc_row_def arith_row_def arith_value_def arith_overflow_def
          on_overflow_def checked_result_def not_le)
  qed
  have "collect (map (calc_row stp (nil t3) lft i1 rgt i2 ?sel) [0..<cnt]) =
      (if \<exists>k\<in>set [0..<cnt]. ?sel k \<and> ab \<and> ?ovf k then Inl BUN_NONE
       else Inr (map ?val [0..<cnt],
              sum_list (map (\<lambda>k. if ?val k = nil t3 then 1 else 0) [0..<cnt])))"
    by (rule collect_uniform) (use row in simp)
  then show ?thesis
    unfolding run using Some selected_less by (auto cong: map_cong)
qed

end

interpretation add_sw: exact_switch "add_switch hge" "(+)" for hge
  by unfold_locales (rule add_switch_row)

interpretation sub_sw: exact_switch "sub_switch hge" "(-)" for hge
  by unfold_locales (rule sub_switch_row)

interpretation mul_sw: exact_switch "mul_switch hge" "(*)" for hge
  by unfold_locales (rule mul_switch_row)

interpretation div_sw: nil_switch "div_switch hge" for hge
proof
  fix t1 t2 t3 ab stp l r v n
  assume "div_switch hge t1 t2 t3 ab = Some stp" "of_type t1 l" "of_type t2 r" "stp l r = Inr (v, n)"
  then show "of_type t3 v \<and> n = (if v = nil t3 then 1 else 0)"
    using div_switch_row [of hge t1 t2 t3 ab stp l r]
    by (auto simp: div_row_def non_nil_def split: if_splits)
qed

interpretation mod_sw: nil_switch "mod_switch hge" for hge
proof
  fix t1 t2 t3 ab stp l r v n
  assume sw: "mod_switch hge t1 t2 t3 ab = Some stp" "of_type t1 l" "of_type t2 r"
    and res: "stp l r = Inr (v, n)"
  show "of_type t3 v \<and> n = (if v = nil t3 then 1 else 0)"
  proof (cases "nil_operand t1 t2 l r \<or> r = 0")
    case True
    then show ?thesis
      using sw(1) res by (auto simp: mod_switch_def mod_3type_def split: if_splits)
  next
    case False
    then show ?thesis using mod_switch_step(1,2) [OF sw] res by (auto simp: non_nil_def)
  qed
qed


section \<open>The flags of the results\<close>

lemma nbat_sorted_nth:
  assumes "nbat_ok b" "j < k" "k < length (vals b)"
  shows "nsorted b \<Longrightarrow> vals b ! j \<le> vals b ! k" "nrevsorted b \<Longrightarrow> vals b ! k \<le> vals b ! j"
  using assms by (auto simp: nbat_ok_def sorted_wrt_iff_nth_less)

definition value_ok :: "valrecord \<Rightarrow> bool" where
  "value_ok v \<longleftrightarrow> of_type (vtype v) (vval v)"

lemma sign_mult_mono:
  fixes x y c :: int
  assumes "x \<le> y"
  shows "0 \<le> c \<Longrightarrow> x * c \<le> y * c \<and> c * x \<le> c * y" "c \<le> 0 \<Longrightarrow> y * c \<le> x * c \<and> c * y \<le> c * x"
  using assms by (simp_all add: mult_left_mono mult_right_mono mult_left_mono_neg mult_right_mono_neg)

lemma VARcalcsign_non_nil:
  "vval v \<noteq> nil (vtype v) \<Longrightarrow>
   (0 \<le> VARcalcsign v \<longleftrightarrow> 0 \<le> vval v) \<and> (VARcalcsign v \<le> 0 \<longleftrightarrow> vval v \<le> 0)"
  by (auto simp: VARcalcsign_def)

lemma add_flags:
  assumes s: "cands_ok s" and b: "nbat_ok b" and v: "value_ok v"
  shows "BATcalcaddcst hge b v s tp ab = Some bn \<Longrightarrow> nbat_ok bn"
    "BATcalccstadd hge v b s tp ab = Some bn \<Longrightarrow> nbat_ok bn"
    "BATcalcsubcst hge b v s tp ab = Some bn \<Longrightarrow> nbat_ok bn"
    "BATcalccstsub hge v b s tp ab = Some bn \<Longrightarrow> nbat_ok bn"
proof -
  note ops = operand_ok_bat [OF b] operand_ok_val [OF v [unfolded value_ok_def]]
  note srt = nbat_sorted_nth [OF b]
  show "BATcalcaddcst hge b v s tp ab = Some bn \<Longrightarrow> nbat_ok bn"
    unfolding BATcalcaddcst_def
    by (erule add_sw.finish_ok [OF s ops]; clarify;
        erule add_sw.run_switch_sorted [OF s _ ops]; simp add: srt)
  show "BATcalccstadd hge v b s tp ab = Some bn \<Longrightarrow> nbat_ok bn"
    unfolding BATcalccstadd_def
    by (erule add_sw.finish_ok [OF s ops(2,1)]; clarify;
        erule add_sw.run_switch_sorted [OF s _ ops(2,1)]; simp add: srt)
  show "BATcalcsubcst hge b v s tp ab = Some bn \<Longrightarrow> nbat_ok bn"
    unfolding BATcalcsubcst_def
    by (erule sub_sw.finish_ok [OF s ops]; clarify;
        erule sub_sw.run_switch_sorted [OF s _ ops]; simp add: srt)
  show "BATcalccstsub hge v b s tp ab = Some bn \<Longrightarrow> nbat_ok bn"
    unfolding BATcalccstsub_def
    by (erule sub_sw.finish_ok [OF s ops(2,1)]; clarify;
        erule sub_sw.run_switch_sorted [OF s _ ops(2,1)]; simp add: srt)
qed


lemma mul_flags:
  assumes s: "cands_ok s" and b: "nbat_ok b" and v: "value_ok v"
  shows "BATcalcmulcst hge b v s tp ab = Some bn \<Longrightarrow> nbat_ok bn"
    "BATcalccstmul hge v b s tp ab = Some bn \<Longrightarrow> nbat_ok bn"
proof -
  note ops = operand_ok_bat [OF b] operand_ok_val [OF v [unfolded value_ok_def]]
  have pos: "x * vval v \<le> y * vval v \<and> vval v * x \<le> vval v * y"
    if "0 \<le> VARcalcsign v" "non_nil (vtype v) (vval v)" "x \<le> y" for x y
    using that VARcalcsign_non_nil [of v] sign_mult_mono(1) [OF that(3), of "vval v"]
    by (auto simp: non_nil_def)
  have neg: "y * vval v \<le> x * vval v \<and> vval v * y \<le> vval v * x"
    if "VARcalcsign v \<le> 0" "non_nil (vtype v) (vval v)" "x \<le> y" for x y
    using that VARcalcsign_non_nil [of v] sign_mult_mono(2) [OF that(3), of "vval v"]
    by (auto simp: non_nil_def)
  note srt = nbat_sorted_nth [OF b]
  show "BATcalcmulcst hge b v s tp ab = Some bn \<Longrightarrow> nbat_ok bn"
    unfolding BATcalcmulcst_def
    by (erule mul_sw.finish_ok [OF s ops]; clarify; elim disjE conjE; clarify;
        erule mul_sw.run_switch_sorted [OF s _ ops]; simp add: srt pos neg)
  show "BATcalccstmul hge v b s tp ab = Some bn \<Longrightarrow> nbat_ok bn"
    unfolding BATcalccstmul_def
    by (erule mul_sw.finish_ok [OF s ops(2,1)]; clarify; elim disjE conjE; clarify;
        erule mul_sw.run_switch_sorted [OF s _ ops(2,1)]; simp add: srt pos neg)
qed

lemma pred_optionI: "(\<And>y. x = Some y \<Longrightarrow> P y) \<Longrightarrow> pred_option P x"
  by (cases x) auto

lemma checkbats_operand:
  "nbat_ok b2 \<Longrightarrow> checkbats b1 (Some b2) \<Longrightarrow>
   operand_ok (ntype b2) (vals b2) 1 (length (vals b1))"
  using operand_ok_bat [of b2] by (simp add: checkbats_def)

lemma bat_bat_flags:
  assumes s: "cands_ok s" and b1: "nbat_ok b1" and b2: "nbat_ok b2"
  shows "BATcalcadd hge b1 b2 s tp ab = Some bn \<Longrightarrow> nbat_ok bn"
    "BATcalcsub hge b1 b2 s tp ab = Some bn \<Longrightarrow> nbat_ok bn"
    "BATcalcmul hge b1 b2 s tp ab = Some bn \<Longrightarrow> nbat_ok bn"
    "BATcalcdiv hge b1 b2 s tp ab = Some bn \<Longrightarrow> nbat_ok bn"
    "BATcalcmod hge b1 b2 s tp ab = Some bn \<Longrightarrow> nbat_ok bn"
proof -
  note o1 = operand_ok_bat [OF b1] and o2 = checkbats_operand [OF b2, of b1]
  have add: "x + u \<le> y + w" if "x \<le> y" "u \<le> w" for x y u w :: int using that by simp
  have up: "sorted_wrt (\<le>) vs"
    if "run_switch (add_switch hge) (hseq b1) (length (vals b1)) s (vals b1) (ntype b1) 1
          (vals b2) (ntype b2) 1 tp ab = Inr (vs, 0)"
      "checkbats b1 (Some b2)" "nsorted b1" "nsorted b2" for vs
    by (rule add_sw.run_switch_sorted [OF s that(1) o1 o2 [OF that(2)]])
      (use that nbat_sorted_nth(1) [OF b1] nbat_sorted_nth(1) [OF b2] in
        \<open>auto simp: checkbats_def intro!: add\<close>)
  have down: "sorted_wrt (\<ge>) vs"
    if "run_switch (add_switch hge) (hseq b1) (length (vals b1)) s (vals b1) (ntype b1) 1
          (vals b2) (ntype b2) 1 tp ab = Inr (vs, 0)"
      "checkbats b1 (Some b2)" "nrevsorted b1" "nrevsorted b2" for vs
    by (rule add_sw.run_switch_sorted [OF s that(1) o1 o2 [OF that(2)]])
      (use that nbat_sorted_nth(2) [OF b1] nbat_sorted_nth(2) [OF b2] in
        \<open>auto simp: checkbats_def intro!: add\<close>)
  show "nbat_ok bn" if bn: "BATcalcadd hge b1 b2 s tp ab = Some bn"
  proof -
    have c: "checkbats b1 (Some b2)" using bn by (auto simp: BATcalcadd_def split: if_splits)
    show ?thesis
      by (rule add_sw.finish_ok [OF s o1 o2 [OF c] bn [unfolded BATcalcadd_def eqTrueI [OF c]
          not_True_eq_False if_False]]) (use up down c in auto)
  qed
  show "BATcalcsub hge b1 b2 s tp ab = Some bn \<Longrightarrow> nbat_ok bn"
    unfolding BATcalcsub_def
    by (auto split: if_splits intro: sub_sw.finish_ok_unsorted [OF s o1 o2])
  show "BATcalcmul hge b1 b2 s tp ab = Some bn \<Longrightarrow> nbat_ok bn"
    unfolding BATcalcmul_def BATcalcmuldivmod_def
    by (auto split: if_splits intro: mul_sw.finish_ok_unsorted [OF s o1 o2])
  show "BATcalcdiv hge b1 b2 s tp ab = Some bn \<Longrightarrow> nbat_ok bn"
    unfolding BATcalcdiv_def BATcalcmuldivmod_def
    by (auto split: if_splits intro: div_sw.finish_ok_unsorted [OF s o1 o2])
  show "BATcalcmod hge b1 b2 s tp ab = Some bn \<Longrightarrow> nbat_ok bn"
    unfolding BATcalcmod_def BATcalcmuldivmod_def
    by (auto split: if_splits intro: mod_sw.finish_ok_unsorted [OF s o1 o2])
qed

lemma divmod_cst_flags:
  assumes s: "cands_ok s" and b: "nbat_ok b" and v: "value_ok v"
  shows "BATcalcdivcst hge b v s tp ab = Some bn \<Longrightarrow> nbat_ok bn"
    "BATcalccstdiv hge v b s tp ab = Some bn \<Longrightarrow> nbat_ok bn"
    "BATcalcmodcst hge b v s tp ab = Some bn \<Longrightarrow> nbat_ok bn"
    "BATcalccstmod hge v b s tp ab = Some bn \<Longrightarrow> nbat_ok bn"
proof -
  note ops = operand_ok_bat [OF b] operand_ok_val [OF v [unfolded value_ok_def]]
  show "BATcalcdivcst hge b v s tp ab = Some bn \<Longrightarrow> nbat_ok bn"
    unfolding BATcalcdivcst_def by (rule div_sw.finish_ok_unsorted [OF s ops])
  show "BATcalccstdiv hge v b s tp ab = Some bn \<Longrightarrow> nbat_ok bn"
    unfolding BATcalccstdiv_def by (rule div_sw.finish_ok_unsorted [OF s ops(2,1)])
  show "BATcalcmodcst hge b v s tp ab = Some bn \<Longrightarrow> nbat_ok bn"
    unfolding BATcalcmodcst_def by (rule mod_sw.finish_ok_unsorted [OF s ops])
  show "BATcalccstmod hge v b s tp ab = Some bn \<Longrightarrow> nbat_ok bn"
    unfolding BATcalccstmod_def by (rule mod_sw.finish_ok_unsorted [OF s ops(2,1)])
qed

text \<open>
  C12. Every flag the entry points of addition, subtraction, multiplication, division and modulo set on
  their result is true of it (increment and decrement are a section of their own): the element type, \<open>sorted\<close>, \<open>revsorted\<close>, \<open>key\<close>, \<open>nil\<close> and \<open>nonil\<close>, for any candidate list and whether
  or not overflow gives an error.
\<close>

theorem BATcalc_flags_truthful:
  assumes "cands_ok s" and "nbat_ok b1" and "nbat_ok b2" and "value_ok v"
  shows "pred_option nbat_ok (BATcalcadd hge b1 b2 s tp ab)
    \<and> pred_option nbat_ok (BATcalcaddcst hge b1 v s tp ab)
    \<and> pred_option nbat_ok (BATcalccstadd hge v b1 s tp ab)
    \<and> pred_option nbat_ok (BATcalcsub hge b1 b2 s tp ab)
    \<and> pred_option nbat_ok (BATcalcsubcst hge b1 v s tp ab)
    \<and> pred_option nbat_ok (BATcalccstsub hge v b1 s tp ab)
    \<and> pred_option nbat_ok (BATcalcmul hge b1 b2 s tp ab)
    \<and> pred_option nbat_ok (BATcalcmulcst hge b1 v s tp ab)
    \<and> pred_option nbat_ok (BATcalccstmul hge v b1 s tp ab)
    \<and> pred_option nbat_ok (BATcalcdiv hge b1 b2 s tp ab)
    \<and> pred_option nbat_ok (BATcalcdivcst hge b1 v s tp ab)
    \<and> pred_option nbat_ok (BATcalccstdiv hge v b1 s tp ab)
    \<and> pred_option nbat_ok (BATcalcmod hge b1 b2 s tp ab)
    \<and> pred_option nbat_ok (BATcalcmodcst hge b1 v s tp ab)
    \<and> pred_option nbat_ok (BATcalccstmod hge v b1 s tp ab)"
  by (intro conjI pred_optionI; erule bat_bat_flags [OF assms(1-3)] add_flags [OF assms(1,2,4)]
      mul_flags [OF assms(1,2,4)] divmod_cst_flags [OF assms(1,2,4)])

definition bat_example :: "int list \<Rightarrow> nbat" where
  "bat_example xs = \<lparr>hseq = 0, ntype = TYPE_bte, vals = xs, nsorted = True, nrevsorted = False,
     nkey = False, has_nil = False, nonil = True\<rparr>"

lemma bat_example_ok: "nbat_ok (bat_example [1, 2, 3])" "nbat_ok (bat_example [100, 110, 127])"
  by (auto simp: nbat_ok_def bat_example_def of_type_def nil_def)

lemma value_example_ok: "value_ok \<lparr>vtype = TYPE_bte, vval = - 2\<rparr>"
  by (simp add: value_ok_def of_type_def)

theorem BATcalc_flags_truthful_witness:
  "pred_option nbat_ok (BATcalcadd True (bat_example [1, 2, 3]) (bat_example [100, 110, 127])
     None TYPE_sht True)
   \<and> pred_option nbat_ok (BATcalcmulcst True (bat_example [1, 2, 3])
       \<lparr>vtype = TYPE_bte, vval = - 2\<rparr> None TYPE_bte True)"
  using BATcalc_flags_truthful [OF _ bat_example_ok value_example_ok, of None True TYPE_sht True]
    BATcalc_flags_truthful [OF _ bat_example_ok value_example_ok, of None True TYPE_bte True]
  by (simp add: cands_ok_def)

section \<open>The values of the results\<close>

definition arith_supported :: "bool \<Rightarrow> atom_type \<Rightarrow> atom_type \<Rightarrow> atom_type \<Rightarrow> bool" where
  "arith_supported hge t1 t2 t3 \<longleftrightarrow>
     available hge t1 \<and> available hge t2 \<and> available hge t3 \<and>
     (t3 = max t1 t2 \<or> next_type (max t1 t2) = Some t3)"

lemma switch_supported:
  "add_switch hge t1 t2 t3 ab = None \<longleftrightarrow> \<not> arith_supported hge t1 t2 t3"
  "sub_switch hge t1 t2 t3 ab = None \<longleftrightarrow> \<not> arith_supported hge t1 t2 t3"
  "mul_switch hge t1 t2 t3 ab = None \<longleftrightarrow> \<not> arith_supported hge t1 t2 t3"
  by (auto simp: add_switch_def sub_switch_def mul_switch_def arith_supported_def)

text \<open>
  The promise of a binary operation: an error when the counts differ, the types are not
  supported or a selected row overflows with \<open>abort_on_error\<close>; else one value per row.
\<close>

definition arith_result ::
  "bool \<Rightarrow> (int \<Rightarrow> int \<Rightarrow> int) \<Rightarrow> nbat \<Rightarrow> nbat \<Rightarrow> nat column option \<Rightarrow> atom_type \<Rightarrow> bool \<Rightarrow>
   int list option"
where
  "arith_result hge exact b1 b2 s tp ab =
     (let sel = selected (hseq b1) (length (vals b1)) s in
      if length (vals b1) \<noteq> length (vals b2) \<or> \<not> arith_supported hge (ntype b1) (ntype b2) tp \<or>
         ab \<and> (\<exists>k\<in>set sel.
           arith_overflow exact (ntype b1) (ntype b2) tp (vals b1 ! k) (vals b2 ! k))
      then None
      else Some (map (\<lambda>k. if k \<in> set sel
             then arith_value exact (ntype b1) (ntype b2) tp (vals b1 ! k) (vals b2 ! k)
             else nil tp) [0..<length (vals b1)]))"

lemma finish_bat_vals:
  "map_option vals (finish_bat hs tp cnt res srt rsrt)
   = (case map_sum id fst res of Inl e \<Rightarrow> None | Inr vs \<Rightarrow> Some vs)"
  by (auto simp: finish_bat_def result_bat_def split: sum.splits)

context exact_switch
begin

lemma finish_values:
  assumes "cands_ok s" "operand_ok t1 lft i1 cnt" "operand_ok t2 rgt i2 cnt"
  shows "map_option vals (finish_bat hs t3 cnt
      (run_switch switch hs cnt s lft t1 i1 rgt t2 i2 t3 ab) srt rsrt) =
    (if switch t1 t2 t3 ab = None \<or> (ab \<and> (\<exists>k\<in>set (selected hs cnt s).
          arith_overflow exact t1 t2 t3 (lft ! (k * i1)) (rgt ! (k * i2))))
     then None
     else Some (map (\<lambda>k. if k \<in> set (selected hs cnt s)
            then arith_value exact t1 t2 t3 (lft ! (k * i1)) (rgt ! (k * i2))
            else nil t3) [0..<cnt]))"
  unfolding finish_bat_vals run_switch_values [OF assms] by simp

end

text \<open>
  C7. Addition, subtraction and multiplication of two BATs return exactly what the promise
  says, row by row, for every candidate list: the loop over candidates, the fill loops and
  the choice of kernel by type do not show.
\<close>

theorem BATcalc_arith_values:
  assumes "cands_ok s" and "nbat_ok b1" and "nbat_ok b2"
  shows "map_option vals (BATcalcadd hge b1 b2 s tp ab) = arith_result hge (+) b1 b2 s tp ab
    \<and> map_option vals (BATcalcsub hge b1 b2 s tp ab) = arith_result hge (-) b1 b2 s tp ab
    \<and> map_option vals (BATcalcmul hge b1 b2 s tp ab) = arith_result hge (*) b1 b2 s tp ab"
proof (cases "checkbats b1 (Some b2)")
  case True
  note o1 = operand_ok_bat [OF assms(2)] and o2 = checkbats_operand [OF assms(3) True]
  note val = add_sw.finish_values [OF assms(1) o1 o2]
    sub_sw.finish_values [OF assms(1) o1 o2] mul_sw.finish_values [OF assms(1) o1 o2]
  have len: "length (vals b1) = length (vals b2)" using True by (simp add: checkbats_def)
  show ?thesis
    unfolding BATcalcadd_def BATcalcsub_def BATcalcmul_def BATcalcmuldivmod_def
      arith_result_def Let_def eqTrueI [OF True] not_True_eq_False if_False val switch_supported
    by (simp only: mult_1_right len simp_thms)
next
  case False
  then show ?thesis
    by (simp add: BATcalcadd_def BATcalcsub_def BATcalcmul_def BATcalcmuldivmod_def
        arith_result_def checkbats_def)
qed

theorem BATcalc_arith_values_witness:
  "map_option vals (BATcalcadd True (bat_example [1, 2, 3]) (bat_example [100, 110, 127])
     None TYPE_bte False) = Some [101, 112, - 128]
   \<and> BATcalcadd True (bat_example [1, 2, 3]) (bat_example [100, 110, 127]) None TYPE_bte True
     = None"
proof -
  note W = BATcalc_arith_values [OF _ bat_example_ok, of None True TYPE_bte]
  show ?thesis
    using W [of False] W [of True]
    by (simp add: cands_ok_def arith_result_def arith_supported_def selected_def bat_example_def
        available_def arith_value_def arith_overflow_def nil_operand_def nil_def upt_rec)
qed

section \<open>Increment and decrement\<close>

context exact_switch
begin

lemma run_switch_cst:
  assumes len: "length lft = cnt" and l: "operand_ok t1 lft 1 cnt" and c: "non_nil t2 c"
    and run: "run_switch switch hs cnt None lft t1 1 [c] t2 0 t3 True = Inr (vs, nils)"
  shows "vs = map (\<lambda>x. if x = nil t1 then nil t3 else exact x c) lft"
    "x \<in> set lft \<Longrightarrow> x \<noteq> nil t1 \<Longrightarrow> non_nil t3 (exact x c)"
proof -
  have r: "operand_ok t2 [c] 0 cnt" using c by (simp add: operand_ok_def non_nil_def)
  have nn: "\<not> nil_operand t1 t2 x c \<longleftrightarrow> x \<noteq> nil t1" for x
    using c by (auto simp: nil_operand_def non_nil_def)
  note V = run_switch_values [OF _ l r, of None hs t3 True]
  have ovf: "\<not> arith_overflow exact t1 t2 t3 (lft ! k) c" if "k < cnt" for k
    using V run that by (auto simp: cands_ok_def selected_def split: if_splits)
  show "non_nil t3 (exact x c)" if "x \<in> set lft" "x \<noteq> nil t1"
  proof -
    note m = that(1)
    obtain k where "k < cnt" "x = lft ! k" using m len by (auto simp: in_set_conv_nth)
    then show ?thesis
      using ovf [of k] that(2) nn by (simp add: arith_overflow_def non_nil_iff not_less abs_le_iff)
  qed
  have "vs = map (\<lambda>k. arith_value exact t1 t2 t3 (lft ! k) c) [0..<cnt]"
    using V run by (auto simp: cands_ok_def selected_def split: if_splits)
  also have "\<dots> = map (\<lambda>k. if lft ! k = nil t1 then nil t3 else exact (lft ! k) c) [0..<cnt]"
    by (rule map_cong [OF refl]) (use ovf nn in \<open>force simp: arith_value_def arith_overflow_def\<close>)
  also have "\<dots> = map (\<lambda>x. if x = nil t1 then nil t3 else exact x c) lft"
    using len by (intro nth_equalityI) auto
  finally show "vs = map (\<lambda>x. if x = nil t1 then nil t3 else exact x c) lft" .
qed

lemma incrdecr_ok:
  assumes b: "nbat_ok b" and mono: "\<And>x y. x \<le> y \<Longrightarrow> exact x 1 \<le> exact y 1"
    and inc: "BATcalcincrdecr switch b None True = (Some bn, b')"
  shows "vals bn = map (\<lambda>x. if x = nil (ntype b) then nil (ntype b) else exact x 1) (vals b)
    \<and> nbat_ok bn \<and> nbat_ok b'"
proof -
  let ?t = "ntype b" and ?cnt = "length (vals b)"
  let ?f = "\<lambda>x. if x = nil ?t then nil ?t else exact x 1"
  obtain vs nils where run: "run_switch switch (hseq b) ?cnt None (vals b) ?t 1 [1] TYPE_bte 0 ?t True
      = Inr (vs, nils)"
    and bn: "bn = result_bat (hseq b) ?t ?cnt vs nils (nsorted b) (nrevsorted b)"
    and b': "b' = b\<lparr>has_nil := has_nil b \<or> nils \<noteq> 0, nonil := nonil b \<or> nils = 0\<rparr>"
    using inc by (auto simp: BATcalcincrdecr_def split: sum.splits)
  have c: "non_nil TYPE_bte 1" by (simp add: non_nil_iff)
  have r: "operand_ok TYPE_bte [1] 0 ?cnt" by (rule operand_ok_val) (simp add: of_type_def)
  have N: "cands_ok None" by (simp add: cands_ok_def)
  note ops = operand_ok_bat [OF b] r
  note C = run_switch_cst [OF refl operand_ok_bat [OF b] c run]
  have vs: "vs = map ?f (vals b)" by (rule C(1))
  have fin: "exact x 1 \<noteq> nil ?t \<and> nil ?t \<le> exact x 1" if "x \<in> set (vals b)" "x \<noteq> nil ?t" for x
    using C(2) [OF that] by (auto simp: non_nil_def of_type_def nil_def)
  obtain stp where ty: "\<forall>v\<in>set vs. of_type ?t v" and n: "nils = count_list vs (nil ?t)"
    by (rule run_switch_Inr [OF N run ops])
  have le: "nil ?t \<le> x" if "x \<in> set (vals b)" for x
    using that b by (auto simp: nbat_ok_def of_type_def nil_def)
  have f_mono: "?f x \<le> ?f y" if "x \<in> set (vals b)" "y \<in> set (vals b)" "x \<le> y" for x y
    using that mono [OF that(3)] le [OF that(1)] le [OF that(2)] fin [OF that(2)] by auto
  have up: "sorted_wrt (\<le>) vs" if "nsorted b"
    unfolding vs sorted_wrt_map
    by (rule sorted_wrt_mono_rel [of _ "(\<le>)"]) (use f_mono b that in \<open>auto simp: nbat_ok_def\<close>)
  have down: "sorted_wrt (\<ge>) vs" if "nrevsorted b"
    unfolding vs sorted_wrt_map
    by (rule sorted_wrt_mono_rel [of _ "(\<ge>)"]) (use f_mono b that in \<open>auto simp: nbat_ok_def\<close>)
  have nilmem: "nil ?t \<in> set vs \<longleftrightarrow> nil ?t \<in> set (vals b)"
  proof
    assume "nil ?t \<in> set vs"
    then obtain x where "x \<in> set (vals b)" "nil ?t = ?f x" by (auto simp: vs)
    then show "nil ?t \<in> set (vals b)" using fin [of x] by (cases "x = nil ?t") auto
  qed (force simp: vs)
  have "nbat_ok bn"
    unfolding bn by (rule result_bat_ok) (use ty n up down in \<open>auto simp: vs\<close>)
  moreover have "nils = 0 \<longleftrightarrow> nil ?t \<notin> set (vals b)" using n nilmem by (simp add: count_list_0_iff)
  then have "nbat_ok b'" using b b' by (auto simp: nbat_ok_def)
  ultimately show ?thesis using vs bn by (simp add: result_bat_def)
qed

lemma incrdecr_fails:
  assumes b: "nbat_ok b"
  shows "fst (BATcalcincrdecr switch b None True) = None \<longleftrightarrow>
    switch (ntype b) TYPE_bte (ntype b) True = None \<or>
    (\<exists>x\<in>set (vals b). x \<noteq> nil (ntype b) \<and> GDK_max (ntype b) < \<bar>exact x 1\<bar>)"
proof -
  let ?t = "ntype b" and ?cnt = "length (vals b)"
  let ?run = "run_switch switch (hseq b) ?cnt None (vals b) ?t 1 [1] TYPE_bte 0 ?t True"
  have N: "cands_ok None" by (simp add: cands_ok_def)
  have r: "operand_ok TYPE_bte [1] 0 ?cnt" by (rule operand_ok_val) (simp add: of_type_def)
  have "arith_overflow exact ?t TYPE_bte ?t x 1 \<longleftrightarrow> x \<noteq> nil ?t \<and> GDK_max ?t < \<bar>exact x 1\<bar>" for x
    by (auto simp: arith_overflow_def nil_operand_def nil_def)
  then have "(\<exists>e. ?run = Inl e) \<longleftrightarrow> switch ?t TYPE_bte ?t True = None \<or>
    (\<exists>k\<in>{0..<?cnt}. vals b ! k \<noteq> nil ?t \<and> GDK_max ?t < \<bar>exact (vals b ! k) 1\<bar>)"
    using run_switch_values [OF N operand_ok_bat [OF b] r, of "hseq b" ?t True]
    by (cases ?run) (auto simp: selected_def split: if_splits)
  moreover have ex: "(\<exists>k\<in>{0..<?cnt}. P (vals b ! k)) \<longleftrightarrow> (\<exists>x\<in>set (vals b). P x)" for P
    unfolding Bex_def in_set_conv_nth atLeastLessThan_iff by (metis le0)
  moreover have "fst (BATcalcincrdecr switch b None True) = None \<longleftrightarrow> (\<exists>e. ?run = Inl e)"
    by (auto simp: BATcalcincrdecr_def split: sum.splits)
  ultimately show ?thesis by (simp only: ex [of "\<lambda>x. x \<noteq> nil ?t \<and> GDK_max ?t < \<bar>exact x 1\<bar>"])
qed

end

lemma incr_overflow:
  assumes "nbat_ok b"
  shows "(\<exists>x\<in>set (vals b). x \<noteq> nil (ntype b) \<and> GDK_max (ntype b) < \<bar>x + 1\<bar>) \<longleftrightarrow> GDK_max (ntype b) \<in> set (vals b)"
    "(\<exists>x\<in>set (vals b). x \<noteq> nil (ntype b) \<and> GDK_max (ntype b) < \<bar>x - 1\<bar>) \<longleftrightarrow> - GDK_max (ntype b) \<in> set (vals b)"
proof -
  have t: "GDK_min t = - GDK_max t - 1" "127 \<le> GDK_max t" for t by (cases t; simp)+
  have "of_type (ntype b) x" if "x \<in> set (vals b)" for x using assms that by (simp add: nbat_ok_def)
  then have x: "nil (ntype b) = - GDK_max (ntype b) - 1" "- GDK_max (ntype b) - 1 \<le> x" "x \<le> GDK_max (ntype b)"
    if "x \<in> set (vals b)" for x
    using that t by (auto simp: of_type_def nil_def)
  have "x \<noteq> nil (ntype b) \<and> GDK_max (ntype b) < \<bar>x + 1\<bar> \<longleftrightarrow> x = GDK_max (ntype b)"
    "x \<noteq> nil (ntype b) \<and> GDK_max (ntype b) < \<bar>x - 1\<bar> \<longleftrightarrow> x = - GDK_max (ntype b)" if "x \<in> set (vals b)" for x
    using x [OF that] t(2) [of "ntype b"] by linarith+
  then show "(\<exists>x\<in>set (vals b). x \<noteq> nil (ntype b) \<and> GDK_max (ntype b) < \<bar>x + 1\<bar>) \<longleftrightarrow> GDK_max (ntype b) \<in> set (vals b)"
    "(\<exists>x\<in>set (vals b). x \<noteq> nil (ntype b) \<and> GDK_max (ntype b) < \<bar>x - 1\<bar>) \<longleftrightarrow> - GDK_max (ntype b) \<in> set (vals b)"
    by blast+
qed

lemma incr_supported: "arith_supported hge t TYPE_bte t \<longleftrightarrow> available hge t"
  by (cases t) (auto simp: arith_supported_def available_def max_def less_eq_atom_type_def)

text \<open>
  C33. Increment and decrement of a whole BAT, without candidates and with \<open>abort_on_error\<close>: they fail
  exactly if the build lacks the type or the greatest value of the type, for a decrement the least, is
  in the BAT, and then leave it unchanged.  Otherwise nil stays nil, every other value moves by one,
  the result's flags are true, and so are the nil flags the function sets on its input.
\<close>

theorem BATcalcincr_decr_ok:
  assumes "nbat_ok b"
  shows "(case BATcalcincr hge b None True of
        (None, b') \<Rightarrow> b' = b \<and> (\<not> available hge (ntype b) \<or> GDK_max (ntype b) \<in> set (vals b))
      | (Some bn, b') \<Rightarrow> available hge (ntype b) \<and> GDK_max (ntype b) \<notin> set (vals b) \<and> nbat_ok bn \<and> nbat_ok b' \<and>
          vals bn = map (\<lambda>x. if x = nil (ntype b) then nil (ntype b) else x + 1) (vals b))
    \<and> (case BATcalcdecr hge b None True of
        (None, b') \<Rightarrow> b' = b \<and> (\<not> available hge (ntype b) \<or> - GDK_max (ntype b) \<in> set (vals b))
      | (Some bn, b') \<Rightarrow> available hge (ntype b) \<and> - GDK_max (ntype b) \<notin> set (vals b) \<and> nbat_ok bn \<and> nbat_ok b' \<and>
          vals bn = map (\<lambda>x. if x = nil (ntype b) then nil (ntype b) else x - 1) (vals b))"
proof (intro conjI)
  have none: "b' = b" if "BATcalcincrdecr switch b None True = (None, b')" for switch b'
    using that by (auto simp: BATcalcincrdecr_def split: sum.splits prod.splits)
  show "case BATcalcincr hge b None True of
        (None, b') \<Rightarrow> b' = b \<and> (\<not> available hge (ntype b) \<or> GDK_max (ntype b) \<in> set (vals b))
      | (Some bn, b') \<Rightarrow> available hge (ntype b) \<and> GDK_max (ntype b) \<notin> set (vals b) \<and> nbat_ok bn \<and> nbat_ok b' \<and>
          vals bn = map (\<lambda>x. if x = nil (ntype b) then nil (ntype b) else x + 1) (vals b)"
  proof (cases "BATcalcincr hge b None True")
    case (Pair r b')
    then show ?thesis
      using none [of "add_switch hge" b'] add_sw.incrdecr_ok [OF assms, of hge _ b'] add_sw.incrdecr_fails [OF assms, of hge]
      unfolding switch_supported incr_supported incr_overflow [OF assms]
      by (cases r) (simp_all add: BATcalcincr_def)
  qed
  show "case BATcalcdecr hge b None True of
        (None, b') \<Rightarrow> b' = b \<and> (\<not> available hge (ntype b) \<or> - GDK_max (ntype b) \<in> set (vals b))
      | (Some bn, b') \<Rightarrow> available hge (ntype b) \<and> - GDK_max (ntype b) \<notin> set (vals b) \<and> nbat_ok bn \<and> nbat_ok b' \<and>
          vals bn = map (\<lambda>x. if x = nil (ntype b) then nil (ntype b) else x - 1) (vals b)"
  proof (cases "BATcalcdecr hge b None True")
    case (Pair r b')
    then show ?thesis
      using none [of "sub_switch hge" b'] sub_sw.incrdecr_ok [OF assms, of hge _ b'] sub_sw.incrdecr_fails [OF assms, of hge]
      unfolding switch_supported incr_supported incr_overflow [OF assms]
      by (cases r) (simp_all add: BATcalcdecr_def)
  qed
qed

theorem BATcalcincr_decr_ok_witness:
  "(case BATcalcincr True (bat_example [1, 2, 3]) None True of (None, b') \<Rightarrow> False
    | (Some bn, b') \<Rightarrow> nbat_ok bn \<and> vals bn = [2, 3, 4])"
proof -
  have "fst (BATcalcincr True (bat_example [1, 2, 3]) None True) \<noteq> None" by code_simp
  then show ?thesis
    using BATcalcincr_decr_ok [OF bat_example_ok(1), of True]
    by (auto simp: bat_example_def nil_def split: option.splits prod.splits)
qed

definition gap_cands :: "nat column" where
  "gap_cands = \<lparr>batFirst = 0, batCount = 2, ttail = TVals [0, 2],
                tsorted = True, trevsorted = False, tkey = True\<rparr>"

text \<open>With a candidate list the flags of an increment can be wrong: here the result is
  \<open>[2, nil, 4]\<close> and is flagged sorted, and the nil-free input is flagged to hold a nil.
\<close>

lemma incr_candidates_flags_wrong:
  "cands_ok (Some gap_cands) \<and> nbat_ok (bat_example [1, 2, 3]) \<and>
   (case BATcalcincr True (bat_example [1, 2, 3]) (Some gap_cands) True of (None, b') \<Rightarrow> False
    | (Some bn, b') \<Rightarrow> vals bn = [2, - 128, 4] \<and> nsorted bn \<and> \<not> nbat_ok bn \<and>
        vals b' = [1, 2, 3] \<and> has_nil b' \<and> \<not> nbat_ok b')"
proof -
  have cand: "cands_ok (Some gap_cands)"
    by (simp add: cands_ok_def cand_ok_def column_ok_def gap_cands_def BUN_NONE_def simple_CMP_sign)
  have N: "CANDINIT 0 3 (Some gap_cands)
      = \<lparr>c_start = 0, c_end = 3, c_cnt = 3, c_cand = Some [0, 2]\<rparr>"
    using candinit_vals [of gap_cands "[0, 2]" 0 3] cand
    by (simp add: cands_ok_def gap_cands_def adjust_start_def adjust_end_def)
  have "run_switch (add_switch True) 0 3 (Some gap_cands) [1, 2, 3] TYPE_bte 1 [1] TYPE_bte 0
      TYPE_bte True =
    typeswitchloop (add_switch True) [1, 2, 3] TYPE_bte 1 [1] TYPE_bte 0 (BATnew_tail 3) TYPE_bte
      3 0 3 (Some [0, 2]) 0 True"
    by (simp add: run_switch_def N)
  also have "\<dots> = Inr ([2, - 128, 4], 1)" by code_simp
  finally have R: "run_switch (add_switch True) 0 3 (Some gap_cands) [1, 2, 3] TYPE_bte 1 [1]
      TYPE_bte 0 TYPE_bte True = Inr ([2, - 128, 4], 1)" .
  show ?thesis
    using R cand bat_example_ok(1)
    by (simp add: BATcalcincr_def BATcalcincrdecr_def bat_example_def nbat_ok_def
        result_bat_def nil_def numeral_3_eq_3 numeral_2_eq_2)
qed

end
