(* ===== verification/Mtime_Date.thy ===== *)
theory Mtime_Date
  imports Gdk_Atoms
begin

text \<open>
  Dates (\<open>mal/modules/atoms/mtime.c\<close>): the calendar macros, \<open>leapyears\<close>, \<open>todate\<close> and
  \<open>fromdate\<close>.  A date is the number of days since January 1 of the internal year 0, stored
  in an \<open>int\<close>; the internal year 0 is shown as year -1, and so on for the years before it.
  C's truncating division and remainder are \<open>sdiv\<close> and \<open>smod\<close>.
\<close>

section \<open>The calendar\<close>

definition int_nil :: int where
  "int_nil = nil TYPE_int"

definition date_nil :: int where
  "date_nil = int_nil"

definition LEAPDAYS :: "int list" where
  "LEAPDAYS = [0, 31, 29, 31, 30, 31, 30, 31, 31, 30, 31, 30, 31]"

definition CUMDAYS :: "int list" where
  "CUMDAYS = [0, 31, 59, 90, 120, 151, 181, 212, 243, 273, 304, 334, 365]"

definition CUMLEAPDAYS :: "int list" where
  "CUMLEAPDAYS = [0, 31, 60, 91, 121, 152, 182, 213, 244, 274, 305, 335, 366]"

definition YEAR_MAX :: int where "YEAR_MAX = 5867411"
definition YEAR_MIN :: int where "YEAR_MIN = - YEAR_MAX"

definition leapyear :: "int \<Rightarrow> bool" where
  "leapyear y \<longleftrightarrow> y smod 4 = 0 \<and> (y smod 100 \<noteq> 0 \<or> y smod 400 = 0)"

definition MONTHDAYS :: "int \<Rightarrow> int \<Rightarrow> int" where
  "MONTHDAYS m y = (if m \<noteq> 2 then LEAPDAYS ! nat m else if leapyear y then 29 else 28)"

definition YEARDAYS :: "int \<Rightarrow> int" where
  "YEARDAYS y = (if leapyear y then 366 else 365)"

definition DATE :: "int \<Rightarrow> int \<Rightarrow> int \<Rightarrow> bool" where
  "DATE d m y \<longleftrightarrow> m > 0 \<and> m \<le> 12 \<and> d > 0 \<and> y \<noteq> 0 \<and> y \<ge> YEAR_MIN \<and> y \<le> YEAR_MAX \<and>
     d \<le> MONTHDAYS m y"

section \<open>Conversion\<close>

definition leapyears :: "int \<Rightarrow> int" where
  "leapyears year =
     (let y4 = year sdiv 4; y100 = year sdiv 100; y400 = year sdiv 400
      in y4 + y400 - y100 + (if year \<ge> 0 then 1 else 0))"

definition todate :: "int \<Rightarrow> int \<Rightarrow> int \<Rightarrow> int" where
  "todate day month year =
     (if DATE day month year then
        (let year = (if year < 0 then year + 1 else year);
             n = day - 1;
             n = (if month > 2 \<and> leapyear year then n + 1 else n);
             n = n + CUMDAYS ! nat (month - 1)
         in n + 365 * year + leapyears (if year \<ge> 0 then year - 1 else year))
      else date_nil)"

text \<open>The two loops of \<open>fromdate\<close> that adjust the estimated year.\<close>

function fromdate_up :: "int \<Rightarrow> int \<Rightarrow> int \<times> int" where
  "fromdate_up year day =
     (if day \<ge> 0 then fromdate_up (year + 1) (day - YEARDAYS (year + 1)) else (year, day))"
  by pat_completeness auto
termination
  by (relation "measure (\<lambda>(year, day). nat (day + 1))") (auto simp: YEARDAYS_def)

function fromdate_down :: "int \<Rightarrow> int \<Rightarrow> int \<times> int" where
  "fromdate_down year day =
     (if day < 0 then fromdate_down (year - 1) (day + YEARDAYS (year - 1)) else (year, day))"
  by pat_completeness auto
termination
  by (relation "measure (\<lambda>(year, day). nat (- day))") (auto simp: YEARDAYS_def)

declare fromdate_up.simps [simp del] fromdate_down.simps [simp del]

definition fromdate_year :: "int \<Rightarrow> int \<times> int" where
  "fromdate_year n =
     (let year = n sdiv 365;
          day = (n - year * 365) - leapyears (if year \<ge> 0 then year - 1 else year)
      in if n < 0 then
           (let (year, day) = fromdate_up (year - 1) day in (year, YEARDAYS year + day))
         else fromdate_down year day)"

text \<open>The loop over the months; 13 when no month contains the day.\<close>

function fromdate_month :: "int list \<Rightarrow> int \<Rightarrow> int \<Rightarrow> int" where
  "fromdate_month cum day month =
     (if month \<le> 12 then
        (if cum ! nat (month - 1) < day \<and> day \<le> cum ! nat month then month
         else fromdate_month cum day (month + 1))
      else month)"
  by pat_completeness auto
termination
  by (relation "measure (\<lambda>(cum, day, month). nat (13 - month))") auto

declare fromdate_month.simps [simp del]

text \<open>
  \<open>fromdate\<close> with all three result pointers given: day, month and year.  With some of them
  \<open>NULL\<close> the source stops early, with the same values for the others.
\<close>

definition fromdate :: "int \<Rightarrow> int \<times> int \<times> int" where
  "fromdate n =
     (if n = date_nil then (int_nil, int_nil, int_nil)
      else
        (let (year, day) = fromdate_year n;
             day = day + 1;
             cum = (if leapyear year then CUMLEAPDAYS else CUMDAYS);
             month = fromdate_month cum day (if day sdiv 31 = 0 then 1 else day sdiv 31);
             day = day - cum ! nat (month - 1)
         in (day, month, if year \<le> 0 then year - 1 else year)))"

section \<open>Day numbers\<close>

definition internal_year :: "int \<Rightarrow> int" where
  "internal_year y = (if y < 0 then y + 1 else y)"

text \<open>The leap years up to and including \<open>y\<close>, and the first day of a year.\<close>

definition leaps_upto :: "int \<Rightarrow> int" where
  "leaps_upto y = y div 4 - y div 100 + y div 400"

definition year_start :: "int \<Rightarrow> int" where
  "year_start y = 365 * y + leaps_upto (y - 1) + 1"

lemma leapyear_iff: "leapyear y \<longleftrightarrow> 4 dvd y \<and> (\<not> 100 dvd y \<or> 400 dvd y)"
  by (simp add: leapyear_def smod_eq_0_iff)

lemma leapyears_eq:
  "leapyears (if y \<ge> 0 then y - 1 else y) = leaps_upto (y - 1) + 1"
proof -
  consider "y < 0" | "y = 0" | "1 \<le> y" by linarith
  then show ?thesis
  proof cases
    case 1
    then show ?thesis
      by (simp add: leapyears_def leaps_upto_def cint_simps neg_div_neg)
  next
    case 2
    then show ?thesis by (simp add: leapyears_def leaps_upto_def cint_simps)
  next
    case 3
    then show ?thesis by (simp add: leapyears_def leaps_upto_def cint_simps)
  qed
qed

lemma year_start_Suc: "year_start (y + 1) = year_start y + YEARDAYS y"
  using div_step [of 4 y] div_step [of 100 y] div_step [of 400 y]
  by (auto simp: year_start_def leaps_upto_def YEARDAYS_def leapyear_iff)

lemma YEARDAYS_pos: "0 < YEARDAYS y"
  by (simp add: YEARDAYS_def)

lemma year_start_less: "y < y' \<Longrightarrow> year_start y + YEARDAYS y \<le> year_start y'"
proof (induction y' rule: int_gr_induct)
  case base
  then show ?case by (simp add: year_start_Suc)
next
  case (step z)
  then show ?case using year_start_Suc [of z] YEARDAYS_pos [of z] by linarith
qed

lemma year_start_unique:
  assumes "year_start y + d = year_start y' + d'" "0 \<le> d" "d < YEARDAYS y" "0 \<le> d'" "d' < YEARDAYS y'"
  shows "y = y' \<and> d = d'"
  using assms year_start_less [of y y'] year_start_less [of y' y]
  by (cases y y' rule: linorder_cases) auto

lemma fromdate_up_correct:
  "fromdate_up year day = (y, d) \<Longrightarrow> 0 \<le> YEARDAYS year + day \<Longrightarrow>
   year_start y + YEARDAYS y + d = year_start year + YEARDAYS year + day \<and>
   0 \<le> YEARDAYS y + d \<and> d < 0"
proof (induction year day rule: fromdate_up.induct)
  case (1 year day)
  show ?case
  proof (cases "day \<ge> 0")
    case True
    then have "fromdate_up (year + 1) (day - YEARDAYS (year + 1)) = (y, d)"
      using "1.prems"(1) by (simp add: fromdate_up.simps [of year day])
    from "1.IH" [OF True this] True show ?thesis by (simp add: year_start_Suc)
  next
    case False
    then show ?thesis using "1.prems" by (simp add: fromdate_up.simps [of year day])
  qed
qed

lemma fromdate_down_correct:
  "fromdate_down year day = (y, d) \<Longrightarrow> day < YEARDAYS year \<Longrightarrow>
   year_start y + d = year_start year + day \<and> 0 \<le> d \<and> d < YEARDAYS y"
proof (induction year day rule: fromdate_down.induct)
  case (1 year day)
  show ?case
  proof (cases "day < 0")
    case True
    then have "fromdate_down (year - 1) (day + YEARDAYS (year - 1)) = (y, d)"
      using "1.prems"(1) by (simp add: fromdate_down.simps [of year day])
    from "1.IH" [OF True this] True show ?thesis using year_start_Suc [of "year - 1"] by simp
  next
    case False
    then show ?thesis using "1.prems" by (simp add: fromdate_down.simps [of year day])
  qed
qed

lemma leaps_upto_sign: "0 \<le> y \<Longrightarrow> 0 \<le> leaps_upto y" "y < 0 \<Longrightarrow> leaps_upto y \<le> -1"
proof -
  have "leaps_upto y = y div 4 - y div 100 + y div 400" by (simp add: leaps_upto_def)
  moreover have "y div 100 \<le> y div 4" if "0 \<le> y" using that by (intro zdiv_mono2) auto
  moreover have "0 \<le> y div 400" if "0 \<le> y" using that by (simp add: pos_imp_zdiv_nonneg_iff)
  moreover have "y div 4 \<le> y div 100" if "y < 0" using that by (intro zdiv_mono2_neg) auto
  moreover have "y div 400 \<le> -1" if "y < 0" using that by simp
  ultimately show "0 \<le> y \<Longrightarrow> 0 \<le> leaps_upto y" "y < 0 \<Longrightarrow> leaps_upto y \<le> -1" by linarith+
qed

lemma div_365_bounds:
  fixes n q :: int
  defines "q \<equiv> n div 365"
  shows "365 * q \<le> n" "n < 365 * q + 365" "0 \<le> n \<Longrightarrow> 0 \<le> q"
  using pos_mod_sign [of 365 n] pos_mod_bound [of 365 n] minus_mod_eq_mult_div [of n 365]
  by (simp_all add: q_def pos_imp_zdiv_nonneg_iff algebra_simps)

lemma fromdate_year_correct:
  assumes "fromdate_year n = (y, d)"
  shows "n = year_start y + d \<and> 0 \<le> d \<and> d < YEARDAYS y"
proof -
  define y0 where "y0 = n sdiv 365"
  have day: "(n - y0 * 365) - leapyears (if y0 \<ge> 0 then y0 - 1 else y0) = n - year_start y0"
    by (simp add: leapyears_eq year_start_def)
  show ?thesis
  proof (cases "n < 0")
    case True
    obtain y1 d1 where up: "fromdate_up (y0 - 1) (n - year_start y0) = (y1, d1)" by fastforce
    have y0: "y0 = - ((- n) div 365)" using True by (simp add: y0_def cint_simps)
    then have y0: "365 * (y0 - 1) + 1 \<le> n" "y0 \<le> 0"
      using True div_365_bounds [of "- n"] by auto
    then have "year_start (y0 - 1) \<le> n"
      using leaps_upto_sign(2) [of "y0 - 2"] by (simp add: year_start_def)
    then have "0 \<le> YEARDAYS (y0 - 1) + (n - year_start y0)"
      using year_start_Suc [of "y0 - 1"] by simp
    from fromdate_up_correct [OF up this] show ?thesis
      using assms True up year_start_Suc [of "y0 - 1"]
      by (auto simp: fromdate_year_def Let_def day y0_def [symmetric])
  next
    case False
    then have y0: "y0 = n div 365" by (simp add: y0_def cint_simps)
    then have "n < 365 * (y0 + 1)" "0 \<le> y0" using False div_365_bounds [of n] by auto
    then have "n < year_start (y0 + 1)"
      using leaps_upto_sign(1) [of y0] by (simp add: year_start_def)
    then have "n - year_start y0 < YEARDAYS y0" using year_start_Suc [of y0] by simp
    from fromdate_down_correct [OF _ this] show ?thesis
      using assms False by (auto simp: fromdate_year_def Let_def day y0_def [symmetric])
  qed
qed

section \<open>Months\<close>

definition cumdays :: "int \<Rightarrow> int list" where
  "cumdays y = (if leapyear y then CUMLEAPDAYS else CUMDAYS)"

lemma month_cases:
  assumes "1 \<le> m" "m \<le> (12::int)"
  obtains "m = 1" | "m = 2" | "m = 3" | "m = 4" | "m = 5" | "m = 6" | "m = 7" | "m = 8" | "m = 9"
    | "m = 10" | "m = 11" | "m = 12"
  using assms by (smt (verit))

lemma cumdays_Suc:
  "1 \<le> m \<Longrightarrow> m \<le> 12 \<Longrightarrow> cumdays y ! nat m = cumdays y ! nat (m - 1) + MONTHDAYS m y"
  by (erule (1) month_cases)
    (simp_all add: cumdays_def CUMDAYS_def CUMLEAPDAYS_def MONTHDAYS_def LEAPDAYS_def
      nth_Cons' numeral_eq_Suc)

lemma cumdays_le: "1 \<le> m \<Longrightarrow> m \<le> 12 \<Longrightarrow> cumdays y ! nat m \<le> 31 * m"
  by (erule (1) month_cases)
    (simp_all add: cumdays_def CUMDAYS_def CUMLEAPDAYS_def nth_Cons' numeral_eq_Suc)

lemma MONTHDAYS_pos: "1 \<le> m \<Longrightarrow> m \<le> 12 \<Longrightarrow> 28 \<le> MONTHDAYS m y \<and> MONTHDAYS m y \<le> 31"
  by (erule (1) month_cases) (simp_all add: MONTHDAYS_def LEAPDAYS_def nth_Cons' numeral_eq_Suc)

lemma cumdays_bounds: "cumdays y ! 0 = 0" "cumdays y ! 12 = YEARDAYS y"
  by (simp_all add: cumdays_def CUMDAYS_def CUMLEAPDAYS_def YEARDAYS_def)

lemma cumdays_mono: "k \<le> m \<Longrightarrow> 0 \<le> k \<Longrightarrow> m \<le> 12 \<Longrightarrow> cumdays y ! nat k \<le> cumdays y ! nat m"
proof (induction m rule: int_ge_induct)
  case (step i)
  have "cumdays y ! nat (i + 1) = cumdays y ! nat i + MONTHDAYS (i + 1) y"
    using cumdays_Suc [of "i + 1" y] step.prems step.hyps by simp
  moreover have "28 \<le> MONTHDAYS (i + 1) y"
    using MONTHDAYS_pos [of "i + 1" y] step.prems step.hyps by simp
  moreover have "cumdays y ! nat k \<le> cumdays y ! nat i" using step by simp
  ultimately show ?case by linarith
qed simp_all

lemma fromdate_month_find:
  assumes "cum ! nat (m - 1) < day" "day \<le> cum ! nat m" "m \<le> 12"
    and "\<And>j. k \<le> j \<Longrightarrow> j < m \<Longrightarrow> cum ! nat j < day"
  shows "k \<le> m \<Longrightarrow> fromdate_month cum day k = m"
  using assms(4)
proof (induction "nat (m - k)" arbitrary: k)
  case 0
  then show ?case using assms(1-3) by (simp add: fromdate_month.simps)
next
  case (Suc x)
  then have lt: "k < m" by simp
  then have "\<not> day \<le> cum ! nat k" using Suc.prems by force
  moreover have "fromdate_month cum day (k + 1) = m"
    by (rule Suc.hyps(1)) (use Suc.hyps(2) Suc.prems lt in auto)
  ultimately show ?case using lt assms(3) by (simp add: fromdate_month.simps [of cum day k])
qed

lemma month_of_day:
  assumes "1 \<le> day" "day \<le> YEARDAYS y"
  obtains m where "1 \<le> m" "m \<le> 12" "cumdays y ! nat (m - 1) < day" "day \<le> cumdays y ! nat m"
proof -
  have "\<exists>m. 1 \<le> m \<and> m \<le> 12 \<and> cumdays y ! nat (m - 1) < day \<and> day \<le> cumdays y ! nat m"
  proof (rule ccontr)
    assume "\<not> ?thesis"
    then have *: "1 \<le> m \<Longrightarrow> m \<le> 12 \<Longrightarrow> cumdays y ! nat (m - 1) < day \<Longrightarrow> cumdays y ! nat m < day"
      for m by force
    have "k \<le> 12 \<Longrightarrow> cumdays y ! nat k < day" if "0 \<le> k" for k :: int
      using that
    proof (induction k rule: int_ge_induct)
      case base
      then show ?case using assms(1) by (simp add: cumdays_bounds)
    next
      case (step i)
      then show ?case using * [of "i + 1"] by simp
    qed
    from this [of 12] show False using assms(2) by (simp add: cumdays_bounds)
  qed
  then show ?thesis using that by blast
qed

lemma fromdate_month_correct:
  assumes "1 \<le> m" "m \<le> 12" "cumdays y ! nat (m - 1) < day" "day \<le> cumdays y ! nat m"
  shows "fromdate_month (cumdays y) day (if day sdiv 31 = 0 then 1 else day sdiv 31) = m"
proof (rule fromdate_month_find)
  have pos: "0 < day" using assms(1,2,3) cumdays_mono [of 0 "m - 1" y] cumdays_bounds(1) by simp
  then have "day sdiv 31 = day div 31" by (simp add: cint_simps)
  moreover have "day \<le> 31 * m" using assms(4) cumdays_le [OF assms(1,2), of y] by linarith
  then have "day div 31 \<le> m" by simp
  moreover have "0 \<le> day div 31" using pos by (simp add: pos_imp_zdiv_nonneg_iff)
  ultimately show "(if day sdiv 31 = 0 then 1 else day sdiv 31) \<le> m"
    and "\<And>j. (if day sdiv 31 = 0 then 1 else day sdiv 31) \<le> j \<Longrightarrow> j < m \<Longrightarrow>
      cumdays y ! nat j < day"
  proof -
    show "(if day sdiv 31 = 0 then 1 else day sdiv 31) \<le> m"
      using \<open>day sdiv 31 = day div 31\<close> \<open>day div 31 \<le> m\<close> assms(1) by simp
    fix j assume j: "(if day sdiv 31 = 0 then 1 else day sdiv 31) \<le> j" "j < m"
    then have "0 \<le> j"
      using \<open>day sdiv 31 = day div 31\<close> \<open>0 \<le> day div 31\<close> by (auto split: if_splits)
    then show "cumdays y ! nat j < day"
      using cumdays_mono [of j "m - 1" y] j(2) assms(2,3) by simp
  qed
qed (use assms in auto)

section \<open>The codec of dates\<close>

text \<open>
  The days that \<open>fromdate\<close> counts: unlike the macro \<open>DATE\<close>, with the month length of the internal year
  and without bounds on the year.  The two differ on February 29 of years before 1.
\<close>

definition calendar_day :: "int \<Rightarrow> int \<Rightarrow> int \<Rightarrow> bool" where
  "calendar_day d m y \<longleftrightarrow> y \<noteq> 0 \<and> 1 \<le> m \<and> m \<le> 12 \<and> 1 \<le> d \<and> d \<le> MONTHDAYS m (internal_year y)"

definition day_number :: "int \<Rightarrow> int \<Rightarrow> int \<Rightarrow> int" where
  "day_number d m y =
     year_start (internal_year y) + cumdays (internal_year y) ! nat (m - 1) + d - 1"

lemma todate_day_number:
  assumes "DATE d m y"
  shows "todate d m y = day_number d m y"
proof -
  let ?y = "internal_year y"
  have m: "1 \<le> m" "m \<le> 12" using assms by (auto simp: DATE_def)
  have "cumdays ?y ! nat (m - 1) = CUMDAYS ! nat (m - 1) + (if m > 2 \<and> leapyear ?y then 1 else 0)"
    using m by (rule month_cases) (simp_all add: cumdays_def CUMDAYS_def CUMLEAPDAYS_def
        nth_Cons' numeral_eq_Suc)
  moreover have "todate d m y = d - 1 + (if m > 2 \<and> leapyear ?y then 1 else 0)
      + CUMDAYS ! nat (m - 1) + 365 * ?y + leapyears (if ?y \<ge> 0 then ?y - 1 else ?y)"
    using assms unfolding todate_def Let_def internal_year_def [symmetric] by simp
  ultimately show ?thesis by (simp add: leapyears_eq day_number_def year_start_def)
qed

lemma day_in_year:
  assumes "calendar_day d m y"
  shows "0 \<le> cumdays (internal_year y) ! nat (m - 1) + d - 1"
    "cumdays (internal_year y) ! nat (m - 1) + d \<le> cumdays (internal_year y) ! nat m"
    "cumdays (internal_year y) ! nat m \<le> YEARDAYS (internal_year y)"
proof -
  have m: "1 \<le> m" "m \<le> 12" and d: "1 \<le> d" "d \<le> MONTHDAYS m (internal_year y)"
    using assms by (auto simp: calendar_day_def)
  show "0 \<le> cumdays (internal_year y) ! nat (m - 1) + d - 1"
    using cumdays_mono [of 0 "m - 1" "internal_year y"] m d by (simp add: cumdays_bounds)
  show "cumdays (internal_year y) ! nat (m - 1) + d \<le> cumdays (internal_year y) ! nat m"
    using cumdays_Suc [OF m] d by simp
  show "cumdays (internal_year y) ! nat m \<le> YEARDAYS (internal_year y)"
    using cumdays_mono [of m 12 "internal_year y"] m by (simp add: cumdays_bounds)
qed

lemma fromdate_day_number:
  assumes cal: "calendar_day d m y" and nil: "day_number d m y \<noteq> date_nil"
  shows "fromdate (day_number d m y) = (d, m, y)"
proof -
  let ?y = "internal_year y" and ?n = "day_number d m y"
  let ?cum = "cumdays ?y ! nat (m - 1)"
  note B = day_in_year [OF cal]
  have m: "1 \<le> m" "m \<le> 12" and d: "1 \<le> d" and y: "y \<noteq> 0" using cal by (auto simp: calendar_day_def)
  obtain y1 d1 where yr: "fromdate_year ?n = (y1, d1)" by fastforce
  have "y1 = ?y \<and> d1 = ?cum + d - 1"
    using fromdate_year_correct [OF yr] B
    by (intro year_start_unique) (auto simp: day_number_def)
  moreover have "fromdate_month (cumdays ?y) (?cum + d)
      (if (?cum + d) sdiv 31 = 0 then 1 else (?cum + d) sdiv 31) = m"
    using m d B by (intro fromdate_month_correct) auto
  ultimately show ?thesis
    using nil yr y
    by (simp add: fromdate_def Let_def cumdays_def [symmetric] internal_year_def split: if_splits)
qed

lemma fromdate_calendar:
  assumes n: "n \<noteq> date_nil" and f: "fromdate n = (d, m, y)"
  shows "calendar_day d m y" "day_number d m y = n"
proof -
  obtain y1 d1 where yr: "fromdate_year n = (y1, d1)" by fastforce
  note Y = fromdate_year_correct [OF yr]
  obtain m1 where m1: "1 \<le> m1" "m1 \<le> 12" "cumdays y1 ! nat (m1 - 1) < d1 + 1"
    "d1 + 1 \<le> cumdays y1 ! nat m1"
    by (rule month_of_day [of "d1 + 1" y1]) (use Y in auto)
  have mon: "fromdate_month (cumdays y1) (d1 + 1)
      (if (d1 + 1) sdiv 31 = 0 then 1 else (d1 + 1) sdiv 31) = m1"
    by (rule fromdate_month_correct [OF m1])
  have r: "m = m1" "d = d1 + 1 - cumdays y1 ! nat (m1 - 1)" "y = (if y1 \<le> 0 then y1 - 1 else y1)"
    using f n yr mon by (auto simp: fromdate_def Let_def cumdays_def [symmetric])
  have iy: "internal_year y = y1" using r(3) by (auto simp: internal_year_def)
  have "y \<noteq> 0" using r(3) by (auto split: if_splits)
  then show "calendar_day d m y"
    using m1 cumdays_Suc [OF m1(1,2), of y1] by (simp add: calendar_day_def iy r(1,2))
  show "day_number d m y = n" using Y unfolding day_number_def iy r(1,2) by simp
qed


lemma leaps_upto_bounds:
  assumes "\<bar>y\<bar> \<le> 6000000"
  shows "\<bar>leaps_upto y\<bar> \<le> 1600000"
proof -
  have "leaps_upto y = y div 4 - y div 100 + y div 400" by (simp add: leaps_upto_def)
  moreover have "-1500000 \<le> y div 4" "y div 4 \<le> 1500000" "-60000 \<le> y div 100" "y div 100 \<le> 60000"
    "-15000 \<le> y div 400" "y div 400 \<le> 15000"
    using assms by (auto simp: abs_le_iff intro: div_pos_geq)
  ultimately show ?thesis by linarith
qed

lemma day_number_range:
  assumes "DATE d m y"
  shows "\<bar>day_number d m y\<bar> < 2147483647"
proof -
  let ?y = "internal_year y"
  have y: "\<bar>?y\<bar> \<le> 5867411" using assms by (auto simp: DATE_def internal_year_def YEAR_MIN_def YEAR_MAX_def)
  then have "\<bar>year_start ?y\<bar> \<le> 365 * 5867411 + 1600001"
    using leaps_upto_bounds [of "?y - 1"] unfolding year_start_def by linarith
  moreover have "1 \<le> m" "m \<le> 12" "1 \<le> d" "d \<le> MONTHDAYS m y" using assms by (auto simp: DATE_def)
  then have "0 \<le> cumdays ?y ! nat (m - 1)" "cumdays ?y ! nat (m - 1) \<le> 366" "d \<le> 31" "1 \<le> d"
    using cumdays_mono [of 0 "m - 1" ?y] cumdays_mono [of "m - 1" 12 ?y] MONTHDAYS_pos [of m y]
      cumdays_bounds [of ?y]
    by (auto simp: YEARDAYS_def split: if_splits)
  ultimately show ?thesis unfolding day_number_def by linarith
qed

definition valid_date :: "int \<times> int \<times> int \<Rightarrow> bool" where
  "valid_date = (\<lambda>(d, m, y). DATE d m y \<and> calendar_day d m y)"

lemma valid_date_todate:
  assumes "DATE d m y" "calendar_day d m y"
  shows "fromdate (todate d m y) = (d, m, y)" "of_type TYPE_int (todate d m y)"
    "todate d m y \<noteq> date_nil"
proof -
  note R = day_number_range [OF assms(1)]
  then have "day_number d m y \<noteq> date_nil" by (auto simp: date_nil_def int_nil_def nil_def)
  then show "fromdate (todate d m y) = (d, m, y)" "of_type TYPE_int (todate d m y)"
    "todate d m y \<noteq> date_nil"
    using assms R fromdate_day_number by (auto simp: todate_day_number of_type_def)
qed

interpretation date_codec: codec valid_date "\<lambda>(d, m, y). todate d m y" fromdate
  by unfold_locales (auto simp: valid_date_def valid_date_todate)

lemma leapyear_next: "leapyear y \<Longrightarrow> \<not> leapyear (y + 1)"
proof -
  have "4 dvd y \<Longrightarrow> \<not> 4 dvd y + 1" by presburger
  then show "leapyear y \<Longrightarrow> \<not> leapyear (y + 1)" by (simp add: leapyear_iff)
qed

text \<open>The one day of \<open>DATE\<close> that is not counted: February 29 of a year before 1.\<close>

lemma DATE_counted:
  assumes "DATE d m y"
  shows "calendar_day d m y \<longleftrightarrow> \<not> (y < 0 \<and> m = 2 \<and> d = 29)"
proof -
  have b: "1 \<le> m" "m \<le> 12" "1 \<le> d" "d \<le> MONTHDAYS m y" "y \<noteq> 0" using assms by (auto simp: DATE_def)
  show ?thesis using b leapyear_next [of y] by (auto simp: calendar_day_def internal_year_def MONTHDAYS_def split: if_splits)
qed

lemma counted_DATE:
  assumes "calendar_day d m y"
  shows "DATE d m y \<longleftrightarrow> YEAR_MIN \<le> y \<and> y \<le> YEAR_MAX \<and> \<not> (y < 0 \<and> m = 2 \<and> d = 29)"
proof -
  have "d \<le> MONTHDAYS m (internal_year y)" "1 \<le> m" "m \<le> 12" "1 \<le> d" "y \<noteq> 0"
    using assms by (auto simp: calendar_day_def)
  then show ?thesis using leapyear_next [of y] by (auto simp: DATE_def internal_year_def MONTHDAYS_def split: if_splits)
qed

lemma leap_day_moves:
  assumes "DATE 29 2 y" "y < 0"
  shows "DATE 1 3 y" "calendar_day 1 3 y" "todate 29 2 y = todate 1 3 y"
proof -
  have leap: "leapyear y" using assms(1) by (auto simp: DATE_def MONTHDAYS_def split: if_splits)
  then have "\<not> leapyear (y + 1)" by (rule leapyear_next)
  then have "day_number 29 2 y = day_number 1 3 y"
    using assms(2) by (simp add: day_number_def internal_year_def cumdays_def CUMDAYS_def)
  moreover show date: "DATE 1 3 y" using assms(1) by (simp add: DATE_def MONTHDAYS_def LEAPDAYS_def)
  ultimately show "todate 29 2 y = todate 1 3 y" using assms(1) by (simp add: todate_day_number)
  show "calendar_day 1 3 y" using DATE_counted [OF date] by simp
qed

definition counted_day :: "int \<times> int \<times> int \<Rightarrow> int \<times> int \<times> int" where
  "counted_day = (\<lambda>(d, m, y). if y < 0 \<and> m = 2 \<and> d = 29 then (1, 3, y) else (d, m, y))"

lemma DATE_counted_day:
  assumes "DATE d m y" "counted_day (d, m, y) = (d', m', y')"
  shows "valid_date (d', m', y')" "todate d' m' y' = todate d m y"
proof -
  have "valid_date (d', m', y') \<and> todate d' m' y' = todate d m y"
  proof (cases "y < 0 \<and> m = 2 \<and> d = 29")
    case True
    then show ?thesis using assms leap_day_moves [of y] by (auto simp: counted_day_def valid_date_def)
  next
    case False
    then show ?thesis using assms DATE_counted [OF assms(1)] by (auto simp: counted_day_def valid_date_def)
  qed
  then show "valid_date (d', m', y')" "todate d' m' y' = todate d m y" by blast+
qed

text \<open>
  C25. Dates round trip: for every day, month and year that the macro \<open>DATE\<close> accepts \<open>todate\<close> gives a
  non-nil \<open>int\<close> and \<open>fromdate\<close> gives the same day, month and year back, but for February 29 of a year
  before 1, which comes back as March 1.  Different days have different numbers, but for these two.
\<close>

theorem date_roundtrip:
  assumes "DATE d m y"
  shows "fromdate (todate d m y) = (if y < 0 \<and> m = 2 \<and> d = 29 then (1, 3, y) else (d, m, y))
    \<and> todate d m y \<noteq> date_nil \<and> of_type TYPE_int (todate d m y)
    \<and> (\<forall>d' m' y'. DATE d' m' y' \<longrightarrow> todate d m y = todate d' m' y' \<longrightarrow>
         (d', m', y') = (d, m, y) \<or> y < 0 \<and> y' = y \<and> {(d, m), (d', m')} = {(29, 2), (1, 3)})"
proof -
  obtain d1 m1 y1 where c: "counted_day (d, m, y) = (d1, m1, y1)" by (cases "counted_day (d, m, y)")
  note D = DATE_counted_day [OF assms c]
  have "DATE d1 m1 y1" "calendar_day d1 m1 y1" using D(1) by (auto simp: valid_date_def)
  from valid_date_todate [OF this] have "fromdate (todate d m y) = counted_day (d, m, y)"
    "todate d m y \<noteq> date_nil" "of_type TYPE_int (todate d m y)"
    unfolding D(2) c by blast+
  moreover have "(d', m', y') = (d, m, y) \<or> y < 0 \<and> y' = y \<and> {(d, m), (d', m')} = {(29, 2), (1, 3)}"
    if d': "DATE d' m' y'" and eq: "todate d m y = todate d' m' y'" for d' m' y'
  proof -
    obtain d2 m2 y2 where c2: "counted_day (d', m', y') = (d2, m2, y2)" by (cases "counted_day (d', m', y')")
    note D2 = DATE_counted_day [OF d' c2]
    have "counted_day (d, m, y) = counted_day (d', m', y')"
      using date_codec.enc_inj [OF D(1) D2(1)] D(2) D2(2) eq by (simp add: c c2)
    then show ?thesis by (auto simp: counted_day_def split: if_splits)
  qed
  ultimately show ?thesis by (simp add: counted_day_def)
qed

theorem date_roundtrip_witness:
  "fromdate (todate 29 2 2000) = (29, 2, 2000) \<and> fromdate (todate 29 2 (- 4)) = (1, 3, - 4)"
  using date_roundtrip [of 29 2 2000, THEN conjunct1] date_roundtrip [of 29 2 "- 4", THEN conjunct1]
  by (simp add: DATE_def MONTHDAYS_def LEAPDAYS_def leapyear_iff YEAR_MIN_def YEAR_MAX_def)

text \<open>
  C26. \<open>fromdate\<close> on every non-nil day number: the month is one of the twelve, the day one of a month, the
  year not 0, and no two numbers give the same day.  If the year is supported and the day is not
  February 29 of a year before 1, it is a date and \<open>todate\<close> gives the number back; otherwise no date
  has that number, and \<open>DATE\<close> rejects the day.
\<close>

theorem fromdate_finds_day:
  assumes "n \<noteq> date_nil" and "fromdate n = (d, m, y)"
  shows "1 \<le> m \<and> m \<le> 12 \<and> 1 \<le> d \<and> d \<le> 31 \<and> y \<noteq> 0
    \<and> (\<forall>n'. n' \<noteq> date_nil \<longrightarrow> fromdate n' = (d, m, y) \<longrightarrow> n' = n)
    \<and> (if YEAR_MIN \<le> y \<and> y \<le> YEAR_MAX \<and> \<not> (y < 0 \<and> m = 2 \<and> d = 29)
       then DATE d m y \<and> todate d m y = n
       else \<not> DATE d m y \<and> (\<forall>d' m' y'. DATE d' m' y' \<longrightarrow> todate d' m' y' \<noteq> n))"
proof -
  note C = fromdate_calendar [OF assms]
  have b: "1 \<le> m" "m \<le> 12" "1 \<le> d" "d \<le> MONTHDAYS m (internal_year y)" "y \<noteq> 0"
    using C(1) by (auto simp: calendar_day_def)
  then have "d \<le> 31" using MONTHDAYS_pos [OF b(1,2), of "internal_year y"] by linarith
  moreover have "n' = n" if "n' \<noteq> date_nil" "fromdate n' = (d, m, y)" for n'
    using fromdate_calendar(2) [OF that] C(2) by simp
  moreover have "todate d m y = n" if "DATE d m y" using todate_day_number [OF that] C(2) by simp
  moreover have "DATE d m y" if d': "DATE d' m' y'" "todate d' m' y' = n" for d' m' y'
  proof -
    obtain d1 m1 y1 where c: "counted_day (d', m', y') = (d1, m1, y1)" by (cases "counted_day (d', m', y')")
    note D = DATE_counted_day [OF d'(1) c]
    then have "fromdate n = (d1, m1, y1)" using valid_date_todate(1) [of d1 m1 y1] d'(2) by (simp add: valid_date_def)
    then show ?thesis using D(1) assms(2) by (simp add: valid_date_def)
  qed
  ultimately show ?thesis using b counted_DATE [OF C(1)] by auto
qed

theorem fromdate_finds_day_witness:
  "\<exists>d m y. fromdate 730000 = (d, m, y) \<and> 1 \<le> m \<and> m \<le> 12 \<and> y \<noteq> 0"
proof -
  obtain d m y where f: "fromdate 730000 = (d, m, y)" by (cases "fromdate 730000") auto
  show ?thesis
    using fromdate_finds_day [OF _ f] f by (auto simp: date_nil_def int_nil_def nil_def)
qed

section \<open>Order\<close>

lemma day_number_mono_year:
  assumes "calendar_day d m y" "calendar_day d' m' y'" "y < y'"
  shows "day_number d m y < day_number d' m' y'"
proof -
  have "internal_year y < internal_year y'"
    using assms by (auto simp: internal_year_def calendar_day_def)
  then show ?thesis
    using year_start_less day_in_year [OF assms(1)] day_in_year(1) [OF assms(2)]
    unfolding day_number_def by fastforce
qed

lemma day_number_mono_month:
  assumes "calendar_day d m y" "calendar_day d' m' y" "m < m'"
  shows "day_number d m y < day_number d' m' y"
proof -
  have "cumdays (internal_year y) ! nat m \<le> cumdays (internal_year y) ! nat (m' - 1)"
    using assms by (intro cumdays_mono) (auto simp: calendar_day_def)
  then show ?thesis
    using day_in_year(2) [OF assms(1)] assms(2) by (simp add: day_number_def calendar_day_def)
qed

text \<open>The order of the day numbers is the order of the calendar: comparing two dates as
  integers compares year, month and day lexicographically, across the missing year 0.
\<close>

lemma date_order:
  assumes "calendar_day d m y" and "calendar_day d' m' y'"
  shows "day_number d m y < day_number d' m' y' \<longleftrightarrow>
    y < y' \<or> y = y' \<and> (m < m' \<or> m = m' \<and> d < d')"
proof (cases y y' rule: linorder_cases)
  case equal
  then show ?thesis
    using assms day_number_mono_month [of d m y d' m'] day_number_mono_month [of d' m' y d m]
    by (cases m m' rule: linorder_cases) (auto simp: day_number_def)
qed (use assms day_number_mono_year [OF assms] day_number_mono_year [OF assms(2,1)] in auto)

theorem date_order_witness:
  "day_number 31 12 (- 1) < day_number 1 1 1"
  using date_order [of 31 12 "- 1" 1 1 1]
  by (simp add: calendar_day_def MONTHDAYS_def LEAPDAYS_def)

text \<open>Before year 1 the macro \<open>DATE\<close> tests the wrong year for leap years: February 29 of
  year -4 is accepted and becomes March 1, while the leap day of the internal leap year shown
  as -1 is rejected although \<open>fromdate\<close> produces it.
\<close>

lemma leap_day_before_year_1:
  "DATE 29 2 (- 4) \<and> todate 29 2 (- 4) = todate 1 3 (- 4)
    \<and> fromdate (todate 29 2 (- 4)) = (1, 3, - 4)
    \<and> fromdate 59 = (29, 2, - 1) \<and> todate 29 2 (- 1) = date_nil"
proof -
  have d: "DATE 29 2 (- 4)" "DATE 1 3 (- 4)" "calendar_day 1 3 (- 4)" "calendar_day 29 2 (- 1)"
    "\<not> DATE 29 2 (- 1)"
    by (simp_all add: DATE_def calendar_day_def MONTHDAYS_def LEAPDAYS_def leapyear_iff
        internal_year_def YEAR_MIN_def YEAR_MAX_def)
  have "todate 29 2 (- 4) = todate 1 3 (- 4)"
    using d by (simp add: todate_day_number day_number_def internal_year_def cumdays_def
        leapyear_iff CUMDAYS_def)
  moreover have "day_number 29 2 (- 1) = 59"
    by (simp add: day_number_def internal_year_def year_start_def leaps_upto_def cumdays_def
        leapyear_iff CUMLEAPDAYS_def)
  then have "fromdate 59 = (29, 2, - 1)"
    using fromdate_day_number [OF d(4)] by (simp add: date_nil_def int_nil_def nil_def)
  moreover have "fromdate (todate 1 3 (- 4)) = (1, 3, - 4)" by (rule valid_date_todate(1) [OF d(2,3)])
  moreover have "todate 29 2 (- 1) = date_nil" using d(5) by (simp add: todate_def)
  ultimately show ?thesis using d(1) by metis
qed

end
