(* ===== verification/Mtime_Arith.thy ===== *)
theory Mtime_Arith
  imports Mtime_Date
begin

text \<open>
  Daytimes, timestamps and calendar arithmetic (\<open>mal/modules/atoms/mtime.c\<close>): \<open>totime\<close> and
  \<open>fromtime\<close>, the \<open>MTIME...\<close> operations that add, subtract and extract, and
  \<open>date_dayofweek\<close>.  A result pointer is a returned value; all these functions report
  success, failure being a nil result.
\<close>

section \<open>Daytimes\<close>

definition daytime_nil :: int where
  "daytime_nil = int_nil"

definition TIME :: "int \<Rightarrow> int \<Rightarrow> int \<Rightarrow> int \<Rightarrow> bool" where
  "TIME h m s x \<longleftrightarrow> h \<ge> 0 \<and> h < 24 \<and> m \<ge> 0 \<and> m < 60 \<and> s \<ge> 0 \<and> s < 60 \<and> x \<ge> 0 \<and> x < 1000"

definition totime :: "int \<Rightarrow> int \<Rightarrow> int \<Rightarrow> int \<Rightarrow> int" where
  "totime hour mnt sec msec =
     (if TIME hour mnt sec msec then (((hour * 60) + mnt) * 60 + sec) * 1000 + msec
      else daytime_nil)"

definition fromtime :: "int \<Rightarrow> int \<times> int \<times> int \<times> int" where
  "fromtime n =
     (if n \<noteq> daytime_nil then
        (let h = n sdiv 3600000; n = n - h * 3600000;
             m = n sdiv 60000; n = n - m * 60000;
             s = n sdiv 1000; n = n - s * 1000
         in (h, m, s, n))
      else (int_nil, int_nil, int_nil, int_nil))"

definition MTIMEdaytime_create :: "int \<Rightarrow> int \<Rightarrow> int \<Rightarrow> int \<Rightarrow> int" where
  "MTIMEdaytime_create hour mnt sec msec = totime hour mnt sec msec"

definition MTIMEdaytime_extract_hours :: "int \<Rightarrow> int" where
  "MTIMEdaytime_extract_hours v =
     (if v = daytime_nil then int_nil else (case fromtime v of (h, m, s, ms) \<Rightarrow> h))"

definition MTIMEdaytime_extract_minutes :: "int \<Rightarrow> int" where
  "MTIMEdaytime_extract_minutes v =
     (if v = daytime_nil then int_nil else (case fromtime v of (h, m, s, ms) \<Rightarrow> m))"

definition MTIMEdaytime_extract_seconds :: "int \<Rightarrow> int" where
  "MTIMEdaytime_extract_seconds v =
     (if v = daytime_nil then int_nil else (case fromtime v of (h, m, s, ms) \<Rightarrow> s))"

definition MTIMEdaytime_extract_sql_seconds :: "int \<Rightarrow> int" where
  "MTIMEdaytime_extract_sql_seconds v =
     (if v = daytime_nil then int_nil
      else (case fromtime v of (h, m, s, ms) \<Rightarrow> s * 1000 + ms))"

definition MTIMEdaytime_extract_milliseconds :: "int \<Rightarrow> int" where
  "MTIMEdaytime_extract_milliseconds v =
     (if v = daytime_nil then int_nil else (case fromtime v of (h, m, s, ms) \<Rightarrow> ms))"

section \<open>Dates\<close>

definition DATE_MAX :: int where "DATE_MAX = todate 31 12 YEAR_MAX"
definition DATE_MIN :: int where "DATE_MIN = todate 1 1 YEAR_MIN"

definition MTIMEdate_create :: "int \<Rightarrow> int \<Rightarrow> int \<Rightarrow> int" where
  "MTIMEdate_create year month day = todate day month year"

definition MTIMEdate_extract_year :: "int \<Rightarrow> int" where
  "MTIMEdate_extract_year v =
     (if v = date_nil then int_nil else (case fromdate v of (d, m, y) \<Rightarrow> y))"

definition MTIMEdate_extract_month :: "int \<Rightarrow> int" where
  "MTIMEdate_extract_month v =
     (if v = date_nil then int_nil else (case fromdate v of (d, m, y) \<Rightarrow> m))"

definition MTIMEdate_extract_day :: "int \<Rightarrow> int" where
  "MTIMEdate_extract_day v =
     (if v = date_nil then int_nil else (case fromdate v of (d, m, y) \<Rightarrow> d))"

definition MTIMEdate_extract_dayofyear :: "int \<Rightarrow> int" where
  "MTIMEdate_extract_dayofyear v =
     (if v = date_nil then int_nil
      else (case fromdate v of (d, m, year) \<Rightarrow> 1 + v - todate 1 1 year))"

text \<open>Monday is 1 and Sunday is 7.\<close>

definition date_dayofweek :: "int \<Rightarrow> int" where
  "date_dayofweek v = (v smod 7 + 12) smod 7 + 1"

definition MTIMEdate_extract_dayofweek :: "int \<Rightarrow> int" where
  "MTIMEdate_extract_dayofweek v = (if v = date_nil then int_nil else date_dayofweek v)"

definition MTIMEdate_extract_weekofyear :: "int \<Rightarrow> int" where
  "MTIMEdate_extract_weekofyear v =
     (if v = date_nil then int_nil
      else
        (let thd = v + 4 - date_dayofweek v;
             (d, m, year) = fromdate thd;
             thd1 = todate 4 1 year;
             thd1 = thd1 + 4 - date_dayofweek thd1
         in (thd - thd1) sdiv 7 + 1))"

definition MTIMEdate_adddays :: "int \<Rightarrow> int \<Rightarrow> int" where
  "MTIMEdate_adddays v delta =
     (if v = int_nil \<or> delta = int_nil \<or> (delta > 0 \<and> DATE_MAX - v < delta) \<or>
         (delta < 0 \<and> DATE_MIN - v > delta)
      then date_nil else v + delta)"

text \<open>The two counting loops of \<open>MTIMEdate_addyears\<close>, then those of \<open>MTIMEdate_addmonths\<close>.\<close>

fun addyears_up :: "nat \<Rightarrow> int \<Rightarrow> int \<Rightarrow> int" where
  "addyears_up 0 y ret = ret"
| "addyears_up (Suc z) y ret = addyears_up z (y + 1) (MTIMEdate_adddays ret (YEARDAYS y))"

fun addyears_down :: "nat \<Rightarrow> int \<Rightarrow> int \<Rightarrow> int" where
  "addyears_down 0 y ret = ret"
| "addyears_down (Suc z) y ret =
     addyears_down z (y - 1) (MTIMEdate_adddays ret (- YEARDAYS (y - 1)))"

definition MTIMEdate_addyears :: "int \<Rightarrow> int \<Rightarrow> int" where
  "MTIMEdate_addyears v delta =
     (if v = date_nil \<or> delta = int_nil then date_nil
      else
        (let (d, m, y) = fromdate v;
             y = (if m \<ge> 3 then y + 1 else y)
         in if delta > 0 then addyears_up (nat delta) y v
            else addyears_down (nat (- delta)) y v))"

fun addmonths_up :: "nat \<Rightarrow> int \<Rightarrow> int \<Rightarrow> int \<Rightarrow> int" where
  "addmonths_up 0 m y ret = ret"
| "addmonths_up (Suc z) m y ret =
     (let x = MONTHDAYS m y;
          (m', y') = (if m + 1 = 13 then (1, y + 1) else (m + 1, y))
      in addmonths_up z m' y' (MTIMEdate_adddays ret x))"

fun addmonths_down :: "nat \<Rightarrow> int \<Rightarrow> int \<Rightarrow> int \<Rightarrow> int" where
  "addmonths_down 0 m y ret = ret"
| "addmonths_down (Suc z) m y ret =
     (let (m', y') = (if m - 1 = 0 then (12, y - 1) else (m - 1, y));
          x = - MONTHDAYS m' y'
      in addmonths_down z m' y' (MTIMEdate_adddays ret x))"

definition MTIMEdate_addmonths :: "int \<Rightarrow> int \<Rightarrow> int" where
  "MTIMEdate_addmonths v delta =
     (if v = date_nil \<or> delta = int_nil then date_nil
      else
        (let (d, m, y) = fromdate v
         in if delta > 0 then addmonths_up (nat delta) m y v
            else addmonths_down (nat (- delta)) m y v))"

text \<open>Negating the nil of \<open>int\<close> gives nil again in two's complement.\<close>

definition MTIMEdate_submonths :: "int \<Rightarrow> int \<Rightarrow> int" where
  "MTIMEdate_submonths v delta = MTIMEdate_addmonths v (c_cast 32 (- delta))"

definition MTIMEdate_diff :: "int \<Rightarrow> int \<Rightarrow> int" where
  "MTIMEdate_diff v1 v2 =
     (if v1 = date_nil \<or> v2 = date_nil then int_nil else c_cast 32 (v1 - v2))"

definition MTIMEdate_sub_sec_interval_wrap :: "int \<Rightarrow> int \<Rightarrow> int" where
  "MTIMEdate_sub_sec_interval_wrap t sec =
     (if sec = int_nil \<or> t = date_nil then date_nil
      else MTIMEdate_adddays t (if sec \<ge> 0 then - (sec sdiv 86400) else (- sec) sdiv 86400))"

definition MTIMEdate_add_sec_interval_wrap :: "int \<Rightarrow> int \<Rightarrow> int" where
  "MTIMEdate_add_sec_interval_wrap t sec =
     (if sec = int_nil \<or> t = date_nil then date_nil
      else MTIMEdate_adddays t (if sec \<ge> 0 then sec sdiv 86400 else - ((- sec) sdiv 86400)))"

section \<open>Timestamps\<close>

definition lng_nil :: int where
  "lng_nil = nil TYPE_lng"

record timestamp =
  days :: int
  msecs :: int

text \<open>The nil timestamp is the bit pattern of the nil of \<open>lng\<close>, on a little-endian machine.\<close>

definition timestamp_nil :: timestamp where
  "timestamp_nil = \<lparr>days = date_nil, msecs = 0\<rparr>"

definition ts_isnil :: "timestamp \<Rightarrow> bool" where
  "ts_isnil t \<longleftrightarrow> days t = days timestamp_nil \<and> msecs t = msecs timestamp_nil"

definition MTIMEtimestamp_add :: "timestamp \<Rightarrow> int \<Rightarrow> timestamp" where
  "MTIMEtimestamp_add v msec =
     (if \<not> ts_isnil v \<and> msec \<noteq> lng_nil then
        (let day = c_cast 32 (msec sdiv 86400000);
             ms = c_cast 32 (msecs v + (msec - day * 86400000));
             (day, ms) = (if ms \<ge> 86400000 then (day + 1, ms - 86400000)
                          else if ms < 0 then (day - 1, ms + 86400000) else (day, ms))
         in if day \<noteq> 0 then
              (let d = MTIMEdate_adddays (days v) day
               in if d = int_nil then timestamp_nil else \<lparr>days = d, msecs = ms\<rparr>)
            else \<lparr>days = days v, msecs = ms\<rparr>)
      else timestamp_nil)"

definition MTIMEtimestamp_sub_msec_interval_lng_wrap :: "timestamp \<Rightarrow> int \<Rightarrow> timestamp" where
  "MTIMEtimestamp_sub_msec_interval_lng_wrap t msec = MTIMEtimestamp_add t (c_cast 64 (- msec))"

definition MTIMEtimestamp_diff :: "timestamp \<Rightarrow> timestamp \<Rightarrow> int" where
  "MTIMEtimestamp_diff v1 v2 =
     (if ts_isnil v1 \<or> ts_isnil v2 then lng_nil
      else c_cast 32 (days v1 - days v2) * 86400000 + (msecs v1 - msecs v2))"

definition daytime_add :: "int \<Rightarrow> int \<Rightarrow> int" where
  "daytime_add v msec = (if v = daytime_nil then int_nil else c_cast 32 (v + c_cast 32 msec))"

section \<open>The codec of daytimes\<close>

lemma time_parts:
  fixes n :: int
  assumes "0 \<le> n" "n < 86400000"
  defines "h \<equiv> n div 3600000" and "m \<equiv> n mod 3600000 div 60000"
    and "s \<equiv> n mod 60000 div 1000" and "x \<equiv> n mod 1000"
  shows "TIME h m s x" "((h * 60 + m) * 60 + s) * 1000 + x = n" "fromtime n = (h, m, s, x)"
proof -
  show "TIME h m s x"
    using assms by (auto simp: TIME_def pos_imp_zdiv_nonneg_iff intro!: int_div_less_mult)
  have 1: "n - h * 3600000 = n mod 3600000" "n mod 3600000 - m * 60000 = n mod 60000"
    "n mod 60000 - s * 1000 = x"
    by (simp_all add: h_def m_def s_def x_def minus_div_mult_eq_mod mod_mod_cancel)
  then have "h * 3600000 + (m * 60000 + (s * 1000 + x)) = n" by (metis add_diff_cancel_left' diff_add_cancel add.commute)
  then show "((h * 60 + m) * 60 + s) * 1000 + x = n" by (simp add: algebra_simps)
  have "fromtime n = (h, (n - h * 3600000) sdiv 60000,
      (n mod 3600000 - m * 60000) sdiv 1000, n mod 60000 - s * 1000)"
    using assms(1,2) 1
    by (simp add: fromtime_def Let_def daytime_nil_def int_nil_def nil_def cint_simps
        h_def [symmetric] m_def [symmetric] s_def [symmetric])
  then show "fromtime n = (h, m, s, x)"
    using 1 by (simp add: cint_simps s_def)
qed

lemma totime_range:
  assumes "TIME h m s x"
  shows "0 \<le> totime h m s x" "totime h m s x < 86400000"
  using assms by (auto simp: totime_def TIME_def)

lemma radix_unique:
  fixes a a' x x' k :: int
  assumes "a * k + x = a' * k + x'" "0 \<le> x" "x < k" "0 \<le> x'" "x' < k"
  shows "a = a' \<and> x = x'"
proof -
  have "(a * k + x) div k = (a' * k + x') div k" by (simp only: assms(1))
  then have "a = a'" using assms(2-5) by simp
  then show ?thesis using assms(1) by simp
qed

lemma time_unique:
  fixes h m s x :: int
  assumes "TIME h m s x" "TIME h' m' s' x'"
    "((h * 60 + m) * 60 + s) * 1000 + x = ((h' * 60 + m') * 60 + s') * 1000 + x'"
  shows "h = h' \<and> m = m' \<and> s = s' \<and> x = x'"
proof -
  have b: "0 \<le> x" "x < 1000" "0 \<le> x'" "x' < 1000" "0 \<le> s" "s < 60" "0 \<le> s'" "s' < 60"
    "0 \<le> m" "m < 60" "0 \<le> m'" "m' < 60"
    using assms(1,2) by (auto simp: TIME_def)
  have 1: "(h * 60 + m) * 60 + s = (h' * 60 + m') * 60 + s' \<and> x = x'"
    by (rule radix_unique [OF assms(3)]) (use b in auto)
  then have 2: "h * 60 + m = h' * 60 + m' \<and> s = s'"
    by (intro radix_unique [of _ 60]) (use b in auto)
  then have "h = h' \<and> m = m'" by (intro radix_unique [of _ 60]) (use b in auto)
  with 1 2 show ?thesis by blast
qed

lemma fromtime_totime:
  assumes "TIME h m s x"
  shows "fromtime (totime h m s x) = (h, m, s, x)"
proof -
  let ?n = "totime h m s x"
  note P = time_parts [OF totime_range [OF assms]]
  have "((h * 60 + m) * 60 + s) * 1000 + x = ?n" using assms by (simp add: totime_def)
  from time_unique [OF assms P(1)] this P(2) P(3) show ?thesis by simp
qed

interpretation daytime_codec: codec "\<lambda>(h, m, s, x). TIME h m s x" "\<lambda>(h, m, s, x). totime h m s x"
    fromtime
  by unfold_locales (auto simp: fromtime_totime)

text \<open>
  C34. Daytimes: \<open>totime\<close> and \<open>fromtime\<close> are inverse bijections between valid clock times and
  the numbers below 86400000, an invalid clock time giving nil.
\<close>

theorem daytime_roundtrip:
  "(if TIME h m s x
    then fromtime (totime h m s x) = (h, m, s, x) \<and> 0 \<le> totime h m s x \<and> totime h m s x < 86400000
    else totime h m s x = daytime_nil)
   \<and> (0 \<le> n \<and> n < 86400000 \<longrightarrow>
       (case fromtime n of (h', m', s', x') \<Rightarrow> TIME h' m' s' x' \<and> totime h' m' s' x' = n))"
  using fromtime_totime totime_range time_parts [of n]
  by (auto simp: totime_def)

theorem daytime_roundtrip_witness:
  "fromtime (totime 23 59 59 999) = (23, 59, 59, 999) \<and> totime 24 0 0 0 = daytime_nil
   \<and> (case fromtime 3661001 of (h', m', s', x') \<Rightarrow> totime h' m' s' x' = 3661001)"
  using daytime_roundtrip [of 23 59 59 999 3661001] daytime_roundtrip [of 24 0 0 0 3661001]
  by (auto simp: TIME_def split: prod.splits)

section \<open>Days of the week\<close>

lemma date_dayofweek_eq: "date_dayofweek v = (v + 5) mod 7 + 1"
proof -
  have "- 7 < v smod 7" "v smod 7 < 7" using abs_mod_less [of 7 v] 
    by (auto simp: smod_int_alt_def sgn_if)
  then have "(v smod 7 + 12) smod 7 = (v smod 7 + 12) mod 7" by (simp add: cint_simps)
  also have "\<dots> = (v + 5) mod 7"
  proof (cases "0 \<le> v")
    case True
    then show ?thesis by (simp add: cint_simps) presburger
  next
    case False
    then show ?thesis by (simp add: cint_simps) presburger
  qed
  finally show ?thesis by (simp add: date_dayofweek_def)
qed

lemma date_dayofweek_range: "1 \<le> date_dayofweek v \<and> date_dayofweek v \<le> 7"
  by (simp add: date_dayofweek_eq add_strict_increasing2 flip: less_iff_succ_less_eq)

text \<open>
  The day of the week runs from 1 to 7, advances by one from day to day and has period 7;
  January 1, 2000 is a Saturday.
\<close>

lemma dayofweek_cycle:
  "1 \<le> date_dayofweek v \<and> date_dayofweek v \<le> 7
   \<and> date_dayofweek (v + 1) = (if date_dayofweek v = 7 then 1 else date_dayofweek v + 1)
   \<and> date_dayofweek (v + 7 * k) = date_dayofweek v
   \<and> date_dayofweek (todate 1 1 2000) = 6"
proof (intro conjI)
  show "1 \<le> date_dayofweek v" "date_dayofweek v \<le> 7" using date_dayofweek_range by auto
  show "date_dayofweek (v + 1) = (if date_dayofweek v = 7 then 1 else date_dayofweek v + 1)"
    unfolding date_dayofweek_eq by (simp, presburger)
  show "date_dayofweek (v + 7 * k) = date_dayofweek v"
  proof -
    have "v + 7 * k + 5 = (v + 5) + 7 * k" by simp
    then show ?thesis unfolding date_dayofweek_eq by (simp only: mod_mult_self2)
  qed
  have "DATE 1 1 2000" by (simp add: DATE_def YEAR_MIN_def YEAR_MAX_def MONTHDAYS_def LEAPDAYS_def)
  then show "date_dayofweek (todate 1 1 2000) = 6"
    by (simp add: todate_day_number day_number_def internal_year_def year_start_def leaps_upto_def
        cumdays_bounds date_dayofweek_eq)
qed

section \<open>Adding days\<close>

lemma DATE_limits: "DATE_MAX = 2143028226" "DATE_MIN = -2143027496"
proof -
  have "DATE 31 12 YEAR_MAX" "DATE 1 1 YEAR_MIN"
    by (simp_all add: DATE_def YEAR_MIN_def YEAR_MAX_def MONTHDAYS_def LEAPDAYS_def)
  then show "DATE_MAX = 2143028226" "DATE_MIN = -2143027496"
    by (simp_all add: DATE_MAX_def DATE_MIN_def todate_day_number day_number_def internal_year_def
        year_start_def leaps_upto_def YEAR_MIN_def YEAR_MAX_def cumdays_def CUMDAYS_def leapyear_iff)
qed

definition date_ok :: "int \<Rightarrow> bool" where
  "date_ok v \<longleftrightarrow> DATE_MIN \<le> v \<and> v \<le> DATE_MAX"

lemma date_ok_nil: "date_ok v \<Longrightarrow> v \<noteq> date_nil" "date_ok v \<Longrightarrow> v \<noteq> int_nil"
  by (auto simp: date_ok_def DATE_limits date_nil_def int_nil_def nil_def)

lemma adddays_ok:
  "date_ok v \<Longrightarrow> delta \<noteq> int_nil \<Longrightarrow>
   MTIMEdate_adddays v delta = (if date_ok (v + delta) then v + delta else date_nil)"
  by (auto simp: MTIMEdate_adddays_def date_ok_def date_ok_nil DATE_limits int_nil_def nil_def
      date_nil_def)

lemma adddays_nil [simp]: "MTIMEdate_adddays date_nil delta = date_nil"
  by (simp add: MTIMEdate_adddays_def date_nil_def)

section \<open>Timestamps as points in time\<close>

definition ts_ok :: "timestamp \<Rightarrow> bool" where
  "ts_ok t \<longleftrightarrow> date_ok (days t) \<and> 0 \<le> msecs t \<and> msecs t < 86400000"

definition ts_abs :: "timestamp \<Rightarrow> int" where
  "ts_abs t = days t * 86400000 + msecs t"

lemma ts_ok_not_nil: "ts_ok t \<Longrightarrow> \<not> ts_isnil t"
  by (auto simp: ts_ok_def ts_isnil_def timestamp_nil_def date_ok_nil)

lemma ts_abs_inj: "ts_ok t \<Longrightarrow> ts_ok u \<Longrightarrow> ts_abs t = ts_abs u \<Longrightarrow> t = u"
  using radix_unique [of "days t" 86400000 "msecs t" "days u" "msecs u"]
  by (simp add: ts_ok_def ts_abs_def)

lemma timestamp_add_abs:
  assumes v: "ts_ok v" and ms: "\<bar>msec\<bar> \<le> 2147483646 * 86400000"
  shows "MTIMEtimestamp_add v msec =
    (let a = ts_abs v + msec in
     if date_ok (a div 86400000) then \<lparr>days = a div 86400000, msecs = a mod 86400000\<rparr>
     else timestamp_nil)"
proof -
  define day where "day = msec sdiv 86400000"
  define r where "r = msec - day * 86400000"
  have r: "r = msec smod 86400000"
    by (simp add: r_def day_def minus_sdiv_mult_eq_smod)
  have rb: "- 86400000 < r" "r < 86400000"
    using abs_mod_less [of 86400000 msec] by (auto simp: r smod_int_alt_def sgn_if)
  have msec: "msec = day * 86400000 + r" by (simp add: r_def)
  then have day: "- 2147483647 < day" "day < 2147483647" using rb ms by linarith+
  define ms0 where "ms0 = msecs v + r"
  have v': "date_ok (days v)" "0 \<le> msecs v" "msecs v < 86400000" using v by (auto simp: ts_ok_def)
  then have ms0: "- 86400000 < ms0" "ms0 < 2 * 86400000" using rb by (simp_all add: ms0_def)
  define k :: int where "k = (if ms0 \<ge> 86400000 then 1 else if ms0 < 0 then -1 else 0)"
  define day' ms' where "day' = day + k" and "ms' = ms0 - k * 86400000"
  have ms': "0 \<le> ms'" "ms' < 86400000" using ms0 by (auto simp: ms'_def k_def)
  have abs: "ts_abs v + msec = (days v + day') * 86400000 + ms'"
    by (simp add: ts_abs_def msec day'_def ms'_def ms0_def algebra_simps)
  have dm: "(ts_abs v + msec) div 86400000 = days v + day'"
    "(ts_abs v + msec) mod 86400000 = ms'"
    unfolding abs using ms' by (simp_all del: distrib_right_numeral add: mod_mult_self3)
  have "\<bar>k\<bar> \<le> 1" by (simp add: k_def)
  then have dn: "day' \<noteq> int_nil" using day by (auto simp: day'_def int_nil_def nil_def)
  have c: "c_cast 32 day = day" "c_cast 32 ms0 = ms0"
    using day ms0 by (auto intro!: c_cast_id)
  have nn: "msec \<noteq> lng_nil" using ms by (auto simp: lng_nil_def nil_def)
  have "MTIMEtimestamp_add v msec =
    (if day' \<noteq> 0 then
       (let d = MTIMEdate_adddays (days v) day'
        in if d = int_nil then timestamp_nil else \<lparr>days = d, msecs = ms'\<rparr>)
     else \<lparr>days = days v, msecs = ms'\<rparr>)"
  proof -
    have carry: "(if ms0 \<ge> 86400000 then (day + 1, ms0 - 86400000)
        else if ms0 < 0 then (day - 1, ms0 + 86400000) else (day, ms0)) = (day', ms')"
      by (simp add: day'_def ms'_def k_def)
    have "\<not> ts_isnil v \<and> msec \<noteq> lng_nil" using ts_ok_not_nil [OF v] nn by simp
    then show ?thesis
      by (simp only: MTIMEtimestamp_add_def Let_def if_True simp_thms day_def [symmetric] c(1)
          r_def [symmetric] ms0_def [symmetric] c(2) carry prod.case)
  qed
  also have "\<dots> = (if date_ok (days v + day') then \<lparr>days = days v + day', msecs = ms'\<rparr>
      else timestamp_nil)"
    using adddays_ok [OF v'(1) dn] v'(1) date_ok_nil [of "days v + day'"]
    by (simp add: Let_def date_nil_def)
  finally show ?thesis by (simp add: dm Let_def)
qed

text \<open>The number of days is cast to \<open>int\<close>, and what is cut off is lost.\<close>

lemma timestamp_add_wraps:
  assumes "ts_ok v"
  shows "MTIMEtimestamp_add v (2 ^ 32 * 86400000) = v"
proof -
  have "c_cast 32 (2 ^ 32) = 0" by (simp add: c_cast_def)
  moreover have "c_cast 32 (msecs v + 2 ^ 32 * 86400000) = msecs v"
  proof -
    have "c_cast 32 (msecs v + 2 ^ 32 * 86400000) = c_cast 32 (msecs v)"
      using mod_mult_self2 [of "msecs v" 4294967296 86400000]
      by (simp only: c_cast_def signed_take_bit_eq_iff_take_bit_eq take_bit_eq_mod) simp
    also have "\<dots> = msecs v" using assms by (intro c_cast_id) (auto simp: ts_ok_def)
    finally show ?thesis .
  qed
  ultimately show ?thesis
    using assms ts_ok_not_nil [OF assms]
    by (auto simp: MTIMEtimestamp_add_def ts_ok_def lng_nil_def nil_def cint_simps)
qed

text \<open>
  C27. Adding up to \<open>2147483646\<close> days' worth of milliseconds to a timestamp, or subtracting them, moves the
  point in time by exactly that amount, with days and milliseconds in range again, or gives nil when
  the point leaves the supported dates; whatever the signs, the carry between days and milliseconds
  is right.
\<close>

theorem timestamp_add_exact:
  assumes "ts_ok v" and "\<bar>msec\<bar> \<le> 2147483646 * 86400000"
  shows "(let r = MTIMEtimestamp_add v msec; a = ts_abs v + msec in
    if DATE_MIN * 86400000 \<le> a \<and> a < (DATE_MAX + 1) * 86400000
    then ts_ok r \<and> ts_abs r = a else ts_isnil r)"
proof -
  let ?a = "ts_abs v + msec"
  have ok: "date_ok (?a div 86400000) \<longleftrightarrow>
      DATE_MIN * 86400000 \<le> ?a \<and> ?a < (DATE_MAX + 1) * 86400000"
  proof -
    have "?a = (?a div 86400000) * 86400000 + ?a mod 86400000" "0 \<le> ?a mod 86400000"
      "?a mod 86400000 < 86400000" by simp_all
    then obtain q m where "?a div 86400000 = q" "?a = q * 86400000 + m" "0 \<le> m" "m < 86400000"
      by blast
    then show ?thesis unfolding date_ok_def by auto
  qed
  have "ts_abs \<lparr>days = ?a div 86400000, msecs = ?a mod 86400000\<rparr> = ?a" by (simp add: ts_abs_def)
  then show ?thesis
    unfolding Let_def timestamp_add_abs [OF assms] ok
    using ok by (auto simp: ts_ok_def ts_isnil_def)
qed

theorem timestamp_add_exact_witness:
  "MTIMEtimestamp_add \<lparr>days = 730000, msecs = 0\<rparr> (- 1) = \<lparr>days = 729999, msecs = 86399999\<rparr>"
proof -
  have "ts_ok (MTIMEtimestamp_add \<lparr>days = 730000, msecs = 0\<rparr> (- 1)) \<and>
      ts_abs (MTIMEtimestamp_add \<lparr>days = 730000, msecs = 0\<rparr> (- 1)) = 730000 * 86400000 - 1"
    using timestamp_add_exact [of "\<lparr>days = 730000, msecs = 0\<rparr>" "- 1"]
    by (simp add: ts_ok_def date_ok_def DATE_limits ts_abs_def Let_def)
  then show ?thesis
    by (intro ts_abs_inj) (auto simp: ts_ok_def date_ok_def DATE_limits ts_abs_def)
qed

text \<open>
  C35. Difference and addition are inverse: the difference of two timestamps less than \<open>2147483646\<close> days
  apart is the distance of the points in time, and adding it to the one gives the other; adding at most
  \<open>2147483644\<close> days' worth of milliseconds gives, unless it leaves the supported dates, a timestamp whose
  difference from the first is what was added.
\<close>

theorem timestamp_diff_add:
  assumes "ts_ok v" and "ts_ok w" and "\<bar>days v - days w\<bar> < 2147483646"
  shows "MTIMEtimestamp_diff v w = ts_abs v - ts_abs w
    \<and> MTIMEtimestamp_add w (MTIMEtimestamp_diff v w) = v
    \<and> (\<forall>msec. \<bar>msec\<bar> \<le> 2147483644 * 86400000 \<longrightarrow>
        ts_isnil (MTIMEtimestamp_add w msec) \<or> MTIMEtimestamp_diff (MTIMEtimestamp_add w msec) w = msec)"
proof -
  have diff: "MTIMEtimestamp_diff x w = ts_abs x - ts_abs w"
    if "ts_ok x" "\<bar>days x - days w\<bar> < 2147483646" for x
  proof -
    have "c_cast 32 (days x - days w) = days x - days w" using that(2) by (intro c_cast_id) auto
    then show ?thesis
      using ts_ok_not_nil [OF that(1)] ts_ok_not_nil [OF assms(2)]
      by (simp add: MTIMEtimestamp_diff_def ts_abs_def algebra_simps)
  qed
  have m: "0 \<le> msecs v" "msecs v < 86400000" "0 \<le> msecs w" "msecs w < 86400000"
    using assms(1,2) by (auto simp: ts_ok_def)
  have "\<bar>ts_abs v - ts_abs w\<bar> \<le> 2147483646 * 86400000"
    using assms(3) m unfolding ts_abs_def by linarith
  note A = timestamp_add_abs [OF assms(2) this]
  have "ts_abs v div 86400000 = days v" "ts_abs v mod 86400000 = msecs v"
    using m by (simp_all add: ts_abs_def)
  then have again: "MTIMEtimestamp_add w (MTIMEtimestamp_diff v w) = v"
    using diff [OF assms(1,3)] A assms(1) by (simp add: ts_ok_def)
  have "MTIMEtimestamp_diff (MTIMEtimestamp_add w msec) w = msec"
    if ms: "\<bar>msec\<bar> \<le> 2147483644 * 86400000" and nn: "\<not> ts_isnil (MTIMEtimestamp_add w msec)" for msec
  proof -
    define a where "a = ts_abs w + msec"
    define r where "r = \<lparr>days = a div 86400000, msecs = a mod 86400000\<rparr>"
    have "\<bar>msec\<bar> \<le> 2147483646 * 86400000" using ms by simp
    then have r: "MTIMEtimestamp_add w msec = r" "date_ok (days r)"
      using timestamp_add_abs [OF assms(2), of msec] nn
      by (auto simp: r_def a_def Let_def ts_isnil_def split: if_splits)
    then have ok: "ts_ok r" "ts_abs r = a" by (simp_all add: ts_ok_def ts_abs_def r_def)
    then have "\<bar>days r - days w\<bar> < 2147483646"
      using ms m(3,4) unfolding a_def ts_abs_def ts_ok_def by linarith
    from diff [OF ok(1) this] show ?thesis by (simp add: r(1) ok(2) a_def)
  qed
  then show ?thesis using again diff [OF assms(1,3)] by blast
qed

theorem timestamp_diff_add_witness:
  "MTIMEtimestamp_diff \<lparr>days = 2, msecs = 5\<rparr> \<lparr>days = 1, msecs = 6\<rparr> = 86399999"
  using timestamp_diff_add [of "\<lparr>days = 2, msecs = 5\<rparr>" "\<lparr>days = 1, msecs = 6\<rparr>"]
  by (simp add: ts_ok_def date_ok_def DATE_limits ts_abs_def)

section \<open>Adding years and months\<close>

text \<open>Day \<open>d\<close> of month \<open>m\<close> of an internal year, running over into the next month if need be.\<close>

definition year_pos :: "int \<Rightarrow> int \<Rightarrow> int \<Rightarrow> int" where
  "year_pos d m k = year_start k + cumdays k ! nat (m - 1) + d - 1"

lemma year_pos_Suc:
  assumes "1 \<le> m" "m \<le> 12"
  shows "year_pos d m (k + 1) = year_pos d m k + YEARDAYS (if m \<ge> 3 then k + 1 else k)"
proof -
  have "cumdays j ! nat (m - 1) = CUMDAYS ! nat (m - 1) + (if m \<ge> 3 \<and> leapyear j then 1 else 0)"
    for j
    using assms by (rule month_cases) (simp_all add: cumdays_def CUMDAYS_def CUMLEAPDAYS_def
        nth_Cons' numeral_eq_Suc)
  then show ?thesis by (simp add: year_pos_def year_start_Suc YEARDAYS_def)
qed

lemma YEARDAYS_int_nil [simp]: "YEARDAYS y \<noteq> int_nil" "- YEARDAYS y \<noteq> int_nil"
  by (simp_all add: YEARDAYS_def int_nil_def nil_def)

lemma addyears_nil: "addyears_up z y date_nil = date_nil" "addyears_down z y date_nil = date_nil"
  by (induction z arbitrary: y) simp_all

lemma date_ok_between: "date_ok a \<Longrightarrow> date_ok c \<Longrightarrow> a \<le> b \<Longrightarrow> b \<le> c \<Longrightarrow> date_ok b"
  by (simp add: date_ok_def)

text \<open>
  A loop that walks from \<open>f k\<close> to \<open>f (k + z)\<close> along a monotone path of days: an intermediate
  day is out of range only if the last one is.
\<close>

lemma path_mono:
  fixes f :: "int \<Rightarrow> int"
  assumes "\<And>k. f k \<le> f (k + 1)"
  shows "f k \<le> f (k + int z)"
proof (induction z)
  case (Suc z)
  then show ?case using assms [of "k + int z"] by (simp add: algebra_simps)
qed simp

lemma addyears_up_path:
  assumes f: "\<And>k. f (k + 1) = f k + YEARDAYS (k + c)" and ok: "date_ok (f k)"
  shows "addyears_up z (k + c) (f k) = (if date_ok (f (k + int z)) then f (k + int z) else date_nil)"
  using ok
proof (induction z arbitrary: k)
  case 0
  then show ?case by simp
next
  case (Suc z)
  have mono: "f j \<le> f (j + 1)" for j using f [of j] YEARDAYS_pos [of "j + c"] by simp
  have step: "MTIMEdate_adddays (f k) (YEARDAYS (k + c)) =
      (if date_ok (f (k + 1)) then f (k + 1) else date_nil)"
    using adddays_ok [OF Suc.prems] by (simp add: f)
  show ?case
  proof (cases "date_ok (f (k + 1))")
    case True
    then show ?thesis using step Suc.IH [of "k + 1"] by (simp add: algebra_simps)
  next
    case False
    then have "\<not> date_ok (f (k + 1 + int z))"
      using date_ok_between [OF Suc.prems] mono [of k] path_mono [of f "k + 1" z] mono by blast
    then show ?thesis using step False by (simp add: addyears_nil algebra_simps)
  qed
qed

lemma addyears_down_path:
  assumes f: "\<And>k. f (k + 1) = f k + YEARDAYS (k + c)" and ok: "date_ok (f k)"
  shows "addyears_down z (k + c) (f k) = (if date_ok (f (k - int z)) then f (k - int z) else date_nil)"
  using ok
proof (induction z arbitrary: k)
  case 0
  then show ?case by simp
next
  case (Suc z)
  have mono: "f j \<le> f (j + 1)" for j using f [of j] YEARDAYS_pos [of "j + c"] by simp
  have "f k = f (k - 1) + YEARDAYS (k - 1 + c)" using f [of "k - 1"] by simp
  then have step: "MTIMEdate_adddays (f k) (- YEARDAYS (k + c - 1)) =
      (if date_ok (f (k - 1)) then f (k - 1) else date_nil)"
    using adddays_ok [OF Suc.prems] by (simp add: algebra_simps)
  show ?case
  proof (cases "date_ok (f (k - 1))")
    case True
    then show ?thesis using step Suc.IH [of "k - 1"] by (simp add: algebra_simps)
  next
    case False
    have "f (k - 1 - int z) \<le> f (k - 1)" using path_mono [of f "k - 1 - int z" z] mono by simp
    then have "\<not> date_ok (f (k - 1 - int z))"
      using date_ok_between [OF _ Suc.prems, of "f (k - 1 - int z)" "f (k - 1)"] mono [of "k - 1"]
        False by auto
    then show ?thesis using step False by (simp add: addyears_nil algebra_simps)
  qed
qed

definition month_start :: "int \<Rightarrow> int" where
  "month_start k = year_start (k div 12) + cumdays (k div 12) ! nat (k mod 12)"

lemma div_mod_12:
  assumes "k = 12 * q + r" "0 \<le> r" "r < (12::int)"
  shows "k div 12 = q" "k mod 12 = r"
  using assms by (auto intro: int_div_pos_eq int_mod_pos_eq)

lemma index_Suc:
  fixes k :: int
  shows "k mod 12 = 11 \<Longrightarrow> (k + 1) div 12 = k div 12 + 1 \<and> (k + 1) mod 12 = 0"
    "k mod 12 \<noteq> 11 \<Longrightarrow> (k + 1) div 12 = k div 12 \<and> (k + 1) mod 12 = k mod 12 + 1"
    "k mod 12 = 0 \<Longrightarrow> (k - 1) div 12 = k div 12 - 1 \<and> (k - 1) mod 12 = 11"
    "k mod 12 \<noteq> 0 \<Longrightarrow> (k - 1) div 12 = k div 12 \<and> (k - 1) mod 12 = k mod 12 - 1"
proof -
  define q r where "q = k div 12" and "r = k mod 12"
  have k: "k = 12 * q + r" "0 \<le> r" "r < 12" by (simp_all add: q_def r_def)
  show "k mod 12 = 11 \<Longrightarrow> (k + 1) div 12 = k div 12 + 1 \<and> (k + 1) mod 12 = 0"
    using div_mod_12 [of "k + 1" "q + 1" 0] k(1) unfolding q_def [symmetric] r_def [symmetric] by simp
  show "k mod 12 \<noteq> 11 \<Longrightarrow> (k + 1) div 12 = k div 12 \<and> (k + 1) mod 12 = k mod 12 + 1"
    using div_mod_12 [of "k + 1" q "r + 1"] k unfolding q_def [symmetric] r_def [symmetric] by simp
  show "k mod 12 = 0 \<Longrightarrow> (k - 1) div 12 = k div 12 - 1 \<and> (k - 1) mod 12 = 11"
    using div_mod_12 [of "k - 1" "q - 1" 11] k(1) unfolding q_def [symmetric] r_def [symmetric] by simp
  show "k mod 12 \<noteq> 0 \<Longrightarrow> (k - 1) div 12 = k div 12 \<and> (k - 1) mod 12 = k mod 12 - 1"
    using div_mod_12 [of "k - 1" q "r - 1"] k unfolding q_def [symmetric] r_def [symmetric] by simp
qed

lemma month_start_Suc: "month_start (k + 1) = month_start k + MONTHDAYS (k mod 12 + 1) (k div 12)"
proof (cases "k mod 12 = 11")
  case True
  then show ?thesis
    using index_Suc(1) [OF True] cumdays_Suc [of 12 "k div 12"] cumdays_bounds [of "k div 12"]
      cumdays_bounds(1) [of "k div 12 + 1"]
    by (simp add: month_start_def year_start_Suc)
next
  case False
  obtain q r where qr: "k div 12 = q" "k mod 12 = r" "0 \<le> r" "r < 12" by simp
  then show ?thesis
    using cumdays_Suc [of "r + 1" q] index_Suc(2) [OF False] unfolding month_start_def by simp
qed

lemma month_start_index:
  "1 \<le> m \<Longrightarrow> m \<le> 12 \<Longrightarrow> month_start (12 * y + (m - 1)) = year_start y + cumdays y ! nat (m - 1)"
  by (simp add: month_start_def)

lemma addmonths_nil: "addmonths_up z m y date_nil = date_nil" "addmonths_down z m y date_nil = date_nil"
  by (induction z arbitrary: m y) (simp_all add: Let_def)

lemma MONTHDAYS_index: "28 \<le> MONTHDAYS (k mod 12 + 1) j \<and> MONTHDAYS (k mod 12 + 1) j \<le> 31"
  by (rule MONTHDAYS_pos) simp_all

lemma MONTHDAYS_not_nil:
  "MONTHDAYS (k mod 12 + 1) j \<noteq> int_nil" "- MONTHDAYS (k mod 12 + 1) j \<noteq> int_nil"
  using MONTHDAYS_index [of k j] by (auto simp: int_nil_def nil_def)

lemma next_month: "(if k mod 12 + 1 + 1 = 13 then (1, k div 12 + 1) else (k mod 12 + 1 + 1, k div 12))
   = ((k + 1) mod 12 + 1, (k + 1) div (12::int))"
  using index_Suc(1,2) [of k] by (cases "k mod 12 = 11") simp_all

lemma prev_month: "(if k mod 12 + 1 - 1 = 0 then (12, k div 12 - 1) else (k mod 12 + 1 - 1, k div 12))
   = ((k - 1) mod 12 + 1, (k - 1) div (12::int))"
  using index_Suc(3,4) [of k] by (cases "k mod 12 = 0") simp_all

lemma addmonths_up_path:
  assumes ok: "date_ok (month_start k + e)"
  shows "addmonths_up z (k mod 12 + 1) (k div 12) (month_start k + e) =
    (if date_ok (month_start (k + int z) + e) then month_start (k + int z) + e else date_nil)"
  using ok
proof (induction z arbitrary: k)
  case 0
  then show ?case by simp
next
  case (Suc z)
  have mono: "month_start j \<le> month_start (j + 1)" for j
    using month_start_Suc [of j] MONTHDAYS_index [of j "j div 12"] by simp
  have step: "MTIMEdate_adddays (month_start k + e) (MONTHDAYS (k mod 12 + 1) (k div 12)) =
      (if date_ok (month_start (k + 1) + e) then month_start (k + 1) + e else date_nil)"
    using adddays_ok [OF Suc.prems MONTHDAYS_not_nil(1), of k "k div 12"]
    unfolding month_start_Suc by (simp only: add.assoc add.commute [of e])
  have unf: "addmonths_up (Suc z) (k mod 12 + 1) (k div 12) (month_start k + e) =
      addmonths_up z ((k + 1) mod 12 + 1) ((k + 1) div 12)
        (MTIMEdate_adddays (month_start k + e) (MONTHDAYS (k mod 12 + 1) (k div 12)))"
    by (simp only: addmonths_up.simps Let_def next_month prod.case)
  show ?case
  proof (cases "date_ok (month_start (k + 1) + e)")
    case True
    then show ?thesis unfolding unf using step Suc.IH [of "k + 1"] by (simp add: algebra_simps)
  next
    case False
    then have "\<not> date_ok (month_start (k + 1 + int z) + e)"
      using date_ok_between [OF Suc.prems] mono [of k] path_mono [of month_start "k + 1" z] mono
      by (meson add_right_mono)
    then show ?thesis unfolding unf using step False by (simp add: addmonths_nil algebra_simps)
  qed
qed

lemma addmonths_down_path:
  assumes ok: "date_ok (month_start k + e)"
  shows "addmonths_down z (k mod 12 + 1) (k div 12) (month_start k + e) =
    (if date_ok (month_start (k - int z) + e) then month_start (k - int z) + e else date_nil)"
  using ok
proof (induction z arbitrary: k)
  case 0
  then show ?case by simp
next
  case (Suc z)
  have mono: "month_start j \<le> month_start (j + 1)" for j
    using month_start_Suc [of j] MONTHDAYS_index [of j "j div 12"] by simp
  have k: "month_start k = month_start (k - 1) + MONTHDAYS ((k - 1) mod 12 + 1) ((k - 1) div 12)"
    using month_start_Suc [of "k - 1"] by simp
  have step: "MTIMEdate_adddays (month_start k + e) (- MONTHDAYS ((k - 1) mod 12 + 1) ((k - 1) div 12))
      = (if date_ok (month_start (k - 1) + e) then month_start (k - 1) + e else date_nil)"
    using adddays_ok [OF Suc.prems MONTHDAYS_not_nil(2), of "k - 1" "(k - 1) div 12"]
    by (simp add: k algebra_simps)
  have unf: "addmonths_down (Suc z) (k mod 12 + 1) (k div 12) (month_start k + e) =
      addmonths_down z ((k - 1) mod 12 + 1) ((k - 1) div 12)
        (MTIMEdate_adddays (month_start k + e) (- MONTHDAYS ((k - 1) mod 12 + 1) ((k - 1) div 12)))"
    by (simp only: addmonths_down.simps Let_def prev_month prod.case)
  show ?case
  proof (cases "date_ok (month_start (k - 1) + e)")
    case True
    then show ?thesis unfolding unf using step Suc.IH [of "k - 1"] by (simp add: algebra_simps)
  next
    case False
    have "month_start (k - 1 - int z) \<le> month_start (k - 1)"
      using path_mono [of month_start "k - 1 - int z" z] mono by simp
    then have "\<not> date_ok (month_start (k - 1 - int z) + e)"
      using date_ok_between [OF _ Suc.prems, of "month_start (k - 1 - int z) + e"
          "month_start (k - 1) + e"] mono [of "k - 1"] False by auto
    then show ?thesis unfolding unf using step False by (simp add: addmonths_nil algebra_simps)
  qed
qed

text \<open>
  C36. Adding years and months to a date moves it by the distance between the same day of the month in
  the two years or months, running over into the next month when the target month is shorter, or gives
  nil when that day is outside the supported dates.  From year 1 on the result is that day.  The years
  are counted as they are shown: before year 1, where the year shown differs from the internal one,
  leap days are counted in the wrong year.
\<close>

theorem addyears_addmonths_position:
  assumes "date_ok v" and "fromdate v = (d, m, y)" and "delta \<noteq> int_nil"
  shows "let supported = (\<lambda>a. if date_ok a then a else date_nil); k = 12 * y + (m - 1) + delta;
      here = year_pos d m y; years = year_pos d m (y + delta); months = year_pos d (k mod 12 + 1) (k div 12)
    in (1 \<le> y \<longrightarrow> v = here) \<and>
       MTIMEdate_addyears v delta = supported (v + (years - here)) \<and>
       MTIMEdate_addmonths v delta = supported (v + (months - here))"
proof -
  have nn: "v \<noteq> date_nil" using assms(1) date_ok_nil by simp
  note C = fromdate_calendar [OF nn assms(2)]
  have m: "1 \<le> m" "m \<le> 12" using C(1) by (auto simp: calendar_day_def)
  have v: "v = year_pos d m y" if "1 \<le> y"
    using C(2) that by (simp add: day_number_def year_pos_def internal_year_def)
  let ?c = "if m \<ge> 3 then 1 else 0 :: int" and ?off = "v - year_pos d m y"
  let ?f = "\<lambda>k. year_pos d m k + ?off"
  have rec: "?f (k + 1) = ?f k + YEARDAYS (k + ?c)" for k
    using year_pos_Suc [OF m, of d k] by simp
  have c: "(if m \<ge> 3 then y + 1 else y) = y + ?c" by simp
  have here: "?f y = v" by simp
  have years: "MTIMEdate_addyears v delta = (if date_ok (?f (y + delta)) then ?f (y + delta) else date_nil)"
  proof (cases "0 < delta")
    case True
    have "MTIMEdate_addyears v delta = addyears_up (nat delta) (y + ?c) v"
      unfolding MTIMEdate_addyears_def assms(2) Let_def prod.case c using True nn assms(3) by simp
    also have "\<dots> = (if date_ok (?f (y + int (nat delta))) then ?f (y + int (nat delta)) else date_nil)"
      using addyears_up_path [of ?f ?c y "nat delta", OF rec] assms(1) unfolding here by blast
    finally show ?thesis using True by simp
  next
    case False
    have "MTIMEdate_addyears v delta = addyears_down (nat (- delta)) (y + ?c) v"
      unfolding MTIMEdate_addyears_def assms(2) Let_def prod.case c using False nn assms(3) by simp
    also have "\<dots> = (if date_ok (?f (y - int (nat (- delta)))) then ?f (y - int (nat (- delta))) else date_nil)"
      using addyears_down_path [of ?f ?c y "nat (- delta)", OF rec] assms(1) unfolding here by blast
    finally show ?thesis using False by simp
  qed
  let ?k = "12 * y + (m - 1)"
  have k: "?k mod 12 + 1 = m" "?k div 12 = y" using m by simp_all
  have pos: "year_pos d (j mod 12 + 1) (j div 12) = month_start j + (d - 1)" for j
    by (simp add: year_pos_def month_start_def)
  define e where "e = v - month_start ?k"
  have vk: "v = month_start ?k + e" by (simp add: e_def)
  have ok: "date_ok (month_start ?k + e)" using assms(1) vk by simp
  have "MTIMEdate_addmonths v delta =
      (if delta > 0 then addmonths_up (nat delta) m y v else addmonths_down (nat (- delta)) m y v)"
    using nn assms(3) by (simp add: MTIMEdate_addmonths_def assms(2))
  also have "\<dots> = (if date_ok (month_start (?k + delta) + e) then month_start (?k + delta) + e else date_nil)"
    using addmonths_up_path [OF ok, of "nat delta", unfolded k]
      addmonths_down_path [OF ok, of "nat (- delta)", unfolded k]
    unfolding vk [symmetric] by (cases "delta > 0") (simp_all add: not_less)
  finally have months: "MTIMEdate_addmonths v delta =
    (if date_ok (month_start (?k + delta) + e) then month_start (?k + delta) + e else date_nil)" .
  have "year_pos d m y = month_start ?k + (d - 1)" using pos [of ?k] unfolding k .
  then have e: "month_start (?k + delta) + e = v + (year_pos d ((?k + delta) mod 12 + 1) ((?k + delta) div 12) - year_pos d m y)"
    unfolding pos by (simp add: e_def)
  show ?thesis
    using v years months unfolding Let_def e by (simp add: algebra_simps)
qed

theorem addyears_addmonths_position_witness:
  "MTIMEdate_addmonths (todate 31 1 2004) 1 = todate 2 3 2004"
proof -
  have d: "DATE 31 1 2004" "calendar_day 31 1 2004" "DATE 2 3 2004"
    by (simp_all add: DATE_def calendar_day_def MONTHDAYS_def LEAPDAYS_def
        internal_year_def YEAR_MIN_def YEAR_MAX_def)
  have n: "todate 31 1 2004 = year_start 2004 + 30" "todate 2 3 2004 = year_start 2004 + 61"
    using d by (simp_all add: todate_day_number day_number_def internal_year_def cumdays_def
        leapyear_iff CUMLEAPDAYS_def)
  have "date_ok (todate 31 1 2004)" "date_ok (year_start 2004 + 61)"
    unfolding n by (simp_all add: date_ok_def DATE_limits year_start_def leaps_upto_def)
  then show ?thesis
    using addyears_addmonths_position [of "todate 31 1 2004" 31 1 2004 1]
      valid_date_todate(1) [OF d(1,2)] div_mod_12 [of 24049 2004 1]
    by (simp add: n int_nil_def nil_def Let_def year_pos_def cumdays_def leapyear_iff CUMLEAPDAYS_def
        add.commute)
qed

section \<open>Day and week of the year\<close>

lemma jan_1:
  assumes "y \<noteq> 0" "YEAR_MIN \<le> y" "y \<le> YEAR_MAX" "1 \<le> d" "d \<le> 31"
  shows "todate d 1 y = year_start (internal_year y) + d - 1"
proof -
  have "DATE d 1 y" using assms by (simp add: DATE_def MONTHDAYS_def LEAPDAYS_def)
  then show ?thesis by (simp add: todate_day_number day_number_def cumdays_bounds)
qed

lemma in_year:
  assumes "n \<noteq> date_nil" "fromdate n = (d, m, y)"
  shows "0 \<le> n - year_start (internal_year y)"
    "n - year_start (internal_year y) < YEARDAYS (internal_year y)" "y \<noteq> 0"
proof -
  note C = fromdate_calendar [OF assms]
  have "n = year_start (internal_year y) + (cumdays (internal_year y) ! nat (m - 1) + d - 1)"
    using C(2) unfolding day_number_def by linarith
  then show "0 \<le> n - year_start (internal_year y)"
    "n - year_start (internal_year y) < YEARDAYS (internal_year y)"
    using day_in_year [OF C(1)] by linarith+
  show "y \<noteq> 0" using C(1) by (simp add: calendar_day_def)
qed

lemma kth_thursday:
  fixes t s :: int
  assumes "(t + 5) mod 7 = 3" "0 \<le> t - s"
  shows "(t - (s + 3 + 4 - ((s + 3 + 5) mod 7 + 1))) sdiv 7 = (t - s) div 7"
proof -
  define r where "r = (s + 8) mod 7"
  obtain q where q: "t + 5 = 7 * q + 3" using assms(1) by (metis mult_div_mod_eq)
  define p where "p = (s + 8) div 7"
  have p: "s + 8 = 7 * p + r" "0 \<le> r" "r < 7" by (simp_all add: r_def p_def)
  have e: "t - (s + 3 + 4 - (r + 1)) = 7 * (q - p)" using q p(1) by simp
  have ts: "t - s = 7 * (q - p) + (6 - r)" using q p(1) by simp
  then have "0 \<le> q - p" using assms(2) p(2,3) by simp
  moreover have "(t - s) div 7 = q - p" unfolding ts using p(2,3) by simp
  moreover have "s + 3 + 5 = s + 8" by simp
  ultimately show ?thesis unfolding \<open>s + 3 + 5 = s + 8\<close> r_def [symmetric] e by (simp add: cint_simps)
qed

text \<open>
  The day of the year counts from January 1, between 1 and 366.  The week of the year
  follows the Thursday rule: it is \<open>k\<close> when the Thursday of the week is the \<open>k\<close>-th Thursday of
  the year it falls in, between 1 and 53.
\<close>

lemma day_and_week_of_year:
  assumes "date_ok v" and "fromdate v = (d, m, y)" and "YEAR_MIN \<le> y" and "y \<le> YEAR_MAX"
    and "t = v + 4 - date_dayofweek v" and "fromdate t = (dt, mt, yt)" and "YEAR_MIN \<le> yt" and "yt \<le> YEAR_MAX"
  shows "MTIMEdate_extract_dayofyear v = v - todate 1 1 y + 1
    \<and> 1 \<le> MTIMEdate_extract_dayofyear v \<and> MTIMEdate_extract_dayofyear v \<le> 366
    \<and> date_dayofweek t = 4
    \<and> MTIMEdate_extract_weekofyear v = (t - todate 1 1 yt) div 7 + 1
    \<and> 1 \<le> MTIMEdate_extract_weekofyear v \<and> MTIMEdate_extract_weekofyear v \<le> 53"
proof -
  have nn: "v \<noteq> date_nil" using assms(1) date_ok_nil by simp
  have tn: "t \<noteq> date_nil"
    using assms(1,5) date_dayofweek_range [of v]
    by (auto simp: date_ok_def DATE_limits date_nil_def int_nil_def nil_def)
  note V = in_year [OF nn assms(2)] and T = in_year [OF tn assms(6)]
  have yd: "YEARDAYS k \<le> 366" for k by (simp add: YEARDAYS_def)
  have j1: "todate 1 1 y = year_start (internal_year y)"
    using jan_1 [OF V(3) assms(3,4), of 1] by simp
  have jt: "todate 1 1 yt = year_start (internal_year yt)"
    "todate 4 1 yt = year_start (internal_year yt) + 3"
    using jan_1 [OF T(3) assms(7,8), of 1] jan_1 [OF T(3) assms(7,8), of 4] by simp_all
  have thu: "(t + 5) mod 7 = 3"
  proof -
    have "t + 5 = 7 * ((v + 5) div 7) + 3"
      unfolding assms(5) date_dayofweek_eq using mult_div_mod_eq [of 7 "v + 5"] by linarith
    then have "(t + 5) mod 7 = (7 * ((v + 5) div 7) + 3) mod 7" by (simp only:)
    then show ?thesis by (simp only: mod_mult_self4) simp
  qed
  have week: "MTIMEdate_extract_weekofyear v = (t - todate 1 1 yt) div 7 + 1"
    using nn kth_thursday [OF thu T(1)]
    by (simp only: MTIMEdate_extract_weekofyear_def Let_def assms(5) [symmetric] assms(6) prod.case
        jt date_dayofweek_eq [of "year_start (internal_year yt) + 3"] if_False simp_thms)
  have wk: "0 \<le> (t - year_start (internal_year yt)) div 7" "(t - year_start (internal_year yt)) div 7 < 53"
    using T(1,2) yd [of "internal_year yt"]
    by (simp add: pos_imp_zdiv_nonneg_iff, intro int_div_less_mult) simp_all
  show ?thesis
    using V(1,2) yd [of "internal_year y"] wk nn thu
    by (simp add: week jt(1) date_dayofweek_eq [of t] MTIMEdate_extract_dayofyear_def assms(2) j1)
qed

lemma day_and_week_of_year_witness:
  "MTIMEdate_extract_weekofyear (todate 1 1 2016) = 53"
proof -
  have D: "DATE 1 1 2016" "DATE 31 12 2015" "calendar_day 1 1 2016" "calendar_day 31 12 2015"
    "DATE 1 1 2015"
    by (simp_all add: DATE_def calendar_day_def MONTHDAYS_def LEAPDAYS_def
        internal_year_def YEAR_MIN_def YEAR_MAX_def)
  have n: "todate 1 1 2016 = 736329" "todate 31 12 2015 = 736328" "todate 1 1 2015 = 735964"
    using D by (simp_all add: todate_day_number day_number_def internal_year_def cumdays_def
        leapyear_iff CUMLEAPDAYS_def CUMDAYS_def year_start_def leaps_upto_def)
  have f: "fromdate 736329 = (1, 1, 2016)" "fromdate 736328 = (31, 12, 2015)"
    using valid_date_todate(1) [OF D(1,3)] valid_date_todate(1) [OF D(2,4)] n by simp_all
  show ?thesis
    using day_and_week_of_year [OF _ f(1) _ _ _ f(2)]
    by (simp add: n date_ok_def DATE_limits YEAR_MIN_def YEAR_MAX_def date_dayofweek_eq)
qed

end
