(* ===== verification/Mtime_Zone.thy ===== *)
theory Mtime_Zone
  imports Mtime_Arith
begin

text \<open>
  Daylight-saving rules and time zones (\<open>mal/modules/atoms/mtime.c\<close>): the bit fields of
  \<open>rule\<close> and \<open>tzone\<close> and the macros that pack them, \<open>compute_rule\<close>, \<open>timestamp_inside\<close>, and
  the operations that combine a date, a daytime and a zone.  Every \<open>rule\<close> of this code
  starts from the nil of \<open>int\<close>, so the unused bits are the same in all of them and the nil
  rule is the one whose fields are all zero.
\<close>

unbundle bit_operations_syntax

section \<open>Rules\<close>

record rule =
  r_month :: nat
  r_minutes :: nat
  r_day :: nat
  r_weekday :: nat

definition rule_nil :: rule where
  "rule_nil = \<lparr>r_month = 0, r_minutes = 0, r_day = 0, r_weekday = 0\<rparr>"

definition WEEKDAY_ZERO :: int where "WEEKDAY_ZERO = 8"
definition DAY_ZERO :: int where "DAY_ZERO = 32"
definition OFFSET_ZERO :: int where "OFFSET_ZERO = 4096"

definition get_rule :: "rule \<Rightarrow> nat" where
  "get_rule r = r_weekday r OR push_bit 6 (r_day r) OR push_bit 10 (r_minutes r)
     OR push_bit 21 (r_month r)"

definition set_rule :: "nat \<Rightarrow> rule" where
  "set_rule i =
     \<lparr>r_month = drop_bit 21 (i AND push_bit 21 15), r_minutes = drop_bit 10 (i AND push_bit 10 2047),
      r_day = drop_bit 6 (i AND push_bit 6 63), r_weekday = i AND 15\<rparr>"

definition MTIMErule_create :: "int \<Rightarrow> int \<Rightarrow> int \<Rightarrow> int \<Rightarrow> rule" where
  "MTIMErule_create month day weekday minutes =
     (if month \<noteq> int_nil \<and> month \<ge> 1 \<and> month \<le> 12 \<and> weekday \<noteq> int_nil \<and> \<bar>weekday\<bar> \<le> 7 \<and>
         minutes \<noteq> int_nil \<and> minutes \<ge> 0 \<and> minutes < 24 * 60 \<and>
         day \<noteq> int_nil \<and> \<bar>day\<bar> \<ge> 1 \<and> \<bar>day\<bar> \<le> LEAPDAYS ! nat month \<and> (weekday \<noteq> 0 \<or> day > 0)
      then \<lparr>r_month = nat month, r_minutes = nat minutes, r_day = nat (DAY_ZERO + day),
            r_weekday = nat (WEEKDAY_ZERO + weekday)\<rparr>
      else rule_nil)"

definition MTIMErule_extract_month :: "rule \<Rightarrow> int" where
  "MTIMErule_extract_month r = (if r = rule_nil then int_nil else int (r_month r))"

definition MTIMErule_extract_day :: "rule \<Rightarrow> int" where
  "MTIMErule_extract_day r = (if r = rule_nil then int_nil else int (r_day r) - DAY_ZERO)"

definition MTIMErule_extract_weekday :: "rule \<Rightarrow> int" where
  "MTIMErule_extract_weekday r = (if r = rule_nil then int_nil else int (r_weekday r) - WEEKDAY_ZERO)"

definition MTIMErule_extract_minutes :: "rule \<Rightarrow> int" where
  "MTIMErule_extract_minutes r = (if r = rule_nil then int_nil else int (r_minutes r))"

section \<open>Dates of a rule\<close>

text \<open>\<open>SKIP_DAYS(d, w, i)\<close>\<close>

definition SKIP_DAYS :: "int \<Rightarrow> int \<Rightarrow> int \<Rightarrow> int \<times> int" where
  "SKIP_DAYS d w i = (let w' = (w + i) smod 7 in (d + i, if w' \<le> 0 then w' + 7 else w'))"

text \<open>
  The searches for the weekday, forward and backward; \<open>None\<close> would be a loop that does not
  end.
\<close>

partial_function (option) rule_forward :: "int \<Rightarrow> int \<Rightarrow> int \<Rightarrow> int \<Rightarrow> int option" where
  "rule_forward w dow d cnt =
     (if dow \<noteq> w then rule_forward w (if dow + 1 = WEEKDAY_ZERO then 1 else dow + 1) (d + 1) cnt
      else if cnt - 1 > 0
      then rule_forward w (if dow + 1 = WEEKDAY_ZERO then 1 else dow + 1) (d + 1) (cnt - 1)
      else Some d)"

partial_function (option) rule_backward :: "int \<Rightarrow> int \<Rightarrow> int \<Rightarrow> int \<Rightarrow> int option" where
  "rule_backward w dow d cnt =
     (if dow \<noteq> w then rule_backward w (if dow - 1 = 0 then 7 else dow - 1) (d - 1) cnt
      else if cnt - 1 > 0 then rule_backward w (if dow - 1 = 0 then 7 else dow - 1) (d - 1) (cnt - 1)
      else Some d)"

definition compute_rule :: "rule \<Rightarrow> int \<Rightarrow> int option" where
  "compute_rule val y =
     (let m = int (r_month val); cnt = \<bar>int (r_day val) - DAY_ZERO\<bar>;
          d = todate 1 m y;
          dayofweek = date_dayofweek d;
          w = \<bar>int (r_weekday val) - WEEKDAY_ZERO\<bar>
      in if int (r_weekday val) = WEEKDAY_ZERO \<or> w = WEEKDAY_ZERO then Some (d + (cnt - 1))
         else if int (r_day val) > DAY_ZERO then
           (let (d, dayofweek, cnt) =
              (if int (r_weekday val) < WEEKDAY_ZERO
               then (let (d', w') = SKIP_DAYS d dayofweek (cnt - 1) in (d', w', 1))
               else (d, dayofweek, cnt))
            in rule_forward w dayofweek d cnt)
         else
           (let (d, dayofweek, cnt) =
              (if int (r_weekday val) > WEEKDAY_ZERO
               then (let (d', w') = SKIP_DAYS d dayofweek (MONTHDAYS m y - 1) in (d', w', cnt))
               else (let (d', w') = SKIP_DAYS d dayofweek (cnt - 1) in (d', w', 1)))
            in rule_backward w dayofweek d cnt))"

section \<open>Time zones\<close>

record tzone =
  dst :: bool
  off1 :: nat
  dst_start :: nat
  off2 :: nat
  dst_end :: nat

definition get_offset :: "tzone \<Rightarrow> int" where
  "get_offset z = int (push_bit 7 (off1 z) + off2 z) - OFFSET_ZERO"

definition set_offset :: "tzone \<Rightarrow> int \<Rightarrow> tzone" where
  "set_offset z i = z\<lparr>off1 := nat (drop_bit 7 ((i + OFFSET_ZERO) AND 8064)),
                      off2 := nat ((i + OFFSET_ZERO) AND 127)\<rparr>"

text \<open>The nil zone is the bit pattern of the nil of \<open>lng\<close>: only the top bit of \<open>dst_end\<close> is set.\<close>

definition tzone_nil :: tzone where
  "tzone_nil = \<lparr>dst = False, off1 = 0, dst_start = 0, off2 = 0, dst_end = 16777216\<rparr>"

definition tz_isnil :: "tzone \<Rightarrow> bool" where
  "tz_isnil z \<longleftrightarrow> get_offset z = get_offset tzone_nil"

definition MTIMEtzone_create :: "int \<Rightarrow> tzone" where
  "MTIMEtzone_create minutes =
     (if minutes \<noteq> int_nil \<and> \<bar>minutes\<bar> < 24 * 60
      then (set_offset tzone_nil minutes)\<lparr>dst := False\<rparr> else tzone_nil)"

definition MTIMEtzone_create_dst :: "int \<Rightarrow> rule \<Rightarrow> rule \<Rightarrow> tzone" where
  "MTIMEtzone_create_dst minutes start end =
     (if minutes \<noteq> int_nil \<and> \<bar>minutes\<bar> < 24 * 60 \<and> start \<noteq> rule_nil \<and> end \<noteq> rule_nil
      then (set_offset tzone_nil minutes)\<lparr>dst := True, dst_start := get_rule start,
             dst_end := get_rule end\<rparr>
      else tzone_nil)"

definition MTIMEtzone_extract_start :: "tzone \<Rightarrow> rule" where
  "MTIMEtzone_extract_start t = (if tz_isnil t \<or> \<not> dst t then rule_nil else set_rule (dst_start t))"

definition MTIMEtzone_extract_end :: "tzone \<Rightarrow> rule" where
  "MTIMEtzone_extract_end t = (if tz_isnil t \<or> \<not> dst t then rule_nil else set_rule (dst_end t))"

definition MTIMEtzone_extract_minutes :: "tzone \<Rightarrow> int" where
  "MTIMEtzone_extract_minutes t = (if tz_isnil t then int_nil else get_offset t)"

section \<open>Daylight saving and local time\<close>

definition BEFORE :: "int \<Rightarrow> int \<Rightarrow> int \<Rightarrow> int \<Rightarrow> bool" where
  "BEFORE d1 m1 d2 m2 \<longleftrightarrow> d1 < d2 \<or> d1 = d2 \<and> m1 \<le> m2"

text \<open>Whether the time is in the daylight-saving period, and the shifted time \<open>*ret\<close>.\<close>

definition timestamp_inside :: "timestamp \<Rightarrow> tzone \<Rightarrow> int \<Rightarrow> (bool \<times> timestamp) option" where
  "timestamp_inside t z offset =
     (let add = (if offset \<noteq> 0 then offset else get_offset z * 60000);
          ret = MTIMEtimestamp_add t add
      in if ts_isnil ret \<or> \<not> dst z then Some (False, ret)
         else
           (let start = set_rule (dst_start z); end = set_rule (dst_end z);
                start_msecs = int (r_minutes start) * 60000; end_msecs = int (r_minutes end) * 60000;
                year = (case fromdate (days ret) of (d, m, y) \<Rightarrow> y)
            in case (compute_rule start year, compute_rule end year) of
                 (Some start_days, Some end_days) \<Rightarrow>
                   Some (if BEFORE start_days start_msecs end_days end_msecs
                         then BEFORE start_days start_msecs (days ret) (msecs ret) \<and>
                              BEFORE (days ret) (msecs ret) end_days end_msecs
                         else BEFORE start_days start_msecs (days ret) (msecs ret) \<or>
                              BEFORE (days ret) (msecs ret) end_days end_msecs, ret)
               | _ \<Rightarrow> None))"

definition MTIMEtimestamp_create :: "int \<Rightarrow> int \<Rightarrow> tzone \<Rightarrow> timestamp option" where
  "MTIMEtimestamp_create d t z =
     (if d = date_nil \<or> t = daytime_nil \<or> tz_isnil z then Some timestamp_nil
      else
        (let add = get_offset z * -60000; ret = \<lparr>days = d, msecs = t\<rparr> in
         if dst z then
           (case timestamp_inside ret z (-3600000) of
              None \<Rightarrow> None
            | Some (True, tmp) \<Rightarrow> Some (MTIMEtimestamp_add tmp add)
            | Some (False, tmp) \<Rightarrow> Some (MTIMEtimestamp_add ret add))
         else Some (MTIMEtimestamp_add ret add)))"

text \<open>The local time of a timestamp: the common part of the two extraction functions.\<close>

definition local_time :: "timestamp \<Rightarrow> tzone \<Rightarrow> timestamp option" where
  "local_time t z =
     (case timestamp_inside t z 0 of
        None \<Rightarrow> None
      | Some (True, tmp) \<Rightarrow> Some (MTIMEtimestamp_add tmp 3600000)
      | Some (False, tmp) \<Rightarrow> Some tmp)"

definition MTIMEtimestamp_extract_daytime :: "timestamp \<Rightarrow> tzone \<Rightarrow> int option" where
  "MTIMEtimestamp_extract_daytime t z =
     (if ts_isnil t \<or> tz_isnil z then Some daytime_nil
      else map_option (\<lambda>tmp. if ts_isnil tmp then daytime_nil else msecs tmp) (local_time t z))"

definition MTIMEtimestamp_extract_date :: "timestamp \<Rightarrow> tzone \<Rightarrow> int option" where
  "MTIMEtimestamp_extract_date t z =
     (if ts_isnil t \<or> tz_isnil z then Some date_nil
      else map_option (\<lambda>tmp. if ts_isnil tmp then date_nil else days tmp) (local_time t z))"

definition MTIMEtimestamp_inside_dst :: "timestamp \<Rightarrow> tzone \<Rightarrow> int option" where
  "MTIMEtimestamp_inside_dst p z =
     (if tz_isnil z then Some (nil TYPE_bte)
      else if dst z then map_option (\<lambda>(inside, tmp). if inside then 1 else 0) (timestamp_inside p z 0)
      else Some 0)"

definition MTIMEtimestamp_add_month_interval_wrap ::
  "tzone \<Rightarrow> timestamp \<Rightarrow> int \<Rightarrow> timestamp option"
where
  "MTIMEtimestamp_add_month_interval_wrap tzone_local v months =
     (case (MTIMEtimestamp_extract_daytime v tzone_local, MTIMEtimestamp_extract_date v tzone_local) of
        (Some t, Some d) \<Rightarrow> MTIMEtimestamp_create (MTIMEdate_addmonths d months) t tzone_local
      | _ \<Rightarrow> None)"

section \<open>Packing\<close>

definition rule_fields :: "rule \<Rightarrow> bool" where
  "rule_fields r \<longleftrightarrow> r_month r < 16 \<and> r_minutes r < 2048 \<and> r_day r < 64 \<and> r_weekday r < 16"

lemma bit_less_power: "n < 2 ^ k \<Longrightarrow> bit (n::nat) i \<Longrightarrow> i < k"
proof (rule ccontr)
  assume n: "n < 2 ^ k" and b: "bit n i" and "\<not> i < k"
  then have "(2::nat) ^ k \<le> 2 ^ i" by (simp add: power_increasing)
  then have "n < 2 ^ i" using n by linarith
  then have "n div 2 ^ i = 0" by simp
  then show False using b by (simp add: bit_iff_odd)
qed

lemma set_get_rule:
  assumes "rule_fields r"
  shows "set_rule (get_rule r) = r\<lparr>r_minutes := r_minutes r OR drop_bit 4 (r_day r),
      r_day := r_day r OR push_bit 4 (r_minutes r AND 3)\<rparr>"
proof -
  have b: "bit (r_month r) i \<Longrightarrow> i < 4" "bit (r_minutes r) i \<Longrightarrow> i < 11" "bit (r_day r) i \<Longrightarrow> i < 6"
    "bit (r_weekday r) i \<Longrightarrow> i < 4" for i
    using assms bit_less_power [of _ 4] bit_less_power [of _ 11] bit_less_power [of _ 6]
    by (auto simp: rule_fields_def)
  have masks: "(15::nat) = mask 4" "(2047::nat) = mask 11" "(63::nat) = mask 6" "(3::nat) = mask 2"
    by (simp_all add: mask_eq_exp_minus_1)
  have "r_weekday (set_rule (get_rule r)) = r_weekday r"
    unfolding set_rule_def get_rule_def masks
    by (rule bit_eqI) (auto simp: bit_simps dest: b)
  moreover have "r_month (set_rule (get_rule r)) = r_month r"
    unfolding set_rule_def get_rule_def masks
    by (rule bit_eqI) (auto simp: bit_simps dest: b)
  moreover have "r_minutes (set_rule (get_rule r)) = r_minutes r OR drop_bit 4 (r_day r)"
    unfolding set_rule_def get_rule_def masks
    by (rule bit_eqI) (auto simp: bit_simps dest: b)
  moreover have "r_day (set_rule (get_rule r)) = r_day r OR push_bit 4 (r_minutes r AND 3)"
    unfolding set_rule_def get_rule_def masks
    by (rule bit_eqI) (auto simp: bit_simps dest: b)
  ultimately show ?thesis by simp
qed

lemma rule_pack_iff:
  assumes "rule_fields r"
  shows "set_rule (get_rule r) = r \<longleftrightarrow> r_minutes r AND 3 = drop_bit 4 (r_day r)"
proof
  have day: "bit (r_day r) i \<Longrightarrow> i < 6" for i
    using assms bit_less_power [of "r_day r" 6] by (auto simp: rule_fields_def)
  have three: "(3::nat) = mask 2" by (simp add: mask_eq_exp_minus_1)
  {
    assume eq: "set_rule (get_rule r) = r"
    have m: "r_minutes r OR drop_bit 4 (r_day r) = r_minutes r"
      and d: "r_day r OR push_bit 4 (r_minutes r AND 3) = r_day r"
      using set_get_rule [OF assms] eq by (metis rule.surjective rule.update_convs rule.ext_inject)+
    show "r_minutes r AND 3 = drop_bit 4 (r_day r)"
    proof (rule bit_eqI)
      fix i
      have "bit (r_day r) (4 + i) \<Longrightarrow> bit (r_minutes r) i"
        using arg_cong [OF m, of "\<lambda>x. bit x i"] by (simp add: bit_simps)
      moreover have "i < 2 \<Longrightarrow> bit (r_minutes r) i \<Longrightarrow> bit (r_day r) (4 + i)"
        using arg_cong [OF d, of "\<lambda>x. bit x (4 + i)"] by (simp add: bit_simps three)
      ultimately show "bit (r_minutes r AND 3) i = bit (drop_bit 4 (r_day r)) i"
        using day [of "4 + i"] by (auto simp: bit_simps three)
    qed
  }
  assume eq: "r_minutes r AND 3 = drop_bit 4 (r_day r)"
  have "r_minutes r OR drop_bit 4 (r_day r) = r_minutes r"
    unfolding eq [symmetric] by (rule bit_eqI) (auto simp: bit_simps)
  moreover have "r_day r OR push_bit 4 (r_minutes r AND 3) = r_day r"
    unfolding eq by (rule bit_eqI) (auto simp: bit_simps)
  ultimately show "set_rule (get_rule r) = r" using set_get_rule [OF assms] by simp
qed

lemma rule_pack_mod:
  "r_minutes r AND 3 = r_minutes r mod 4" "drop_bit 4 (r_day r) = r_day r div 16"
proof -
  have three: "(3::nat) = mask 2" by (simp add: mask_eq_exp_minus_1)
  show "r_minutes r AND 3 = r_minutes r mod 4"
    unfolding three by (simp add: take_bit_eq_mod flip: take_bit_eq_mask)
  show "drop_bit 4 (r_day r) = r_day r div 16" by (simp add: drop_bit_eq_div)
qed

text \<open>
  Packing a rule into the bits of a zone and reading it back does not return the rule:
  the 6-bit day at bit 6 and the minutes at bit 10 overlap in two bits, which come back as the
  union of both.  The rule survives exactly when the last two bits of the minutes equal the
  first two of the day field.  The built-in rule \<open>first sunday from end of march@02:00\<close> comes
  back as 02:01.
\<close>

lemma rule_pack_overlap:
  assumes "rule_fields r"
  shows "set_rule (get_rule r) = r\<lparr>r_minutes := r_minutes r OR drop_bit 4 (r_day r),
      r_day := r_day r OR push_bit 4 (r_minutes r AND 3)\<rparr>
    \<and> (set_rule (get_rule r) = r \<longleftrightarrow> r_minutes r mod 4 = r_day r div 16)
    \<and> MTIMErule_extract_minutes (set_rule (get_rule (MTIMErule_create 3 (- 1) (- 7) 120))) = 121"
proof -
  have "MTIMErule_create 3 (- 1) (- 7) 120
      = \<lparr>r_month = 3, r_minutes = 120, r_day = 31, r_weekday = 1\<rparr>"
    by (simp add: MTIMErule_create_def int_nil_def nil_def LEAPDAYS_def DAY_ZERO_def WEEKDAY_ZERO_def)
  then have "MTIMErule_extract_minutes (set_rule (get_rule (MTIMErule_create 3 (- 1) (- 7) 120))) = 121"
    by (simp add: set_get_rule rule_fields_def MTIMErule_extract_minutes_def rule_nil_def
        drop_bit_eq_div)
  then show ?thesis
    using set_get_rule [OF assms] rule_pack_iff [OF assms] by (simp add: rule_pack_mod)
qed

lemma rule_pack_overlap_witness:
  "set_rule (get_rule \<lparr>r_month = 10, r_minutes = 121, r_day = 31, r_weekday = 1\<rparr>)
     = \<lparr>r_month = 10, r_minutes = 121, r_day = 31, r_weekday = 1\<rparr>"
  using rule_pack_overlap [of "\<lparr>r_month = 10, r_minutes = 121, r_day = 31, r_weekday = 1\<rparr>"]
  by (simp add: rule_fields_def)

lemma get_set_offset:
  assumes "- 4096 \<le> i" "i < 4096"
  shows "get_offset (set_offset z i) = i"
proof -
  let ?n = "i + 4096"
  have n: "0 \<le> ?n" "?n < 2 ^ 13" using assms by simp_all
  have masks: "(8064::int) = push_bit 7 (mask 6)" "(127::int) = mask 7"
    by (simp_all add: mask_eq_exp_minus_1 push_bit_eq_mult)
  have hi: "drop_bit 7 (?n AND 8064) = ?n div 128"
  proof -
    have "drop_bit 7 (?n AND 8064) = take_bit 6 (drop_bit 7 ?n)"
      unfolding masks by (rule bit_eqI) (auto simp: bit_simps)
    also have "\<dots> = drop_bit 7 ?n"
      using n by (intro take_bit_int_eq_self) (auto simp: drop_bit_eq_div int_div_less_mult)
    finally show ?thesis by (simp add: drop_bit_eq_div)
  qed
  have lo: "?n AND 127 = ?n mod 128"
    unfolding masks by (simp add: take_bit_eq_mod flip: take_bit_eq_mask)
  have "int (push_bit 7 (nat (?n div 128)) + nat (?n mod 128)) = ?n"
    using n by (simp add: push_bit_eq_mult pos_imp_zdiv_nonneg_iff)
  moreover have "get_offset (set_offset z i) =
      int (push_bit 7 (nat (drop_bit 7 (?n AND 8064))) + nat (?n AND 127)) - 4096"
    by (cases z) (simp only: get_offset_def set_offset_def OFFSET_ZERO_def tzone.simps)
  ultimately show ?thesis unfolding hi lo by linarith
qed

lemma tzone_nil_offset: "get_offset tzone_nil = - 4096"
  by (simp add: get_offset_def tzone_nil_def OFFSET_ZERO_def)

lemma get_offset_update:
  "get_offset (z\<lparr>dst := b\<rparr>) = get_offset z" "get_offset (z\<lparr>dst_start := n\<rparr>) = get_offset z"
  "get_offset (z\<lparr>dst_end := n\<rparr>) = get_offset z"
  by (simp_all add: get_offset_def)

text \<open>What is left of a rule in the bit fields of a zone: its minutes and its day share two bits.\<close>

definition overlapped :: "rule \<Rightarrow> rule" where
  "overlapped r = r\<lparr>r_minutes := r_minutes r OR drop_bit 4 (r_day r),
     r_day := r_day r OR push_bit 4 (r_minutes r AND 3)\<rparr>"

text \<open>
  C37. What comes back from a zone and from a rule.  An offset of less than a day is stored in its two
  bit fields and read back, never confused with the nil zone; other offsets give nil.  The fields of a
  created rule are the arguments, of a rule that cannot be created they are nil.  The start and end of
  the daylight saving of a zone do not round trip in general: the minutes and the day of a rule are
  stored in bits of which two are shared, and each comes back with the bits of the other; the rule
  comes back as it was exactly if the last two bits of the minutes equal the first two of the day field.
\<close>

theorem zone_rule_roundtrip:
  "(if \<bar>minutes\<bar> < 24 * 60
    then MTIMEtzone_extract_minutes (MTIMEtzone_create minutes) = minutes
      \<and> \<not> tz_isnil (MTIMEtzone_create minutes)
      \<and> (let z = MTIMEtzone_create_dst minutes start end in
          rule_fields start \<and> rule_fields end \<and> start \<noteq> rule_nil \<and> end \<noteq> rule_nil \<longrightarrow>
            MTIMEtzone_extract_minutes z = minutes
            \<and> MTIMEtzone_extract_start z = overlapped start \<and> MTIMEtzone_extract_end z = overlapped end
            \<and> (MTIMEtzone_extract_start z = start \<longleftrightarrow> r_minutes start mod 4 = r_day start div 16)
            \<and> (MTIMEtzone_extract_end z = end \<longleftrightarrow> r_minutes end mod 4 = r_day end div 16))
    else MTIMEtzone_create minutes = tzone_nil)
   \<and> (let r = MTIMErule_create m d w mn in
      if r = rule_nil then MTIMErule_extract_month r = int_nil
      else rule_fields r \<and> MTIMErule_extract_month r = m \<and> MTIMErule_extract_day r = d
        \<and> MTIMErule_extract_weekday r = w \<and> MTIMErule_extract_minutes r = mn)"
proof (intro conjI)
  let ?z = "MTIMEtzone_create_dst minutes start end"
  have fields: "set_rule (get_rule r) = overlapped r \<and> (set_rule (get_rule r) = r \<longleftrightarrow> r_minutes r mod 4 = r_day r div 16)"
    if "rule_fields r" for r
    using rule_pack_overlap [OF that] unfolding overlapped_def by blast
  have zone: "MTIMEtzone_extract_minutes ?z = minutes \<and> MTIMEtzone_extract_start ?z = set_rule (get_rule start) \<and>
    MTIMEtzone_extract_end ?z = set_rule (get_rule end)"
    if "\<bar>minutes\<bar> < 24 * 60" "start \<noteq> rule_nil" "end \<noteq> rule_nil"
    using that get_set_offset [of minutes tzone_nil]
    by (auto simp: MTIMEtzone_create_dst_def MTIMEtzone_extract_minutes_def
        MTIMEtzone_extract_start_def MTIMEtzone_extract_end_def tz_isnil_def tzone_nil_offset
        get_offset_update int_nil_def nil_def abs_less_iff)
  have "if \<bar>minutes\<bar> < 24 * 60
    then MTIMEtzone_extract_minutes (MTIMEtzone_create minutes) = minutes \<and> \<not> tz_isnil (MTIMEtzone_create minutes)
    else MTIMEtzone_create minutes = tzone_nil"
    using get_set_offset [of minutes tzone_nil]
    by (auto simp: MTIMEtzone_create_def MTIMEtzone_extract_minutes_def tz_isnil_def tzone_nil_offset
        get_offset_update int_nil_def nil_def abs_less_iff)
  then show "if \<bar>minutes\<bar> < 24 * 60
    then MTIMEtzone_extract_minutes (MTIMEtzone_create minutes) = minutes
      \<and> \<not> tz_isnil (MTIMEtzone_create minutes)
      \<and> (let z = ?z in
          rule_fields start \<and> rule_fields end \<and> start \<noteq> rule_nil \<and> end \<noteq> rule_nil \<longrightarrow>
            MTIMEtzone_extract_minutes z = minutes
            \<and> MTIMEtzone_extract_start z = overlapped start \<and> MTIMEtzone_extract_end z = overlapped end
            \<and> (MTIMEtzone_extract_start z = start \<longleftrightarrow> r_minutes start mod 4 = r_day start div 16)
            \<and> (MTIMEtzone_extract_end z = end \<longleftrightarrow> r_minutes end mod 4 = r_day end div 16))
    else MTIMEtzone_create minutes = tzone_nil"
    using zone fields [of start] fields [of "end"] by (auto simp: Let_def split: if_splits)
  show "let r = MTIMErule_create m d w mn in
      if r = rule_nil then MTIMErule_extract_month r = int_nil
      else rule_fields r \<and> MTIMErule_extract_month r = m \<and> MTIMErule_extract_day r = d
        \<and> MTIMErule_extract_weekday r = w \<and> MTIMErule_extract_minutes r = mn"
  proof (cases "MTIMErule_create m d w mn = rule_nil")
    case True
    then show ?thesis by (simp add: MTIMErule_extract_month_def)
  next
    case False
    then have v: "1 \<le> m" "m \<le> 12" "\<bar>w\<bar> \<le> 7" "0 \<le> mn" "mn < 1440" "1 \<le> \<bar>d\<bar>" "\<bar>d\<bar> \<le> LEAPDAYS ! nat m"
      and r: "MTIMErule_create m d w mn = \<lparr>r_month = nat m, r_minutes = nat mn,
        r_day = nat (DAY_ZERO + d), r_weekday = nat (WEEKDAY_ZERO + w)\<rparr>"
      by (auto simp: MTIMErule_create_def split: if_splits)
    have "LEAPDAYS ! nat m \<le> 31"
      using v(1,2) by (rule month_cases) (simp_all add: LEAPDAYS_def nth_Cons' numeral_eq_Suc)
    then have "\<bar>d\<bar> \<le> 31" using v(7) by linarith
    then show ?thesis
      using v False unfolding r Let_def
      by (simp add: MTIMErule_extract_month_def MTIMErule_extract_day_def
          MTIMErule_extract_weekday_def MTIMErule_extract_minutes_def rule_fields_def
          DAY_ZERO_def WEEKDAY_ZERO_def nat_less_iff abs_le_iff)
  qed
qed

theorem zone_rule_roundtrip_witness:
  "MTIMEtzone_extract_minutes (MTIMEtzone_create (- 90)) = - 90
   \<and> MTIMErule_extract_day (MTIMErule_create 10 (- 1) 7 180) = - 1
   \<and> (let march = \<lparr>r_month = 3, r_minutes = 120, r_day = 31, r_weekday = 1\<rparr> in
        MTIMEtzone_extract_start (MTIMEtzone_create_dst 60 march march) = march\<lparr>r_minutes := 121\<rparr>)"
proof -
  let ?march = "\<lparr>r_month = 3, r_minutes = 120, r_day = 31, r_weekday = 1\<rparr>"
  have "MTIMErule_create 10 (- 1) 7 180 \<noteq> rule_nil"
    by (simp add: MTIMErule_create_def rule_nil_def int_nil_def nil_def LEAPDAYS_def DAY_ZERO_def
        WEEKDAY_ZERO_def)
  moreover have "rule_fields ?march" "?march \<noteq> rule_nil" by (simp_all add: rule_fields_def rule_nil_def)
  moreover have "overlapped ?march = ?march\<lparr>r_minutes := 121\<rparr>"
    by (simp add: overlapped_def drop_bit_eq_div)
  ultimately show ?thesis
    using zone_rule_roundtrip [of "- 90" rule_nil rule_nil 10 "- 1" 7 180]
      zone_rule_roundtrip [of 60 ?march ?march 10 "- 1" 7 180] by (simp add: Let_def)
qed

section \<open>The dates of a rule\<close>

lemma mod7_pred: "(x - 1) mod 7 = (if x mod 7 = 0 then 6 else x mod 7 - (1::int))"
proof -
  define q r where "q = x div 7" and "r = x mod 7"
  have x: "x = 7 * q + r" "0 \<le> r" "r < 7" by (simp_all add: q_def r_def)
  show ?thesis
  proof (cases "r = 0")
    case True
    then have "(x - 1) mod 7 = 6" using x by (intro int_mod_pos_eq [of _ _ "q - 1"]) auto
    then show ?thesis using True by (simp add: r_def)
  next
    case False
    then have "(x - 1) mod 7 = r - 1" using x by (intro int_mod_pos_eq [of _ _ q]) auto
    then show ?thesis using False by (simp add: r_def)
  qed
qed

lemma weekday_shift:
  fixes a w dow :: int
  assumes "1 \<le> w" "w \<le> 7" "1 \<le> dow" "dow \<le> 7"
  shows "dow \<noteq> w \<Longrightarrow> (w - (if dow + 1 = 8 then 1 else dow + 1)) mod 7 = (w - dow) mod 7 - 1"
    "(w - (if w + 1 = 8 then 1 else w + 1)) mod 7 = 6" "dow \<noteq> w \<Longrightarrow> 1 \<le> (w - dow) mod 7"
    "dow \<noteq> w \<Longrightarrow> ((if dow - 1 = 0 then 7 else dow - 1) - w) mod 7 = (dow - w) mod 7 - 1"
    "((if w - 1 = 0 then 7 else w - 1) - w) mod 7 = 6" "dow \<noteq> w \<Longrightarrow> 1 \<le> (dow - w) mod 7"
proof -
  have pos: "1 \<le> x mod 7" if "x mod 7 \<noteq> 0" for x :: int
    using that pos_mod_sign [of 7 x] by linarith
  have f: "(w - (if u + 1 = 8 then 1 else u + 1)) mod 7 = (w - u - 1) mod 7" for u
  proof (cases "u + 1 = 8")
    case True
    then have "w - 1 = (w - u - 1) + 7 * 1" by simp
    then show ?thesis using True by (simp only: refl if_True mod_mult_self2)
  qed (simp add: algebra_simps)
  have b: "((if u - 1 = 0 then 7 else u - 1) - w) mod 7 = (u - w - 1) mod 7" for u
  proof (cases "u - 1 = 0")
    case True
    then have "7 - w = (u - w - 1) + 7 * 1" by simp
    then show ?thesis using True by (simp only: refl if_True mod_mult_self2)
  qed (simp add: algebra_simps)
  show "(w - (if w + 1 = 8 then 1 else w + 1)) mod 7 = 6" unfolding f by simp
  show "((if w - 1 = 0 then 7 else w - 1) - w) mod 7 = 6" unfolding b by simp
  assume ne: "dow \<noteq> w"
  have "\<not> 7 dvd w - dow" "\<not> 7 dvd dow - w"
    using ne assms dvd_imp_le_int [of "w - dow" 7] dvd_imp_le_int [of "dow - w" 7] by auto
  then have nz: "(w - dow) mod 7 \<noteq> 0" "(dow - w) mod 7 \<noteq> 0" by (simp_all add: dvd_eq_mod_eq_0)
  show "1 \<le> (w - dow) mod 7" "1 \<le> (dow - w) mod 7" by (rule pos, rule nz)+
  show "(w - (if dow + 1 = 8 then 1 else dow + 1)) mod 7 = (w - dow) mod 7 - 1"
    unfolding f using nz(1) by (simp add: mod7_pred)
  show "((if dow - 1 = 0 then 7 else dow - 1) - w) mod 7 = (dow - w) mod 7 - 1"
    unfolding b using nz(2) by (simp add: mod7_pred)
qed

lemma rule_forward_eq:
  assumes "1 \<le> w" "w \<le> 7" "1 \<le> dow" "dow \<le> 7" "1 \<le> cnt"
  shows "rule_forward w dow d cnt = Some (d + (w - dow) mod 7 + 7 * (cnt - 1))"
  using assms(3-)
proof (induction "nat ((w - dow) mod 7 + 7 * (cnt - 1))" arbitrary: dow d cnt rule: less_induct)
  case less
  let ?dow = "if dow + 1 = 8 then 1 else dow + 1"
  have n: "1 \<le> ?dow" "?dow \<le> 7" using less.prems by auto
  note W = weekday_shift [OF assms(1,2) less.prems(1,2)]
  show ?case
  proof (cases "dow = w")
    case False
    have "rule_forward w ?dow (d + 1) cnt = Some (d + 1 + (w - ?dow) mod 7 + 7 * (cnt - 1))"
      by (rule less.hyps) (use W(1,3) False less.prems n in auto)
    then show ?thesis
      using False W(1) by (simp add: rule_forward.simps [of w dow] WEEKDAY_ZERO_def)
  next
    case True
    show ?thesis
    proof (cases "cnt - 1 > 0")
      case c: True
      have "rule_forward w ?dow (d + 1) (cnt - 1) = Some (d + 1 + (w - ?dow) mod 7 + 7 * (cnt - 1 - 1))"
        by (rule less.hyps) (use W(2) True c n in auto)
      then show ?thesis
        using c W(2) unfolding True by (simp add: rule_forward.simps [of w w] WEEKDAY_ZERO_def)
    next
      case False
      then show ?thesis
        using less.prems unfolding True by (simp add: rule_forward.simps [of w w] WEEKDAY_ZERO_def)
    qed
  qed
qed

lemma rule_backward_eq:
  assumes "1 \<le> w" "w \<le> 7" "1 \<le> dow" "dow \<le> 7" "1 \<le> cnt"
  shows "rule_backward w dow d cnt = Some (d - (dow - w) mod 7 - 7 * (cnt - 1))"
  using assms(3-)
proof (induction "nat ((dow - w) mod 7 + 7 * (cnt - 1))" arbitrary: dow d cnt rule: less_induct)
  case less
  let ?dow = "if dow - 1 = 0 then 7 else dow - 1"
  have n: "1 \<le> ?dow" "?dow \<le> 7" using less.prems by auto
  note W = weekday_shift [OF assms(1,2) less.prems(1,2)]
  show ?case
  proof (cases "dow = w")
    case False
    have "rule_backward w ?dow (d - 1) cnt = Some (d - 1 - (?dow - w) mod 7 - 7 * (cnt - 1))"
      by (rule less.hyps) (use W(4,6) False less.prems n in auto)
    then show ?thesis
      using False W(4) by (simp add: rule_backward.simps [of w dow])
  next
    case True
    show ?thesis
    proof (cases "cnt - 1 > 0")
      case c: True
      have "rule_backward w ?dow (d - 1) (cnt - 1) = Some (d - 1 - (?dow - w) mod 7 - 7 * (cnt - 1 - 1))"
        by (rule less.hyps) (use W(5) True c n in auto)
      then show ?thesis
        using c W(5) unfolding True by (simp add: rule_backward.simps [of w w])
    next
      case False
      then show ?thesis
        using less.prems unfolding True by (simp add: rule_backward.simps [of w w])
    qed
  qed
qed

lemma SKIP_DAYS_eq:
  assumes "0 \<le> i"
  shows "SKIP_DAYS d (date_dayofweek d) i = (d + i, date_dayofweek (d + i))"
proof -
  define x where "x = d + 5 + i"
  have dow: "date_dayofweek d + i = (d + 5) mod 7 + 1 + i" by (simp add: date_dayofweek_eq)
  have "(date_dayofweek d + i) smod 7 = (date_dayofweek d + i) mod 7"
    using assms date_dayofweek_range [of d] by (simp add: cint_simps)
  also have "\<dots> = (x + 1) mod 7"
    unfolding dow x_def by (metis (no_types, opaque_lifting) add.assoc add.commute mod_add_left_eq)
  finally have s: "(date_dayofweek d + i) smod 7 = (x + 1) mod 7" .
  have "(x + 1) mod 7 = (if x mod 7 = 6 then 0 else x mod 7 + 1)"
    using mod7_pred [of "x + 1"] pos_mod_sign [of 7 "x + 1"] pos_mod_bound [of 7 x] by auto
  moreover have "0 \<le> x mod 7" by simp
  ultimately have "(if (x + 1) mod 7 \<le> 0 then (x + 1) mod 7 + 7 else (x + 1) mod 7) = x mod 7 + 1"
    by auto
  moreover have "date_dayofweek (d + i) = x mod 7 + 1"
    by (simp add: date_dayofweek_eq x_def algebra_simps)
  ultimately show ?thesis unfolding SKIP_DAYS_def Let_def s by simp
qed

lemma dow_offset:
  assumes "1 \<le> w" "w \<le> 7"
  shows "date_dayofweek (d + (w - date_dayofweek d) mod 7) = w"
    "date_dayofweek (d - (date_dayofweek d - w) mod 7) = w"
proof -
  have w: "(w - 1) mod 7 = w - 1" using assms by simp
  have "(d + (w - date_dayofweek d) mod 7 + 5) mod 7 = (d + 5 + (w - date_dayofweek d)) mod 7"
    by (metis (no_types, opaque_lifting) add.assoc add.commute mod_add_left_eq)
  also have "d + 5 + (w - date_dayofweek d) = w - 1 + 7 * ((d + 5) div 7)"
    unfolding date_dayofweek_eq by (simp add: algebra_simps minus_div_mult_eq_mod [symmetric])
  finally show "date_dayofweek (d + (w - date_dayofweek d) mod 7) = w"
    using w by (simp add: date_dayofweek_eq)
  have "(d - (date_dayofweek d - w) mod 7 + 5) mod 7 = (d + 5 - (date_dayofweek d - w)) mod 7"
    by (metis (no_types, opaque_lifting) diff_add_eq mod_diff_right_eq)
  also have "d + 5 - (date_dayofweek d - w) = w - 1 + 7 * ((d + 5) div 7)"
    unfolding date_dayofweek_eq by (simp add: algebra_simps minus_div_mult_eq_mod [symmetric])
  finally show "date_dayofweek (d - (date_dayofweek d - w) mod 7) = w"
    using w by (simp add: date_dayofweek_eq)
qed

lemma dow_weeks:
  "date_dayofweek (x + 7 * k) = date_dayofweek x" "date_dayofweek (x - 7 * k) = date_dayofweek x"
proof -
  have "(x + 7 * k + 5) mod 7 = (x + 5) mod 7" for k
    by (metis (no_types, opaque_lifting) add.assoc add.commute mod_mult_self2)
  from this [of k] this [of "- k"] show
    "date_dayofweek (x + 7 * k) = date_dayofweek x" "date_dayofweek (x - 7 * k) = date_dayofweek x"
    by (simp_all add: date_dayofweek_eq)
qed

text \<open>
  What a rule means in a year: \<open>fst_day\<close> is day 1 and \<open>lst_day\<close> the last day of the month.
\<close>

definition rule_date :: "int \<Rightarrow> int \<Rightarrow> int \<Rightarrow> int \<Rightarrow> int \<Rightarrow> bool" where
  "rule_date day weekday fst_day lst_day r \<longleftrightarrow>
     (if weekday = 0 then r = fst_day + day - 1
      else date_dayofweek r = \<bar>weekday\<bar> \<and>
       (if day > 0 then
          (if weekday < 0 then fst_day + day - 1 \<le> r \<and> r < fst_day + day + 6
           else fst_day + 7 * (day - 1) \<le> r \<and> r < fst_day + 7 * day)
        else
          (if weekday > 0 then lst_day + 7 * day < r \<and> r \<le> lst_day + 7 * (day + 1)
           else fst_day - day - 8 < r \<and> r \<le> fst_day - day - 1)))"

lemma compute_rule_first:
  assumes "int (r_month val) = m" "int (r_day val) = 32 + d" "int (r_weekday val) = 8 + w"
    and "1 \<le> m" "m \<le> 12" and w: "1 \<le> \<bar>w\<bar>" "\<bar>w\<bar> \<le> 7" and sign: "0 < d"
  shows "\<exists>r. compute_rule val y = Some r \<and>
    rule_date d w (todate 1 m y) (todate 1 m y + MONTHDAYS m y - 1) r"
proof -
  let ?f = "todate 1 m y" and ?dow = "date_dayofweek (todate 1 m y)"
  note unf = compute_rule_def Let_def assms(1-3) DAY_ZERO_def WEEKDAY_ZERO_def
  note dw = date_dayofweek_range
  note fwd = rule_forward_eq [OF w conjunct1 [OF dw] conjunct2 [OF dw]]
  note bwd = rule_backward_eq [OF w conjunct1 [OF dw] conjunct2 [OF dw]]
  have M: "0 \<le> MONTHDAYS m y - 1" using MONTHDAYS_pos [OF assms(4,5), of y] by simp
  have mod7: "0 \<le> x mod 7" "x mod 7 < 7" for x :: int by simp_all
  have w8: "\<bar>w\<bar> \<noteq> 8" using w by simp
  consider "d > 0" "w < 0" | "d > 0" "w > 0" using sign w by linarith
  then show ?thesis
  proof cases
    case 1
    let ?s = "?f + (\<bar>d\<bar> - 1)"
    have "compute_rule val y = Some (?s + (\<bar>w\<bar> - date_dayofweek ?s) mod 7)"
      using 1 w8 SKIP_DAYS_eq [of "\<bar>d\<bar> - 1" ?f] fwd [of 1 ?s ?s] by (simp add: unf)
    moreover have "rule_date d w ?f (?f + MONTHDAYS m y - 1)
        (?s + (\<bar>w\<bar> - date_dayofweek ?s) mod 7)"
      using 1 dow_offset(1) [OF w, of ?s] mod7 [of "\<bar>w\<bar> - date_dayofweek ?s"]
      by (simp add: rule_date_def)
    ultimately show ?thesis by blast
  next
    case 2
    let ?r = "?f + (\<bar>w\<bar> - ?dow) mod 7 + 7 * (\<bar>d\<bar> - 1)"
    have "compute_rule val y = Some ?r"
      using 2 w8 fwd [of "\<bar>d\<bar>" ?f ?f] by (simp add: unf)
    moreover have "date_dayofweek ?r = \<bar>w\<bar>"
      using dow_offset(1) [OF w, of ?f] by (simp only: dow_weeks)
    moreover have "?f + 7 * (d - 1) \<le> ?r" "?r < ?f + 7 * d"
      using 2 mod7 [of "\<bar>w\<bar> - ?dow"] by simp_all
    ultimately show ?thesis using 2 by (auto simp: rule_date_def)
  qed
qed

lemma compute_rule_last:
  assumes "int (r_month val) = m" "int (r_day val) = 32 + d" "int (r_weekday val) = 8 + w"
    and "1 \<le> m" "m \<le> 12" and w: "1 \<le> \<bar>w\<bar>" "\<bar>w\<bar> \<le> 7" and sign: "d < 0"
  shows "\<exists>r. compute_rule val y = Some r \<and>
    rule_date d w (todate 1 m y) (todate 1 m y + MONTHDAYS m y - 1) r"
proof -
  let ?f = "todate 1 m y" and ?dow = "date_dayofweek (todate 1 m y)"
  note unf = compute_rule_def Let_def assms(1-3) DAY_ZERO_def WEEKDAY_ZERO_def
  note dw = date_dayofweek_range
  note fwd = rule_forward_eq [OF w conjunct1 [OF dw] conjunct2 [OF dw]]
  note bwd = rule_backward_eq [OF w conjunct1 [OF dw] conjunct2 [OF dw]]
  have M: "0 \<le> MONTHDAYS m y - 1" using MONTHDAYS_pos [OF assms(4,5), of y] by simp
  have mod7: "0 \<le> x mod 7" "x mod 7 < 7" for x :: int by simp_all
  have w8: "\<bar>w\<bar> \<noteq> 8" using w by simp
  consider "d < 0" "w > 0" | "d < 0" "w < 0" using sign w by linarith
  then show ?thesis
  proof cases
    case 1
    let ?l = "?f + (MONTHDAYS m y - 1)"
    let ?r = "?l - (date_dayofweek ?l - \<bar>w\<bar>) mod 7 - 7 * (\<bar>d\<bar> - 1)"
    have "compute_rule val y = Some ?r"
      using 1 w8 SKIP_DAYS_eq [OF M, of ?f] bwd [of "\<bar>d\<bar>" ?l ?l] by (simp add: unf)
    moreover have "date_dayofweek ?r = \<bar>w\<bar>"
      using dow_offset(2) [OF w, of ?l] by (simp only: dow_weeks)
    moreover have "?l + 7 * d < ?r" "?r \<le> ?l + 7 * (d + 1)"
      using 1 mod7 [of "date_dayofweek ?l - \<bar>w\<bar>"] by simp_all
    ultimately show ?thesis using 1 by (auto simp: rule_date_def add_diff_eq)
  next
    case 2
    let ?s = "?f + (\<bar>d\<bar> - 1)"
    let ?r = "?s - (date_dayofweek ?s - \<bar>w\<bar>) mod 7"
    have "compute_rule val y = Some ?r"
      using 2 w8 SKIP_DAYS_eq [of "\<bar>d\<bar> - 1" ?f] bwd [of 1 ?s ?s] by (simp add: unf)
    moreover have "date_dayofweek ?r = \<bar>w\<bar>" by (rule dow_offset(2) [OF w])
    moreover have "?f - d - 8 < ?r" "?r \<le> ?f - d - 1"
      using 2 mod7 [of "date_dayofweek ?s - \<bar>w\<bar>"] by simp_all
    ultimately show ?thesis using 2 by (auto simp: rule_date_def)
  qed
qed

text \<open>
  C24. \<open>compute_rule\<close> always returns, with the date the rule means: a fixed day of the month,
  the first weekday on or after a day, the \<open>n\<close>-th weekday of the month, the \<open>n\<close>-th last one, or
  the last weekday on or before a day.
\<close>

theorem compute_rule_date:
  assumes "MTIMErule_create m d w mn = val" and "val \<noteq> rule_nil"
  shows "\<exists>r. compute_rule val y = Some r \<and>
    rule_date d w (todate 1 m y) (todate 1 m y + MONTHDAYS m y - 1) r"
proof -
  have v: "1 \<le> m" "m \<le> 12" "\<bar>w\<bar> \<le> 7" "1 \<le> \<bar>d\<bar>" "\<bar>d\<bar> \<le> LEAPDAYS ! nat m" "w \<noteq> 0 \<or> d > 0"
    and val: "val = \<lparr>r_month = nat m, r_minutes = nat mn, r_day = nat (DAY_ZERO + d),
      r_weekday = nat (WEEKDAY_ZERO + w)\<rparr>"
    using assms by (auto simp: MTIMErule_create_def split: if_splits)
  have "LEAPDAYS ! nat m \<le> 31"
    using v(1,2) by (rule month_cases) (simp_all add: LEAPDAYS_def nth_Cons' numeral_eq_Suc)
  then have d: "\<bar>d\<bar> \<le> 31" using v(5) by linarith
  have fields: "int (r_month val) = m" "int (r_day val) = 32 + d" "int (r_weekday val) = 8 + w"
    using v d by (auto simp: val DAY_ZERO_def WEEKDAY_ZERO_def)
  have cnt: "1 \<le> \<bar>d\<bar>" using v by simp
  show ?thesis
  proof (cases "w = 0")
    case True
    then show ?thesis using v by (simp add: compute_rule_def Let_def fields DAY_ZERO_def WEEKDAY_ZERO_def rule_date_def)
  next
    case False
    then have "1 \<le> \<bar>w\<bar>" by simp
    moreover have "0 < d \<or> d < 0" using cnt by linarith
    ultimately show ?thesis
      using compute_rule_first [OF fields v(1,2) _ v(3)] compute_rule_last [OF fields v(1,2) _ v(3)] by blast
  qed
qed

theorem compute_rule_date_witness:
  "\<exists>r. compute_rule (MTIMErule_create 3 (- 1) 7 120) 2016 = Some r \<and>
     rule_date (- 1) 7 (todate 1 3 2016) (todate 1 3 2016 + 30) r"
proof -
  have "MTIMErule_create 3 (- 1) 7 120 \<noteq> rule_nil"
    by (simp add: MTIMErule_create_def rule_nil_def int_nil_def nil_def LEAPDAYS_def DAY_ZERO_def
        WEEKDAY_ZERO_def)
  then show ?thesis
    using compute_rule_date [OF refl, of 3 "- 1" 7 120 2016]
    by (simp add: MONTHDAYS_def LEAPDAYS_def add.commute)
qed

section \<open>Local time without daylight saving\<close>

text \<open>
  C38. In a zone without daylight saving, the date and daytime of a timestamp created from
  them are the ones it was created from, as long as the stored universal time is a supported
  date.
\<close>

theorem timestamp_create_extract:
  assumes "date_ok d" and "0 \<le> t" and "t < 86400000" and "\<bar>off\<bar> < 24 * 60"
    and "date_ok ((d * 86400000 + t - off * 60000) div 86400000)"
    and "z = MTIMEtzone_create off"
  shows "\<exists>ts. MTIMEtimestamp_create d t z = Some ts \<and> ts_ok ts
    \<and> MTIMEtimestamp_extract_date ts z = Some d \<and> MTIMEtimestamp_extract_daytime ts z = Some t"
proof -
  have z: "get_offset z = off" "\<not> dst z"
    using assms(4) get_set_offset [of off tzone_nil]
    by (auto simp: assms(6) MTIMEtzone_create_def get_offset_update tzone_nil_def abs_less_iff
        int_nil_def nil_def)
  have nil: "d \<noteq> date_nil" "t \<noteq> daytime_nil" "\<not> tz_isnil z"
    using assms(1,2,4) date_ok_nil z(1)
    by (auto simp: daytime_nil_def int_nil_def nil_def tz_isnil_def tzone_nil_offset)
  let ?v = "\<lparr>days = d, msecs = t\<rparr>"
  have v: "ts_ok ?v" using assms(1-3) by (simp add: ts_ok_def)
  have small: "\<bar>off * - 60000\<bar> \<le> 2147483646 * 86400000" "\<bar>off * 60000\<bar> \<le> 2147483646 * 86400000"
    using assms(4) by linarith+
  let ?a = "d * 86400000 + t - off * 60000"
  let ?ts = "\<lparr>days = ?a div 86400000, msecs = ?a mod 86400000\<rparr>"
  have create: "MTIMEtimestamp_create d t z = Some ?ts"
    using timestamp_add_abs [OF v small(1)] assms(5) nil z
    by (simp add: MTIMEtimestamp_create_def ts_abs_def Let_def)
  have ts: "ts_ok ?ts" using assms(5) by (simp add: ts_ok_def)
  have abs: "ts_abs ?ts + off * 60000 = ts_abs ?v" by (simp add: ts_abs_def)
  have dm: "ts_abs ?v div 86400000 = d" "ts_abs ?v mod 86400000 = t"
    using assms(2,3) by (simp_all add: ts_abs_def)
  have "MTIMEtimestamp_add ?ts (off * 60000) = ?v"
    unfolding timestamp_add_abs [OF ts small(2)] abs Let_def dm using assms(1) by simp
  then have "timestamp_inside ?ts z 0 = Some (False, ?v)"
    using z by (simp add: timestamp_inside_def)
  then show ?thesis
    using create ts ts_ok_not_nil [OF ts] ts_ok_not_nil [OF v] nil
    by (auto simp: MTIMEtimestamp_extract_date_def MTIMEtimestamp_extract_daytime_def local_time_def)
qed

theorem timestamp_create_extract_witness:
  "\<exists>ts. MTIMEtimestamp_create 736329 3600000 (MTIMEtzone_create 120) = Some ts
     \<and> MTIMEtimestamp_extract_date ts (MTIMEtzone_create 120) = Some 736329"
  using timestamp_create_extract [of 736329 3600000 120 "MTIMEtzone_create 120"]
  by (auto simp: date_ok_def DATE_limits)

end
