(* ===== verification/Mal_Dflow_Graph.thy ===== *)
theory Mal_Dflow_Graph
  imports Monet_Prelude
begin

text \<open>
  The dependency graph of a MAL dataflow block (mal/mal/mal_dataflow.c, \<open>DFLOWinitBlk\<close>).

  For every instruction of the block the code keeps a list of the instructions to wake when
  it is done, threaded through the two arrays \<open>nodes\<close> and \<open>edges\<close>: cell \<open>k\<close> starts the list
  of instruction \<open>k\<close>, \<open>nodes\<close> holds the instruction to wake, \<open>edges\<close> the next cell or -1, and
  an instruction 0, which nothing can depend on, marks an empty cell.  Every instruction has
  a count \<open>blocks\<close> of the wake-up calls it waits for.  The theory shows that the construction
  returns, stays inside the arrays, and represents exactly the edges of the block: from the
  last assignment of a variable to its use, and from every use of a variable to the
  instruction at which the variable is released.

  The arrays are functions from index to content with the allocated size in \<open>gsize\<close>; their
  elements beyond what was written are the zeros of \<open>GDKzalloc\<close> (after a reallocation they
  are arbitrary in C; a cell is never read before it is written, see \<open>wgraph_rep\<close>).
\<close>

section \<open>MAL blocks\<close>

text \<open>
  An instruction lists its variables, the first \<open>retc\<close> of which it assigns.  \<open>deblock\<close> says
  that its function is \<open>deblockdataflow\<close>, \<open>gc\<close> is its garbage control flag.
\<close>

record instr =
  retc :: nat
  argv :: "nat list"
  gc :: bool
  deblock :: bool

record malblk =
  stmt :: "instr list"
  isVarConstant :: "nat \<Rightarrow> bool"
  getEndOfLife :: "nat \<Rightarrow> nat"
  isaBat :: "nat \<Rightarrow> bool"

definition getInstrPtr :: "malblk \<Rightarrow> nat \<Rightarrow> instr option" where
  "getInstrPtr mb pc = (if pc < length (stmt mb) then Some (stmt mb ! pc) else None)"

definition argc :: "instr \<Rightarrow> nat" where
  "argc p = length (argv p)"

abbreviation rets :: "instr \<Rightarrow> nat list" where
  "rets p \<equiv> take (retc p) (argv p)"

abbreviation uses :: "instr \<Rightarrow> nat list" where
  "uses p \<equiv> drop (retc p) (argv p)"

section \<open>Building the graph\<close>

record wgraph =
  nodes :: "nat \<Rightarrow> nat"
  edges :: "nat \<Rightarrow> int"
  blocks :: "nat \<Rightarrow> nat"
  etop :: nat
  gsize :: nat

text \<open>\<open>for (i = k; flow->edges[i] > 0; i = flow->edges[i]);\<close>\<close>

partial_function (option) chain_tail :: "(nat \<Rightarrow> int) \<Rightarrow> nat \<Rightarrow> nat option" where
  "chain_tail ed i = (if 0 < ed i then chain_tail ed (nat (ed i)) else Some i)"

text \<open>
  \<open>for (last = n; last >= 0 && (i = flow->nodes[last]) > 0; last = flow->edges[last])\<close>:
  the instructions \<open>i\<close> the loop meets, in order.
\<close>

partial_function (option) wake_list :: "(nat \<Rightarrow> nat) \<Rightarrow> (nat \<Rightarrow> int) \<Rightarrow> int \<Rightarrow> nat list option" where
  "wake_list nd ed c =
     (if 0 \<le> c \<and> 0 < nd (nat c)
      then Option.bind (wake_list nd ed (ed (nat c))) (\<lambda>xs. Some (nd (nat c) # xs))
      else Some [])"

declare chain_tail.simps [code]
declare wake_list.simps [code]

text \<open>Add instruction \<open>t\<close> to the tail of the list of \<open>k\<close> and count it for \<open>t\<close>.\<close>

definition grow :: "wgraph \<Rightarrow> wgraph" where
  "grow g = (if etop g = gsize g then g\<lparr>gsize := 2 * gsize g\<rparr> else g)"

definition add_wakeup :: "wgraph \<Rightarrow> nat \<Rightarrow> nat \<Rightarrow> wgraph option" where
  "add_wakeup g k t = map_option (\<lambda>g. g\<lparr>blocks := (blocks g)(t := Suc (blocks g t))\<rparr>)
     (if nodes g k \<noteq> 0
      then Option.bind (chain_tail (edges g) k) (\<lambda>i.
        Some (grow (g\<lparr>nodes := (nodes g)(etop g := t),
                      edges := (edges g)(etop g := - 1, i := int (etop g)),
                      etop := Suc (etop g)\<rparr>)))
      else Some (g\<lparr>nodes := (nodes g)(k := t), edges := (edges g)(k := - 1)\<rparr>))"

text \<open>The body of the loop over the arguments, for argument \<open>a\<close> of the instruction at \<open>pc\<close>.\<close>

definition flow_arg ::
  "malblk \<Rightarrow> nat \<Rightarrow> nat \<Rightarrow> (nat \<Rightarrow> nat) \<Rightarrow> nat \<Rightarrow> nat \<Rightarrow> wgraph \<Rightarrow> wgraph option" where
  "flow_arg mb start stop assign pc a g =
     (if isVarConstant mb a then Some g
      else Option.bind
        (if assign a \<noteq> 0 then add_wakeup g (assign a - start) (pc - start) else Some g)
        (\<lambda>g. let l = getEndOfLife mb a in
           if l \<noteq> pc \<and> l < stop \<and> start < l then add_wakeup g (pc - start) (l - start)
           else Some g))"

fun flow_args ::
  "malblk \<Rightarrow> nat \<Rightarrow> nat \<Rightarrow> (nat \<Rightarrow> nat) \<Rightarrow> nat \<Rightarrow> nat list \<Rightarrow> wgraph \<Rightarrow> wgraph option" where
  "flow_args mb start stop assign pc [] g = Some g"
| "flow_args mb start stop assign pc (a # as) g =
     Option.bind (flow_arg mb start stop assign pc a g) (flow_args mb start stop assign pc as)"

definition flow_assign :: "nat \<Rightarrow> nat list \<Rightarrow> (nat \<Rightarrow> nat) \<Rightarrow> (nat \<Rightarrow> nat)" where
  "flow_assign pc rs assign = fold (\<lambda>a f. f(a := pc)) rs assign"

text \<open>The loop over \<open>pc\<close>: \<open>n\<close> instructions are left.\<close>

fun flow_instrs ::
  "malblk \<Rightarrow> nat \<Rightarrow> nat \<Rightarrow> nat \<Rightarrow> nat \<Rightarrow> (nat \<Rightarrow> nat) \<Rightarrow> wgraph \<Rightarrow> (string + wgraph) option" where
  "flow_instrs mb start stop pc 0 assign g = Some (Inr g)"
| "flow_instrs mb start stop pc (Suc n) assign g =
     (case getInstrPtr mb pc of
        None \<Rightarrow> Some (Inl ''DFLOWinitBlk(): getInstrPtr() returned NULL'')
      | Some p \<Rightarrow>
          Option.bind (flow_args mb start stop assign pc (uses p) g)
            (flow_instrs mb start stop (Suc pc) n (flow_assign pc (rets p) assign)))"

definition DFLOWgraphSize :: "malblk \<Rightarrow> nat \<Rightarrow> nat \<Rightarrow> nat" where
  "DFLOWgraphSize mb start stop = sum_list (map (\<lambda>i. argc (stmt mb ! i)) [start..<stop])"

definition DFLOWinitBlk :: "malblk \<Rightarrow> nat \<Rightarrow> nat \<Rightarrow> nat \<Rightarrow> (string + wgraph) option" where
  "DFLOWinitBlk mb start stop sz =
     flow_instrs mb start stop start (stop - start) (\<lambda>_. 0)
       \<lparr>nodes = (\<lambda>_. 0), edges = (\<lambda>_. 0), blocks = (\<lambda>_. 0), etop = stop - start, gsize = sz\<rparr>"

text \<open>
  The graph part of \<open>runMALdataflow\<close>, for the block between the brackets at \<open>startpc\<close> and
  \<open>stoppc\<close>.
\<close>

definition dataflow_graph :: "malblk \<Rightarrow> nat \<Rightarrow> nat \<Rightarrow> (string + wgraph) option" where
  "dataflow_graph mb startpc stoppc =
     DFLOWinitBlk mb (startpc + 1) stoppc
       (DFLOWgraphSize mb startpc stoppc + (stoppc - startpc))"

section \<open>The specification: the edges of a block\<close>

text \<open>The last instruction in \<open>[start, pc)\<close> that assigns the variable.\<close>

fun last_def :: "malblk \<Rightarrow> nat \<Rightarrow> nat \<Rightarrow> nat \<Rightarrow> nat option" where
  "last_def mb start 0 a = None"
| "last_def mb start (Suc pc) a =
     (if pc < start then None
      else if a \<in> set (rets (stmt mb ! pc)) then Some pc
      else last_def mb start pc a)"

definition arg_edges :: "malblk \<Rightarrow> nat \<Rightarrow> nat \<Rightarrow> nat \<Rightarrow> nat \<Rightarrow> (nat \<times> nat) list" where
  "arg_edges mb start stop pc a =
     (if isVarConstant mb a then []
      else (case last_def mb start pc a of None \<Rightarrow> [] | Some k \<Rightarrow> [(k - start, pc - start)]) @
           (let l = getEndOfLife mb a in
            if l \<noteq> pc \<and> l < stop \<and> start < l then [(pc - start, l - start)] else []))"

definition instr_edges :: "malblk \<Rightarrow> nat \<Rightarrow> nat \<Rightarrow> nat \<Rightarrow> (nat \<times> nat) list" where
  "instr_edges mb start stop pc = concat (map (arg_edges mb start stop pc) (uses (stmt mb ! pc)))"

definition dflow_edges :: "malblk \<Rightarrow> nat \<Rightarrow> nat \<Rightarrow> (nat \<times> nat) list" where
  "dflow_edges mb start stop = concat (map (instr_edges mb start stop) [start..<stop])"

definition targets :: "(nat \<times> nat) list \<Rightarrow> nat \<Rightarrow> nat list" where
  "targets es k = map snd (filter (\<lambda>e. fst e = k) es)"

lemma targets_Nil [simp]: "targets [] k = []"
  by (simp add: targets_def)

lemma targets_append [simp]: "targets (es @ fs) k = targets es k @ targets fs k"
  by (simp add: targets_def)

lemma targets_Cons: "targets (e # es) k = (if fst e = k then [snd e] else []) @ targets es k"
  by (simp add: targets_def)

section \<open>Chains of cells\<close>

text \<open>The cells \<open>ps\<close> form the chain that starts at cell \<open>i\<close> and ends with -1.\<close>

fun is_chain :: "(nat \<Rightarrow> int) \<Rightarrow> nat \<Rightarrow> nat list \<Rightarrow> bool" where
  "is_chain ed i [] \<longleftrightarrow> False"
| "is_chain ed i [p] \<longleftrightarrow> p = i \<and> ed i = - 1"
| "is_chain ed i (p # q # r) \<longleftrightarrow> p = i \<and> 0 < q \<and> ed i = int q \<and> is_chain ed q (q # r)"

lemma is_chain_frame:
  "is_chain ed i ps \<Longrightarrow> (\<And>p. p \<in> set ps \<Longrightarrow> ed' p = ed p) \<Longrightarrow> is_chain ed' i ps"
  by (induction ed i ps rule: is_chain.induct) auto

lemma is_chain_tail: "is_chain ed i ps \<Longrightarrow> chain_tail ed i = Some (last ps)"
  by (induction ed i ps rule: is_chain.induct) (auto simp: chain_tail.simps)

lemma is_chain_wake:
  "is_chain ed i ps \<Longrightarrow> (\<And>p. p \<in> set ps \<Longrightarrow> 0 < nd p) \<Longrightarrow>
     wake_list nd ed (int i) = Some (map nd ps)"
proof (induction ed i ps rule: is_chain.induct)
  case (2 ed i p)
  then show ?case by (simp add: wake_list.simps [of nd ed "int i"] wake_list.simps [of nd ed "- 1"])
next
  case (3 ed i p q r)
  then show ?case by (simp add: wake_list.simps [of nd ed "int i"])
qed simp

lemma is_chain_snoc:
  "is_chain ed i ps \<Longrightarrow> distinct ps \<Longrightarrow> e \<notin> set ps \<Longrightarrow> 0 < e \<Longrightarrow>
     is_chain (ed(e := - 1, last ps := int e)) i (ps @ [e])"
proof (induction ed i ps rule: is_chain.induct)
  case (3 ed i p q r)
  from "3.prems" have "is_chain (ed(e := - 1, last (q # r) := int e)) q ((q # r) @ [e])"
    by (intro "3.IH") auto
  moreover have "last (q # r) \<noteq> p" using "3.prems" by (metis distinct.simps(2) last_in_set list.simps(3))
  moreover have "last (p # q # r) = last (q # r)" by simp
  ultimately show ?case using "3.prems" unfolding append_Cons is_chain.simps by simp
qed auto

section \<open>The arrays represent a list of edges\<close>

text \<open>
  \<open>R k\<close> lists the overflow cells of instruction \<open>k\<close>, all of them at or above the number
  \<open>n\<close> of instructions and below \<open>etop\<close>.
\<close>

definition wgraph_rep :: "nat \<Rightarrow> (nat \<Rightarrow> nat list) \<Rightarrow> (nat \<times> nat) list \<Rightarrow> wgraph \<Rightarrow> bool" where
  "wgraph_rep n R es g \<longleftrightarrow>
     n \<le> etop g \<and> etop g < gsize g \<and>
     (\<forall>e \<in> set es. fst e < n \<and> 0 < snd e \<and> snd e < n) \<and>
     (\<forall>k < n. if targets es k = [] then nodes g k = 0 \<and> R k = []
       else is_chain (edges g) k (k # R k) \<and> map (nodes g) (k # R k) = targets es k) \<and>
     (\<forall>k < n. distinct (R k) \<and> set (R k) \<subseteq> {n..<etop g}) \<and>
     (\<forall>k < n. \<forall>k' < n. k \<noteq> k' \<longrightarrow> set (R k) \<inter> set (R k') = {}) \<and>
     blocks g = (\<lambda>t. length (filter (\<lambda>e. snd e = t) es))"

lemma wgraph_rep_cells:
  "wgraph_rep n R es g \<Longrightarrow> k < n \<Longrightarrow>
     if targets es k = [] then nodes g k = 0 \<and> R k = []
     else is_chain (edges g) k (k # R k) \<and> map (nodes g) (k # R k) = targets es k"
  unfolding wgraph_rep_def by blast

lemma wgraph_rep_chain:
  assumes "wgraph_rep n R es g" "k < n" "targets es k \<noteq> []"
  shows "is_chain (edges g) k (k # R k)" "map (nodes g) (k # R k) = targets es k"
  using wgraph_rep_cells [OF assms(1,2)] assms(3) by simp_all

lemma wgraph_rep_overflow:
  assumes "wgraph_rep n R es g" "k < n"
  shows "distinct (R k)" "set (R k) \<subseteq> {n..<etop g}"
    "k' < n \<Longrightarrow> k \<noteq> k' \<Longrightarrow> set (R k) \<inter> set (R k') = {}"
  using assms unfolding wgraph_rep_def by blast+

lemma wgraph_rep_init:
  "n < sz \<Longrightarrow> wgraph_rep n (\<lambda>_. []) []
     \<lparr>nodes = (\<lambda>_. 0), edges = (\<lambda>_. 0), blocks = (\<lambda>_. 0), etop = n, gsize = sz\<rparr>"
  by (simp add: wgraph_rep_def)

lemma targets_pos:
  "(\<And>e. e \<in> set es \<Longrightarrow> 0 < snd e) \<Longrightarrow> t \<in> set (targets es k) \<Longrightarrow> 0 < t"
  by (auto simp: targets_def)

lemma grow_simps [simp]:
  "nodes (grow g) = nodes g" "edges (grow g) = edges g" "blocks (grow g) = blocks g"
  "etop (grow g) = etop g"
  by (simp_all add: grow_def)

lemma grow_size: "etop g \<le> gsize g \<Longrightarrow> 0 < gsize g \<Longrightarrow> etop g < gsize (grow g)"
  by (simp add: grow_def)

lemma wgraph_rep_wake:
  assumes "wgraph_rep n R es g" and "k < n"
  shows "wake_list (nodes g) (edges g) (int k) = Some (targets es k)"
proof (cases "targets es k = []")
  case True
  then show ?thesis
    using wgraph_rep_cells [OF assms] by (simp add: wake_list.simps [of _ _ "int k"])
next
  case False
  note chain = wgraph_rep_chain(1) [OF assms False] and ts = wgraph_rep_chain(2) [OF assms False]
  have pos: "0 < nodes g p" if "p \<in> set (k # R k)" for p
  proof (rule targets_pos)
    show "nodes g p \<in> set (targets es k)" using that unfolding ts [symmetric] by (metis image_eqI list.set_map)
  qed (use assms(1) in \<open>auto simp: wgraph_rep_def\<close>)
  from is_chain_wake [of "edges g" k "k # R k" "nodes g", OF chain pos] show ?thesis unfolding ts .
qed

lemma add_wakeup_empty:
  assumes "wgraph_rep n R es g" and "k < n" "0 < t" "t < n" and "targets es k = []"
  shows "\<exists>g'. add_wakeup g k t = Some g' \<and> wgraph_rep n R (es @ [(k, t)]) g'"
proof -
  let ?g = "g\<lparr>nodes := (nodes g)(k := t), edges := (edges g)(k := - 1),
              blocks := (blocks g)(t := Suc (blocks g t))\<rparr>"
  have "nodes g k = 0" "R k = []" using wgraph_rep_cells [OF assms(1,2)] assms(5) by simp_all
  moreover have "wgraph_rep n R (es @ [(k, t)]) ?g"
    unfolding wgraph_rep_def
  proof (intro conjI allI impI)
    fix k' assume k': "k' < n"
    have notin: "k \<notin> set (R k')" using wgraph_rep_overflow(2) [OF assms(1) k'] assms(2) by auto
    show "if targets (es @ [(k, t)]) k' = [] then nodes ?g k' = 0 \<and> R k' = []
       else is_chain (edges ?g) k' (k' # R k') \<and> map (nodes ?g) (k' # R k') = targets (es @ [(k, t)]) k'"
    proof (cases "k' = k")
      case True
      then show ?thesis using assms(5) \<open>R k = []\<close> by (simp add: targets_Cons)
    next
      case False
      have "map (nodes ?g) (R k') = map (nodes g) (R k')" "nodes ?g k' = nodes g k'"
        using notin False by auto
      moreover have "is_chain (edges g) k' (k' # R k') \<Longrightarrow> is_chain (edges ?g) k' (k' # R k')"
        by (erule is_chain_frame) (use notin False in auto)
      ultimately show ?thesis using False wgraph_rep_cells [OF assms(1) k']
        by (simp add: targets_Cons del: fun_upd_apply map_eq_conv split: if_splits)
    qed
  qed (use assms in \<open>auto simp: wgraph_rep_def\<close>)
  ultimately show ?thesis by (simp add: add_wakeup_def)
qed

lemma add_wakeup_more:
  assumes "wgraph_rep n R es g" and "k < n" "0 < t" "t < n" and "targets es k \<noteq> []"
  shows "\<exists>g'. add_wakeup g k t = Some g' \<and> wgraph_rep n (R(k := R k @ [etop g])) (es @ [(k, t)]) g'"
proof -
  let ?e = "etop g" and ?i = "last (k # R k)"
  let ?g1 = "g\<lparr>nodes := (nodes g)(?e := t), edges := (edges g)(?e := - 1, ?i := int ?e),
               etop := Suc ?e\<rparr>"
  let ?g = "(grow ?g1)\<lparr>blocks := (blocks g)(t := Suc (blocks g t))\<rparr>"
  let ?R = "R(k := R k @ [?e])"
  note chain = wgraph_rep_chain [OF assms(1,2,5)]
  have n: "n \<le> ?e" "?e < gsize g" using assms(1) by (simp_all add: wgraph_rep_def)
  have "targets es k \<noteq> [] \<Longrightarrow> nodes g k \<in> set (targets es k)"
    unfolding chain(2) [symmetric] by simp
  then have "nodes g k \<noteq> 0"
    using assms(1,5) targets_pos [of es "nodes g k" k] by (auto simp: wgraph_rep_def)
  moreover have "chain_tail (edges g) k = Some ?i" by (rule is_chain_tail [OF chain(1)])
  ultimately have "add_wakeup g k t = Some ?g" by (simp add: add_wakeup_def)
  moreover have "wgraph_rep n ?R (es @ [(k, t)]) ?g"
    unfolding wgraph_rep_def
  proof (intro conjI allI impI)
    show "etop ?g < gsize ?g" using n grow_size [of ?g1] by simp
  next
    fix k' assume k': "k' < n"
    have fresh: "?e \<notin> set (k' # R k')" using wgraph_rep_overflow(2) [OF assms(1) k'] n k' by auto
    have other: "?i \<notin> set (k' # R k')" if "k' \<noteq> k"
    proof (cases "R k = []")
      case True
      then show ?thesis using that wgraph_rep_overflow(2) [OF assms(1) k'] assms(2) by auto
    next
      case False
      then have "?i \<in> set (R k)" by simp
      then show ?thesis using that wgraph_rep_overflow(2,3) [OF assms(1,2)] k' by fastforce
    qed
    show "if targets (es @ [(k, t)]) k' = [] then nodes ?g k' = 0 \<and> ?R k' = []
       else is_chain (edges ?g) k' (k' # ?R k') \<and> map (nodes ?g) (k' # ?R k') = targets (es @ [(k, t)]) k'"
    proof (cases "k' = k")
      case True
      have "is_chain (edges ?g) k ((k # R k) @ [?e])"
      proof -
        have "k \<notin> set (R k)" "0 < ?e" using wgraph_rep_overflow(2) [OF assms(1,2)] assms(2) n by auto
        then show ?thesis
          using is_chain_snoc [OF chain(1), of ?e] wgraph_rep_overflow(1) [OF assms(1,2)] fresh True
          by simp
      qed
      moreover have "map (nodes ?g) (k # R k) = map (nodes g) (k # R k)" using fresh True by auto
      ultimately show ?thesis using True chain(2) by (simp add: targets_Cons del: map_eq_conv)
    next
      case False
      have "map (nodes ?g) (R k') = map (nodes g) (R k')" using fresh by auto
      moreover have "is_chain (edges g) k' (k' # R k') \<Longrightarrow> is_chain (edges ?g) k' (k' # R k')"
        by (erule is_chain_frame) (use fresh other [OF False] in auto)
      moreover have "nodes ?g k' = nodes g k'" using fresh by auto
      moreover have "?R k' = R k'" using False by simp
      ultimately show ?thesis using False wgraph_rep_cells [OF assms(1) k']
        by (simp add: targets_Cons del: fun_upd_apply map_eq_conv split: if_splits)
    qed
  next
    fix k' assume k': "k' < n"
    show "distinct (?R k')" "set (?R k') \<subseteq> {n..<etop ?g}"
      using wgraph_rep_overflow(1,2) [OF assms(1) k'] n by (auto split: if_splits)
    fix k'' assume k'': "k'' < n" "k' \<noteq> k''"
    have "?e \<notin> set (R k')" "?e \<notin> set (R k'')"
      using wgraph_rep_overflow(2) [OF assms(1) k'] wgraph_rep_overflow(2) [OF assms(1) k''(1)] by auto
    then show "set (?R k') \<inter> set (?R k'') = {}"
      using wgraph_rep_overflow(3) [OF assms(1) k' k''] k'' by auto
  qed (use assms in \<open>auto simp: wgraph_rep_def\<close>)
  ultimately show ?thesis by blast
qed

lemma add_wakeup_rep:
  assumes "wgraph_rep n R es g" and "k < n" "0 < t" "t < n"
  obtains g' R' where "add_wakeup g k t = Some g'" "wgraph_rep n R' (es @ [(k, t)]) g'"
  using add_wakeup_empty [OF assms] add_wakeup_more [OF assms] by blast

section \<open>The construction represents the edges of the block\<close>

text \<open>
  What the code expects of the block: it starts after the opening bracket, so no position is
  0, its instructions exist, and the last use of a variable does not precede a use inside
  the block (variables without a recorded last use have 0 there).  The second fact is the
  code's \<open>assert(pc < l)\<close>.
\<close>

definition wf_block :: "malblk \<Rightarrow> nat \<Rightarrow> nat \<Rightarrow> bool" where
  "wf_block mb start stop \<longleftrightarrow>
     0 < start \<and> start \<le> stop \<and> stop \<le> length (stmt mb) \<and>
     (\<forall>pc \<in> {start..<stop}. \<forall>a \<in> set (uses (stmt mb ! pc)).
        getEndOfLife mb a = 0 \<or> pc \<le> getEndOfLife mb a)"

definition assign_ok :: "malblk \<Rightarrow> nat \<Rightarrow> nat \<Rightarrow> (nat \<Rightarrow> nat) \<Rightarrow> bool" where
  "assign_ok mb start pc assign \<longleftrightarrow>
     (\<forall>a. assign a = (case last_def mb start pc a of None \<Rightarrow> 0 | Some k \<Rightarrow> k))"

lemma last_def_range: "last_def mb start pc a = Some k \<Longrightarrow> start \<le> k \<and> k < pc"
  by (induction pc) (auto split: if_splits)

lemma last_def_start [simp]: "last_def mb start start a = None"
  by (cases start) auto

lemma flow_assign_apply: "flow_assign pc rs f a = (if a \<in> set rs then pc else f a)"
  unfolding flow_assign_def by (induction rs arbitrary: f) auto

lemma assign_ok_Suc:
  "assign_ok mb start pc f \<Longrightarrow> start \<le> pc \<Longrightarrow>
     assign_ok mb start (Suc pc) (flow_assign pc (rets (stmt mb ! pc)) f)"
  by (auto simp: assign_ok_def flow_assign_apply)

lemma flow_arg_rep:
  assumes rep: "wgraph_rep (stop - start) R es g" and wf: "wf_block mb start stop"
    and pc: "start \<le> pc" "pc < stop" and a: "a \<in> set (uses (stmt mb ! pc))"
    and asg: "assign_ok mb start pc assign"
  obtains g' R' where "flow_arg mb start stop assign pc a g = Some g'"
    "wgraph_rep (stop - start) R' (es @ arg_edges mb start stop pc a) g'"
proof (cases "isVarConstant mb a")
  case True
  then show ?thesis using rep that by (simp add: flow_arg_def arg_edges_def)
next
  case False
  let ?d = "case last_def mb start pc a of None \<Rightarrow> [] | Some k \<Rightarrow> [(k - start, pc - start)]"
  obtain g1 R1 where g1: "(if assign a \<noteq> 0 then add_wakeup g (assign a - start) (pc - start) else Some g) = Some g1"
    "wgraph_rep (stop - start) R1 (es @ ?d) g1"
  proof (cases "last_def mb start pc a")
    case None
    then show ?thesis using rep asg that by (simp add: assign_ok_def)
  next
    case (Some k)
    then have k: "start \<le> k" "k < pc" "assign a = k" "k \<noteq> 0"
      using last_def_range [OF Some] asg wf by (auto simp: assign_ok_def wf_block_def)
    with pc have "k - start < stop - start" "0 < pc - start" "pc - start < stop - start" by auto
    from add_wakeup_rep [OF rep this] obtain g1 R1 where
      "add_wakeup g (k - start) (pc - start) = Some g1"
      "wgraph_rep (stop - start) R1 (es @ [(k - start, pc - start)]) g1" .
    then show ?thesis using that k Some by simp
  qed
  let ?l = "getEndOfLife mb a"
  show ?thesis
  proof (cases "?l \<noteq> pc \<and> ?l < stop \<and> start < ?l")
    case True
    with pc have "pc - start < stop - start" "0 < ?l - start" "?l - start < stop - start" by auto
    from add_wakeup_rep [OF g1(2) this] obtain g2 R2 where
      "add_wakeup g1 (pc - start) (?l - start) = Some g2"
      "wgraph_rep (stop - start) R2 ((es @ ?d) @ [(pc - start, ?l - start)]) g2" .
    then show ?thesis using that False g1(1) True by (simp add: flow_arg_def arg_edges_def Let_def)
  next
    case noeol: False
    show ?thesis
    proof (rule that)
      show "flow_arg mb start stop assign pc a g = Some g1"
        using noeol False g1(1) by (auto simp: flow_arg_def Let_def)
      show "wgraph_rep (stop - start) R1 (es @ arg_edges mb start stop pc a) g1"
        using noeol False g1(2) by (auto simp: arg_edges_def Let_def)
    qed
  qed
qed

lemma flow_args_rep:
  assumes "wgraph_rep (stop - start) R es g" and "wf_block mb start stop"
    and "start \<le> pc" "pc < stop" and "set as \<subseteq> set (uses (stmt mb ! pc))"
    and "assign_ok mb start pc assign"
  shows "\<exists>g' R'. flow_args mb start stop assign pc as g = Some g' \<and>
    wgraph_rep (stop - start) R' (es @ concat (map (arg_edges mb start stop pc) as)) g'"
  using assms
proof (induction as arbitrary: R es g)
  case (Cons a as)
  from Cons.prems(5) have "a \<in> set (uses (stmt mb ! pc))" by simp
  from flow_arg_rep [OF Cons.prems(1-4) this Cons.prems(6)] obtain g1 R1 where
    g1: "flow_arg mb start stop assign pc a g = Some g1"
    and rep1: "wgraph_rep (stop - start) R1 (es @ arg_edges mb start stop pc a) g1" .
  from Cons.IH [OF rep1 Cons.prems(2-4) _ Cons.prems(6)] Cons.prems(5) g1 show ?case by simp
qed auto

lemma flow_instrs_rep:
  assumes "wgraph_rep (stop - start) R (concat (map (instr_edges mb start stop) [start..<pc])) g"
    and "wf_block mb start stop" and "start \<le> pc" "pc + m = stop"
    and "assign_ok mb start pc assign"
  shows "\<exists>g' R'. flow_instrs mb start stop pc m assign g = Some (Inr g') \<and>
    wgraph_rep (stop - start) R' (dflow_edges mb start stop) g'"
  using assms
proof (induction m arbitrary: R g pc assign)
  case (Suc m)
  then have pc: "pc < stop" "getInstrPtr mb pc = Some (stmt mb ! pc)"
    by (auto simp: wf_block_def getInstrPtr_def)
  from flow_args_rep [OF Suc.prems(1,2,3) pc(1) order_refl Suc.prems(5)] obtain g1 R1 where
    g1: "flow_args mb start stop assign pc (uses (stmt mb ! pc)) g = Some g1"
    and rep1: "wgraph_rep (stop - start) R1
      (concat (map (instr_edges mb start stop) [start..<Suc pc])) g1"
    using Suc.prems(3) by (auto simp: instr_edges_def [of mb start stop pc])
  from Suc.IH [OF rep1 Suc.prems(2) _ _ assign_ok_Suc [OF Suc.prems(5,3)]] Suc.prems(3,4) g1 pc(2)
  show ?case by simp
qed (auto simp: dflow_edges_def)

lemma DFLOWinitBlk_rep:
  assumes "wf_block mb start stop" and "stop - start < sz"
  obtains g R where "DFLOWinitBlk mb start stop sz = Some (Inr g)"
    "wgraph_rep (stop - start) R (dflow_edges mb start stop) g"
proof -
  have "assign_ok mb start start (\<lambda>_. 0)" by (simp add: assign_ok_def)
  moreover have "start + (stop - start) = stop" using assms(1) by (simp add: wf_block_def)
  ultimately show ?thesis
    using flow_instrs_rep [of stop start "\<lambda>_. []" mb start _ "stop - start" "\<lambda>_. 0"]
      wgraph_rep_init [OF assms(2)] assms(1) that
    by (fastforce simp: DFLOWinitBlk_def)
qed

lemma dataflow_graph_rep:
  assumes "wf_block mb (Suc startpc) stoppc"
  obtains g R where "dataflow_graph mb startpc stoppc = Some (Inr g)"
    "wgraph_rep (stoppc - Suc startpc) R (dflow_edges mb (Suc startpc) stoppc) g"
proof -
  have "stoppc - Suc startpc < DFLOWgraphSize mb startpc stoppc + (stoppc - startpc)"
    using assms by (auto simp: wf_block_def)
  from DFLOWinitBlk_rep [OF assms this] that show ?thesis by (auto simp: dataflow_graph_def)
qed

text \<open>
  C13. The two arrays the block initialisation builds represent the dependency graph of the
  block.  For a block whose last-use positions are consistent, the graph part of
  \<open>runMALdataflow\<close> returns (each of the list traversals ends), no cell beyond the allocation
  is written (the free cell \<open>etop\<close> stays below the allocated size through every
  reallocation), walking the list of instruction \<open>k\<close> meets exactly the targets of its edges in
  the order they were found, and \<open>blocks\<close> counts the edges into each instruction.
\<close>

theorem dataflow_graph_refines:
  assumes "wf_block mb (Suc startpc) stoppc"
  shows "\<exists>g. dataflow_graph mb startpc stoppc = Some (Inr g) \<and>
    etop g < gsize g \<and>
    (\<forall>k < stoppc - Suc startpc. wake_list (nodes g) (edges g) (int k) =
       Some (targets (dflow_edges mb (Suc startpc) stoppc) k)) \<and>
    (\<forall>t. blocks g t = length (filter (\<lambda>e. snd e = t) (dflow_edges mb (Suc startpc) stoppc)))"
proof -
  from dataflow_graph_rep [OF assms] obtain g R where
    "dataflow_graph mb startpc stoppc = Some (Inr g)"
    and rep: "wgraph_rep (stoppc - Suc startpc) R (dflow_edges mb (Suc startpc) stoppc) g" .
  then show ?thesis using wgraph_rep_wake [OF rep] rep by (auto simp: wgraph_rep_def)
qed

text \<open>
  The block of five instructions that the witnesses use: two sources \<open>v1\<close>, \<open>v2\<close>, a sum
  \<open>v3 := v1 + v2\<close>, a use \<open>v4 := v1 * v3\<close> after which \<open>v1\<close> is released, and \<open>v5 := v3\<close>, which
  releases \<open>v3\<close>.  \<open>v0\<close> is a constant.
\<close>

definition sample_block :: malblk where
  "sample_block = \<lparr>
     stmt = [\<lparr>retc = 1, argv = [9], gc = False, deblock = False\<rparr>,
             \<lparr>retc = 1, argv = [1, 0], gc = False, deblock = False\<rparr>,
             \<lparr>retc = 1, argv = [2, 0], gc = False, deblock = False\<rparr>,
             \<lparr>retc = 1, argv = [3, 1, 2], gc = False, deblock = False\<rparr>,
             \<lparr>retc = 1, argv = [4, 1, 3], gc = True, deblock = False\<rparr>,
             \<lparr>retc = 1, argv = [5, 3], gc = True, deblock = False\<rparr>],
     isVarConstant = (\<lambda>v. v = 0),
     getEndOfLife = (\<lambda>v. if v = 1 then 4 else if v = 3 then 5 else 0),
     isaBat = (\<lambda>v. v \<noteq> 0)\<rparr>"

lemma sample_wf: "wf_block sample_block 1 6"
  by (simp add: wf_block_def sample_block_def atLeastLessThan_upt upt_rec numeral_eq_Suc)

theorem dataflow_graph_refines_witness:
  "\<exists>g. dataflow_graph sample_block 0 6 = Some (Inr g) \<and>
    wake_list (nodes g) (edges g) 0 = Some [2, 3] \<and>
    wake_list (nodes g) (edges g) 2 = Some [3, 3, 4] \<and> blocks g 3 = 3"
proof -
  have *: "wf_block sample_block (Suc 0) 6" using sample_wf by simp
  have "dflow_edges sample_block 1 6 = [(0, 2), (2, 3), (1, 2), (0, 3), (2, 3), (3, 4), (2, 4)]"
    by (simp add: dflow_edges_def instr_edges_def arg_edges_def sample_block_def upt_rec numeral_eq_Suc)
  with dataflow_graph_refines [OF *] obtain g where g: "dataflow_graph sample_block 0 6 = Some (Inr g)"
    and w: "\<forall>k < 5. wake_list (nodes g) (edges g) (int k) =
      Some (targets [(0, 2), (2, 3), (1, 2), (0, 3), (2, 3), (3, 4), (2, 4)] k)"
    and b: "\<forall>t. blocks g t =
      length (filter (\<lambda>e. snd e = t) [(0, 2), (2, 3), (1, 2), (0, 3), (2, 3), (3, 4), (2, 4)])"
    by auto
  from w [rule_format, of 0] w [rule_format, of 2] b [rule_format, of 3] g show ?thesis
    by (auto simp: targets_def)
qed

section \<open>The contract of the wake-up graph\<close>

text \<open>
  What the scheduler and the workers rely on: wake-ups go to later instructions, and the
  blocks of an instruction count the wake-ups that lead to it.
\<close>

locale wakeup_graph =
  fixes ok :: "'g \<Rightarrow> bool" and acts :: "'g \<Rightarrow> nat" and succs :: "'g \<Rightarrow> nat \<Rightarrow> nat list"
    and blks :: "'g \<Rightarrow> nat \<Rightarrow> nat"
  assumes succs_later: "ok g \<Longrightarrow> k < acts g \<Longrightarrow> t \<in> set (succs g k) \<Longrightarrow> k < t \<and> t < acts g"
    and blks_count: "ok g \<Longrightarrow> t < acts g \<Longrightarrow> blks g t = (\<Sum>k < acts g. count_list (succs g k) t)"

text \<open>
  The graph of a block \<open>(mb, startpc, stoppc)\<close> as the running flow sees it: the lists found by
  walking the arrays and the initial block counts.
\<close>

definition flow_acts :: "malblk \<times> nat \<times> nat \<Rightarrow> nat" where
  "flow_acts b = (case b of (mb, startpc, stoppc) \<Rightarrow> stoppc - (startpc + 1))"

definition flow_wakes :: "malblk \<times> nat \<times> nat \<Rightarrow> nat \<Rightarrow> nat list" where
  "flow_wakes b k =
     (case b of (mb, startpc, stoppc) \<Rightarrow>
        case dataflow_graph mb startpc stoppc of
          Some (Inr g) \<Rightarrow> (case wake_list (nodes g) (edges g) (int k) of None \<Rightarrow> [] | Some ts \<Rightarrow> ts)
        | _ \<Rightarrow> [])"

definition flow_blocks :: "malblk \<times> nat \<times> nat \<Rightarrow> nat \<Rightarrow> nat" where
  "flow_blocks b n =
     (case b of (mb, startpc, stoppc) \<Rightarrow>
        case dataflow_graph mb startpc stoppc of Some (Inr g) \<Rightarrow> blocks g n | _ \<Rightarrow> 0)"

definition flow_wf :: "malblk \<times> nat \<times> nat \<Rightarrow> bool" where
  "flow_wf b = (case b of (mb, startpc, stoppc) \<Rightarrow> wf_block mb (Suc startpc) stoppc)"

abbreviation flow_edges :: "malblk \<times> nat \<times> nat \<Rightarrow> (nat \<times> nat) list" where
  "flow_edges b \<equiv> (case b of (mb, startpc, stoppc) \<Rightarrow> dflow_edges mb (Suc startpc) stoppc)"

lemma flow_wakes_eq: "flow_wf b \<Longrightarrow> k < flow_acts b \<Longrightarrow> flow_wakes b k = targets (flow_edges b) k"
  by (cases b) (auto simp: flow_wf_def flow_acts_def flow_wakes_def wgraph_rep_wake
    elim!: dataflow_graph_rep)

lemma flow_blocks_eq: "flow_wf b \<Longrightarrow> flow_blocks b t = length (filter (\<lambda>e. snd e = t) (flow_edges b))"
  by (cases b) (auto simp: flow_wf_def flow_blocks_def wgraph_rep_def elim!: dataflow_graph_rep)

lemma dflow_edges_later:
  assumes "wf_block mb start stop" "(k, t) \<in> set (dflow_edges mb start stop)"
  shows "k < t" "t < stop - start"
proof -
  from assms(2) obtain pc a where pc: "start \<le> pc" "pc < stop" "a \<in> set (uses (stmt mb ! pc))"
    and e: "(k, t) \<in> set (arg_edges mb start stop pc a)"
    by (auto simp: dflow_edges_def instr_edges_def)
  have "getEndOfLife mb a = 0 \<or> pc \<le> getEndOfLife mb a"
    using assms(1) pc by (auto simp: wf_block_def)
  then show "k < t" "t < stop - start"
    using e pc by (auto simp: arg_edges_def Let_def dest!: last_def_range [OF sym] split: if_splits option.splits)
qed

lemma flow_edges_later:
  "flow_wf b \<Longrightarrow> (k, t) \<in> set (flow_edges b) \<Longrightarrow> k < t \<and> t < flow_acts b"
  using dflow_edges_later by (cases b) (auto simp: flow_wf_def flow_acts_def)

lemma in_targets: "t \<in> set (targets es k) \<longleftrightarrow> (k, t) \<in> set es"
  by (force simp: targets_def)

lemma count_targets:
  "(\<And>e. e \<in> set es \<Longrightarrow> fst e < n) \<Longrightarrow>
     (\<Sum>k < n. count_list (targets es k) t) = length (filter (\<lambda>e. snd e = t) es)"
proof (induction es)
  case (Cons e es)
  have "(\<Sum>k < n. count_list (targets (e # es) k) t) =
      (\<Sum>k < n. (if k = fst e then (if snd e = t then 1 else 0) else 0) + count_list (targets es k) t)"
    by (rule sum.cong) (auto simp: targets_Cons)
  then show ?case using Cons by (simp add: sum.distrib)
qed simp

lemma length_targets:
  "(\<And>e. e \<in> set es \<Longrightarrow> fst e < n) \<Longrightarrow> (\<Sum>k < n. length (targets es k)) = length es"
proof (induction es)
  case (Cons e es)
  have "(\<Sum>k < n. length (targets (e # es) k)) =
      (\<Sum>k < n. (if k = fst e then 1 else 0) + length (targets es k))"
    by (rule sum.cong) (auto simp: targets_Cons)
  then show ?case using Cons by (simp add: sum.distrib)
qed simp

interpretation dflow: wakeup_graph flow_wf flow_acts flow_wakes flow_blocks
proof unfold_locales
  fix b k t assume b: "flow_wf b" "k < flow_acts b" "t \<in> set (flow_wakes b k)"
  then show "k < t \<and> t < flow_acts b"
    using flow_edges_later [of b k t] by (simp add: flow_wakes_eq in_targets)
next
  fix b t assume b: "flow_wf b" "t < flow_acts b"
  have "fst e < flow_acts b" if "e \<in> set (flow_edges b)" for e
    using flow_edges_later [OF b(1), of "fst e" "snd e"] that by simp
  from count_targets [of "flow_edges b" "flow_acts b" t, OF this] show "flow_blocks b t = (\<Sum>k < flow_acts b. count_list (flow_wakes b k) t)"
    using b by (simp add: flow_blocks_eq flow_wakes_eq)
qed

end
