(* ===== verification/Mal_Dataflow.thy ===== *)
theory Mal_Dataflow
  imports Mal_Dflow_Graph
begin

text \<open>
  Parallel execution of a MAL dataflow block (mal/mal/mal_dataflow.c, the admission control
  of mal/mal/mal_resource.c and the part of the interpreter step that writes and releases
  variables): the queues, the workers and the scheduler as a step relation.

  A step is one critical section or one unlocked action of one thread: a worker takes an
  event from \<open>todo\<close>, checks the error of the flow, asks for admission, starts its instruction
  (which reads its arguments), ends it (which writes its results), marks it, looks for an
  instruction it unblocked, and puts the event on \<open>done\<close>; the scheduler enqueues the
  unblocked instructions of the block, then takes finished events and wakes their
  dependents one by one.  The steps that need \<open>flowlock\<close> are disabled while the scheduler
  is inside a loop that holds it.  What an instruction computes (\<open>run\<close>) and the memory
  footprint of a value (\<open>claim\<close>) are parameters.  Of the waiting on semaphores the model
  keeps the effect: a dequeue of an empty queue is not a step.
\<close>

section \<open>Queues\<close>

definition q_enqueue :: "'e list \<Rightarrow> 'e \<Rightarrow> 'e list" where
  "q_enqueue q d = q @ [d]"

definition q_requeue :: "'e list \<Rightarrow> 'e \<Rightarrow> 'e list" where
  "q_requeue q d = d # q"

text \<open>
  The scan of \<open>q_dequeue\<close> for a client: from the last entry down, the entry of the client
  with the smallest pc.
\<close>

fun minpc_scan :: "('e \<Rightarrow> bool) \<Rightarrow> ('e \<Rightarrow> nat) \<Rightarrow> 'e list \<Rightarrow> nat \<Rightarrow> nat option \<Rightarrow> nat option" where
  "minpc_scan mine pc q 0 minpc = minpc"
| "minpc_scan mine pc q (Suc i) minpc =
     minpc_scan mine pc q i
       (if mine (q ! i)
        then (case minpc of None \<Rightarrow> Some i | Some k \<Rightarrow> if pc (q ! i) < pc (q ! k) then Some i else Some k)
        else minpc)"

text \<open>
  \<open>mine\<close> is \<open>Some\<close> test for a worker that serves one client, \<open>None\<close> for a generic one.
\<close>

definition q_dequeue ::
  "('e \<Rightarrow> bool) option \<Rightarrow> ('e \<Rightarrow> nat) \<Rightarrow> 'e list \<Rightarrow> ('e \<times> 'e list) option" where
  "q_dequeue cl pc q =
     (case cl of
        Some mine \<Rightarrow>
          (case minpc_scan mine pc q (length q) None of
             None \<Rightarrow> None
           | Some k \<Rightarrow> Some (q ! k, take k q @ drop (Suc k) q))
      | None \<Rightarrow> if q = [] then None else Some (last q, butlast q))"

section \<open>Admission control\<close>

text \<open>
  \<open>MALadmission(argclaim, hotclaim)\<close> on the globals \<open>memorypool\<close> and \<open>memoryclaims\<close>: whether
  it returns 0, and the new globals.
\<close>

definition MALadmission :: "int \<Rightarrow> int \<Rightarrow> int \<Rightarrow> int \<times> int \<Rightarrow> bool \<times> int \<times> int" where
  "MALadmission threshold argclaim hotclaim m =
     (if argclaim = 0 then (True, m)
      else
        let claims = (if snd m < 0 then 0 else snd m);
            pool = (if fst m \<le> 0 \<and> claims = 0 then threshold else fst m)
        in if 0 < argclaim
           then (if claims = 0 \<or> argclaim + hotclaim < pool
                 then (True, pool - (argclaim + hotclaim), claims + 1)
                 else (False, pool, claims))
           else (True, pool + (- argclaim - hotclaim), claims - 1))"

section \<open>State\<close>

datatype fstate = DFLOWpending | DFLOWrunning | DFLOWwrapup | DFLOWretry | DFLOWskipped

record flowevent =
  fe_blocks :: nat
  fe_state :: fstate
  hotclaim :: int
  argclaim :: int
  maxclaim :: int

text \<open>Where a worker is in the loop of \<open>DFLOWworker\<close>; events are positions in the block.\<close>

datatype ('v, 'e) worker =
    Idle
  | Fetched nat
  | Admit nat
  | Running nat "'e + (nat \<Rightarrow> 'v)"
  | Wrapup nat "'e option"
  | Look nat
  | Put nat "nat option"

text \<open>
  Where \<open>DFLOWscheduler\<close> is: in the initial loop at position \<open>i\<close>; waiting, with the number of
  finished tasks; waking the listed dependents of an event; returned.
\<close>

datatype sched = SInit nat | SWait nat | SWake nat "nat list" nat | SDone

datatype hist = Begin nat | End nat

text \<open>
  The last two fields are history: the starts and the successful ends of instructions, and
  the events the scheduler has taken from \<open>done\<close>.
\<close>

record ('v, 'e) dsys =
  status :: "nat \<Rightarrow> flowevent"
  todo :: "nat list"
  doneq :: "nat list"
  workers :: "('v, 'e) worker list"
  sched :: sched
  flow_error :: "'e option"
  stk :: "nat \<Rightarrow> 'v"
  memory :: "int \<times> int"
  hist :: "hist list"
  taken :: "nat list"

text \<open>
  What the block is run in: the program, its first position, the code of the instructions,
  the footprint of values, the memory threshold, the nil of released variables and the
  workers bound to the client.
\<close>

record ('v, 'e) denv =
  block :: malblk
  start :: nat
  run :: "instr \<Rightarrow> 'v list \<Rightarrow> 'e + (nat \<Rightarrow> 'v)"
  claim :: "'v \<Rightarrow> int"
  threshold :: int
  bat_nil :: 'v
  bound :: "nat \<Rightarrow> bool"

definition instr_at :: "('v, 'e) denv \<Rightarrow> nat \<Rightarrow> instr" where
  "instr_at E n = stmt (block E) ! (start E + n)"

section \<open>One instruction\<close>

definition write_results :: "instr \<Rightarrow> (nat \<Rightarrow> 'v) \<Rightarrow> (nat \<Rightarrow> 'v) \<Rightarrow> (nat \<Rightarrow> 'v)" where
  "write_results p f st = fold (\<lambda>(i, a) st. st(a := f i)) (enumerate 0 (rets p)) st"

definition isNotUsedIn :: "instr \<Rightarrow> nat \<Rightarrow> nat \<Rightarrow> bool" where
  "isNotUsedIn p i a \<longleftrightarrow> a \<notin> set (drop i (argv p))"

text \<open>The variables the interpreter marks for release before, and releases after, the call.\<close>

definition garbage :: "malblk \<Rightarrow> nat \<Rightarrow> instr \<Rightarrow> nat list" where
  "garbage mb pc p =
     (if gc p then
        [argv p ! i. i \<leftarrow> [0..<argc p],
           isaBat mb (argv p ! i) \<and> getEndOfLife mb (argv p ! i) = pc \<and>
           isNotUsedIn p (i + 1) (argv p ! i)]
      else [])"

definition release :: "'v \<Rightarrow> nat list \<Rightarrow> (nat \<Rightarrow> 'v) \<Rightarrow> (nat \<Rightarrow> 'v)" where
  "release nil as st = fold (\<lambda>a st. st(a := nil)) as st"

definition call :: "('v, 'e) denv \<Rightarrow> nat \<Rightarrow> (nat \<Rightarrow> 'v) \<Rightarrow> 'e + (nat \<Rightarrow> 'v)" where
  "call E n st = run E (instr_at E n) (map st (uses (instr_at E n)))"

definition finish :: "('v, 'e) denv \<Rightarrow> nat \<Rightarrow> (nat \<Rightarrow> 'v) \<Rightarrow> (nat \<Rightarrow> 'v) \<Rightarrow> (nat \<Rightarrow> 'v)" where
  "finish E n f st =
     release (bat_nil E) (garbage (block E) (start E + n) (instr_at E n))
       (write_results (instr_at E n) f st)"

text \<open>
  The reference: \<open>runMALsequence\<close> over the block, one instruction after the other, ending
  with the first error.
\<close>

fun runMALsequence :: "('v, 'e) denv \<Rightarrow> nat \<Rightarrow> nat \<Rightarrow> (nat \<Rightarrow> 'v) \<Rightarrow> 'e + (nat \<Rightarrow> 'v)" where
  "runMALsequence E n 0 st = Inr st"
| "runMALsequence E n (Suc m) st =
     (case call E n st of
        Inl e \<Rightarrow> Inl e
      | Inr f \<Rightarrow> runMALsequence E (Suc n) m (finish E n f st))"

section \<open>Steps\<close>

definition unlocked :: "('v, 'e) dsys \<Rightarrow> bool" where
  "unlocked s = (case sched s of SInit i \<Rightarrow> False | SWake f is t \<Rightarrow> False | _ \<Rightarrow> True)"

definition begun :: "('v, 'e) dsys \<Rightarrow> bool" where
  "begun s = (case sched s of SInit i \<Rightarrow> False | _ \<Rightarrow> True)"

abbreviation set_fe :: "nat \<Rightarrow> (flowevent \<Rightarrow> flowevent) \<Rightarrow> ('v, 'e) dsys \<Rightarrow> ('v, 'e) dsys" where
  "set_fe n f s \<equiv> s\<lparr>status := (status s)(n := f (status s n))\<rparr>"

abbreviation set_worker :: "nat \<Rightarrow> ('v, 'e) worker \<Rightarrow> ('v, 'e) dsys \<Rightarrow> ('v, 'e) dsys" where
  "set_worker w x s \<equiv> s\<lparr>workers := (workers s)[w := x]\<rparr>"

text \<open>The initial loop of the scheduler at position \<open>i\<close>.\<close>

definition init_claim :: "('v, 'e) denv \<Rightarrow> ('v, 'e) dsys \<Rightarrow> nat \<Rightarrow> int \<Rightarrow> int" where
  "init_claim E s i c =
     fold (\<lambda>a c. claim E (stk s a)) (uses (instr_at E i)) c"

definition enqueue_initial :: "('v, 'e) denv \<Rightarrow> nat \<Rightarrow> ('v, 'e) dsys \<Rightarrow> ('v, 'e) dsys" where
  "enqueue_initial E i s =
     (if fe_blocks (status s i) = 0
      then set_fe i (\<lambda>e. e\<lparr>argclaim := init_claim E s i (argclaim e), fe_state := DFLOWrunning\<rparr>)
             (s\<lparr>todo := q_enqueue (todo s) i\<rparr>)
      else s)"

text \<open>The body of the scheduler's wake-up loop, for the dependent \<open>i\<close> of event \<open>f\<close>.\<close>

definition wake_up :: "nat \<Rightarrow> nat \<Rightarrow> ('v, 'e) dsys \<Rightarrow> ('v, 'e) dsys" where
  "wake_up f i s =
     (if fe_state (status s i) = DFLOWpending then
        let s = set_fe i (\<lambda>e. e\<lparr>argclaim := argclaim e + hotclaim (status s f)\<rparr>) s in
        if fe_blocks (status s i) = 1
        then set_fe i (\<lambda>e. e\<lparr>fe_state := DFLOWrunning, fe_blocks := fe_blocks e - 1\<rparr>)
               (s\<lparr>todo := q_enqueue (todo s) i\<rparr>)
        else set_fe i (\<lambda>e. e\<lparr>fe_blocks := fe_blocks e - 1\<rparr>) s
      else s)"

text \<open>The claims a worker notes for its event after the instruction.\<close>

definition note_claims :: "('v, 'e) denv \<Rightarrow> nat \<Rightarrow> ('v, 'e) dsys \<Rightarrow> ('v, 'e) dsys" where
  "note_claims E n s =
     set_fe n
       (fold (\<lambda>a e. let footprint = claim E (stk s a) in
           e\<lparr>hotclaim := hotclaim e + footprint,
             maxclaim := (if maxclaim e < footprint then footprint else maxclaim e)\<rparr>)
         (rets (instr_at E n)) \<circ> (\<lambda>e. e\<lparr>hotclaim := 0, maxclaim := 0\<rparr>)) s"

text \<open>The search for an instruction to continue with, under \<open>flowlock\<close>.\<close>

definition next_event :: "(nat \<Rightarrow> nat list) \<Rightarrow> ('v, 'e) dsys \<Rightarrow> nat \<Rightarrow> nat option" where
  "next_event succs s n =
     find (\<lambda>i. fe_state (status s i) = DFLOWpending \<and> fe_blocks (status s i) = 1) (succs n)"

definition claim_event :: "nat \<Rightarrow> nat option \<Rightarrow> ('v, 'e) dsys \<Rightarrow> ('v, 'e) dsys" where
  "claim_event n fnxt s =
     (case fnxt of
        None \<Rightarrow> s
      | Some i \<Rightarrow>
          set_fe i (\<lambda>e. e\<lparr>fe_state := DFLOWrunning, fe_blocks := 0,
            hotclaim := hotclaim (status s n), argclaim := argclaim e + hotclaim (status s n),
            maxclaim := (if maxclaim e < maxclaim (status s n) then maxclaim (status s n) else maxclaim e)\<rparr>) s)"

text \<open>
  The steps, for a block of \<open>A\<close> instructions with wake-up lists \<open>succs\<close>.  The code asks for
  admission when \<open>MALrunningThreads() > 2\<close>, a value other clients change at any time: rule
  \<open>free\<close> is the start of an instruction without asking.  The labels keep apart a refused
  admission and such a start, neither of which the flow itself can bring about.
\<close>

datatype dlabel = Requeue | Unasked | Advance

inductive dstep ::
  "('v, 'e) denv \<Rightarrow> nat \<Rightarrow> (nat \<Rightarrow> nat list) \<Rightarrow> dlabel \<Rightarrow> ('v, 'e) dsys \<Rightarrow> ('v, 'e) dsys \<Rightarrow> bool"
  for E A succs where
  sched_init: "sched s = SInit i \<Longrightarrow> i < A \<Longrightarrow>
    dstep E A succs Advance s (enqueue_initial E i s\<lparr>sched := SInit (Suc i)\<rparr>)"
| sched_start: "sched s = SInit A \<Longrightarrow> dstep E A succs Advance s (s\<lparr>sched := SWait 0\<rparr>)"
| sched_take: "sched s = SWait t \<Longrightarrow> t \<noteq> A \<Longrightarrow> q_dequeue None id (doneq s) = Some (f, q) \<Longrightarrow>
    dstep E A succs Advance s
      (s\<lparr>doneq := q, sched := SWake f (succs f) (Suc t), taken := taken s @ [f]\<rparr>)"
| sched_wake: "sched s = SWake f (i # is) t \<Longrightarrow>
    dstep E A succs Advance s (wake_up f i s\<lparr>sched := SWake f is t\<rparr>)"
| sched_woken: "sched s = SWake f [] t \<Longrightarrow> dstep E A succs Advance s (s\<lparr>sched := SWait t\<rparr>)"
| sched_done: "sched s = SWait A \<Longrightarrow> dstep E A succs Advance s (s\<lparr>sched := SDone\<rparr>)"
| take: "w < length (workers s) \<Longrightarrow> workers s ! w = Idle \<Longrightarrow> \<not> bound E w \<or> begun s \<Longrightarrow>
    q_dequeue (if bound E w then Some (\<lambda>_. True) else None) id (todo s) = Some (n, q) \<Longrightarrow>
    dstep E A succs Advance s (set_worker w (Fetched n) (s\<lparr>todo := q\<rparr>))"
| skip: "w < length (workers s) \<Longrightarrow> workers s ! w = Fetched n \<Longrightarrow> unlocked s \<Longrightarrow>
    flow_error s = Some e \<Longrightarrow>
    dstep E A succs Advance s (set_worker w (Put n None) s)"
| check: "w < length (workers s) \<Longrightarrow> workers s ! w = Fetched n \<Longrightarrow> unlocked s \<Longrightarrow>
    flow_error s = None \<Longrightarrow>
    dstep E A succs Advance s (set_worker w (Admit n) s)"
| refuse: "w < length (workers s) \<Longrightarrow> workers s ! w = Admit n \<Longrightarrow> \<not> deblock (instr_at E n) \<Longrightarrow>
    MALadmission (threshold E) (argclaim (status s n)) (hotclaim (status s n)) (memory s) =
      (False, m) \<Longrightarrow>
    dstep E A succs Requeue s
      (set_worker w Idle
        (set_fe n (\<lambda>e. e\<lparr>hotclaim := 0, maxclaim := 0\<rparr>)
          (s\<lparr>memory := m, todo := q_requeue (todo s) n\<rparr>)))"
| admit: "w < length (workers s) \<Longrightarrow> workers s ! w = Admit n \<Longrightarrow>
    MALadmission (threshold E) (argclaim (status s n)) (hotclaim (status s n)) (memory s) =
      (adm, m) \<Longrightarrow> adm \<or> deblock (instr_at E n) \<Longrightarrow>
    dstep E A succs Advance s
      (set_worker w (Running n (call E n (stk s))) (s\<lparr>memory := m, hist := hist s @ [Begin n]\<rparr>))"
| free: "w < length (workers s) \<Longrightarrow> workers s ! w = Admit n \<Longrightarrow>
    dstep E A succs Unasked s
      (set_worker w (Running n (call E n (stk s))) (s\<lparr>hist := hist s @ [Begin n]\<rparr>))"
| fail: "w < length (workers s) \<Longrightarrow> workers s ! w = Running n (Inl e) \<Longrightarrow>
    dstep E A succs Advance s
      (set_worker w (Wrapup n (Some e))
        (s\<lparr>memory := snd (MALadmission (threshold E) (- argclaim (status s n))
            (- hotclaim (status s n)) (memory s))\<rparr>))"
| complete: "w < length (workers s) \<Longrightarrow> workers s ! w = Running n (Inr f) \<Longrightarrow>
    dstep E A succs Advance s
      (set_worker w (Wrapup n None)
        (s\<lparr>stk := finish E n f (stk s), hist := hist s @ [End n],
           memory := snd (MALadmission (threshold E) (- argclaim (status s n))
            (- hotclaim (status s n)) (memory s))\<rparr>))"
| wrap_error: "w < length (workers s) \<Longrightarrow> workers s ! w = Wrapup n (Some e) \<Longrightarrow> unlocked s \<Longrightarrow>
    dstep E A succs Advance s
      (set_worker w (Put n None)
        (set_fe n (\<lambda>e. e\<lparr>fe_state := DFLOWwrapup\<rparr>)
          (s\<lparr>flow_error := (case flow_error s of None \<Rightarrow> Some e | Some e' \<Rightarrow> Some e')\<rparr>)))"
| wrap: "w < length (workers s) \<Longrightarrow> workers s ! w = Wrapup n None \<Longrightarrow> unlocked s \<Longrightarrow>
    dstep E A succs Advance s
      (set_worker w (Look n)
        (note_claims E n (set_fe n (\<lambda>e. e\<lparr>fe_state := DFLOWwrapup\<rparr>) s)))"
| look: "w < length (workers s) \<Longrightarrow> workers s ! w = Look n \<Longrightarrow> unlocked s \<Longrightarrow>
    dstep E A succs Advance s
      (set_worker w (Put n (next_event succs s n)) (claim_event n (next_event succs s n) s))"
| put: "w < length (workers s) \<Longrightarrow> workers s ! w = Put n fnxt \<Longrightarrow>
    dstep E A succs Advance s
      (set_worker w (case fnxt of None \<Rightarrow> Idle | Some i \<Rightarrow> Fetched i)
        (s\<lparr>doneq := q_enqueue (doneq s) n\<rparr>))"

text \<open>
  The state in which \<open>runMALdataflow\<close> calls the scheduler: every event pending with its number
  of blocks, all workers idle, no memory claimed.
\<close>

definition dinit :: "(nat \<Rightarrow> nat) \<Rightarrow> nat \<Rightarrow> (nat \<Rightarrow> 'v) \<Rightarrow> ('v, 'e) dsys" where
  "dinit blks nworkers st = \<lparr>
     status = (\<lambda>n. \<lparr>fe_blocks = blks n, fe_state = DFLOWpending, hotclaim = 0, argclaim = 0, maxclaim = 0\<rparr>),
     todo = [], doneq = [], workers = replicate nworkers Idle, sched = SInit 0,
     flow_error = None, stk = st, memory = (0, 0), hist = [], taken = []\<rparr>"

text \<open>Runs, with the number of steps and the number of refused admissions among them.\<close>

inductive druns ::
  "('v, 'e) denv \<Rightarrow> nat \<Rightarrow> (nat \<Rightarrow> nat list) \<Rightarrow> ('v, 'e) dsys \<Rightarrow> nat \<Rightarrow> nat \<Rightarrow> ('v, 'e) dsys \<Rightarrow> bool"
  for E A succs s0 where
  start: "druns E A succs s0 0 0 s0"
| more: "druns E A succs s0 m r s \<Longrightarrow> dstep E A succs l s s' \<Longrightarrow>
    druns E A succs s0 (Suc m) (if l = Requeue then Suc r else r) s'"

section \<open>The operations field by field\<close>

lemma enqueue_initial_simps [simp]:
  "doneq (enqueue_initial E i s) = doneq s" "workers (enqueue_initial E i s) = workers s"
  "sched (enqueue_initial E i s) = sched s" "flow_error (enqueue_initial E i s) = flow_error s"
  "stk (enqueue_initial E i s) = stk s" "memory (enqueue_initial E i s) = memory s"
  "hist (enqueue_initial E i s) = hist s" "taken (enqueue_initial E i s) = taken s"
  "fe_blocks (status (enqueue_initial E i s) n) = fe_blocks (status s n)"
  "hotclaim (status (enqueue_initial E i s) n) = hotclaim (status s n)"
  by (simp_all add: enqueue_initial_def)

lemma enqueue_initial_state:
  "fe_state (status (enqueue_initial E i s) n) =
     (if n = i \<and> fe_blocks (status s i) = 0 then DFLOWrunning else fe_state (status s n))"
  "todo (enqueue_initial E i s) = (if fe_blocks (status s i) = 0 then todo s @ [i] else todo s)"
  "argclaim (status (enqueue_initial E i s) n) =
     (if n = i \<and> fe_blocks (status s i) = 0 then init_claim E s i (argclaim (status s i))
      else argclaim (status s n))"
  by (simp_all add: enqueue_initial_def q_enqueue_def)

lemma wake_up_simps [simp]:
  "doneq (wake_up f i s) = doneq s" "workers (wake_up f i s) = workers s"
  "sched (wake_up f i s) = sched s" "flow_error (wake_up f i s) = flow_error s"
  "stk (wake_up f i s) = stk s" "memory (wake_up f i s) = memory s"
  "hist (wake_up f i s) = hist s" "taken (wake_up f i s) = taken s"
  "hotclaim (status (wake_up f i s) n) = hotclaim (status s n)"
  by (simp_all add: wake_up_def Let_def)

lemma wake_up_state:
  "fe_state (status (wake_up f i s) n) =
     (if n = i \<and> fe_state (status s i) = DFLOWpending \<and> fe_blocks (status s i) = 1
      then DFLOWrunning else fe_state (status s n))"
  "fe_blocks (status (wake_up f i s) n) =
     (if n = i \<and> fe_state (status s i) = DFLOWpending then fe_blocks (status s i) - 1
      else fe_blocks (status s n))"
  "todo (wake_up f i s) =
     (if fe_state (status s i) = DFLOWpending \<and> fe_blocks (status s i) = 1 then todo s @ [i]
      else todo s)"
  "argclaim (status (wake_up f i s) n) =
     (if n = i \<and> fe_state (status s i) = DFLOWpending
      then argclaim (status s i) + hotclaim (status s f) else argclaim (status s n))"
  by (simp_all add: wake_up_def q_enqueue_def Let_def)

lemma claim_event_simps [simp]:
  "todo (claim_event n fnxt s) = todo s" "doneq (claim_event n fnxt s) = doneq s"
  "workers (claim_event n fnxt s) = workers s" "sched (claim_event n fnxt s) = sched s"
  "flow_error (claim_event n fnxt s) = flow_error s" "stk (claim_event n fnxt s) = stk s"
  "memory (claim_event n fnxt s) = memory s" "hist (claim_event n fnxt s) = hist s"
  "taken (claim_event n fnxt s) = taken s"
  by (simp_all add: claim_event_def split: option.splits)

lemma claim_event_state:
  "fe_state (status (claim_event n fnxt s) m) =
     (if fnxt = Some m then DFLOWrunning else fe_state (status s m))"
  "fe_blocks (status (claim_event n fnxt s) m) = (if fnxt = Some m then 0 else fe_blocks (status s m))"
  "argclaim (status (claim_event n fnxt s) m) =
     (if fnxt = Some m then argclaim (status s m) + hotclaim (status s n) else argclaim (status s m))"
  "hotclaim (status (claim_event n fnxt s) m) =
     (if fnxt = Some m then hotclaim (status s n) else hotclaim (status s m))"
  by (simp_all add: claim_event_def split: option.splits)

lemma note_claims_fold:
  "fe_state (fold (\<lambda>a e. let footprint = c a in e\<lparr>hotclaim := hotclaim e + footprint,
     maxclaim := (if maxclaim e < footprint then footprint else maxclaim e)\<rparr>) as e) = fe_state e"
  "fe_blocks (fold (\<lambda>a e. let footprint = c a in e\<lparr>hotclaim := hotclaim e + footprint,
     maxclaim := (if maxclaim e < footprint then footprint else maxclaim e)\<rparr>) as e) = fe_blocks e"
  "argclaim (fold (\<lambda>a e. let footprint = c a in e\<lparr>hotclaim := hotclaim e + footprint,
     maxclaim := (if maxclaim e < footprint then footprint else maxclaim e)\<rparr>) as e) = argclaim e"
  "(\<And>a. 0 \<le> c a) \<Longrightarrow> 0 \<le> hotclaim e \<Longrightarrow>
     0 \<le> hotclaim (fold (\<lambda>a e. let footprint = c a in e\<lparr>hotclaim := hotclaim e + footprint,
     maxclaim := (if maxclaim e < footprint then footprint else maxclaim e)\<rparr>) as e)"
  by (induction as arbitrary: e) (simp_all add: Let_def)

lemma note_claims_simps [simp]:
  "todo (note_claims E n s) = todo s" "doneq (note_claims E n s) = doneq s"
  "workers (note_claims E n s) = workers s" "sched (note_claims E n s) = sched s"
  "flow_error (note_claims E n s) = flow_error s" "stk (note_claims E n s) = stk s"
  "memory (note_claims E n s) = memory s" "hist (note_claims E n s) = hist s"
  "taken (note_claims E n s) = taken s"
  "fe_state (status (note_claims E n s) m) = fe_state (status s m)"
  "fe_blocks (status (note_claims E n s) m) = fe_blocks (status s m)"
  "argclaim (status (note_claims E n s) m) = argclaim (status s m)"
  by (simp_all add: note_claims_def note_claims_fold)

lemma note_claims_hotclaim:
  assumes "\<And>v. 0 \<le> claim E v" and "0 \<le> hotclaim (status s m)"
  shows "0 \<le> hotclaim (status (note_claims E n s) m)"
  using assms by (simp add: note_claims_def note_claims_fold)

text \<open>A dequeue takes one entry out of the queue.\<close>

lemma minpc_scan_bound:
  "i \<le> length q \<Longrightarrow> pred_option (\<lambda>k. k < length q) m \<Longrightarrow>
     pred_option (\<lambda>k. k < length q) (minpc_scan mine pc q i m)"
  by (induction i arbitrary: m) (auto split: option.splits)

lemma minpc_scan_None:
  "minpc_scan mine pc q i m = None \<longleftrightarrow> m = None \<and> (\<forall>j < i. \<not> mine (q ! j))"
  by (induction i arbitrary: m) (auto simp: less_Suc_eq split: option.splits)

lemma mset_remove_nth: "k < length q \<Longrightarrow> mset q = add_mset (q ! k) (mset (take k q @ drop (Suc k) q))"
  by (metis add_mset_add_single id_take_nth_drop mset.simps(2) mset_append union_mset_add_mset_right)

lemma q_dequeue_mset: "q_dequeue cl pc q = Some (n, q') \<Longrightarrow> mset q = add_mset n (mset q')"
proof (cases cl)
  case None
  assume "q_dequeue cl pc q = Some (n, q')"
  with None have "q = q' @ [n]" by (auto simp: q_dequeue_def split: if_splits)
  then show ?thesis by simp
next
  case (Some mine)
  assume "q_dequeue cl pc q = Some (n, q')"
  with Some obtain k where k: "minpc_scan mine pc q (length q) None = Some k"
    "n = q ! k" "q' = take k q @ drop (Suc k) q"
    by (auto simp: q_dequeue_def split: option.splits)
  with minpc_scan_bound [of "length q" q None mine pc] mset_remove_nth [of k q] show ?thesis by simp
qed

lemma q_dequeue_set: "q_dequeue cl pc q = Some (n, q') \<Longrightarrow> n \<in> set q"
  using q_dequeue_mset [of cl pc q n q'] by (metis set_mset_mset union_single_eq_member)

lemma q_dequeue_Some:
  "q \<noteq> [] \<Longrightarrow> (\<And>mine. cl = Some mine \<Longrightarrow> \<exists>n \<in> set q. mine n) \<Longrightarrow> \<exists>n q'. q_dequeue cl pc q = Some (n, q')"
  by (cases cl) (auto simp: q_dequeue_def minpc_scan_None in_set_conv_nth split: option.splits)

section \<open>An executable schedule\<close>

text \<open>
  The step the scheduler, or worker \<open>w\<close>, takes next, always asking for admission; a list of
  threads then determines a run.
\<close>

definition sched_next ::
  "('v, 'e) denv \<Rightarrow> nat \<Rightarrow> (nat \<Rightarrow> nat list) \<Rightarrow> ('v, 'e) dsys \<Rightarrow> ('v, 'e) dsys option" where
  "sched_next E A succs s =
     (case sched s of
        SInit i \<Rightarrow>
          if i < A then Some (enqueue_initial E i s\<lparr>sched := SInit (Suc i)\<rparr>)
          else if i = A then Some (s\<lparr>sched := SWait 0\<rparr>) else None
      | SWait t \<Rightarrow>
          if t = A then Some (s\<lparr>sched := SDone\<rparr>)
          else map_option (\<lambda>(f, q). s\<lparr>doneq := q, sched := SWake f (succs f) (Suc t), taken := taken s @ [f]\<rparr>)
            (q_dequeue None id (doneq s))
      | SWake f is t \<Rightarrow>
          (case is of
             [] \<Rightarrow> Some (s\<lparr>sched := SWait t\<rparr>)
           | i # is \<Rightarrow> Some (wake_up f i s\<lparr>sched := SWake f is t\<rparr>))
      | SDone \<Rightarrow> None)"

definition worker_next ::
  "('v, 'e) denv \<Rightarrow> (nat \<Rightarrow> nat list) \<Rightarrow> nat \<Rightarrow> ('v, 'e) dsys \<Rightarrow> ('v, 'e) dsys option" where
  "worker_next E succs w s =
     (if length (workers s) \<le> w then None
      else case workers s ! w of
        Idle \<Rightarrow>
          if bound E w \<and> \<not> begun s then None
          else map_option (\<lambda>(n, q). set_worker w (Fetched n) (s\<lparr>todo := q\<rparr>))
            (q_dequeue (if bound E w then Some (\<lambda>_. True) else None) id (todo s))
      | Fetched n \<Rightarrow>
          if unlocked s
          then Some (set_worker w (case flow_error s of None \<Rightarrow> Admit n | Some e \<Rightarrow> Put n None) s)
          else None
      | Admit n \<Rightarrow>
          (case MALadmission (threshold E) (argclaim (status s n)) (hotclaim (status s n)) (memory s) of
             (adm, m) \<Rightarrow>
               if adm \<or> deblock (instr_at E n)
               then Some (set_worker w (Running n (call E n (stk s)))
                      (s\<lparr>memory := m, hist := hist s @ [Begin n]\<rparr>))
               else Some (set_worker w Idle
                      (set_fe n (\<lambda>e. e\<lparr>hotclaim := 0, maxclaim := 0\<rparr>)
                        (s\<lparr>memory := m, todo := q_requeue (todo s) n\<rparr>))))
      | Running n r \<Rightarrow>
          let m = snd (MALadmission (threshold E) (- argclaim (status s n)) (- hotclaim (status s n)) (memory s))
          in (case r of
               Inl e \<Rightarrow> Some (set_worker w (Wrapup n (Some e)) (s\<lparr>memory := m\<rparr>))
             | Inr f \<Rightarrow> Some (set_worker w (Wrapup n None)
                 (s\<lparr>stk := finish E n f (stk s), hist := hist s @ [End n], memory := m\<rparr>)))
      | Wrapup n r \<Rightarrow>
          if \<not> unlocked s then None
          else (case r of
               Some e \<Rightarrow> Some (set_worker w (Put n None)
                 (set_fe n (\<lambda>e. e\<lparr>fe_state := DFLOWwrapup\<rparr>)
                   (s\<lparr>flow_error := (case flow_error s of None \<Rightarrow> Some e | Some e' \<Rightarrow> Some e')\<rparr>)))
             | None \<Rightarrow> Some (set_worker w (Look n)
                 (note_claims E n (set_fe n (\<lambda>e. e\<lparr>fe_state := DFLOWwrapup\<rparr>) s))))
      | Look n \<Rightarrow>
          if unlocked s
          then Some (set_worker w (Put n (next_event succs s n)) (claim_event n (next_event succs s n) s))
          else None
      | Put n fnxt \<Rightarrow>
          Some (set_worker w (case fnxt of None \<Rightarrow> Idle | Some i \<Rightarrow> Fetched i)
            (s\<lparr>doneq := q_enqueue (doneq s) n\<rparr>)))"

fun dexec ::
  "('v, 'e) denv \<Rightarrow> nat \<Rightarrow> (nat \<Rightarrow> nat list) \<Rightarrow> nat option list \<Rightarrow> ('v, 'e) dsys \<Rightarrow> ('v, 'e) dsys option" where
  "dexec E A succs [] s = Some s"
| "dexec E A succs (who # ws) s =
     Option.bind (case who of None \<Rightarrow> sched_next E A succs s | Some w \<Rightarrow> worker_next E succs w s)
       (dexec E A succs ws)"

lemma sched_next_step:
  "sched_next E A succs s = Some s' \<Longrightarrow> \<exists>l. dstep E A succs l s s'"
  unfolding sched_next_def
  by (auto split: sched.splits if_splits list.splits intro: dstep.intros)

lemma worker_next_step:
  assumes "worker_next E succs w s = Some s'"
  shows "\<exists>l. dstep E A succs l s s'"
proof -
  have w: "w < length (workers s)" using assms by (auto simp: worker_next_def split: if_splits)
  show ?thesis
  proof (cases "workers s ! w")
    case Idle
    then obtain n q where "\<not> bound E w \<or> begun s"
      "q_dequeue (if bound E w then Some (\<lambda>_. True) else None) id (todo s) = Some (n, q)"
      "s' = set_worker w (Fetched n) (s\<lparr>todo := q\<rparr>)"
      using assms w by (auto simp: worker_next_def split: if_splits)
    then show ?thesis using dstep.take [OF w Idle] by blast
  next
    case (Fetched n)
    then show ?thesis using assms w dstep.skip [OF w Fetched] dstep.check [OF w Fetched]
      by (fastforce simp: worker_next_def split: if_splits option.splits)
  next
    case (Admit n)
    then show ?thesis using assms w dstep.admit [OF w Admit] dstep.refuse [OF w Admit]
      by (fastforce simp: worker_next_def split: if_splits prod.splits)
  next
    case (Running n r)
    then show ?thesis using assms w dstep.fail [OF w, of n] dstep.complete [OF w, of n]
      by (fastforce simp: worker_next_def Let_def split: sum.splits)
  next
    case (Wrapup n r)
    then show ?thesis using assms w dstep.wrap_error [OF w, of n] dstep.wrap [OF w, of n]
      by (fastforce simp: worker_next_def split: if_splits option.splits)
  next
    case (Look n)
    then show ?thesis using assms w dstep.look [OF w Look]
      by (fastforce simp: worker_next_def split: if_splits)
  next
    case (Put n fnxt)
    then show ?thesis using assms w dstep.put [OF w Put] by (fastforce simp: worker_next_def)
  qed
qed

lemma dexec_runs:
  "druns E A succs s0 m r s \<Longrightarrow> dexec E A succs ws s = Some s' \<Longrightarrow> \<exists>m r. druns E A succs s0 m r s'"
proof (induction ws arbitrary: s m r)
  case (Cons who ws)
  then obtain s1 where s1: "(case who of None \<Rightarrow> sched_next E A succs s | Some w \<Rightarrow> worker_next E succs w s) = Some s1"
    "dexec E A succs ws s1 = Some s'"
    by (auto simp: bind_eq_Some_conv)
  then obtain l where "dstep E A succs l s s1"
    using sched_next_step worker_next_step by (cases who) fastforce+
  from Cons.IH [OF druns.more [OF Cons.prems(1) this] s1(2)] show ?case .
qed auto

end
