(* ===== verification/Mal_Dflow_Inv.thy ===== *)
theory Mal_Dflow_Inv
  imports Mal_Dataflow
begin

text \<open>
  The invariant of parallel dataflow execution and what follows from it: no instruction
  starts before the instructions it depends on have ended, none starts twice, the scheduler
  never deadlocks, and its runs are bounded.  The lemmas are proved in the locale
  \<open>wakeup_graph\<close>, the contract between the scheduler and the graph that \<open>DFLOWinitBlk\<close> builds.
\<close>

section \<open>Where the events are\<close>

fun at_worker :: "('v, 'e) worker \<Rightarrow> nat multiset" where
  "at_worker Idle = {#}"
| "at_worker (Put n (Some i)) = {#n, i#}"
| "at_worker (Put n None) = {#n#}"
| "at_worker (Fetched n) = {#n#}"
| "at_worker (Admit n) = {#n#}"
| "at_worker (Running n r) = {#n#}"
| "at_worker (Wrapup n e) = {#n#}"
| "at_worker (Look n) = {#n#}"

fun fresh_at :: "('v, 'e) worker \<Rightarrow> nat multiset" where
  "fresh_at (Put n (Some i)) = {#i#}"
| "fresh_at (Fetched n) = {#n#}"
| "fresh_at (Admit n) = {#n#}"
| "fresh_at _ = {#}"

fun running_at :: "('v, 'e) worker \<Rightarrow> nat multiset" where
  "running_at (Running n r) = {#n#}"
| "running_at _ = {#}"

definition located :: "('v, 'e) dsys \<Rightarrow> nat multiset" where
  "located s = mset (todo s) + mset (doneq s) + mset (taken s) + sum_list (map at_worker (workers s))"

definition fresh :: "('v, 'e) dsys \<Rightarrow> nat multiset" where
  "fresh s = mset (todo s) + sum_list (map fresh_at (workers s))"

definition running :: "('v, 'e) dsys \<Rightarrow> nat multiset" where
  "running s = sum_list (map running_at (workers s))"

fun begins :: "hist list \<Rightarrow> nat multiset" where
  "begins [] = {#}"
| "begins (Begin n # h) = add_mset n (begins h)"
| "begins (End n # h) = begins h"

fun ends :: "hist list \<Rightarrow> nat multiset" where
  "ends [] = {#}"
| "ends (Begin n # h) = ends h"
| "ends (End n # h) = add_mset n (ends h)"

lemma begins_append [simp]: "begins (h @ h') = begins h + begins h'"
  by (induction h rule: begins.induct) auto

lemma ends_append [simp]: "ends (h @ h') = ends h + ends h'"
  by (induction h rule: ends.induct) auto

lemma in_begins [simp]: "n \<in># begins h \<longleftrightarrow> Begin n \<in> set h"
  by (induction h rule: begins.induct) auto

lemma in_ends [simp]: "n \<in># ends h \<longleftrightarrow> End n \<in> set h"
  by (induction h rule: ends.induct) auto

text \<open>Sums over the workers when one of them changes.\<close>

lemma worker_sum_split:
  fixes f :: "'w \<Rightarrow> 'a::comm_monoid_add"
  assumes "w < length ws"
  obtains r where "sum_list (map f ws) = r + f (ws ! w)"
    "\<And>x. sum_list (map f (ws[w := x])) = r + f x"
proof
  let ?r = "sum_list (map f (take w ws)) + sum_list (map f (drop (Suc w) ws))"
  have "ws = take w ws @ ws ! w # drop (Suc w) ws" using assms by (rule id_take_nth_drop)
  then have "sum_list (map f ws) =
      sum_list (map f (take w ws)) + (f (ws ! w) + sum_list (map f (drop (Suc w) ws)))"
    by (metis list.simps(9) map_append sum_list.Cons sum_list.append)
  then show "sum_list (map f ws) = ?r + f (ws ! w)" by (simp add: add_ac)
  show "sum_list (map f (ws[w := x])) = ?r + f x" for x
    using assms by (simp add: upd_conv_take_nth_drop add_ac)
qed

lemma worker_update:
  fixes f :: "'w \<Rightarrow> 'b::comm_monoid_add"
  assumes "w < length ws" and "ws ! w = y"
  shows "f y + sum_list (map f (ws[w := x])) = f x + sum_list (map f ws)"
  using worker_sum_split [OF assms(1), of f] assms(2) by (metis add.assoc add.commute)

text \<open>The effect of moving a worker from one place of its loop to another.\<close>

lemma worker_moves:
  assumes "w < length (workers s)" and "workers s ! w = y"
  shows "at_worker y + sum_list (map at_worker ((workers s)[w := x])) =
      at_worker x + sum_list (map at_worker (workers s))"
    "fresh_at y + sum_list (map fresh_at ((workers s)[w := x])) =
      fresh_at x + sum_list (map fresh_at (workers s))"
    "running_at y + sum_list (map running_at ((workers s)[w := x])) =
      running_at x + sum_list (map running_at (workers s))"
  using assms by (rule worker_update)+

lemma at_worker_located:
  assumes "w < length (workers s)" and "workers s ! w = y" and "n \<in># at_worker y"
  shows "n \<in># located s"
  using worker_moves(1) [OF assms(1,2), of Idle] assms(3)
  by (metis UnI2 add.commute add_0 at_worker.simps(1) located_def set_mset_union union_iff)

abbreviation pending :: "('v, 'e) dsys \<Rightarrow> nat \<Rightarrow> bool" where
  "pending s n \<equiv> fe_state (status s n) = DFLOWpending"

text \<open>
  Every step moves events between the queues and the workers, or brings one pending event in:
  from the scheduler's loops, when its count of blocks is used up, or from a worker's look
  for a successor.
\<close>

definition woken :: "(nat \<Rightarrow> nat list) \<Rightarrow> nat \<Rightarrow> ('v, 'e) dsys \<Rightarrow> nat \<Rightarrow> bool" where
  "woken succs A s i \<longleftrightarrow>
     sched s = SInit i \<and> i < A \<and> fe_blocks (status s i) = 0 \<or>
     fe_blocks (status s i) = 1 \<and>
       ((\<exists>f is t. sched s = SWake f (i # is) t) \<or>
        (\<exists>n. Look n \<in> set (workers s) \<and> unlocked s \<and> i \<in> set (succs n)))"

lemma find_SomeD: "find P xs = Some x \<Longrightarrow> P x \<and> x \<in> set xs"
  by (induction xs) (auto split: if_splits)

lemma dstep_located:
  assumes "dstep E A succs l s s'" and idle: "\<And>n. n \<in># located s \<Longrightarrow> \<not> pending s n"
  shows "located s' = located s \<and> (\<forall>n. pending s' n = pending s n) \<or>
    (\<exists>i. (pending s i \<or> sched s = SInit i) \<and> woken succs A s i \<and> located s' = add_mset i (located s) \<and>
      (\<forall>n. pending s' n = (n \<noteq> i \<and> pending s n)))"
  using assms(1)
proof (cases rule: dstep.cases)
  case (sched_init i)
  then show ?thesis by (auto simp: located_def woken_def enqueue_initial_state)
next
  case (sched_take t f q)
  then show ?thesis using q_dequeue_mset [OF sched_take(5)] by (simp add: located_def)
next
  case (sched_wake f i "is" t)
  then show ?thesis by (auto simp: located_def woken_def wake_up_state)
next
  case (take w n q)
  with worker_moves(1) [OF take(3,4), of "Fetched n"] q_dequeue_mset [OF take(6)] show ?thesis
    by (simp add: located_def)
next
  case (skip w n e)
  with worker_moves(1) [OF skip(3,4), of "Put n None"] show ?thesis by (simp add: located_def)
next
  case (check w n)
  with worker_moves(1) [OF check(3,4), of "Admit n"] show ?thesis by (simp add: located_def)
next
  case (refuse w n m)
  with worker_moves(1) [OF refuse(3,4), of Idle, symmetric] show ?thesis
    by (simp add: located_def q_requeue_def)
next
  case (admit w n adm m)
  with worker_moves(1) [OF admit(3,4), of "Running n (call E n (stk s))"] show ?thesis
    by (simp add: located_def)
next
  case (free w n)
  with worker_moves(1) [OF free(3,4), of "Running n (call E n (stk s))"] show ?thesis
    by (simp add: located_def)
next
  case (fail w n e)
  with worker_moves(1) [OF fail(3,4), of "Wrapup n (Some e)"] show ?thesis by (simp add: located_def)
next
  case (complete w n f)
  with worker_moves(1) [OF complete(3,4), of "Wrapup n None"] show ?thesis by (simp add: located_def)
next
  case (wrap_error w n e)
  with idle [OF at_worker_located [OF wrap_error(3,4)], of n]
    worker_moves(1) [OF wrap_error(3,4), of "Put n None"]
  show ?thesis by (simp add: located_def)
next
  case (wrap w n)
  with worker_moves(1) [OF wrap(3,4), of "Look n"] 
    idle [OF at_worker_located [OF wrap(3,4)], of n]
  show ?thesis by (simp add: located_def)
next
  case (look w n)
  have "Look n \<in> set (workers s)" using look by (metis nth_mem)
  with look worker_moves(1) [OF look(3,4), of "Put n (next_event succs s n)"] show ?thesis
    by (cases "next_event succs s n")
      (auto simp: located_def woken_def claim_event_state next_event_def dest!: find_SomeD)
next
  case (put w n fnxt)
  with worker_moves(1) [OF put(3,4), of "case fnxt of None \<Rightarrow> Idle | Some i \<Rightarrow> Fetched i", symmetric]
  show ?thesis by (cases fnxt) (simp_all add: located_def q_enqueue_def)
qed (auto simp: located_def)

section \<open>The invariant\<close>

text \<open>
  Every event that is no longer pending is in exactly one place; the scheduler's position
  agrees with its history; the block count of a pending event is the number of wake-ups
  still to come.
\<close>

definition placed :: "nat \<Rightarrow> ('v, 'e) dsys \<Rightarrow> bool" where
  "placed A s \<longleftrightarrow> (\<forall>n. count (located s) n = (if n < A \<and> \<not> pending s n then 1 else 0))"

definition sched_ok :: "nat \<Rightarrow> (nat \<Rightarrow> nat list) \<Rightarrow> ('v, 'e) dsys \<Rightarrow> bool" where
  "sched_ok A succs s \<longleftrightarrow>
     (case sched s of
        SInit i \<Rightarrow> i \<le> A \<and> taken s = [] \<and> (\<forall>n < A. i \<le> n \<longrightarrow> pending s n)
      | SWait t \<Rightarrow> length (taken s) = t
      | SWake f is t \<Rightarrow> length (taken s) = t \<and> f \<in> set (taken s) \<and> set is \<subseteq> set (succs f)
      | SDone \<Rightarrow> length (taken s) = A)"

definition to_wake :: "('v, 'e) dsys \<Rightarrow> nat list" where
  "to_wake s = (case sched s of SWake f is t \<Rightarrow> is | _ \<Rightarrow> [])"

definition wakeups_left :: "nat \<Rightarrow> (nat \<Rightarrow> nat list) \<Rightarrow> ('v, 'e) dsys \<Rightarrow> nat \<Rightarrow> nat" where
  "wakeups_left A succs s n =
     (\<Sum>k \<in> {..<A} - set (taken s). count_list (succs k) n) + count_list (to_wake s) n"

definition counted :: "nat \<Rightarrow> (nat \<Rightarrow> nat list) \<Rightarrow> ('v, 'e) dsys \<Rightarrow> bool" where
  "counted A succs s \<longleftrightarrow> (\<forall>n < A. pending s n \<longrightarrow>
     fe_blocks (status s n) = wakeups_left A succs s n \<and>
     (0 < fe_blocks (status s n) \<or> (\<exists>i. sched s = SInit i \<and> i \<le> n)))"

text \<open>Nothing starts twice, and a running instruction has not ended.\<close>

definition once :: "('v, 'e) dsys \<Rightarrow> bool" where
  "once s \<longleftrightarrow> begins (hist s) + fresh s \<subseteq># located s \<and>
     ends (hist s) + fresh s + running s \<subseteq># located s"

lemma onceD:
  assumes "once s"
  shows "begins (hist s) \<subseteq># located s" "ends (hist s) \<subseteq># located s"
proof -
  from assms have b: "begins (hist s) + fresh s \<subseteq># located s"
    and e: "ends (hist s) + (fresh s + running s) \<subseteq># located s"
    by (simp_all add: once_def add.assoc)
  show "begins (hist s) \<subseteq># located s"
    by (rule subset_mset.order_trans [OF mset_subset_eq_add_left b])
  show "ends (hist s) \<subseteq># located s"
    by (rule subset_mset.order_trans [OF mset_subset_eq_add_left e])
qed

text \<open>
  The instructions an event depends on have ended, or there was an error; when it is past
  the error check, they have ended.
\<close>

definition deps_ended :: "nat \<Rightarrow> (nat \<Rightarrow> nat list) \<Rightarrow> hist list \<Rightarrow> nat \<Rightarrow> bool" where
  "deps_ended A succs h n \<longleftrightarrow> (\<forall>k < A. n \<in> set (succs k) \<longrightarrow> End k \<in> set h)"

definition settled :: "('v, 'e) dsys \<Rightarrow> nat \<Rightarrow> bool" where
  "settled s k \<longleftrightarrow> End k \<in> set (hist s) \<or> flow_error s \<noteq> None"

fun worker_ok :: "nat \<Rightarrow> (nat \<Rightarrow> nat list) \<Rightarrow> ('v, 'e) dsys \<Rightarrow> ('v, 'e) worker \<Rightarrow> bool" where
  "worker_ok A succs s (Admit n) = deps_ended A succs (hist s) n"
| "worker_ok A succs s (Running n r) = deps_ended A succs (hist s) n"
| "worker_ok A succs s (Wrapup n None) = (End n \<in> set (hist s))"
| "worker_ok A succs s (Look n) = (End n \<in> set (hist s))"
| "worker_ok A succs s (Put n fnxt) = settled s n"
| "worker_ok A succs s x = True"

definition settled_all :: "nat \<Rightarrow> (nat \<Rightarrow> nat list) \<Rightarrow> ('v, 'e) dsys \<Rightarrow> bool" where
  "settled_all A succs s \<longleftrightarrow>
     (\<forall>x \<in> set (workers s). worker_ok A succs s x) \<and>
     (\<forall>k \<in> set (doneq s) \<union> set (taken s). settled s k) \<and>
     (\<forall>n < A. \<not> pending s n \<longrightarrow> flow_error s \<noteq> None \<or> deps_ended A succs (hist s) n)"

definition ordered :: "nat \<Rightarrow> (nat \<Rightarrow> nat list) \<Rightarrow> hist list \<Rightarrow> bool" where
  "ordered A succs h \<longleftrightarrow> (\<forall>h1 n h2. h = h1 @ Begin n # h2 \<longrightarrow> deps_ended A succs h1 n)"

definition dinv :: "nat \<Rightarrow> (nat \<Rightarrow> nat list) \<Rightarrow> ('v, 'e) dsys \<Rightarrow> bool" where
  "dinv A succs s \<longleftrightarrow> placed A s \<and> sched_ok A succs s \<and> counted A succs s \<and> once s \<and>
     settled_all A succs s \<and> ordered A succs (hist s)"

lemma dinvD:
  assumes "dinv A succs s"
  shows "placed A s" "sched_ok A succs s" "counted A succs s" "once s" "settled_all A succs s"
    "ordered A succs (hist s)"
  using assms by (simp_all add: dinv_def)

lemma settled_allD:
  assumes "settled_all A succs s"
  shows "x \<in> set (workers s) \<Longrightarrow> worker_ok A succs s x"
    "k \<in> set (doneq s) \<or> k \<in> set (taken s) \<Longrightarrow> settled s k"
    "n < A \<Longrightarrow> \<not> pending s n \<Longrightarrow> flow_error s = None \<Longrightarrow> deps_ended A succs (hist s) n"
  using assms by (auto simp: settled_all_def)

lemma placed_located: "placed A s \<Longrightarrow> n \<in># located s \<longleftrightarrow> n < A \<and> \<not> pending s n"
  unfolding placed_def by (metis count_eq_zero_iff zero_neq_one)

lemma in_located:
  "n \<in> set (todo s) \<Longrightarrow> n \<in># located s" "n \<in> set (doneq s) \<Longrightarrow> n \<in># located s"
  "n \<in> set (taken s) \<Longrightarrow> n \<in># located s"
  by (simp_all add: located_def)

lemma worker_located: "x \<in> set (workers s) \<Longrightarrow> n \<in># at_worker x \<Longrightarrow> n \<in># located s"
  by (metis at_worker_located in_set_conv_nth)

text \<open>The places are disjoint, since no count exceeds one.\<close>

lemma worker_not_taken:
  assumes "placed A s" "w < length (workers s)" "n \<in># at_worker (workers s ! w)"
  shows "n \<notin> set (taken s)" "n \<notin> set (todo s)" "n \<notin> set (doneq s)"
proof -
  have "count (located s) n \<le> 1" using assms(1) by (simp add: placed_def)
  moreover have "0 < count (sum_list (map at_worker (workers s))) n"
    using worker_moves(1) [OF assms(2) refl, of Idle] assms(3)
    by (metis add_0 at_worker.simps(1) count_greater_zero_iff union_iff)
  ultimately have "count (mset (todo s) + mset (doneq s) + mset (taken s)) n = 0"
    unfolding located_def count_union by linarith
  then show "n \<notin> set (taken s)" "n \<notin> set (todo s)" "n \<notin> set (doneq s)"
    by (auto simp: count_eq_zero_iff)
qed

lemma queue_not_taken:
  assumes "placed A s" "n \<in> set (doneq s)"
  shows "n \<notin> set (taken s)"
proof
  assume "n \<in> set (taken s)"
  then have "0 < count (mset (taken s)) n" by simp
  moreover have "0 < count (mset (doneq s)) n" using assms(2) by simp
  moreover have "count (located s) n \<le> 1" using assms(1) by (simp add: placed_def)
  ultimately show False unfolding located_def count_union by linarith
qed

section \<open>Every step keeps the invariant\<close>

context wakeup_graph
begin

lemma woken_lt:
  assumes "ok g" "dinv (acts g) (succs g) s" "woken (succs g) (acts g) s i"
  shows "i < acts g"
proof -
  have *: "i < acts g" if "n \<in># located s" "i \<in> set (succs g n)" for n
    using that placed_located [OF dinvD(1) [OF assms(2)], of n] succs_later [OF assms(1)] by blast
  from assms(3) consider "i < acts g"
    | f "is" t where "sched s = SWake f (i # is) t"
    | n where "Look n \<in> set (workers s)" "i \<in> set (succs g n)"
    unfolding woken_def by blast
  then show ?thesis
  proof cases
    case 2
    then have "f \<in> set (taken s)" "i \<in> set (succs g f)"
      using dinvD(2) [OF assms(2)] by (simp_all add: sched_ok_def)
    then show ?thesis using * in_located(3) by blast
  next
    case 3
    moreover have "n \<in># located s" using worker_located [OF 3(1), of n] by simp
    ultimately show ?thesis using * by blast
  qed
qed

lemma woken_pending:
  assumes "dinv (acts g) (succs g) s" "pending s i \<or> sched s = SInit i" "i < acts g"
  shows "pending s i"
  using assms by (auto simp: dinv_def sched_ok_def)

lemma dstep_cases_located:
  assumes "ok g" "dinv (acts g) (succs g) s" "dstep E (acts g) (succs g) l s s'"
  obtains "located s' = located s" "\<And>n. pending s' n = pending s n"
  | i where "pending s i" "i < acts g" "woken (succs g) (acts g) s i"
      "located s' = add_mset i (located s)" "\<And>n. pending s' n = (n \<noteq> i \<and> pending s n)"
proof -
  have "n \<in># located s \<Longrightarrow> \<not> pending s n" for n
    using assms(2) placed_located by (auto simp: dinv_def)
  from dstep_located [OF assms(3) this] show thesis
    using that woken_lt [OF assms(1,2)] woken_pending [OF assms(2)] by metis
qed

lemma placed_step:
  assumes "ok g" "dinv (acts g) (succs g) s" "dstep E (acts g) (succs g) l s s'"
  shows "placed (acts g) s'"
proof -
  have p: "placed (acts g) s" using assms(2) by (simp add: dinv_def)
  from dstep_cases_located [OF assms] show ?thesis
    by cases (use p in \<open>auto simp: placed_def\<close>)
qed

text \<open>When an event is woken, all instructions it depends on have finished.\<close>

lemma woken_settled:
  assumes g: "ok g" and inv: "dinv (acts g) (succs g) s" and i: "pending s i" "i < acts g"
    and w: "woken (succs g) (acts g) s i"
    and k: "k < acts g" "i \<in> set (succs g k)"
  shows "settled s k"
proof -
  have cnt: "fe_blocks (status s i) = wakeups_left (acts g) (succs g) s i"
    using inv i by (simp add: dinv_def counted_def)
  have taken: "k \<in> set (taken s) \<Longrightarrow> settled s k"
    using settled_allD(2) [OF dinvD(5) [OF inv]] by blast
  have one: "count_list (succs g k) i \<noteq> 0" using k(2) by (simp add: count_list_0_iff)
  have le: "count_list (succs g k) i \<le> (\<Sum>k \<in> {..<acts g} - set (taken s). count_list (succs g k) i)"
    if "k \<notin> set (taken s)"
    by (rule member_le_sum) (use that k in auto)
  from w consider "fe_blocks (status s i) = 0"
    | f "is" t where "fe_blocks (status s i) = 1" "sched s = SWake f (i # is) t"
    | n where "fe_blocks (status s i) = 1" "Look n \<in> set (workers s)" "i \<in> set (succs g n)"
    by (auto simp: woken_def)
  then show ?thesis
  proof cases
    case 1
    then show ?thesis using le one cnt taken by (auto simp: wakeups_left_def)
  next
    case 2
    then show ?thesis using le one cnt taken by (auto simp: wakeups_left_def to_wake_def)
  next
    case 3
    show ?thesis
    proof (cases "k = n")
      case True
      then have "worker_ok (acts g) (succs g) s (Look k)"
        using 3(2) settled_allD(1) [OF dinvD(5) [OF inv]] by blast
      then show ?thesis by (simp add: settled_def)
    next
      case False
      have n: "n < acts g" "n \<notin> set (taken s)"
      proof -
        from 3(2) obtain w where w: "w < length (workers s)" "workers s ! w = Look n"
          by (auto simp: in_set_conv_nth)
        with worker_not_taken(1) [OF dinvD(1) [OF inv], of w n] show "n \<notin> set (taken s)" by simp
        show "n < acts g" using worker_located [OF 3(2), of n] placed_located [OF dinvD(1) [OF inv]]
          by simp
      qed
      have "k \<in> set (taken s)"
      proof (rule ccontr)
        assume "k \<notin> set (taken s)"
        then have "(\<Sum>k \<in> {k, n}. count_list (succs g k) i) \<le>
            (\<Sum>k \<in> {..<acts g} - set (taken s). count_list (succs g k) i)"
          by (intro sum_mono2) (use n k in auto)
        moreover have "count_list (succs g n) i \<noteq> 0" using 3(3) by (simp add: count_list_0_iff)
        ultimately show False using False one cnt 3(1) by (simp add: wakeups_left_def)
      qed
      then show ?thesis by (rule taken)
    qed
  qed
qed

lemma pending_mono:
  assumes "ok g" "dinv (acts g) (succs g) s" "dstep E (acts g) (succs g) l s s'" "pending s' n"
  shows "pending s n"
  using dstep_cases_located [OF assms(1-3)] assms(4) by cases auto

lemma sched_ok_step:
  assumes "ok g" and inv: "dinv (acts g) (succs g) s" and "dstep E (acts g) (succs g) l s s'"
  shows "sched_ok (acts g) (succs g) s'"
proof -
  note old = dinvD(2) [OF inv, unfolded sched_ok_def]
  from assms(3) show ?thesis
  proof (cases rule: dstep.cases)
    case (sched_init i)
    then show ?thesis using old by (auto simp: sched_ok_def enqueue_initial_state)
  next
    case (wrap_error w n e)
    then show ?thesis using old by (auto simp: sched_ok_def unlocked_def split: sched.splits)
  next
    case (wrap w n)
    then show ?thesis using old by (auto simp: sched_ok_def unlocked_def split: sched.splits)
  next
    case (look w n)
    then show ?thesis using old by (auto simp: sched_ok_def unlocked_def split: sched.splits)
  qed (use old in \<open>auto simp: sched_ok_def split: sched.splits\<close>)
qed

lemma counted_step:
  assumes g: "ok g" and inv: "dinv (acts g) (succs g) s" and step: "dstep E (acts g) (succs g) l s s'"
  shows "counted (acts g) (succs g) s'"
  unfolding counted_def
proof (intro allI impI)
  fix n assume n: "n < acts g" "pending s' n"
  then have p: "pending s n" using pending_mono [OF g inv step] by blast
  with dinvD(3) [OF inv] n(1) have old:
    "fe_blocks (status s n) = wakeups_left (acts g) (succs g) s n"
    "0 < fe_blocks (status s n) \<or> (\<exists>i. sched s = SInit i \<and> i \<le> n)"
    by (auto simp: counted_def)
  let ?goal = "fe_blocks (status s' n) = wakeups_left (acts g) (succs g) s' n \<and>
     (0 < fe_blocks (status s' n) \<or> (\<exists>i. sched s' = SInit i \<and> i \<le> n))"
  from step show ?goal
  proof (cases rule: dstep.cases)
    case (sched_init i)
    have "fe_blocks (status s' n) = fe_blocks (status s n)"
      "wakeups_left (acts g) (succs g) s' n = wakeups_left (acts g) (succs g) s n"
      using sched_init by (simp_all add: wakeups_left_def to_wake_def)
    moreover have "0 < fe_blocks (status s n) \<or> Suc i \<le> n"
    proof (cases "n = i")
      case True
      then show ?thesis using sched_init n(2) by (auto simp: enqueue_initial_state split: if_splits)
    next
      case False
      then show ?thesis using old(2) sched_init by auto
    qed
    moreover have "sched s' = SInit (Suc i)" using sched_init by simp
    ultimately show ?thesis using old(1) by metis
  next
    case sched_start
    then show ?thesis using old n by (auto simp: wakeups_left_def to_wake_def)
  next
    case (sched_take t f q)
    have f: "f \<in> set (doneq s)"
      by (rule q_dequeue_set [OF sched_take(5)])
    then have "f \<notin> set (taken s)" using queue_not_taken [OF dinvD(1) [OF inv]] by blast
    moreover have "f < acts g"
      using placed_located [OF dinvD(1) [OF inv]] in_located(2) [OF f] by blast
    ultimately have "(\<Sum>k \<in> {..<acts g} - set (taken s). count_list (succs g k) n) =
      count_list (succs g f) n +
      (\<Sum>k \<in> {..<acts g} - set (taken s) - {f}. count_list (succs g k) n)"
      by (intro sum.remove) auto
    moreover have "{..<acts g} - set (taken s) - {f} = {..<acts g} - set (taken s @ [f])" by auto
    ultimately have "wakeups_left (acts g) (succs g) s' n = wakeups_left (acts g) (succs g) s n"
      using sched_take by (simp add: wakeups_left_def to_wake_def)
    moreover have "0 < fe_blocks (status s n)" using old(2) sched_take by simp
    ultimately show ?thesis using old(1) sched_take by simp
  next
    case (sched_wake f i "is" t)
    define S where "S = (\<Sum>k \<in> {..<acts g} - set (taken s). count_list (succs g k) n)"
    have "wakeups_left (acts g) (succs g) s n = S + count_list (i # is) n"
      "wakeups_left (acts g) (succs g) s' n = S + count_list is n"
      using sched_wake by (simp_all add: wakeups_left_def to_wake_def S_def)
    then show ?thesis using sched_wake old n p by (auto simp: wake_up_state split: if_splits)
  next
    case (look w m)
    then show ?thesis using old n
      by (auto simp: wakeups_left_def to_wake_def claim_event_state split: if_splits)
  qed (use old n in \<open>auto simp: wakeups_left_def to_wake_def split: if_splits\<close>)
qed

lemma once_step:
  assumes g: "ok g" and inv: "dinv (acts g) (succs g) s" and step: "dstep E (acts g) (succs g) l s s'"
  shows "once s'"
proof -
  have b: "begins (hist s) + fresh s \<subseteq># located s"
    and e: "ends (hist s) + fresh s + running s \<subseteq># located s"
    using dinvD(4) [OF inv] by (simp_all add: once_def)
  show ?thesis
    using step
  proof (cases rule: dstep.cases)
    case (sched_init i)
    then show ?thesis using b e
      by (auto simp: once_def located_def fresh_def running_def enqueue_initial_state)
  next
    case (sched_take t f q)
    then show ?thesis using q_dequeue_mset [OF sched_take(5)] b e
      by (simp add: once_def located_def fresh_def running_def)
  next
    case (sched_wake f i "is" t)
    then show ?thesis using b e
      by (auto simp: once_def located_def fresh_def running_def wake_up_state)
  next
    case (take w n q)
    note m = worker_moves [OF take(3,4), of "Fetched n"]
    show ?thesis using take m q_dequeue_mset [OF take(6)] b e
      by (simp add: once_def located_def fresh_def running_def)
  next
    case (skip w n e')
    note m = worker_moves [OF skip(3,4), of "Put n None"]
    show ?thesis using skip m(1,3) m(2)[symmetric] b e
      by (auto simp: once_def located_def fresh_def running_def dest!: mset_subset_eq_insertD)
  next
    case (check w n)
    note m = worker_moves [OF check(3,4), of "Admit n"]
    show ?thesis using check m b e by (simp add: once_def located_def fresh_def running_def)
  next
    case (refuse w n m)
    note m = worker_moves [OF refuse(3,4), of Idle, symmetric]
    show ?thesis using refuse m b e
      by (simp add: once_def located_def fresh_def running_def q_requeue_def)
  next
    case (admit w n adm m)
    note m = worker_moves [OF admit(3,4), of "Running n (call E n (stk s))"]
    show ?thesis using admit m(1,3) m(2)[symmetric] b e
      by (simp add: once_def located_def fresh_def running_def)
  next
    case (free w n)
    note m = worker_moves [OF free(3,4), of "Running n (call E n (stk s))"]
    show ?thesis using free m(1,3) m(2)[symmetric] b e
      by (simp add: once_def located_def fresh_def running_def)
  next
    case (fail w n e')
    note m = worker_moves [OF fail(3,4), of "Wrapup n (Some e')"]
    show ?thesis using fail m(1,2) m(3)[symmetric] b e
      by (auto simp: once_def located_def fresh_def running_def dest!: mset_subset_eq_insertD)
  next
    case (complete w n f)
    note m = worker_moves [OF complete(3,4), of "Wrapup n None"]
    show ?thesis using complete m(1,2) m(3)[symmetric] b e
      by (simp add: once_def located_def fresh_def running_def)
  next
    case (wrap_error w n e')
    note m = worker_moves [OF wrap_error(3,4), of "Put n None"]
    show ?thesis using wrap_error m b e
      by (simp add: once_def located_def fresh_def running_def)
  next
    case (wrap w n)
    note m = worker_moves [OF wrap(3,4), of "Look n"]
    show ?thesis using wrap m b e
      by (simp add: once_def located_def fresh_def running_def)
  next
    case (look w n)
    note m = worker_moves [OF look(3,4), of "Put n (next_event (succs g) s n)"]
    show ?thesis using look m b e
      by (cases "next_event (succs g) s n") (simp_all add: once_def located_def fresh_def running_def)
  next
    case (put w n fnxt)
    note m = worker_moves [OF put(3,4), of "case fnxt of None \<Rightarrow> Idle | Some i \<Rightarrow> Fetched i"]
    show ?thesis using put m(2,3) m(1)[symmetric] b e
      by (cases fnxt) (simp_all add: once_def located_def fresh_def running_def q_enqueue_def)
  qed (use b e in \<open>simp_all add: once_def located_def fresh_def running_def\<close>)
qed

lemma hist_step:
  assumes "dstep E A S l s s'"
  obtains h where "hist s' = hist s @ h"
  using assms by (cases rule: dstep.cases) auto

lemma error_step:
  assumes "dstep E A S l s s'" and "flow_error s \<noteq> None"
  shows "flow_error s' \<noteq> None"
  using assms by (cases rule: dstep.cases) (auto split: option.splits)

lemma settled_step: "dstep E A S l s s' \<Longrightarrow> settled s k \<Longrightarrow> settled s' k"
  using hist_step [of E A S l s s'] error_step [of E A S l s s'] by (metis UnI1 set_append settled_def)

lemma deps_ended_step:
  "dstep E A S l s s' \<Longrightarrow> deps_ended B T (hist s) n \<Longrightarrow> deps_ended B T (hist s') n"
  using hist_step [of E A S l s s'] by (metis UnI1 set_append deps_ended_def)

lemma worker_ok_step:
  assumes "dstep E A S l s s'" "worker_ok B T s x"
  shows "worker_ok B T s' x"
proof -
  have "End n \<in> set (hist s) \<Longrightarrow> End n \<in> set (hist s')" for n
    using hist_step [OF assms(1)] by (metis UnI1 set_append)
  then show ?thesis
    using assms(2) settled_step [OF assms(1)] deps_ended_step [OF assms(1)]
    by (cases "(B, T, s, x)" rule: worker_ok.cases) auto
qed

text \<open>The worker that moved is in order; the others are by \<open>worker_ok_step\<close>.\<close>

lemma moved_worker_ok:
  assumes g: "ok g" and inv: "dinv (acts g) (succs g) s" and step: "dstep E (acts g) (succs g) l s s'"
    and x: "x \<in> set (workers s')"
  shows "worker_ok (acts g) (succs g) s' x"
proof -
  have keep: "worker_ok (acts g) (succs g) s' x" if "x \<in> set (workers s)"
    using settled_allD(1) [OF dinvD(5) [OF inv] that] worker_ok_step [OF step] by blast
  have old: "worker_ok (acts g) (succs g) s (workers s ! w)" if "w < length (workers s)" for w
    using settled_allD(1) [OF dinvD(5) [OF inv]] that by simp
  have upd: "x = y" if "x \<notin> set (workers s)" "workers s' = (workers s)[w := y]" for w y
    using x that by (metis insertE set_update_subset_insert subsetD)
  have dep: "deps_ended (acts g) (succs g) (hist s) n"
    if "w < length (workers s)" "workers s ! w = Fetched n" "flow_error s = None" for w n
    using settled_allD(3) [OF dinvD(5) [OF inv] _ _ that(3), of n]
      placed_located [OF dinvD(1) [OF inv], of n] at_worker_located [OF that(1,2), of n] by simp
  show ?thesis
  proof (cases "x \<in> set (workers s)")
    case True
    then show ?thesis by (rule keep)
  next
    case new: False
    from step show ?thesis
    proof (cases rule: dstep.cases)
      case (skip w n e)
      then show ?thesis using upd [OF new, of w "Put n None"] by (auto simp: settled_def)
    next
      case (check w n)
      then show ?thesis using upd [OF new, of w "Admit n"] dep [of w n] by auto
    next
      case (admit w n adm m)
      then show ?thesis using upd [OF new, of w "Running n (call E n (stk s))"] old [of w]
        deps_ended_step [OF step] by auto
    next
      case (free w n)
      then show ?thesis using upd [OF new, of w "Running n (call E n (stk s))"] old [of w]
        deps_ended_step [OF step] by auto
    next
      case (complete w n f)
      then show ?thesis using upd [OF new, of w "Wrapup n None"] by auto
    next
      case (wrap_error w n e)
      then show ?thesis using upd [OF new, of w "Put n None"] by (auto simp: settled_def split: option.splits)
    next
      case (wrap w n)
      then show ?thesis using upd [OF new, of w "Look n"] old [of w] by auto
    next
      case (look w n)
      then show ?thesis using upd [OF new, of w "Put n (next_event (succs g) s n)"] old [of w]
        by (auto simp: settled_def)
    next
      case (put w n fnxt)
      then show ?thesis using upd [OF new, of w "case fnxt of None \<Rightarrow> Idle | Some i \<Rightarrow> Fetched i"]
        by (auto split: option.splits)
    next
      case (take w n q)
      then show ?thesis using upd [OF new, of w "Fetched n"] by auto
    next
      case (refuse w n m)
      then show ?thesis using upd [OF new, of w Idle] by auto
    next
      case (fail w n e)
      then show ?thesis using upd [OF new, of w "Wrapup n (Some e)"] by auto
    qed (use new x in auto)
  qed
qed

text \<open>An event reaches the done queue only after its instruction ended or after an error.\<close>

lemma done_settled:
  assumes inv: "dinv (acts g) (succs g) s" and step: "dstep E (acts g) (succs g) l s s'"
    and k: "k \<in> set (doneq s') \<or> k \<in> set (taken s')"
  shows "settled s' k"
proof (cases "k \<in> set (doneq s) \<or> k \<in> set (taken s)")
  case True
  then show ?thesis using settled_allD(2) [OF dinvD(5) [OF inv]] settled_step [OF step] by blast
next
  case new: False
  from step show ?thesis
  proof (cases rule: dstep.cases)
    case (sched_take t f q)
    have "f \<in> set (doneq s)" "set q \<subseteq> set (doneq s)"
      using q_dequeue_mset [OF sched_take(5)] by (metis set_mset_mset set_mset_add_mset_insert insertI1 subset_insertI)+
    then show ?thesis using new k sched_take by auto
  next
    case (put w n fnxt)
    then have "k = n" using new k by (auto simp: q_enqueue_def)
    moreover have "worker_ok (acts g) (succs g) s (Put n fnxt)"
      using settled_allD(1) [OF dinvD(5) [OF inv]] put by (metis nth_mem)
    ultimately show ?thesis using settled_step [OF step] by auto
  qed (use new k in auto)
qed

lemma settled_all_step:
  assumes g: "ok g" and inv: "dinv (acts g) (succs g) s" and step: "dstep E (acts g) (succs g) l s s'"
  shows "settled_all (acts g) (succs g) s'"
proof -
  have "flow_error s' \<noteq> None \<or> deps_ended (acts g) (succs g) (hist s') n"
    if n: "n < acts g" "\<not> pending s' n" for n
  proof (cases "pending s n")
    case False
    then show ?thesis
      using settled_allD(3) [OF dinvD(5) [OF inv] n(1)] error_step [OF step] deps_ended_step [OF step]
      by blast
  next
    case True
    from dstep_cases_located [OF g inv step] have "woken (succs g) (acts g) s n"
      by cases (use True n in auto)
    then have "settled s k" if "k < acts g" "n \<in> set (succs g k)" for k
      using woken_settled [OF g inv True n(1)] that by blast
    then show ?thesis using settled_step [OF step] by (metis deps_ended_def settled_def)
  qed
  then show ?thesis
    using moved_worker_ok [OF g inv step] done_settled [OF inv step] by (auto simp: settled_all_def)
qed

lemma ordered_snoc:
  "ordered A T (h @ [x]) \<longleftrightarrow> ordered A T h \<and> (case x of Begin n \<Rightarrow> deps_ended A T h n | End n \<Rightarrow> True)"
proof
  assume o: "ordered A T (h @ [x])"
  then have "deps_ended A T h1 n" if "h = h1 @ Begin n # h2" for h1 n h2
    using that by (auto simp: ordered_def)
  moreover have "deps_ended A T h n" if "x = Begin n" for n
    using o that by (auto simp: ordered_def)
  ultimately show "ordered A T h \<and> (case x of Begin n \<Rightarrow> deps_ended A T h n | End n \<Rightarrow> True)"
    by (auto simp: ordered_def split: hist.splits)
next
  assume a: "ordered A T h \<and> (case x of Begin n \<Rightarrow> deps_ended A T h n | End n \<Rightarrow> True)"
  show "ordered A T (h @ [x])"
    unfolding ordered_def
  proof (intro allI impI)
    fix h1 n h2 assume e: "h @ [x] = h1 @ Begin n # h2"
    show "deps_ended A T h1 n"
    proof (cases h2 rule: rev_cases)
      case Nil
      then show ?thesis using e a by simp
    next
      case (snoc h3 y)
      then have "h = h1 @ Begin n # h3" using e by simp
      then show ?thesis using a by (auto simp: ordered_def)
    qed
  qed
qed

lemma ordered_step:
  assumes inv: "dinv (acts g) (succs g) s" and step: "dstep E (acts g) (succs g) l s s'"
  shows "ordered (acts g) (succs g) (hist s')"
proof -
  have old: "worker_ok (acts g) (succs g) s (workers s ! w)" if "w < length (workers s)" for w
    using settled_allD(1) [OF dinvD(5) [OF inv]] that by simp
  from step show ?thesis
  proof (cases rule: dstep.cases)
    case (admit w n adm m)
    then show ?thesis using old [of w] dinvD(6) [OF inv] by (simp add: ordered_snoc)
  next
    case (free w n)
    then show ?thesis using old [of w] dinvD(6) [OF inv] by (simp add: ordered_snoc)
  next
    case (complete w n f)
    then show ?thesis using dinvD(6) [OF inv] by (simp add: ordered_snoc)
  qed (use dinvD(6) [OF inv] in simp_all)
qed

lemma dinv_step:
  "ok g \<Longrightarrow> dinv (acts g) (succs g) s \<Longrightarrow> dstep E (acts g) (succs g) l s s' \<Longrightarrow>
     dinv (acts g) (succs g) s'"
  unfolding dinv_def [of _ _ s']
  by (intro conjI) (rule placed_step sched_ok_step counted_step once_step settled_all_step ordered_step; assumption)+

lemma dinv_init: "ok g \<Longrightarrow> dinv (acts g) (succs g) (dinit (blks g) nw st)"
proof -
  assume g: "ok g"
  have "sum_list (map f (replicate nw Idle)) = {#}" if "f Idle = {#}" for f :: "('a, 'b) worker \<Rightarrow> nat multiset"
    using that by (induction nw) auto
  then show ?thesis
    using blks_count [OF g]
    by (auto simp: dinv_def placed_def located_def sched_ok_def counted_def wakeups_left_def to_wake_def
      once_def fresh_def running_def settled_all_def ordered_def dinit_def Diff_empty)
qed

lemma dinv_runs:
  assumes "druns E (acts g) (succs g) (dinit (blks g) nw st) m r s" and "ok g"
  shows "dinv (acts g) (succs g) s"
  using assms by (induction rule: druns.induct) (blast intro: dinv_init dinv_step)+

text \<open>Safety: starts respect the dependencies, and nothing starts or ends twice.\<close>

lemma runs_ordered:
  assumes "druns E (acts g) (succs g) (dinit (blks g) nw st) m r s" and "ok g"
    and "hist s = h1 @ Begin n # h2"
  shows "deps_ended (acts g) (succs g) h1 n" "n < acts g" "Begin n \<notin> set h1"
proof -
  have inv: "dinv (acts g) (succs g) s" by (rule dinv_runs [OF assms(1,2)])
  show "deps_ended (acts g) (succs g) h1 n" using dinvD(6) [OF inv] assms(3) by (auto simp: ordered_def)
  have "begins (hist s) \<subseteq># located s" by (rule onceD(1) [OF dinvD(4) [OF inv]])
  then have le: "count (begins (hist s)) n \<le> count (located s) n" by (rule mset_subset_eq_count)
  moreover have "count (begins (hist s)) n = Suc (count (begins h1) n + count (begins h2) n)"
    using assms(3) by simp
  ultimately have "0 < count (located s) n" "count (begins h1) n < count (located s) n" by linarith+
  moreover have c: "count (located s) n = (if n < acts g \<and> \<not> pending s n then 1 else 0)"
    using dinvD(1) [OF inv] by (simp add: placed_def)
  ultimately show "n < acts g" by (simp split: if_splits)
  show "Begin n \<notin> set h1"
    using \<open>count (begins h1) n < _\<close> c by (simp split: if_splits add: count_eq_zero_iff)
qed

text \<open>An event that waits to start, or runs, has not ended.\<close>

lemma not_ended:
  assumes inv: "dinv (acts g) (succs g) s" and w: "w < length (workers s)"
    and n: "n \<in># fresh_at (workers s ! w) + running_at (workers s ! w)"
  shows "End n \<notin> set (hist s)"
proof
  assume "End n \<in> set (hist s)"
  then have "0 < count (ends (hist s)) n" by (simp add: count_greater_zero_iff)
  moreover have "0 < count (fresh_at (workers s ! w)) n + count (running_at (workers s ! w)) n"
    using n by (auto simp: count_greater_zero_iff simp del: neq0_conv)
  moreover have "count (fresh_at (workers s ! w)) n \<le> count (fresh s) n"
    "count (running_at (workers s ! w)) n \<le> count (running s) n"
    using worker_sum_split [OF w, of fresh_at] worker_sum_split [OF w, of running_at]
    by (metis fresh_def running_def count_union le_add2 trans_le_add2)+
  moreover have "count (ends (hist s) + fresh s + running s) n \<le> count (located s) n"
    using dinvD(4) [OF inv] by (simp only: once_def mset_subset_eq_count)
  moreover have "count (located s) n \<le> 1" using dinvD(1) [OF inv] by (simp add: placed_def)
  ultimately show False unfolding count_union by linarith
qed

end

end
