(* ===== verification/Mal_Dflow_Live.thy ===== *)
theory Mal_Dflow_Live
  imports Mal_Dflow_Inv
begin

text \<open>
  Parallel dataflow execution makes progress: with at least one worker the flow can always
  take a step of its own until the scheduler has returned, even when every instruction has
  to ask for memory, and the number of steps is bounded by the size of the block and the
  number of refused admissions.
\<close>

section \<open>Admission never refuses everyone\<close>

text \<open>Whether a worker executes an instruction with a positive claim.\<close>

definition claiming :: "('v, 'e) dsys \<Rightarrow> ('v, 'e) worker \<Rightarrow> nat" where
  "claiming s x = (case x of Running n r \<Rightarrow> if 0 < argclaim (status s n) then 1 else 0 | _ \<Rightarrow> 0)"

definition admission_ok :: "('v, 'e) dsys \<Rightarrow> bool" where
  "admission_ok s \<longleftrightarrow>
     (\<forall>n. 0 \<le> argclaim (status s n) \<and> 0 \<le> hotclaim (status s n)) \<and>
     snd (memory s) \<le> int (sum_list (map (claiming s) (workers s)))"

lemma MALadmission_claims:
  assumes "0 \<le> a" and "MALadmission T a h m = (adm, m')"
  shows "snd m' \<le> max 0 (snd m) + (if 0 < a then 1 else 0)"
    "\<not> adm \<Longrightarrow> snd m' \<le> max 0 (snd m)"
  using assms by (auto simp: MALadmission_def Let_def split: if_splits)

lemma MALadmission_release:
  assumes "0 \<le> a"
  shows "snd (snd (MALadmission T (- a) h m)) \<le> (if 0 < a then max 0 (snd m) - 1 else snd m)"
  using assms by (auto simp: MALadmission_def Let_def)

lemma MALadmission_idle:
  "0 \<le> a \<Longrightarrow> snd m \<le> 0 \<Longrightarrow> fst (MALadmission T a h m)"
  by (auto simp: MALadmission_def Let_def)

context wakeup_graph
begin

text \<open>The claim of an event that is no longer pending does not change.\<close>

lemma argclaim_step:
  assumes inv: "dinv (acts g) (succs g) s" and step: "dstep E (acts g) (succs g) l s s'"
    and n: "\<not> pending s n"
  shows "argclaim (status s' n) = argclaim (status s n)"
  using step
proof (cases rule: dstep.cases)
  case (sched_init i)
  then have "pending s i" using dinvD(2) [OF inv] by (simp add: sched_ok_def)
  then show ?thesis using n sched_init by (auto simp: enqueue_initial_state)
next
  case (look w m)
  then show ?thesis using n by (auto simp: claim_event_state next_event_def dest!: find_SomeD)
qed (use n in \<open>auto simp: wake_up_state\<close>)

lemma claims_nonneg_step:
  assumes step: "dstep E (acts g) (succs g) l s s'" and c: "\<And>v. 0 \<le> claim E v"
    and old: "\<forall>n. 0 \<le> argclaim (status s n) \<and> 0 \<le> hotclaim (status s n)"
  shows "0 \<le> argclaim (status s' n) \<and> 0 \<le> hotclaim (status s' n)"
  using step
proof (cases rule: dstep.cases)
  case (sched_init i)
  have "0 \<le> fold (\<lambda>a _. claim E (stk s a)) as x" if "0 \<le> x" for as x
    using that by (induction as arbitrary: x) (auto simp: c)
  then show ?thesis using sched_init old by (auto simp: enqueue_initial_state init_claim_def)
next
  case (wrap w m)
  then show ?thesis using old c by (auto intro!: note_claims_hotclaim)
next
  case (look w m)
  then show ?thesis using old by (auto simp: claim_event_state)
qed (use old in \<open>auto simp: wake_up_state\<close>)

text \<open>The sum of the claiming workers after worker \<open>w\<close> moved from \<open>y\<close> to \<open>x\<close>.\<close>

lemma claiming_same:
  assumes inv: "dinv (acts g) (succs g) s" and step: "dstep E (acts g) (succs g) l s s'"
    and x: "x \<in> set (workers s)"
  shows "claiming s' x = claiming s x"
  using worker_located [OF x] placed_located [OF dinvD(1) [OF inv]] argclaim_step [OF inv step]
  by (auto simp: claiming_def split: worker.splits)

lemma claiming_moves:
  assumes inv: "dinv (acts g) (succs g) s" and step: "dstep E (acts g) (succs g) l s s'"
    and w: "w < length (workers s)" "workers s ! w = y" "workers s' = (workers s)[w := x]"
  shows "claiming s y + sum_list (map (claiming s') (workers s')) =
    claiming s' x + sum_list (map (claiming s) (workers s))"
proof -
  have "map (claiming s') (workers s) = map (claiming s) (workers s)"
    using claiming_same [OF inv step] by simp
  moreover have "claiming s' y = claiming s y" using claiming_same [OF inv step] w by (metis nth_mem)
  ultimately show ?thesis using worker_update [OF w(1,2), of "claiming s'" x] w(3)
    by (simp del: map_eq_conv)
qed

lemma claiming_stays:
  assumes "dinv (acts g) (succs g) s" and "dstep E (acts g) (succs g) l s s'" and "workers s' = workers s"
  shows "sum_list (map (claiming s') (workers s')) = sum_list (map (claiming s) (workers s))"
  using claiming_same [OF assms(1,2)] assms(3) by (metis map_cong)

lemma admission_step:
  assumes inv: "dinv (acts g) (succs g) s" and step: "dstep E (acts g) (succs g) l s s'"
    and c: "\<And>v. 0 \<le> claim E v" and adm: "admission_ok s"
  shows "admission_ok s'"
proof -
  let ?C = "\<lambda>s. sum_list (map (claiming s) (workers s))"
  have old: "snd (memory s) \<le> int (?C s)" "\<forall>n. 0 \<le> argclaim (status s n) \<and> 0 \<le> hotclaim (status s n)"
    using adm by (simp_all add: admission_ok_def)
  note moves = claiming_moves [OF inv step] and stays = claiming_stays [OF inv step]
  from step have "snd (memory s') \<le> int (?C s')"
  proof (cases rule: dstep.cases)
    case (take w n q)
    then show ?thesis using moves [OF take(3,4), of "Fetched n"] old by (simp add: claiming_def)
  next
    case (skip w n e)
    then show ?thesis using moves [OF skip(3,4), of "Put n None"] old by (simp add: claiming_def)
  next
    case (check w n)
    then show ?thesis using moves [OF check(3,4), of "Admit n"] old by (simp add: claiming_def)
  next
    case (refuse w n m)
    then show ?thesis using moves [OF refuse(3,4), of Idle] old
      MALadmission_claims(2) [OF _ refuse(6)] by (simp add: claiming_def)
  next
    case (admit w n a m)
    then show ?thesis using moves [OF admit(3,4), of "Running n (call E n (stk s))"] old
      MALadmission_claims(1) [OF _ admit(5)] by (simp add: claiming_def split: if_splits)
  next
    case (free w n)
    then show ?thesis using moves [OF free(3,4), of "Running n (call E n (stk s))"] old
      by (simp add: claiming_def split: if_splits)
  next
    case (fail w n e)
    then show ?thesis using moves [OF fail(3,4), of "Wrapup n (Some e)"] old
      MALadmission_release [of "argclaim (status s n)" "threshold E" "- hotclaim (status s n)" "memory s"]
      by (simp add: claiming_def split: if_splits)
  next
    case (complete w n f)
    then show ?thesis using moves [OF complete(3,4), of "Wrapup n None"] old
      MALadmission_release [of "argclaim (status s n)" "threshold E" "- hotclaim (status s n)" "memory s"]
      by (simp add: claiming_def split: if_splits)
  next
    case (wrap_error w n e)
    then show ?thesis using moves [OF wrap_error(3,4), of "Put n None"] old by (simp add: claiming_def)
  next
    case (wrap w n)
    then show ?thesis using moves [OF wrap(3,4), of "Look n"] old by (simp add: claiming_def)
  next
    case (look w n)
    then show ?thesis using moves [OF look(3,4), of "Put n (next_event (succs g) s n)"] old
      by (simp add: claiming_def)
  next
    case (put w n fnxt)
    then show ?thesis using moves [OF put(3,4), of "case fnxt of None \<Rightarrow> Idle | Some i \<Rightarrow> Fetched i"] old
      by (cases fnxt) (simp_all add: claiming_def)
  qed (use stays old in auto)
  then show ?thesis using claims_nonneg_step [OF step c old(2)] by (simp add: admission_ok_def)
qed

lemma admission_init: "admission_ok (dinit (blks g) nw st)"
  by (simp add: admission_ok_def dinit_def)

section \<open>The flow is never stuck\<close>

text \<open>A worker that holds an event and does not wait for memory can move.\<close>

lemma worker_moves_on:
  assumes "w < length (workers s)" "unlocked s"
    and "workers s ! w \<noteq> Idle" "\<And>n. workers s ! w \<noteq> Admit n"
  shows "\<exists>s'. dstep E A T Advance s s'"
proof (cases "workers s ! w")
  case (Fetched n)
  then show ?thesis using dstep.skip [OF assms(1) Fetched assms(2)] dstep.check [OF assms(1) Fetched assms(2)]
    by (cases "flow_error s") blast+
next
  case (Running n r)
  then show ?thesis using dstep.fail [OF assms(1)] dstep.complete [OF assms(1)] by (cases r) blast+
next
  case (Wrapup n e)
  then show ?thesis using dstep.wrap_error [OF assms(1) _ assms(2)] dstep.wrap [OF assms(1) _ assms(2)]
    by (cases e) blast+
next
  case (Look n)
  then show ?thesis using dstep.look [OF assms(1) Look assms(2)] by blast
next
  case (Put n fnxt)
  then show ?thesis using dstep.put [OF assms(1) Put] by blast
qed (use assms in auto)

lemma taken_distinct:
  assumes "dinv (acts g) (succs g) s"
  shows "distinct (taken s)"
  unfolding distinct_count_atmost_1
proof
  fix a
  have "count (mset (taken s)) a \<le> count (located s) a" by (simp add: located_def)
  also have "\<dots> \<le> 1" using dinvD(1) [OF assms] by (simp add: placed_def)
  finally have le: "count (mset (taken s)) a \<le> 1" .
  show "count (mset (taken s)) a = (if a \<in> set (taken s) then 1 else 0)"
  proof (cases "a \<in> set (taken s)")
    case True
    then have "0 < count (mset (taken s)) a" by simp
    with le have "count (mset (taken s)) a = 1" by linarith
    with True show ?thesis by simp
  qed simp
qed

text \<open>When nothing is underway, everything has been taken: the first event that was not would be woken.\<close>

lemma all_taken:
  assumes g: "ok g" and inv: "dinv (acts g) (succs g) s" and t: "sched s = SWait t"
    and empty: "todo s = []" "doneq s = []" "\<And>x. x \<in> set (workers s) \<Longrightarrow> x = Idle"
  shows "length (taken s) = acts g"
proof -
  have "sum_list (map at_worker ws) = {#}" if "\<forall>x \<in> set ws. x = Idle" for ws :: "('a, 'b) worker list"
    using that by (induction ws) auto
  then have "sum_list (map at_worker (workers s)) = {#}" using empty(3) by blast
  then have loc: "located s = mset (taken s)" by (simp add: located_def empty)
  have p: "placed (acts g) s" by (rule dinvD(1) [OF inv])
  have "n \<in> set (taken s)" if "n < acts g" for n
    using that
  proof (induction n rule: less_induct)
    case (less n)
    show ?case
    proof (rule ccontr)
      assume not: "n \<notin> set (taken s)"
      then have "pending s n" using loc placed_located [OF p, of n] less.prems by simp
      then have "0 < wakeups_left (acts g) (succs g) s n"
        using dinvD(3) [OF inv] less.prems t by (auto simp: counted_def)
      moreover have "wakeups_left (acts g) (succs g) s n =
          (\<Sum>k \<in> {..<acts g} - set (taken s). count_list (succs g k) n)"
        using t by (simp add: wakeups_left_def to_wake_def)
      ultimately have "(\<Sum>k \<in> {..<acts g} - set (taken s). count_list (succs g k) n) \<noteq> 0"
        by linarith
      then obtain k where "k < acts g" "k \<notin> set (taken s)" "count_list (succs g k) n \<noteq> 0"
        by (meson DiffE lessThan_iff sum.neutral)
      then have "n \<in> set (succs g k)" by (metis count_list_0_iff)
      then have "k < n" using succs_later [OF g \<open>k < acts g\<close>] by blast
      then show False using less.IH \<open>k < acts g\<close> \<open>k \<notin> set (taken s)\<close> by blast
    qed
  qed
  moreover have "set (taken s) \<subseteq> {..<acts g}"
    using loc placed_located [OF p] by (metis lessThan_iff set_mset_mset subsetI)
  ultimately have "set (taken s) = {..<acts g}" by auto
  moreover have "distinct (taken s)" by (rule taken_distinct [OF inv])
  ultimately show ?thesis using distinct_card [of "taken s"] by simp
qed

lemma idle_claims: "(\<And>n r. Running n r \<notin> set (workers s)) \<Longrightarrow> sum_list (map (claiming s) (workers s)) = 0"
proof -
  assume "\<And>n r. Running n r \<notin> set (workers s)"
  then have "claiming s x = 0" if "x \<in> set (workers s)" for x
    using that by (cases x) (auto simp: claiming_def)
  then show ?thesis by (simp add: sum_list_eq_0_iff)
qed

lemma waiting_progress:
  assumes g: "ok g" and inv: "dinv (acts g) (succs g) s" and adm: "admission_ok s"
    and w: "workers s \<noteq> []" and t: "sched s = SWait t"
  shows "\<exists>s'. dstep E (acts g) (succs g) Advance s s'"
proof (cases "doneq s = []")
  case False
  then obtain f q where "q_dequeue None id (doneq s) = Some (f, q)"
    using q_dequeue_Some [of "doneq s" None id] by blast
  then show ?thesis using t dstep.sched_take [OF t] dstep.sched_done [of s "acts g"]
    by (cases "t = acts g") blast+
next
  case fin: True
  have unlocked: "unlocked s" "begun s" using t by (simp_all add: unlocked_def begun_def)
  show ?thesis
  proof (cases "\<exists>w < length (workers s). workers s ! w \<noteq> Idle \<and> (\<forall>n. workers s ! w \<noteq> Admit n)")
    case True
    then show ?thesis using worker_moves_on [OF _ unlocked(1)] by blast
  next
    case quiet: False
    then have "Running n r \<notin> set (workers s)" for n r by (auto simp: in_set_conv_nth)
    then have "snd (memory s) \<le> 0" using adm idle_claims [of s] by (simp add: admission_ok_def)
    moreover have "0 \<le> argclaim (status s n)" for n using adm by (simp add: admission_ok_def)
    ultimately have grant: "fst (MALadmission (threshold E) (argclaim (status s n)) (hotclaim (status s n)) (memory s))" for n
      by (rule MALadmission_idle [rotated])
    show ?thesis
    proof (cases "\<exists>w < length (workers s). \<exists>n. workers s ! w = Admit n")
      case True
      then obtain w n where "w < length (workers s)" "workers s ! w = Admit n" by blast
      from dstep.admit [OF this surjective_pairing] grant [of n] show ?thesis by blast
    next
      case False
      then have idle: "x = Idle" if "x \<in> set (workers s)" for x
        using quiet that by (metis in_set_conv_nth)
      show ?thesis
      proof (cases "todo s = []")
        case True
        then have "t = acts g"
          using all_taken [OF g inv t True fin idle] dinvD(2) [OF inv] t by (simp add: sched_ok_def)
        then show ?thesis using t dstep.sched_done by blast
      next
        case False
        have w0: "0 < length (workers s)" "workers s ! 0 = Idle" using w idle by auto
        have "\<exists>n q. q_dequeue (if bound E 0 then Some (\<lambda>_. True) else None) id (todo s) = Some (n, q)"
          by (rule q_dequeue_Some [OF False]) (use False in \<open>auto simp: ex_in_conv split: if_splits\<close>)
        then obtain n q where "q_dequeue (if bound E 0 then Some (\<lambda>_. True) else None) id (todo s) = Some (n, q)"
          by blast
        from dstep.take [OF w0 _ this] unlocked(2) show ?thesis by blast
      qed
    qed
  qed
qed

lemma flow_progress:
  assumes "ok g" and inv: "dinv (acts g) (succs g) s" and "admission_ok s"
    and "workers s \<noteq> []" and "sched s \<noteq> SDone"
  shows "\<exists>s'. dstep E (acts g) (succs g) Advance s s'"
proof (cases "sched s")
  case (SInit i)
  then have "i < acts g \<or> i = acts g" using dinvD(2) [OF inv] by (auto simp: sched_ok_def)
  then show ?thesis using SInit dstep.sched_init [OF SInit] dstep.sched_start [of s "acts g"] by blast
next
  case (SWait t)
  then show ?thesis using waiting_progress assms by blast
next
  case (SWake f "is" t)
  then show ?thesis using dstep.sched_wake [of s f] dstep.sched_woken [of s f t] by (cases "is") blast+
qed (use assms in simp)

end

section \<open>The number of steps\<close>

text \<open>
  What an event still costs from each place: being taken, checked, started, ended, marked,
  looked after, put on the done queue, then taken by the scheduler with one step for each
  wake-up and one to end the loop.
\<close>

definition tail_cost :: "(nat \<Rightarrow> nat list) \<Rightarrow> nat \<Rightarrow> nat" where
  "tail_cost succs n = length (succs n) + 2"

fun worker_cost :: "(nat \<Rightarrow> nat list) \<Rightarrow> ('v, 'e) worker \<Rightarrow> nat" where
  "worker_cost S Idle = 0"
| "worker_cost S (Fetched n) = 6 + tail_cost S n"
| "worker_cost S (Admit n) = 5 + tail_cost S n"
| "worker_cost S (Running n r) = 4 + tail_cost S n"
| "worker_cost S (Wrapup n e) = 3 + tail_cost S n"
| "worker_cost S (Look n) = 2 + tail_cost S n"
| "worker_cost S (Put n fnxt) =
     1 + tail_cost S n + (case fnxt of None \<Rightarrow> 0 | Some i \<Rightarrow> 6 + tail_cost S i)"

fun sched_cost :: "nat \<Rightarrow> sched \<Rightarrow> nat" where
  "sched_cost A (SInit i) = (A - i) + 2"
| "sched_cost A (SWait t) = 1"
| "sched_cost A (SWake f is t) = length is + 2"
| "sched_cost A SDone = 0"

definition pending_cost :: "nat \<Rightarrow> (nat \<Rightarrow> nat list) \<Rightarrow> (nat \<Rightarrow> flowevent) \<Rightarrow> nat" where
  "pending_cost A S st = (\<Sum>n < A. if fe_state (st n) = DFLOWpending then 7 + tail_cost S n else 0)"

definition flow_cost :: "nat \<Rightarrow> (nat \<Rightarrow> nat list) \<Rightarrow> ('v, 'e) dsys \<Rightarrow> nat" where
  "flow_cost A S s =
     pending_cost A S (status s) +
     sum_list (map (\<lambda>n. 7 + tail_cost S n) (todo s)) +
     sum_list (map (worker_cost S) (workers s)) +
     sum_list (map (tail_cost S) (doneq s)) +
     sched_cost A (sched s)"

lemma pending_cost_same:
  "(\<And>n. fe_state (st' n) = DFLOWpending \<longleftrightarrow> fe_state (st n) = DFLOWpending) \<Longrightarrow>
     pending_cost A S st' = pending_cost A S st"
  by (simp add: pending_cost_def)

lemma pending_cost_less:
  assumes "i < A" "fe_state (st i) = DFLOWpending"
    and "\<And>n. fe_state (st' n) = DFLOWpending \<longleftrightarrow> n \<noteq> i \<and> fe_state (st n) = DFLOWpending"
  shows "pending_cost A S st' + (7 + tail_cost S i) = pending_cost A S st"
proof -
  let ?f = "\<lambda>st n. if fe_state (st n) = DFLOWpending then 7 + tail_cost S n else 0"
  have "sum (?f st') {..<A} = ?f st' i + sum (?f st') ({..<A} - {i})"
    by (rule sum.remove) (use assms(1) in auto)
  moreover have "sum (?f st) {..<A} = ?f st i + sum (?f st) ({..<A} - {i})"
    by (rule sum.remove) (use assms(1) in auto)
  moreover have "sum (?f st') ({..<A} - {i}) = sum (?f st) ({..<A} - {i})"
    by (rule sum.cong) (use assms(3) in auto)
  ultimately show ?thesis using assms(2) assms(3) [of i] by (simp add: pending_cost_def)
qed

lemma sum_list_mset:
  fixes f :: "'a \<Rightarrow> nat"
  shows "sum_list (map f xs) = sum_mset (image_mset f (mset xs))"
  by (induction xs) auto

lemma q_dequeue_cost:
  fixes f :: "'a \<Rightarrow> nat"
  shows "q_dequeue cl pc q = Some (n, q') \<Longrightarrow> sum_list (map f q) = f n + sum_list (map f q')"
  by (simp add: sum_list_mset q_dequeue_mset)

context wakeup_graph
begin

lemma flow_cost_step:
  assumes g: "ok g" and inv: "dinv (acts g) (succs g) s" and step: "dstep E (acts g) (succs g) l s s'"
  shows "flow_cost (acts g) (succs g) s' + (if l = Requeue then 0 else 1) \<le>
    flow_cost (acts g) (succs g) s + (if l = Requeue then 2 else 0)"
proof -
  have idle: "\<not> pending s n" if "w < length (workers s)" "n \<in># at_worker (workers s ! w)" for w n
    using that at_worker_located [OF that(1) refl] placed_located [OF dinvD(1) [OF inv]] by blast
  from step show ?thesis
  proof (cases rule: dstep.cases)
    case (sched_init i)
    have p: "pending s i" using dinvD(2) [OF inv] sched_init by (simp add: sched_ok_def)
    show ?thesis
    proof (cases "fe_blocks (status s i) = 0")
      case True
      with sched_init have "pending_cost (acts g) (succs g) (status s') + (7 + tail_cost (succs g) i) =
          pending_cost (acts g) (succs g) (status s)"
        by (intro pending_cost_less) (auto simp: p enqueue_initial_state)
      then show ?thesis using sched_init True by (simp add: flow_cost_def enqueue_initial_state)
    next
      case False
      with sched_init have "pending_cost (acts g) (succs g) (status s') =
          pending_cost (acts g) (succs g) (status s)"
        by (intro pending_cost_same) (auto simp: enqueue_initial_state)
      then show ?thesis using sched_init False by (simp add: flow_cost_def enqueue_initial_state)
    qed
  next
    case (sched_take t f q)
    then show ?thesis using q_dequeue_cost [OF sched_take(5), of "tail_cost (succs g)"]
      by (simp add: flow_cost_def tail_cost_def)
  next
    case (sched_wake f i "is" t)
    show ?thesis
    proof (cases "pending s i \<and> fe_blocks (status s i) = 1")
      case True
      have "woken (succs g) (acts g) s i" using True sched_wake by (auto simp: woken_def)
      with sched_wake True have "pending_cost (acts g) (succs g) (status s') + (7 + tail_cost (succs g) i) =
          pending_cost (acts g) (succs g) (status s)"
        by (intro pending_cost_less) (auto simp: wake_up_state woken_lt [OF g inv])
      then show ?thesis using sched_wake True by (simp add: flow_cost_def wake_up_state)
    next
      case False
      with sched_wake have "pending_cost (acts g) (succs g) (status s') =
          pending_cost (acts g) (succs g) (status s)"
        by (intro pending_cost_same) (auto simp: wake_up_state)
      then show ?thesis using sched_wake False by (auto simp: flow_cost_def wake_up_state)
    qed
  next
    case (take w n q)
    then show ?thesis using q_dequeue_cost [OF take(6), of "\<lambda>n. 7 + tail_cost (succs g) n"]
      worker_update [OF take(3,4), of "worker_cost (succs g)" "Fetched n"] by (simp add: flow_cost_def)
  next
    case (skip w n e)
    then show ?thesis using worker_update [OF skip(3,4), of "worker_cost (succs g)" "Put n None"]
      by (simp add: flow_cost_def)
  next
    case (check w n)
    then show ?thesis using worker_update [OF check(3,4), of "worker_cost (succs g)" "Admit n"]
      by (simp add: flow_cost_def)
  next
    case (refuse w n m)
    then have "pending_cost (acts g) (succs g) (status s') = pending_cost (acts g) (succs g) (status s)"
      by (intro pending_cost_same) auto
    then show ?thesis using refuse worker_update [OF refuse(3,4), of "worker_cost (succs g)" Idle]
      by (simp add: flow_cost_def q_requeue_def)
  next
    case (admit w n adm m)
    then show ?thesis
      using worker_update [OF admit(3,4), of "worker_cost (succs g)" "Running n (call E n (stk s))"]
      by (simp add: flow_cost_def)
  next
    case (free w n)
    then show ?thesis
      using worker_update [OF free(3,4), of "worker_cost (succs g)" "Running n (call E n (stk s))"]
      by (simp add: flow_cost_def)
  next
    case (fail w n e)
    then show ?thesis using worker_update [OF fail(3,4), of "worker_cost (succs g)" "Wrapup n (Some e)"]
      by (simp add: flow_cost_def)
  next
    case (complete w n f)
    then show ?thesis using worker_update [OF complete(3,4), of "worker_cost (succs g)" "Wrapup n None"]
      by (simp add: flow_cost_def)
  next
    case (wrap_error w n e)
    then have "pending_cost (acts g) (succs g) (status s') = pending_cost (acts g) (succs g) (status s)"
      using idle [OF wrap_error(3), of n] by (intro pending_cost_same) auto
    then show ?thesis using wrap_error
      worker_update [OF wrap_error(3,4), of "worker_cost (succs g)" "Put n None"]
      by (simp add: flow_cost_def)
  next
    case (wrap w n)
    then have "pending_cost (acts g) (succs g) (status s') = pending_cost (acts g) (succs g) (status s)"
      using idle [OF wrap(3), of n] by (intro pending_cost_same) auto
    then show ?thesis using wrap worker_update [OF wrap(3,4), of "worker_cost (succs g)" "Look n"]
      by (simp add: flow_cost_def)
  next
    case (look w n)
    note u = worker_update [OF look(3,4), of "worker_cost (succs g)" "Put n (next_event (succs g) s n)"]
    show ?thesis
    proof (cases "next_event (succs g) s n")
      case None
      with look u show ?thesis by (simp add: flow_cost_def claim_event_def)
    next
      case (Some i)
      then have i: "pending s i" "fe_blocks (status s i) = 1" "i \<in> set (succs g n)"
        by (auto simp: next_event_def dest!: find_SomeD)
      have "Look n \<in> set (workers s)" using look by (metis nth_mem)
      then have "woken (succs g) (acts g) s i" using i look(5) by (auto simp: woken_def)
      with look Some i have "pending_cost (acts g) (succs g) (status s') + (7 + tail_cost (succs g) i) =
          pending_cost (acts g) (succs g) (status s)"
        by (intro pending_cost_less) (auto simp: claim_event_state woken_lt [OF g inv])
      with look u Some show ?thesis by (simp add: flow_cost_def)
    qed
  next
    case (put w n fnxt)
    then show ?thesis using worker_update [OF put(3,4), of "worker_cost (succs g)"
        "case fnxt of None \<Rightarrow> Idle | Some i \<Rightarrow> Fetched i"]
      by (cases fnxt) (simp_all add: flow_cost_def q_enqueue_def)
  qed (simp_all add: flow_cost_def)
qed

lemma flow_cost_init:
  "flow_cost (acts g) (succs g) (dinit (blks g) nw st) =
     10 * acts g + (\<Sum>k < acts g. length (succs g k)) + 2"
proof -
  have "sum_list (map (worker_cost (succs g)) (replicate nw Idle)) = 0" by (induction nw) auto
  then show ?thesis
    by (simp add: flow_cost_def dinit_def pending_cost_def tail_cost_def sum.distrib)
qed

lemma runs_bounded:
  assumes "druns E (acts g) (succs g) (dinit (blks g) nw st) m r s" and "ok g"
  shows "m + flow_cost (acts g) (succs g) s \<le>
    10 * acts g + (\<Sum>k < acts g. length (succs g k)) + 2 + 3 * r"
  using assms
proof (induction rule: druns.induct)
  case start
  then show ?case by (simp add: flow_cost_init)
next
  case (more m r s l s')
  from flow_cost_step [OF more.prems dinv_runs [OF more.hyps(1) more.prems] more.hyps(2)] more.IH [OF more.prems]
  show ?case by (auto split: if_splits)
qed

lemma admission_runs:
  assumes "druns E (acts g) (succs g) (dinit (blks g) nw st) m r s" and "ok g"
    and "\<And>v. 0 \<le> claim E v"
  shows "admission_ok s"
  using assms
proof (induction rule: druns.induct)
  case (more m r s l s')
  from admission_step [OF dinv_runs [OF more.hyps(1) more.prems(1)] more.hyps(2) more.prems(2)] more
  show ?case by blast
qed (rule admission_init)

lemma workers_runs:
  "druns E A S (dinit B nw st) m r s \<Longrightarrow> length (workers s) = nw"
proof (induction rule: druns.induct)
  case start
  then show ?case by (simp add: dinit_def)
next
  case (more m r s l s')
  from more.hyps(2) more.IH show ?case by (cases rule: dstep.cases) auto
qed

lemma runs_progress:
  assumes "druns E (acts g) (succs g) (dinit (blks g) nw st) m r s" and "ok g"
    and "\<And>v. 0 \<le> claim E v" and "0 < nw" and "sched s \<noteq> SDone"
  shows "\<exists>s'. dstep E (acts g) (succs g) Advance s s'"
  using flow_progress [OF assms(2) dinv_runs [OF assms(1,2)] admission_runs [OF assms(1-3)]]
    workers_runs [OF assms(1)] assms(4,5) by auto

lemma runs_can_finish:
  assumes "druns E (acts g) (succs g) (dinit (blks g) nw st) m r s" and "ok g"
    and "\<And>v. 0 \<le> claim E v" and "0 < nw"
  shows "\<exists>m' s'. druns E (acts g) (succs g) (dinit (blks g) nw st) m' r s' \<and> sched s' = SDone"
  using assms(1)
proof (induction "flow_cost (acts g) (succs g) s" arbitrary: s m rule: less_induct)
  case less
  show ?case
  proof (cases "sched s = SDone")
    case False
    then obtain s' where s': "dstep E (acts g) (succs g) Advance s s'"
      using runs_progress [OF less.prems assms(2-4)] by blast
    have "flow_cost (acts g) (succs g) s' < flow_cost (acts g) (succs g) s"
      using flow_cost_step [OF assms(2) dinv_runs [OF less.prems assms(2)] s'] by simp
    with less.hyps druns.more [OF less.prems s'] show ?thesis by auto
  qed (use less.prems in blast)
qed

lemma finished_all:
  assumes inv: "dinv (acts g) (succs g) s" and "sched s = SDone" and "flow_error s = None"
    and n: "n < acts g"
  shows "count (begins (hist s)) n \<le> 1" "count (ends (hist s)) n = 1"
proof -
  have loc: "count (located s) n \<le> 1" using dinvD(1) [OF inv] by (simp add: placed_def)
  have le: "count (begins (hist s)) n \<le> 1" "count (ends (hist s)) n \<le> 1"
    using onceD [OF dinvD(4) [OF inv], THEN mset_subset_eq_count, of n] loc by linarith+
  then show "count (begins (hist s)) n \<le> 1" by simp
  have "length (taken s) = acts g" using dinvD(2) [OF inv] assms(2) by (simp add: sched_ok_def)
  moreover have "set (taken s) \<subseteq> {..<acts g}"
    using placed_located [OF dinvD(1) [OF inv]] in_located(3) [of _ s] by blast
  ultimately have "set (taken s) = {..<acts g}"
    using distinct_card [OF taken_distinct [OF inv]] by (intro card_subset_eq) auto
  then have "End n \<in> set (hist s)"
    using settled_allD(2) [OF dinvD(5) [OF inv], of n] n assms(3) by (auto simp: settled_def)
  then have "0 < count (ends (hist s)) n" by (simp add: count_greater_zero_iff)
  with le(2) show "count (ends (hist s)) n = 1" by linarith
qed

end

end
