(* ===== verification/Mal_Dflow_Props.thy ===== *)
theory Mal_Dflow_Props
  imports Mal_Dflow_Live
begin

text \<open>
  Safety and liveness of parallel dataflow execution over the graph that the code builds,
  and an executable form of the step relation that produces concrete runs.
\<close>

section \<open>Runs of a flow\<close>

text \<open>
  \<open>runMALdataflow\<close> on the instructions from \<open>start E\<close> up to \<open>stoppc\<close>: the graph is built, the
  scheduler starts, and \<open>nw\<close> workers serve the queue.
\<close>

definition flow_of :: "('v, 'e) denv \<Rightarrow> nat \<Rightarrow> malblk \<times> nat \<times> nat" where
  "flow_of E stoppc = (block E, start E - 1, stoppc)"

definition flow_step :: "('v, 'e) denv \<Rightarrow> nat \<Rightarrow> dlabel \<Rightarrow> ('v, 'e) dsys \<Rightarrow> ('v, 'e) dsys \<Rightarrow> bool" where
  "flow_step E stoppc = dstep E (flow_acts (flow_of E stoppc)) (flow_wakes (flow_of E stoppc))"

definition flow_init :: "('v, 'e) denv \<Rightarrow> nat \<Rightarrow> nat \<Rightarrow> (nat \<Rightarrow> 'v) \<Rightarrow> ('v, 'e) dsys" where
  "flow_init E stoppc nw st = dinit (flow_blocks (flow_of E stoppc)) nw st"

definition flow_runs ::
  "('v, 'e) denv \<Rightarrow> nat \<Rightarrow> nat \<Rightarrow> (nat \<Rightarrow> 'v) \<Rightarrow> nat \<Rightarrow> nat \<Rightarrow> ('v, 'e) dsys \<Rightarrow> bool" where
  "flow_runs E stoppc nw st m r s =
     druns E (flow_acts (flow_of E stoppc)) (flow_wakes (flow_of E stoppc))
       (flow_init E stoppc nw st) m r s"

lemma flow_of_wf:
  assumes "wf_block (block E) (start E) stoppc"
  shows "flow_wf (flow_of E stoppc)" "flow_acts (flow_of E stoppc) = stoppc - start E"
    "flow_edges (flow_of E stoppc) = dflow_edges (block E) (start E) stoppc"
  using assms by (auto simp: flow_wf_def flow_of_def flow_acts_def wf_block_def)

lemmas flow_runsD = flow_runs_def [unfolded flow_init_def, THEN iffD1]

lemma edge_in:
  assumes "start E + pc < stoppc" "a \<in> set (uses (instr_at E pc))"
    and "e \<in> set (arg_edges (block E) (start E) stoppc (start E + pc) a)"
  shows "e \<in> set (dflow_edges (block E) (start E) stoppc)"
  using assms by (force simp: dflow_edges_def instr_edges_def instr_at_def)

text \<open>
  C1. Safety of parallel execution.  In every run, when an instruction of the block starts,
  it has not started before; for each variable it uses, the instruction that assigned the
  variable last has ended successfully; and if a variable is released at this instruction,
  every other instruction of the block that uses the variable has ended successfully.
\<close>

theorem dataflow_order:
  assumes "wf_block (block E) (start E) stoppc" and "flow_runs E stoppc nw st m r s"
    and "hist s = h1 @ Begin n # h2"
  shows "n < stoppc - start E \<and> Begin n \<notin> set h1 \<and>
    (\<forall>a k. a \<in> set (uses (instr_at E n)) \<and> \<not> isVarConstant (block E) a \<and>
       last_def (block E) (start E) (start E + n) a = Some (start E + k) \<longrightarrow> End k \<in> set h1) \<and>
    (\<forall>a k. k < stoppc - start E \<and> k \<noteq> n \<and> 0 < n \<and> a \<in> set (uses (instr_at E k)) \<and>
       \<not> isVarConstant (block E) a \<and> getEndOfLife (block E) a = start E + n \<longrightarrow> End k \<in> set h1)"
proof -
  note b = flow_of_wf [OF assms(1)]
  note o = dflow.runs_ordered [OF flow_runsD [OF assms(2)] b(1) assms(3)]
  have n: "start E + n < stoppc" using o(2) b(2) by simp
  have ended: "End k \<in> set h1" if "(k, n) \<in> set (dflow_edges (block E) (start E) stoppc)" for k
  proof -
    have "k < flow_acts (flow_of E stoppc)"
      using flow_edges_later [OF b(1), of k n] that b(3) by simp
    then show ?thesis using o(1) that b by (auto simp: deps_ended_def flow_wakes_eq in_targets)
  qed
  have def: "End k \<in> set h1"
    if "a \<in> set (uses (instr_at E n))" "\<not> isVarConstant (block E) a"
      "last_def (block E) (start E) (start E + n) a = Some (start E + k)" for a k
    using that edge_in [OF n that(1), of "(k, n)"] by (intro ended) (simp add: arg_edges_def)
  have rel: "End k \<in> set h1"
    if "k < stoppc - start E" "k \<noteq> n" "0 < n" "a \<in> set (uses (instr_at E k))"
      "\<not> isVarConstant (block E) a" "getEndOfLife (block E) a = start E + n" for a k
    using that n edge_in [of E k stoppc a "(k, n)"] by (intro ended) (simp add: arg_edges_def)
  show ?thesis
  proof (intro conjI allI impI; (elim conjE)?)
    show "n < stoppc - start E" "Begin n \<notin> set h1" using o(2,3) b(2) by simp_all
  qed (rule def rel; assumption)+
qed

text \<open>
  C8. Liveness of parallel execution.  With at least one worker and nonnegative memory
  claims, a run never gets stuck: until the scheduler has returned, a step is possible that
  neither depends on an admission being refused nor on it being skipped, and the run can be
  completed.  A run of \<open>m\<close> steps with \<open>r\<close> refused admissions obeys a bound that is linear in
  the block, its dependencies and \<open>r\<close>.  When the scheduler has returned without an error,
  every instruction of the block has ended exactly once.
\<close>

theorem dataflow_finishes:
  assumes "wf_block (block E) (start E) stoppc" and "flow_runs E stoppc nw st m r s"
    and "\<And>v. 0 \<le> claim E v" and "0 < nw"
  shows "(sched s \<noteq> SDone \<longrightarrow> (\<exists>s'. flow_step E stoppc Advance s s')) \<and>
    (\<exists>m' s'. flow_runs E stoppc nw st m' r s' \<and> sched s' = SDone) \<and>
    m \<le> 10 * (stoppc - start E) + length (dflow_edges (block E) (start E) stoppc) + 2 + 3 * r \<and>
    (sched s = SDone \<and> flow_error s = None \<longrightarrow>
      (\<forall>n < stoppc - start E. count (ends (hist s)) n = 1))"
proof -
  note b = flow_of_wf [OF assms(1)]
  note run = flow_runsD [OF assms(2)]
  have "(\<Sum>k < flow_acts (flow_of E stoppc). length (flow_wakes (flow_of E stoppc) k)) =
      length (flow_edges (flow_of E stoppc))"
  proof -
    have "fst e < flow_acts (flow_of E stoppc)" if "e \<in> set (flow_edges (flow_of E stoppc))" for e
      using flow_edges_later [OF b(1), of "fst e" "snd e"] that by simp
    from length_targets [of "flow_edges (flow_of E stoppc)" "flow_acts (flow_of E stoppc)", OF this]
    show ?thesis using b(1) by (simp add: flow_wakes_eq)
  qed
  then have "m \<le> 10 * (stoppc - start E) + length (dflow_edges (block E) (start E) stoppc) + 2 + 3 * r"
    using dflow.runs_bounded [OF run b(1)] b by simp
  moreover have "\<exists>m' s'. flow_runs E stoppc nw st m' r s' \<and> sched s' = SDone"
    using dflow.runs_can_finish [OF run b(1) assms(3,4)] unfolding flow_runs_def flow_init_def .
  moreover have "sched s \<noteq> SDone \<Longrightarrow> \<exists>s'. flow_step E stoppc Advance s s'"
    using dflow.runs_progress [OF run b(1) assms(3,4)] unfolding flow_step_def by blast
  moreover have "sched s = SDone \<Longrightarrow> flow_error s = None \<Longrightarrow> n < stoppc - start E \<Longrightarrow>
      count (ends (hist s)) n = 1" for n
    using dflow.finished_all(2) [OF dflow.dinv_runs [OF run b(1)]] b(2) by simp
  ultimately show ?thesis by blast
qed

section \<open>A concrete run\<close>

text \<open>
  The sample block with two workers, the second bound to the client; an instruction adds its
  arguments and the number of its result variable, the footprint of a value is the value, and
  the memory threshold is 1, so that admission matters.
\<close>

definition sample_env :: "(nat, string) denv" where
  "sample_env = \<lparr>block = sample_block, start = 1,
     run = (\<lambda>p vs. Inr (\<lambda>i. sum_list vs + hd (argv p))), claim = int, threshold = 1,
     bat_nil = 0, bound = (\<lambda>w. w = 1)\<rparr>"

definition sample_stack :: "nat \<Rightarrow> nat" where
  "sample_stack v = (if v = 0 then 7 else 0)"

definition sample_exec :: "nat option list \<Rightarrow> (nat, string) dsys option" where
  "sample_exec ws = dexec sample_env 5 (flow_wakes (sample_block, 0, 6)) ws
     (dinit (flow_blocks (sample_block, 0, 6)) 2 sample_stack)"

definition sample_schedule :: "nat option list" where
  "sample_schedule = replicate 6 None @ replicate 7 (Some 0) @ replicate 7 (Some 1) @
     replicate 7 None @ replicate 3 (Some 1)"

definition sample_rest :: "nat option list" where
  "sample_rest = replicate 4 (Some 1) @ replicate 5 None @ replicate 13 (Some 1) @ replicate 6 None"

lemma sample_env_wf: "wf_block (block sample_env) (start sample_env) 6"
  using sample_wf by (simp add: sample_env_def)

lemma sample_exec_runs:
  "sample_exec ws = Some s \<Longrightarrow> \<exists>m r. flow_runs sample_env 6 2 sample_stack m r s"
  unfolding sample_exec_def flow_runs_def flow_init_def
  using dexec_runs [OF druns.start]
  by (simp add: flow_of_def sample_env_def flow_acts_def)

theorem dataflow_order_witness:
  "\<exists>s m r. flow_runs sample_env 6 2 sample_stack m r s \<and>
     hist s = [Begin 1, End 1, Begin 0, End 0] @ Begin 2 # [] \<and>
     (\<forall>k. last_def sample_block 1 3 1 = Some (1 + k) \<longrightarrow> End k \<in> set [Begin 1, End 1, Begin 0, End 0])"
proof -
  have "map_option hist (sample_exec sample_schedule) =
      Some ([Begin 1, End 1, Begin 0, End 0] @ Begin 2 # [])"
    by code_simp
  then obtain s where s: "sample_exec sample_schedule = Some s"
    "hist s = [Begin 1, End 1, Begin 0, End 0] @ Begin 2 # []"
    by blast
  then obtain m r where run: "flow_runs sample_env 6 2 sample_stack m r s"
    using sample_exec_runs by blast
  have "1 \<in> set (uses (instr_at sample_env 2)) \<and> \<not> isVarConstant (block sample_env) 1"
    by code_simp
  then show ?thesis
    using run s(2) dataflow_order [OF sample_env_wf run s(2)]
    by (auto simp: sample_env_def numeral_eq_Suc)
qed

theorem dataflow_finishes_witness:
  "(\<exists>s'. flow_step sample_env 6 Advance (flow_init sample_env 6 1 sample_stack) s') \<and>
   (\<exists>m s'. flow_runs sample_env 6 1 sample_stack m 0 s' \<and> sched s' = SDone)"
proof -
  have run: "flow_runs sample_env 6 1 sample_stack 0 0 (flow_init sample_env 6 1 sample_stack)"
    unfolding flow_runs_def by (rule druns.start)
  have "0 \<le> claim sample_env v" for v by (simp add: sample_env_def)
  from dataflow_finishes [OF sample_env_wf run this] show ?thesis
    by (auto simp: flow_init_def dinit_def)
qed

end
