(* ===== verification/Mal_Dflow_Serial.thy ===== *)
theory Mal_Dflow_Serial
  imports Mal_Dflow_Props
begin

text \<open>
  Parallel execution of a dataflow block has the result of sequential execution.  The code
  assumes of a block that its variables are assigned once; under that assumption every
  variable has one value in a run without collection of garbage, an instruction always reads
  those values, and the stack of any execution, parallel or sequential, is determined by the
  set of instructions that have ended.
\<close>

section \<open>Single-assignment blocks\<close>

definition ssa_block :: "malblk \<Rightarrow> nat \<Rightarrow> nat \<Rightarrow> bool" where
  "ssa_block mb lo hi \<longleftrightarrow>
     (\<forall>pc \<in> {lo..<hi}. \<forall>pc' \<in> {lo..<hi}.
        (pc < pc' \<longrightarrow> set (rets (stmt mb ! pc)) \<inter> set (rets (stmt mb ! pc')) = {}) \<and>
        (pc \<le> pc' \<longrightarrow> set (uses (stmt mb ! pc)) \<inter> set (rets (stmt mb ! pc')) = {})) \<and>
     (\<forall>pc \<in> {lo..<hi}. \<forall>a \<in> set (argv (stmt mb ! pc)). isVarConstant mb a \<longrightarrow>
        a \<notin> set (rets (stmt mb ! pc)) \<and> getEndOfLife mb a = 0)"

section \<open>Effects on the stack\<close>

lemma write_results_frame: "x \<notin> set (rets p) \<Longrightarrow> write_results p f st x = st x"
proof -
  have "x \<notin> snd ` set es \<Longrightarrow> fold (\<lambda>(i, a) st. st(a := f i)) es st x = st x" for es
    by (induction es arbitrary: st) auto
  then show "x \<notin> set (rets p) \<Longrightarrow> ?thesis"
    unfolding write_results_def by (metis list.set_map map_snd_enumerate)
qed

lemma write_results_same: "x \<in> set (rets p) \<Longrightarrow> write_results p f st x = write_results p f st' x"
proof -
  have "fold (\<lambda>(i, a) st. st(a := f i)) es st x = fold (\<lambda>(i, a) st. st(a := f i)) es st' x"
    if "x \<in> snd ` set es" for es
    using that
  proof (induction es rule: rev_induct)
    case (snoc e es)
    then show ?case by (cases "snd e = x") (auto split: prod.splits)
  qed simp
  moreover have "snd ` set (enumerate 0 (rets p)) = set (rets p)"
    by (metis list.set_map map_snd_enumerate)
  ultimately show "x \<in> set (rets p) \<Longrightarrow> ?thesis" by (simp add: write_results_def)
qed

lemma release_apply: "release nil as st x = (if x \<in> set as then nil else st x)"
  unfolding release_def by (induction as arbitrary: st) auto

lemma in_garbage:
  "x \<in> set (garbage mb pc p) \<Longrightarrow> x \<in> set (argv p) \<and> getEndOfLife mb x = pc"
  by (auto simp: garbage_def argc_def split: if_splits)

text \<open>The stack of a sequential run that releases nothing, after \<open>n\<close> instructions.\<close>

fun keep_stack :: "('v, 'e) denv \<Rightarrow> (nat \<Rightarrow> 'v) \<Rightarrow> nat \<Rightarrow> (nat \<Rightarrow> 'v)" where
  "keep_stack E st 0 = st"
| "keep_stack E st (Suc n) =
     (case call E n (keep_stack E st n) of
        Inl e \<Rightarrow> keep_stack E st n
      | Inr f \<Rightarrow> write_results (instr_at E n) f (keep_stack E st n))"

lemma keep_stack_frame:
  assumes "n \<le> m" and "\<And>k. n \<le> k \<Longrightarrow> k < m \<Longrightarrow> x \<notin> set (rets (instr_at E k))"
  shows "keep_stack E st m x = keep_stack E st n x"
  using assms
proof (induction m)
  case (Suc m)
  show ?case
  proof (cases "n = Suc m")
    case False
    with Suc have "x \<notin> set (rets (instr_at E m))" "keep_stack E st m x = keep_stack E st n x" by auto
    then show ?thesis by (auto simp: write_results_frame split: sum.splits)
  qed simp
qed simp

text \<open>
  The stack after the instructions in \<open>D\<close> have ended, in whatever order: what they released
  is nil, what they assigned has its value, everything else is as at the start.
\<close>

definition stack_after :: "('v, 'e) denv \<Rightarrow> nat \<Rightarrow> (nat \<Rightarrow> 'v) \<Rightarrow> nat set \<Rightarrow> (nat \<Rightarrow> 'v)" where
  "stack_after E A st D x =
     (if \<exists>l \<in> D. x \<in> set (garbage (block E) (start E + l) (instr_at E l)) then bat_nil E
      else if \<exists>k \<in> D. x \<in> set (rets (instr_at E k)) then keep_stack E st A x
      else st x)"

lemma ssa_facts:
  assumes "wf_block (block E) (start E) (start E + A)" and "ssa_block (block E) (start E) (start E + A)"
    and "n < A"
  shows "n' < A \<Longrightarrow> n \<noteq> n' \<Longrightarrow> x \<in> set (rets (instr_at E n)) \<Longrightarrow> x \<notin> set (rets (instr_at E n'))"
    "n' < A \<Longrightarrow> n \<le> n' \<Longrightarrow> x \<in> set (uses (instr_at E n)) \<Longrightarrow> x \<notin> set (rets (instr_at E n'))"
    "x \<in> set (argv (instr_at E n)) \<Longrightarrow> isVarConstant (block E) x \<Longrightarrow> getEndOfLife (block E) x = 0"
    "x \<in> set (uses (instr_at E n)) \<Longrightarrow> getEndOfLife (block E) x = 0 \<or> start E + n \<le> getEndOfLife (block E) x"
    "x \<in> set (rets (instr_at E n)) \<Longrightarrow> \<not> isVarConstant (block E) x"
proof -
  have n: "start E + n \<in> {start E..<start E + A}" using assms(3) by simp
  { assume "n' < A"
    then have n': "start E + n' \<in> {start E..<start E + A}" by simp
    show "x \<notin> set (rets (instr_at E n'))" if "n \<noteq> n'" "x \<in> set (rets (instr_at E n))"
    proof (cases "n < n'")
      case True
      then show ?thesis using assms(2) n n' that unfolding ssa_block_def instr_at_def
        by (meson add_strict_left_mono disjoint_iff)
    next
      case False
      then have "start E + n' < start E + n" using that by simp
      then show ?thesis using assms(2) n n' that unfolding ssa_block_def instr_at_def
        by (meson disjoint_iff)
    qed
    show "x \<notin> set (rets (instr_at E n'))" if "n \<le> n'" "x \<in> set (uses (instr_at E n))"
      using assms(2) n n' that unfolding ssa_block_def instr_at_def
      by (meson add_left_mono disjoint_iff) }
  show "getEndOfLife (block E) x = 0" if "x \<in> set (argv (instr_at E n))" "isVarConstant (block E) x"
    using assms(2) n that unfolding ssa_block_def instr_at_def by blast
  show "getEndOfLife (block E) x = 0 \<or> start E + n \<le> getEndOfLife (block E) x"
    if "x \<in> set (uses (instr_at E n))"
    using assms(1) n that unfolding wf_block_def instr_at_def by blast
  show "\<not> isVarConstant (block E) x" if "x \<in> set (rets (instr_at E n))"
    using assms(2) n that in_set_takeD [OF that] unfolding ssa_block_def instr_at_def by blast
qed

lemma last_def_unique:
  "last_def mb lo pc a = Some k \<longleftrightarrow>
     lo \<le> k \<and> k < pc \<and> a \<in> set (rets (stmt mb ! k)) \<and>
     (\<forall>j. k < j \<and> j < pc \<longrightarrow> a \<notin> set (rets (stmt mb ! j)))"
proof (induction pc)
  case (Suc pc)
  then show ?case by (auto simp: less_Suc_eq)
qed simp

text \<open>The two kinds of edges, in terms of positions in the block.\<close>

lemma def_edge:
  assumes ok: "wf_block (block E) (start E) (start E + A)" "ssa_block (block E) (start E) (start E + A)"
    and k: "k < A" "n < A" "x \<in> set (rets (instr_at E k))" "x \<in> set (uses (instr_at E n))"
    and c: "\<not> isVarConstant (block E) x"
  shows "(k, n) \<in> set (dflow_edges (block E) (start E) (start E + A))"
proof -
  have "k < n" using ssa_facts(2) [OF ok k(2) k(1) _ k(4)] k(3) by force
  moreover have "x \<notin> set (rets (stmt (block E) ! j))" if "start E + k < j" "j < start E + n" for j
    using ssa_facts(1) [OF ok k(1), of "j - start E" x] k that by (auto simp: instr_at_def)
  ultimately have "last_def (block E) (start E) (start E + n) x = Some (start E + k)"
    using k by (auto simp: last_def_unique instr_at_def)
  then show ?thesis using k c by (intro edge_in [OF _ k(4)]) (auto simp: arg_edges_def)
qed

lemma release_edge:
  assumes "n < A" "l < A" "n < l" "x \<in> set (uses (instr_at E n))" "\<not> isVarConstant (block E) x"
    and "getEndOfLife (block E) x = start E + l"
  shows "(n, l) \<in> set (dflow_edges (block E) (start E) (start E + A))"
  using assms by (intro edge_in [OF _ assms(4)]) (auto simp: arg_edges_def Let_def)

text \<open>
  An instruction finds its arguments unchanged: the instructions it depends on have ended and
  none of those that wait for it.
\<close>

lemma call_after:
  assumes ok: "wf_block (block E) (start E) (start E + A)" "ssa_block (block E) (start E) (start E + A)"
    and n: "n < A" "n \<notin> D" "D \<subseteq> {..<A}"
    and pre: "\<And>k. (k, n) \<in> set (dflow_edges (block E) (start E) (start E + A)) \<Longrightarrow> k \<in> D"
    and post: "\<And>l. (n, l) \<in> set (dflow_edges (block E) (start E) (start E + A)) \<Longrightarrow> l \<notin> D"
  shows "call E n (stack_after E A st D) = call E n (keep_stack E st A)"
proof -
  have "stack_after E A st D x = keep_stack E st A x" if x: "x \<in> set (uses (instr_at E n))" for x
  proof -
    have arg: "x \<in> set (argv (instr_at E n))" using x by (meson in_set_dropD)
    have "x \<notin> set (garbage (block E) (start E + l) (instr_at E l))" if l: "l \<in> D" for l
    proof
      assume "x \<in> set (garbage (block E) (start E + l) (instr_at E l))"
      then have eol: "getEndOfLife (block E) x = start E + l" by (simp add: in_garbage)
      have "0 < start E" using ok(1) by (simp add: wf_block_def)
      then have "\<not> isVarConstant (block E) x" using ssa_facts(3) [OF ok n(1) arg] eol by auto
      moreover have "n < l"
        using ssa_facts(4) [OF ok n(1) x] eol \<open>0 < start E\<close> l n(2) by (cases "n = l") auto
      ultimately show False using release_edge [OF n(1) _ _ x _ eol] post l n(3) by auto
    qed
    moreover have "keep_stack E st A x = st x" if "\<And>k. k \<in> D \<Longrightarrow> x \<notin> set (rets (instr_at E k))"
    proof -
      have "x \<notin> set (rets (instr_at E k))" if k: "k < A" for k
      proof
        assume r: "x \<in> set (rets (instr_at E k))"
        have "\<not> isVarConstant (block E) x" by (rule ssa_facts(5) [OF ok k r])
        then have "k \<in> D" using pre def_edge [OF ok k n(1) r x] by blast
        then show False using r \<open>\<And>k. k \<in> D \<Longrightarrow> x \<notin> set (rets (instr_at E k))\<close> by blast
      qed
      then show ?thesis using keep_stack_frame [of 0 A x E st] by simp
    qed
    ultimately show ?thesis by (auto simp: stack_after_def)
  qed
  then show ?thesis by (simp add: call_def cong: map_cong)
qed

text \<open>One more instruction ends.\<close>

lemma finish_after:
  assumes ok: "wf_block (block E) (start E) (start E + A)" "ssa_block (block E) (start E) (start E + A)"
    and n: "n < A" "n \<notin> D" "D \<subseteq> {..<A}"
    and closed: "\<And>k l. l \<in> D \<Longrightarrow> (k, l) \<in> set (dflow_edges (block E) (start E) (start E + A)) \<Longrightarrow> k \<in> D"
    and f: "call E n (keep_stack E st A) = Inr f"
  shows "finish E n f (stack_after E A st D) = stack_after E A st (insert n D)"
proof
  fix x
  let ?g = "\<lambda>l. x \<in> set (garbage (block E) (start E + l) (instr_at E l))"
  let ?r = "\<lambda>k. x \<in> set (rets (instr_at E k))"
  have "call E n (keep_stack E st n) = call E n (keep_stack E st A)"
  proof -
    have "keep_stack E st A y = keep_stack E st n y" if "y \<in> set (uses (instr_at E n))" for y
      by (rule keep_stack_frame) (use n(1) ssa_facts(2) [OF ok n(1)] that in auto)
    then show ?thesis by (simp add: call_def cong: map_cong)
  qed
  then have "keep_stack E st (Suc n) = write_results (instr_at E n) f (keep_stack E st n)" using f by simp
  moreover have "keep_stack E st A x = keep_stack E st (Suc n) x" if "?r n"
    by (rule keep_stack_frame) (use n(1) ssa_facts(1) [OF ok n(1)] that in auto)
  ultimately have w: "write_results (instr_at E n) f st' x = keep_stack E st A x" if "?r n" for st'
    using that write_results_same [OF that] by metis
  show "finish E n f (stack_after E A st D) x = stack_after E A st (insert n D) x"
  proof (cases "?g n")
    case True
    then show ?thesis by (auto simp: finish_def release_apply stack_after_def)
  next
    case notg: False
    show ?thesis
    proof (cases "?r n")
      case True
      have "\<not> ?g l" if l: "l \<in> D" for l
      proof
        assume "?g l"
        then have "x \<in> set (argv (instr_at E l))" by (simp add: in_garbage)
        then consider "?r l" | "x \<in> set (uses (instr_at E l))"
          by (metis UnE append_take_drop_id set_append)
        then show False
        proof cases
          case 1
          then show ?thesis using ssa_facts(1) [OF ok n(1), of l x] True l n by auto
        next
          case 2
          then have "n \<in> D"
            using def_edge [OF ok n(1) _ True 2 ssa_facts(5) [OF ok n(1) True]] closed [OF l] l n(3) by auto
          then show ?thesis using n(2) by simp
        qed
      qed
      then show ?thesis using True notg w by (auto simp: finish_def release_apply stack_after_def)
    next
      case False
      then show ?thesis using notg
        by (auto simp: finish_def release_apply stack_after_def write_results_frame)
    qed
  qed
qed

section \<open>Sequential execution\<close>

lemma sequence_step:
  assumes ok: "wf_block (block E) (start E) (start E + A)" "ssa_block (block E) (start E) (start E + A)"
    and n: "n < A"
  shows "call E n (stack_after E A st {..<n}) = call E n (keep_stack E st A)"
    "call E n (keep_stack E st A) = Inr f \<Longrightarrow>
      finish E n f (stack_after E A st {..<n}) = stack_after E A st {..<Suc n}"
proof -
  note later = dflow_edges_later [OF ok(1)]
  show "call E n (stack_after E A st {..<n}) = call E n (keep_stack E st A)"
    by (rule call_after [OF ok n]) (use n in \<open>auto dest: later\<close>)
  show "finish E n f (stack_after E A st {..<n}) = stack_after E A st {..<Suc n}"
    if "call E n (keep_stack E st A) = Inr f"
    unfolding lessThan_Suc
    by (rule finish_after [OF ok n _ _ _ that]) (use n in \<open>auto dest: later\<close>)
qed

lemma sequence_succeeds:
  assumes ok: "wf_block (block E) (start E) (start E + A)" "ssa_block (block E) (start E) (start E + A)"
    and "n + m = A" and "\<And>k. k < A \<Longrightarrow> \<exists>f. call E k (keep_stack E st A) = Inr f"
  shows "runMALsequence E n m (stack_after E A st {..<n}) = Inr (stack_after E A st {..<A})"
  using assms(3)
proof (induction m arbitrary: n)
  case (Suc m)
  then have n: "n < A" by simp
  then obtain f where f: "call E n (keep_stack E st A) = Inr f" using assms(4) by blast
  from sequence_step [OF ok n, of st] f Suc show ?case by simp
qed simp

lemma sequence_fails:
  assumes ok: "wf_block (block E) (start E) (start E + A)" "ssa_block (block E) (start E) (start E + A)"
    and "n + m = A" and k: "n \<le> k" "k < A" "call E k (keep_stack E st A) = Inl e"
  shows "\<exists>e'. runMALsequence E n m (stack_after E A st {..<n}) = Inl e'"
  using assms(3) k(1)
proof (induction m arbitrary: n)
  case (Suc m)
  then have n: "n < A" by simp
  show ?case
  proof (cases "call E n (keep_stack E st A)")
    case (Inl e')
    then show ?thesis using sequence_step(1) [OF ok n, of st] by simp
  next
    case (Inr f)
    then have "n \<noteq> k" using k(3) by auto
    then have "\<exists>e'. runMALsequence E (Suc n) m (stack_after E A st {..<Suc n}) = Inl e'"
      using Suc.IH [of "Suc n"] Suc.prems by simp
    then show ?thesis using sequence_step [OF ok n, of st] Inr by simp
  qed
qed (use k in simp)

lemma stack_after_empty: "stack_after E A st {..<0} = st"
  by (rule ext) (simp add: stack_after_def)

section \<open>Parallel execution\<close>

text \<open>The instructions that have ended, and what the stack and the workers then hold.\<close>

definition ended :: "('v, 'e) dsys \<Rightarrow> nat set" where
  "ended s = {n. End n \<in> set (hist s)}"

fun worker_serial :: "('v, 'e) denv \<Rightarrow> nat \<Rightarrow> (nat \<Rightarrow> 'v) \<Rightarrow> ('v, 'e) worker \<Rightarrow> bool" where
  "worker_serial E A st (Running n r) \<longleftrightarrow> n < A \<and> r = call E n (keep_stack E st A)"
| "worker_serial E A st (Wrapup n (Some e)) \<longleftrightarrow> n < A \<and> call E n (keep_stack E st A) = Inl e"
| "worker_serial E A st x \<longleftrightarrow> True"

definition serial_inv :: "('v, 'e) denv \<Rightarrow> nat \<Rightarrow> (nat \<Rightarrow> nat list) \<Rightarrow> (nat \<Rightarrow> 'v) \<Rightarrow> ('v, 'e) dsys \<Rightarrow> bool" where
  "serial_inv E A S st s \<longleftrightarrow>
     stk s = stack_after E A st (ended s) \<and>
     (\<forall>n \<in> ended s. n < A \<and> deps_ended A S (hist s) n \<and> (\<exists>f. call E n (keep_stack E st A) = Inr f)) \<and>
     (\<forall>x \<in> set (workers s). worker_serial E A st x) \<and>
     (\<forall>e. flow_error s = Some e \<longrightarrow> (\<exists>n < A. call E n (keep_stack E st A) = Inl e))"

lemma ended_simps [simp]:
  "ended (s\<lparr>hist := h @ [Begin n]\<rparr>) = ended (s\<lparr>hist := h\<rparr>)"
  "ended (s\<lparr>hist := h @ [End n]\<rparr>) = insert n (ended (s\<lparr>hist := h\<rparr>))"
  by (auto simp: ended_def)

text \<open>The instruction a worker is about to start reads the values of the sequential run.\<close>

lemma begin_call:
  fixes E :: "('v, 'e) denv" and stoppc :: nat
  defines "A \<equiv> stoppc - start E" and "S \<equiv> flow_wakes (flow_of E stoppc)"
  assumes ok: "wf_block (block E) (start E) stoppc" "ssa_block (block E) (start E) stoppc"
    and inv: "dinv A S s" and ser: "serial_inv E A S st s"
    and w: "w < length (workers s)" "workers s ! w = Admit n"
  shows "n < A" "call E n (stk s) = call E n (keep_stack E st A)"
proof -
  have stop: "start E + A = stoppc" using ok(1) by (simp add: A_def wf_block_def)
  note b = flow_of_wf [OF ok(1)]
  have edge: "l \<in> set (S k) \<longleftrightarrow> (k, l) \<in> set (dflow_edges (block E) (start E) stoppc)" if "k < A" for k l
    using that b by (simp add: S_def A_def flow_wakes_eq in_targets)
  have later: "k < l \<and> l < A" if "(k, l) \<in> set (dflow_edges (block E) (start E) stoppc)" for k l
    using flow_edges_later [OF b(1), of k l] that b by (simp add: A_def)
  show n: "n < A"
    using at_worker_located [OF w, of n] placed_located [OF dinvD(1) [OF inv]] by simp
  have fresh: "n \<notin> ended s"
    using dflow.not_ended [of "flow_of E stoppc" s w n] inv w b by (simp add: ended_def A_def S_def)
  have "worker_ok A S s (Admit n)" using settled_allD(1) [OF dinvD(5) [OF inv]] w by (metis nth_mem)
  then have pre: "k \<in> ended s" if "(k, n) \<in> set (dflow_edges (block E) (start E) stoppc)" for k
    using that later [OF that] edge [of k n] n by (auto simp: ended_def deps_ended_def)
  have post: "l \<notin> ended s" if "(n, l) \<in> set (dflow_edges (block E) (start E) stoppc)" for l
    using ser fresh that edge [OF n, of l] n by (auto simp: serial_inv_def ended_def deps_ended_def)
  have "ended s \<subseteq> {..<A}" using ser by (auto simp: serial_inv_def)
  then show "call E n (stk s) = call E n (keep_stack E st A)"
    using call_after [of E A n "ended s" st] ok n fresh pre post ser unfolding stop
    by (simp add: serial_inv_def)
qed

lemma moved_serial:
  assumes "\<forall>x \<in> set ws. worker_serial E A st x" and "worker_serial E A st y" and "x \<in> set (ws[w := y])"
  shows "worker_serial E A st x"
  using assms by (metis insertE set_update_subset_insert subsetD)

lemma serial_step:
  fixes E :: "('v, 'e) denv" and stoppc :: nat
  defines "A \<equiv> stoppc - start E" and "S \<equiv> flow_wakes (flow_of E stoppc)"
  assumes ok: "wf_block (block E) (start E) stoppc" "ssa_block (block E) (start E) stoppc"
    and inv: "dinv A S s" and ser: "serial_inv E A S st s" and step: "dstep E A S l s s'"
  shows "serial_inv E A S st s'"
proof -
  have stop: "start E + A = stoppc" using ok(1) by (simp add: A_def wf_block_def)
  note b = flow_of_wf [OF ok(1)]
  have old: "stk s = stack_after E A st (ended s)"
    "\<And>n. n \<in> ended s \<Longrightarrow> n < A \<and> deps_ended A S (hist s) n \<and> (\<exists>f. call E n (keep_stack E st A) = Inr f)"
    "\<forall>x \<in> set (workers s). worker_serial E A st x"
    "\<And>e. flow_error s = Some e \<Longrightarrow> \<exists>n < A. call E n (keep_stack E st A) = Inl e"
    using ser by (simp_all add: serial_inv_def)
  have dep: "deps_ended A S (hist s) n \<Longrightarrow> deps_ended A S (hist s') n" for n
    by (rule dflow.deps_ended_step [OF step])
  note starts = begin_call [OF ok inv [unfolded A_def S_def] ser [unfolded A_def S_def], folded A_def S_def]
  have at: "worker_serial E A st (workers s ! w)" if "w < length (workers s)" for w
    using old(3) that by simp
  have moved: "\<forall>x \<in> set (workers s'). worker_serial E A st x"
    if "workers s' = (workers s)[w := y]" "worker_serial E A st y" for w y
    unfolding that(1) by (intro ballI moved_serial [OF old(3) that(2)])
  have keep: "serial_inv E A S st s'"
    if "ended s' = ended s" "stk s' = stk s" "\<forall>x \<in> set (workers s'). worker_serial E A st x"
      "\<And>e. flow_error s' = Some e \<Longrightarrow> \<exists>n < A. call E n (keep_stack E st A) = Inl e"
    using that old(1,2) dep by (simp add: serial_inv_def)
  from step show ?thesis
  proof (cases rule: dstep.cases)
    case (take w n q)
    with moved [of w "Fetched n"] old(4) show ?thesis by (intro keep) (simp_all add: ended_def)
  next
    case (skip w n e)
    with moved [of w "Put n None"] old(4) show ?thesis by (intro keep) (simp_all add: ended_def)
  next
    case (check w n)
    with moved [of w "Admit n"] old(4) show ?thesis by (intro keep) (simp_all add: ended_def)
  next
    case (refuse w n m)
    with moved [of w Idle] old(4) show ?thesis by (intro keep) (simp_all add: ended_def)
  next
    case (admit w n adm m)
    with moved [of w "Running n (call E n (stk s))"] starts [of w n] old(4) show ?thesis
      by (intro keep) (simp_all add: ended_def)
  next
    case (free w n)
    with moved [of w "Running n (call E n (stk s))"] starts [of w n] old(4) show ?thesis
      by (intro keep) (simp_all add: ended_def)
  next
    case (fail w n e)
    with moved [of w "Wrapup n (Some e)"] at [of w] old(4) show ?thesis
      by (intro keep) (simp_all add: ended_def)
  next
    case (complete w n f)
    have n: "n < A" "call E n (keep_stack E st A) = Inr f" using at [of w] complete by simp_all
    have fresh: "n \<notin> ended s"
      using dflow.not_ended [of "flow_of E stoppc" s w n] inv complete b
      by (simp add: ended_def A_def S_def)
    have deps: "deps_ended A S (hist s) n"
      using settled_allD(1) [OF dinvD(5) [OF inv]] complete by (metis nth_mem worker_ok.simps(2))
    have edge: "k \<in> ended s" if "l \<in> ended s" "(k, l) \<in> set (dflow_edges (block E) (start E) stoppc)" for k l
    proof -
      have "k < A" using flow_edges_later [OF b(1), of k l] that(2) b by (simp add: A_def)
      moreover have "l \<in> set (S k)" using that(2) \<open>k < A\<close> b by (simp add: S_def A_def flow_wakes_eq in_targets)
      ultimately show ?thesis using old(2) [OF that(1)] by (simp add: deps_ended_def ended_def)
    qed
    have "ended s \<subseteq> {..<A}" using old(2) by auto
    from finish_after [of E A n "ended s" st f, unfolded stop, OF ok n(1) fresh this edge n(2)]
    have "stk s' = stack_after E A st (insert n (ended s))" using complete old(1) by simp
    moreover have e: "ended s' = insert n (ended s)" using complete by (auto simp: ended_def)
    moreover have "\<forall>x \<in> set (workers s'). worker_serial E A st x"
      using moved [of w "Wrapup n None"] complete by simp
    ultimately show ?thesis
      using old(2,4) dep deps n complete unfolding serial_inv_def by auto
  next
    case (wrap_error w n e)
    with moved [of w "Put n None"] at [of w] old(4) show ?thesis
      by (intro keep) (auto simp: ended_def split: option.splits)
  next
    case (wrap w n)
    with moved [of w "Look n"] old(4) show ?thesis by (intro keep) (simp_all add: ended_def)
  next
    case (look w n)
    with moved [of w "Put n (next_event S s n)"] old(4) show ?thesis
      by (intro keep) (simp_all add: ended_def)
  next
    case (put w n fnxt)
    with moved [of w "case fnxt of None \<Rightarrow> Idle | Some i \<Rightarrow> Fetched i"] old(4) show ?thesis
      by (intro keep) (simp_all add: ended_def split: option.splits)
  qed (use old(3,4) in \<open>intro keep; simp add: ended_def\<close>)+
qed

lemma serial_init: "serial_inv E A S st (dinit B nw st)"
proof -
  have e: "ended (dinit B nw st) = {}" by (simp add: ended_def dinit_def)
  have "stack_after E A st {} = st" using stack_after_empty by simp
  then show ?thesis unfolding serial_inv_def e by (simp add: dinit_def)
qed

lemma serial_runs:
  assumes ok: "wf_block (block E) (start E) stoppc" "ssa_block (block E) (start E) stoppc"
    and "flow_runs E stoppc nw st m r s"
  shows "serial_inv E (stoppc - start E) (flow_wakes (flow_of E stoppc)) st s"
  using flow_runsD [OF assms(3)]
proof (induction rule: druns.induct)
  case (more m r s l s')
  note b = flow_of_wf [OF ok(1)]
  have "dinv (stoppc - start E) (flow_wakes (flow_of E stoppc)) s"
    using dflow.dinv_runs [OF more.hyps(1) b(1)] b(2) by simp
  from serial_step [OF ok this more.IH] more.hyps(2) b(2) show ?case by simp
qed (rule serial_init)

text \<open>
  C5. Parallel execution computes what sequential execution computes.  For a block whose
  variables are assigned once, before they are used, whatever the instructions compute and
  however the workers interleave: when the scheduler has returned without an error, the stack
  is the one the interpreter leaves after running the block one instruction at a time, the
  released variables included; when it has returned with an error, the sequential run ends
  with an error too.
\<close>

theorem dataflow_equals_serial:
  assumes "wf_block (block E) (start E) stoppc" and "ssa_block (block E) (start E) stoppc"
    and "flow_runs E stoppc nw st m r s" and "sched s = SDone"
  shows "case flow_error s of
      None \<Rightarrow> runMALsequence E 0 (stoppc - start E) st = Inr (stk s)
    | Some e \<Rightarrow> \<exists>e'. runMALsequence E 0 (stoppc - start E) st = Inl e'"
proof -
  let ?A = "stoppc - start E" and ?S = "flow_wakes (flow_of E stoppc)"
  have stop: "start E + ?A = stoppc" using assms(1) by (simp add: wf_block_def)
  have ok: "wf_block (block E) (start E) (start E + ?A)" "ssa_block (block E) (start E) (start E + ?A)"
    unfolding stop by (rule assms)+
  note b = flow_of_wf [OF assms(1)]
  have ser: "serial_inv E ?A ?S st s" by (rule serial_runs [OF assms(1-3)])
  have inv: "dinv ?A ?S s"
    using dflow.dinv_runs [OF flow_runsD [OF assms(3)] b(1)] b(2) by simp
  show ?thesis
  proof (cases "flow_error s")
    case None
    have "n \<in> ended s" if "n < ?A" for n
      using dflow.finished_all(2) [of "flow_of E stoppc" s n] inv b(2) assms(4) None that
      by (simp add: ended_def flip: in_ends count_greater_zero_iff)
    then have "ended s = {..<?A}" using ser by (auto simp: serial_inv_def)
    then have "stk s = stack_after E ?A st {..<?A}"
      and "\<And>k. k < ?A \<Longrightarrow> \<exists>f. call E k (keep_stack E st ?A) = Inr f"
      using ser by (simp_all add: serial_inv_def)
    then show ?thesis using sequence_succeeds [OF ok, of 0 ?A st] None
      by (simp add: stack_after_empty del: lessThan_0)
  next
    case (Some e)
    then obtain n where "n < ?A" "call E n (keep_stack E st ?A) = Inl e"
      using ser by (auto simp: serial_inv_def)
    then show ?thesis using sequence_fails [OF ok, of 0 ?A n st e] Some
      by (simp add: stack_after_empty del: lessThan_0)
  qed
qed

lemma sample_env_ssa: "ssa_block (block sample_env) (start sample_env) 6"
  by (simp add: ssa_block_def sample_env_def sample_block_def atLeastLessThan_upt upt_rec numeral_eq_Suc)

theorem dataflow_equals_serial_witness:
  "\<exists>s. sample_exec (sample_schedule @ sample_rest) = Some s \<and>
     runMALsequence sample_env 0 5 sample_stack = Inr (stk s) \<and> map (stk s) [0..<7] = [7, 0, 9, 0, 32, 25, 0]"
proof -
  have "map_option (\<lambda>s. (sched s, flow_error s, map (stk s) [0..<7]))
      (sample_exec (sample_schedule @ sample_rest)) = Some (SDone, None, [7, 0, 9, 0, 32, 25, 0])"
    by code_simp
  then obtain s where s: "sample_exec (sample_schedule @ sample_rest) = Some s"
    "sched s = SDone" "flow_error s = None" "map (stk s) [0..<7] = [7, 0, 9, 0, 32, 25, 0]"
    unfolding map_option_eq_Some prod.inject by (elim exE conjE) (rule that)
  then obtain m r where run: "flow_runs sample_env 6 2 sample_stack m r s"
    using sample_exec_runs by blast
  have "6 - start sample_env = 5" by (simp add: sample_env_def)
  with dataflow_equals_serial [OF sample_env_wf sample_env_ssa run s(2)] s show ?thesis by simp
qed

end
