(* ===== verification/Sql_Sequence.thy ===== *)
theory Sql_Sequence
  imports Monet_Prelude
begin

text \<open>
  SQL sequences (sql/storage/store_sequence.c).  The server keeps the current value of every
  used sequence in memory and writes to the log, ahead of use, the value from which it will
  continue after a restart; it hands out values from memory until it reaches that value.

  The list \<open>sql_seqs\<close> is a HOL list in the order of insertion.  The logger
  (gdk/gdk_logger.c, \<open>log_sequence\<close> and \<open>logger_sequence\<close>) is a map from the sequence to the
  last value logged, which survives a restart.  \<open>lng\<close> arithmetic wraps at 64 bits.
\<close>

section \<open>State\<close>

record sql_sequence =
  base_id :: int
  tr_old :: bool
  seq_start :: int
  minvalue :: int
  maxvalue :: int
  increment :: int
  cacheinc :: int
  cycle :: bool

record store_sequence =
  seqid :: int
  called :: bool
  cur :: int
  cached :: int

record store =
  sql_seqs :: "store_sequence list"
  seq_log :: "int \<rightharpoonup> int"

definition lng_add :: "int \<Rightarrow> int \<Rightarrow> int" where
  "lng_add x y = c_cast 64 (x + y)"

definition lng_mul :: "int \<Rightarrow> int \<Rightarrow> int" where
  "lng_mul x y = c_cast 64 (x * y)"

section \<open>Operations\<close>

definition sql_update_sequence_cache :: "sql_sequence \<Rightarrow> int \<Rightarrow> store \<Rightarrow> store" where
  "sql_update_sequence_cache seq v st = st\<lparr>seq_log := (seq_log st)(base_id seq \<mapsto> v)\<rparr>"

definition sql_create_sequence :: "sql_sequence \<Rightarrow> store \<Rightarrow> store_sequence" where
  "sql_create_sequence seq st =
     (let c = (if tr_old seq then (case seq_log st (base_id seq) of None \<Rightarrow> seq_start seq | Some v \<Rightarrow> v)
               else seq_start seq)
      in \<lparr>seqid = base_id seq, called = False, cur = c, cached = c\<rparr>)"

text \<open>
  The loop over the list that all operations start with; a sequence that is not found is
  created and appended.  The flag says that it was found.
\<close>

definition find_or_create :: "sql_sequence \<Rightarrow> store \<Rightarrow> bool \<times> store_sequence \<times> store" where
  "find_or_create seq st =
     (case find (\<lambda>s. seqid s = base_id seq) (sql_seqs st) of
        Some s \<Rightarrow> (True, s, st)
      | None \<Rightarrow>
          let s = sql_create_sequence seq st
          in (False, s, st\<lparr>sql_seqs := sql_seqs st @ [s]\<rparr>))"

text \<open>Writing through the pointer to the first entry of the sequence.\<close>

fun update_first :: "store_sequence \<Rightarrow> store_sequence list \<Rightarrow> store_sequence list" where
  "update_first s [] = []"
| "update_first s (x # xs) = (if seqid x = seqid s then s # xs else x # update_first s xs)"

definition put_seq :: "store_sequence \<Rightarrow> store \<Rightarrow> store" where
  "put_seq s st = st\<lparr>sql_seqs := update_first s (sql_seqs st)\<rparr>"

definition out_of_range :: "sql_sequence \<Rightarrow> int \<Rightarrow> bool" where
  "out_of_range seq v \<longleftrightarrow>
     maxvalue seq \<noteq> 0 \<and> maxvalue seq < v \<or> minvalue seq \<noteq> 0 \<and> v < minvalue seq"

definition seq_restart :: "sql_sequence \<Rightarrow> int \<Rightarrow> store \<Rightarrow> bool \<times> store" where
  "seq_restart seq start st =
     (case find_or_create seq st of (found, s, st) \<Rightarrow>
        let s = s\<lparr>called := False, cur := start, cached := start\<rparr>;
            st = put_seq s st
        in if out_of_range seq start then (False, st)
           else (True, sql_update_sequence_cache seq start st))"

text \<open>The value, or \<open>None\<close> when the sequence is out of numbers.\<close>

definition seq_next_value :: "sql_sequence \<Rightarrow> store \<Rightarrow> int option \<times> store" where
  "seq_next_value seq st =
     (case find_or_create seq st of (found, s, st) \<Rightarrow>
        let s = (if found \<and> called s then s\<lparr>cur := lng_add (cur s) (increment seq)\<rparr> else s)
        in if out_of_range seq (cur s) \<and> \<not> cycle seq then (None, put_seq s st)
           else
             let save = out_of_range seq (cur s);
                 s = (if save then s\<lparr>cur := minvalue seq\<rparr> else s);
                 nr = cur s;
                 s = s\<lparr>called := True\<rparr>
             in if save \<or> nr = cached s
                then let s = s\<lparr>cached := lng_add nr (lng_mul (cacheinc seq) (increment seq))\<rparr>
                     in (Some nr, sql_update_sequence_cache seq (cached s) (put_seq s st))
                else (Some nr, put_seq s st))"

definition seq_get_value :: "sql_sequence \<Rightarrow> store \<Rightarrow> int option \<times> store" where
  "seq_get_value seq st =
     (case find_or_create seq st of (found, s, st) \<Rightarrow>
        let v = (if called s then lng_add (cur s) (increment seq) else cur s)
        in if out_of_range seq v
           then (if cycle seq then (Some (minvalue seq), st) else (None, st))
           else (Some v, st))"

text \<open>
  Bulk requests: \<open>seqbulk_create\<close> finds the sequence, each \<open>seqbulk_next_value\<close> advances it
  in memory, \<open>seqbulk_destroy\<close> logs the new continuation if one was reached.  The lock is held
  throughout.
\<close>

definition seqbulk_create :: "sql_sequence \<Rightarrow> store \<Rightarrow> bool \<times> store_sequence \<times> store" where
  "seqbulk_create seq st = (case find_or_create seq st of (found, s, st) \<Rightarrow> (False, s, st))"

definition seqbulk_next_value ::
  "sql_sequence \<Rightarrow> bool \<times> store_sequence \<Rightarrow> int option \<times> bool \<times> store_sequence" where
  "seqbulk_next_value seq sb =
     (case sb of (save, s) \<Rightarrow>
        let s = (if called s then s\<lparr>cur := lng_add (cur s) (increment seq)\<rparr> else s)
        in if out_of_range seq (cur s) \<and> \<not> cycle seq then (None, save, s)
           else
             let save = (save \<or> out_of_range seq (cur s));
                 s = (if out_of_range seq (cur s) then s\<lparr>cur := minvalue seq\<rparr> else s);
                 nr = cur s;
                 s = s\<lparr>called := True\<rparr>
             in if nr = cached s
                then (Some nr, True, s\<lparr>cached := lng_add nr (lng_mul (cacheinc seq) (increment seq))\<rparr>)
                else (Some nr, save, s))"

definition seqbulk_destroy :: "sql_sequence \<Rightarrow> bool \<times> store_sequence \<Rightarrow> store \<Rightarrow> store" where
  "seqbulk_destroy seq sb st =
     (case sb of (save, s) \<Rightarrow>
        if save then sql_update_sequence_cache seq (cached s) (put_seq s st) else put_seq s st)"

text \<open>
  \<open>mvc_bat_next_value\<close> for a column of \<open>n\<close> rows: \<open>n\<close> values, or an error, after which the values
  are dropped but the sequence keeps its new position.  The rows hold schema names, but the
  code reads the name of the first row at each row, so one sequence serves them all.
\<close>

fun seqbulk_loop ::
  "sql_sequence \<Rightarrow> nat \<Rightarrow> bool \<times> store_sequence \<Rightarrow> int list option \<times> bool \<times> store_sequence" where
  "seqbulk_loop seq 0 sb = (Some [], sb)"
| "seqbulk_loop seq (Suc n) sb =
     (case seqbulk_next_value seq sb of
        (None, sb) \<Rightarrow> (None, sb)
      | (Some v, sb) \<Rightarrow>
          (case seqbulk_loop seq n sb of (vs, sb) \<Rightarrow> (map_option (\<lambda>vs. v # vs) vs, sb)))"

definition bat_next_value :: "sql_sequence \<Rightarrow> nat \<Rightarrow> store \<Rightarrow> int list option \<times> store" where
  "bat_next_value seq n st =
     (if n = 0 then (Some [], st)
      else
        case seqbulk_create seq st of (save, s, st) \<Rightarrow>
          case seqbulk_loop seq n (save, s) of (vs, sb) \<Rightarrow> (vs, seqbulk_destroy seq sb st))"

section \<open>Histories\<close>

text \<open>
  What can happen to a sequence: a value is asked for or looked at, \<open>n\<close> values are asked for
  in bulk, or the server stops and starts again, which empties \<open>sql_seqs\<close>, keeps the log and
  loads the sequence from the catalog, with the flag \<open>TR_OLD\<close>.
\<close>

datatype seq_op = Next | Peek | Bulk nat | Reboot

fun vals_of :: "int list option \<Rightarrow> int list" where
  "vals_of None = []"
| "vals_of (Some vs) = vs"

fun seq_step :: "seq_op \<Rightarrow> sql_sequence \<times> store \<Rightarrow> int list \<times> sql_sequence \<times> store" where
  "seq_step Next (seq, st) =
     (case seq_next_value seq st of (v, st) \<Rightarrow> (case v of None \<Rightarrow> [] | Some v \<Rightarrow> [v], seq, st))"
| "seq_step Peek (seq, st) = ([], seq, snd (seq_get_value seq st))"
| "seq_step (Bulk n) (seq, st) =
     (case bat_next_value seq n st of (vs, st) \<Rightarrow> (vals_of vs, seq, st))"
| "seq_step Reboot (seq, st) = ([], seq\<lparr>tr_old := True\<rparr>, st\<lparr>sql_seqs := []\<rparr>)"

text \<open>The values handed out in the course of a history, and where it ends.\<close>

fun seq_history :: "seq_op list \<Rightarrow> sql_sequence \<times> store \<Rightarrow> int list \<times> sql_sequence \<times> store" where
  "seq_history [] x = ([], x)"
| "seq_history (c # cs) x =
     (case seq_step c x of (vs, x) \<Rightarrow> case seq_history cs x of (ws, x) \<Rightarrow> (vs @ ws, x))"

section \<open>Elementary facts\<close>

lemma lng_add_id: "- (2 ^ 63) \<le> x + y \<Longrightarrow> x + y < 2 ^ 63 \<Longrightarrow> lng_add x y = x + y"
  by (simp add: lng_add_def c_cast_id)

lemma lng_mul_id: "- (2 ^ 63) \<le> x * y \<Longrightarrow> x * y < 2 ^ 63 \<Longrightarrow> lng_mul x y = x * y"
  by (simp add: lng_mul_def c_cast_id)

abbreviation find_seq :: "sql_sequence \<Rightarrow> store \<Rightarrow> store_sequence option" where
  "find_seq seq st \<equiv> find (\<lambda>s. seqid s = base_id seq) (sql_seqs st)"

lemma find_update_first:
  "find (\<lambda>x. seqid x = seqid s) xs \<noteq> None \<Longrightarrow> find (\<lambda>x. seqid x = seqid s) (update_first s xs) = Some s"
  by (induction xs) auto

lemma find_or_create_found:
  assumes "find_or_create seq st = (found, s, st')"
  shows "find_seq seq st' = Some s" "seq_log st' = seq_log st" "seqid s = base_id seq"
    "found = (find_seq seq st \<noteq> None)"
    "find_seq seq st = None \<Longrightarrow> s = sql_create_sequence seq st"
    "find_seq seq st = Some s' \<Longrightarrow> s = s' \<and> st' = st"
proof -
  have "P s" if "find P xs = Some s" for P :: "store_sequence \<Rightarrow> bool" and xs
    using that by (induction xs) (auto split: if_splits)
  moreover have "find P (xs @ [s]) = Some s" if "find P xs = None" "P s" for P :: "store_sequence \<Rightarrow> bool" and xs
    using that by (induction xs) (auto split: if_splits)
  ultimately show "find_seq seq st' = Some s" "seq_log st' = seq_log st" "seqid s = base_id seq"
    "found = (find_seq seq st \<noteq> None)"
    "find_seq seq st = None \<Longrightarrow> s = sql_create_sequence seq st"
    "find_seq seq st = Some s' \<Longrightarrow> s = s' \<and> st' = st"
    using assms by (auto simp: find_or_create_def sql_create_sequence_def Let_def split: option.splits)
qed

lemma find_or_create_called:
  "find_or_create seq st = (found, s, st') \<Longrightarrow> (found \<and> called s) = called s"
  using find_or_create_found(4,5) [of seq st found s st']
  by (auto simp: sql_create_sequence_def Let_def)

lemma find_put_seq:
  "find_seq seq st = Some s' \<Longrightarrow> seqid s = base_id seq \<Longrightarrow> find_seq seq (put_seq s st) = Some s"
  using find_update_first [of s "sql_seqs st"] by (simp add: put_seq_def)

text \<open>Without cycling, one value is a bulk request for one value.\<close>

lemma seq_next_value_bulk:
  assumes "\<not> cycle seq"
  shows "seq_next_value seq st =
    (case find_or_create seq st of (found, s, st) \<Rightarrow>
      case seqbulk_next_value seq (False, s) of (v, sb) \<Rightarrow> (v, seqbulk_destroy seq sb st))"
  using assms find_or_create_called [of seq st]
  by (auto simp: seq_next_value_def seqbulk_next_value_def seqbulk_destroy_def Let_def split: prod.splits)

text \<open>
  C17. Looking at the next value does not take it.  \<open>seq_get_value\<close> returns what a
  \<open>seq_next_value\<close> at that moment would return, in every state, cycling or not, out of numbers
  or not; and it does not change what the sequence hands out next.
\<close>

theorem seq_get_value_previews:
  "fst (seq_get_value seq st) = fst (seq_next_value seq st) \<and>
   seq_next_value seq (snd (seq_get_value seq st)) = seq_next_value seq st"
proof (cases "find_or_create seq st")
  case (fields found s st')
  note f = find_or_create_found [OF fields]
  have again: "find_or_create seq st' = (True, s, st')" using f(1) by (simp add: find_or_create_def)
  have "fst (seq_get_value seq st) = fst (seq_next_value seq st)" "snd (seq_get_value seq st) = st'"
    using fields find_or_create_called [OF fields]
    by (auto simp: seq_get_value_def seq_next_value_def Let_def)
  moreover have "seq_next_value seq st' = seq_next_value seq st"
    using fields again find_or_create_called [OF fields] by (simp add: seq_next_value_def)
  ultimately show ?thesis by simp
qed

section \<open>Values never repeat\<close>

text \<open>
  The invariant of an entry of \<open>sql_seqs\<close>, with the set \<open>U\<close> of the values handed out so far and
  the number \<open>t\<close> of values asked for: every value handed out lies below the continuation
  \<open>cached\<close> and not above the current value; and either the sequence ran past its maximum, or
  the continuation is a number of steps ahead, so that counting up will hit it.
\<close>

definition seq_ahead :: "sql_sequence \<Rightarrow> int" where
  "seq_ahead seq = cacheinc seq * increment seq"

definition seq_limit :: "sql_sequence \<Rightarrow> nat \<Rightarrow> int" where
  "seq_limit seq t = seq_start seq + int t * seq_ahead seq"

definition ran_out :: "sql_sequence \<Rightarrow> store_sequence \<Rightarrow> bool" where
  "ran_out seq s \<longleftrightarrow> called s \<and> maxvalue seq \<noteq> 0 \<and> maxvalue seq < cur s"

definition on_grid :: "sql_sequence \<Rightarrow> store_sequence \<Rightarrow> bool" where
  "on_grid seq s \<longleftrightarrow>
     (\<exists>k::nat. cached s = cur s + int k * increment seq \<and>
        (called s \<longrightarrow> 0 < k \<and> \<not> out_of_range seq (cur s)))"

definition entry_inv :: "sql_sequence \<Rightarrow> int set \<Rightarrow> nat \<Rightarrow> store_sequence \<Rightarrow> bool" where
  "entry_inv seq U t s \<longleftrightarrow>
     seq_start seq \<le> cur s \<and> cur s \<le> seq_limit seq t \<and>
     seq_start seq \<le> cached s \<and> cached s \<le> seq_limit seq t \<and>
     (\<forall>u\<in>U. u < cached s \<and> u \<le> cur s \<and> (called s \<or> u < cur s)) \<and>
     (ran_out seq s \<or> on_grid seq s)"

definition simple_seq :: "sql_sequence \<Rightarrow> bool" where
  "simple_seq seq \<longleftrightarrow>
     0 < increment seq \<and> 1 \<le> cacheinc seq \<and> \<not> cycle seq \<and> 0 \<le> seq_start seq"

lemma seq_limit_Suc: "seq_limit seq (Suc t) = seq_limit seq t + seq_ahead seq"
  by (simp add: seq_limit_def algebra_simps)

lemma simple_seq_step:
  assumes "simple_seq seq"
  shows "0 < increment seq" "increment seq \<le> seq_ahead seq" "0 < seq_ahead seq"
    "\<not> cycle seq" "0 \<le> seq_start seq" "0 < cacheinc seq"
  using assms mult_right_mono [of 1 "cacheinc seq" "increment seq"] by (auto simp: simple_seq_def seq_ahead_def)

lemma seq_limit_mono: "simple_seq seq \<Longrightarrow> t \<le> t' \<Longrightarrow> seq_limit seq t \<le> seq_limit seq t'"
  using simple_seq_step(1,2) [of seq] by (simp add: seq_limit_def mult_right_mono)

lemma seq_limit_start: "simple_seq seq \<Longrightarrow> seq_start seq \<le> seq_limit seq t"
  using seq_limit_mono [of seq 0 t] by (simp add: seq_limit_def)

lemma entry_inv_mono:
  assumes "entry_inv seq U t s" "V \<subseteq> U" "t \<le> t'" "simple_seq seq"
  shows "entry_inv seq V t' s"
  using assms(1,2) seq_limit_mono [OF assms(4,3)] by (auto simp: entry_inv_def)

text \<open>Advancing the sequence in memory keeps the invariant and returns a new largest value.\<close>

lemma entry_inv_advance:
  assumes inv: "entry_inv seq U t s" and simple: "simple_seq seq"
    and room: "seq_limit seq (Suc t) < 2 ^ 63"
    and s1: "s1 = (if called s then s\<lparr>cur := lng_add (cur s) (increment seq)\<rparr> else s)"
  shows "seq_start seq \<le> cur s1" "cur s1 \<le> seq_limit seq (Suc t)" "\<forall>u\<in>U. u < cur s1"
    "cached s1 = cached s" "called s1 = called s" "seqid s1 = seqid s"
    "called s \<Longrightarrow> out_of_range seq (cur s1) \<Longrightarrow> ran_out seq s1"
    "\<not> called s \<Longrightarrow> s1 = s"
    "\<not> out_of_range seq (cur s1) \<Longrightarrow> \<exists>k::nat. cached s = cur s1 + int k * increment seq"
proof -
  note st = simple_seq_step [OF simple]
  note i = inv [unfolded entry_inv_def]
  have add: "lng_add (cur s) (increment seq) = cur s + increment seq"
    using i st(1,2,3,5) room unfolding seq_limit_Suc by (intro lng_add_id) linarith+
  show "seq_start seq \<le> cur s1" "cur s1 \<le> seq_limit seq (Suc t)" "\<forall>u\<in>U. u < cur s1"
    "cached s1 = cached s" "called s1 = called s" "seqid s1 = seqid s"
    using i st by (auto simp: s1 add seq_limit_Suc)
  show "\<not> called s \<Longrightarrow> s1 = s" by (simp add: s1)
  show "ran_out seq s1" if "called s" "out_of_range seq (cur s1)"
    using that i st by (auto simp: s1 add ran_out_def on_grid_def out_of_range_def)
  show "\<exists>k::nat. cached s = cur s1 + int k * increment seq" if "\<not> out_of_range seq (cur s1)"
  proof -
    have "\<not> ran_out seq s" using that st by (auto simp: s1 add ran_out_def out_of_range_def)
    then obtain k :: nat where k: "cached s = cur s + int k * increment seq" "called s \<longrightarrow> 0 < k"
      using i by (auto simp: on_grid_def)
    then have "cached s = cur s1 + int (if called s then k - 1 else k) * increment seq"
      by (auto simp: s1 add algebra_simps of_nat_diff)
    then show ?thesis by blast
  qed
qed

lemma seqbulk_next_value_inv:
  assumes inv: "entry_inv seq U t s" and simple: "simple_seq seq"
    and room: "seq_limit seq (Suc t) < 2 ^ 63"
    and step: "seqbulk_next_value seq (save, s) = (v, save', s')"
  shows "entry_inv seq (U \<union> set_option v) (Suc t) s'" "seqid s' = seqid s"
    "\<forall>x\<in>set_option v. (\<forall>u\<in>U. u < x) \<and> \<not> out_of_range seq x \<and> seq_start seq \<le> x"
    "save' \<or> cached s' = cached s" "save \<longrightarrow> save'"
proof -
  note st = simple_seq_step [OF simple]
  note i = inv [unfolded entry_inv_def]
  define s1 where s1: "s1 = (if called s then s\<lparr>cur := lng_add (cur s) (increment seq)\<rparr> else s)"
  note a = entry_inv_advance [OF inv simple room s1]
  have mul: "lng_mul (cacheinc seq) (increment seq) = seq_ahead seq"
    unfolding seq_ahead_def [of seq]
    using st(1,2,3,5) room seq_limit_start [OF simple, of t] unfolding seq_limit_Suc
    by (intro lng_mul_id) (simp_all add: seq_ahead_def [symmetric])
  have add: "lng_add (cached s) (seq_ahead seq) = cached s + seq_ahead seq"
    using i st room by (intro lng_add_id) (auto simp: seq_limit_Suc)
  have lim: "cached s \<le> seq_limit seq (Suc t)"
    using i seq_limit_mono [OF simple, of t "Suc t"] by auto
  have eq: "seqbulk_next_value seq (save, s) =
    (if out_of_range seq (cur s1) then (None, save, s1)
     else if cur s1 = cached s
     then (Some (cur s1), True, s1\<lparr>called := True, cached := cur s1 + seq_ahead seq\<rparr>)
     else (Some (cur s1), save, s1\<lparr>called := True\<rparr>))"
    using st(4) a(4)
    unfolding seqbulk_next_value_def Let_def s1 [symmetric] prod.case mul by (simp add: add)
  consider (out) "out_of_range seq (cur s1)" "v = None" "save' = save" "s' = s1"
    | (log) "\<not> out_of_range seq (cur s1)" "v = Some (cur s1)" "save'" "cur s1 = cached s"
        "s' = s1\<lparr>called := True, cached := cur s1 + seq_ahead seq\<rparr>"
    | (mem) "\<not> out_of_range seq (cur s1)" "v = Some (cur s1)" "save' = save" "cur s1 \<noteq> cached s"
        "s' = s1\<lparr>called := True\<rparr>"
    using step unfolding eq by (cases "out_of_range seq (cur s1)"; cases "cur s1 = cached s") simp_all
  then have "entry_inv seq (U \<union> set_option v) (Suc t) s' \<and> seqid s' = seqid s \<and>
    (\<forall>x\<in>set_option v. (\<forall>u\<in>U. u < x) \<and> \<not> out_of_range seq x \<and> seq_start seq \<le> x) \<and>
    (save' \<or> cached s' = cached s) \<and> (save \<longrightarrow> save')"
  proof cases
    case out
    have "ran_out seq s1 \<or> on_grid seq s1"
      using out(1) a(7,8) i by (cases "called s") (auto simp: ran_out_def)
    then have "entry_inv seq U (Suc t) s1"
      using a(1-6) i lim by (auto simp: entry_inv_def)
    then show ?thesis using out a(4,6) by simp
  next
    case log
    have g: "on_grid seq s'"
      unfolding on_grid_def using log st simple
      by (intro exI [of _ "nat (cacheinc seq)"]) (auto simp: seq_ahead_def)
    have "cur s1 + seq_ahead seq \<le> seq_limit seq (Suc t)"
      using log(4) i by (simp add: seq_limit_Suc)
    then have "entry_inv seq (insert (cur s1) U) (Suc t) s'"
      using log(5) g a(1-3) st i by (auto simp: entry_inv_def)
    then show ?thesis using log(1-3,5) a(1,3,6) by simp
  next
    case mem
    obtain k :: nat where k: "cached s = cur s1 + int k * increment seq" using a(9) mem(1) by blast
    with mem(4) have "0 < k" by (cases k) auto
    then have less: "cur s1 < cached s" using k st by simp
    have "on_grid seq s'" unfolding on_grid_def using mem \<open>0 < k\<close> k a(4) by auto
    then have "entry_inv seq (insert (cur s1) U) (Suc t) s'"
      using mem(5) a(1-4) i lim less by (auto simp: entry_inv_def)
    then show ?thesis using mem(1-3,5) a(1,3,4,6) by simp
  qed
  then show "entry_inv seq (U \<union> set_option v) (Suc t) s'" "seqid s' = seqid s"
    "\<forall>x\<in>set_option v. (\<forall>u\<in>U. u < x) \<and> \<not> out_of_range seq x \<and> seq_start seq \<le> x"
    "save' \<or> cached s' = cached s" "save \<longrightarrow> save'"
    by auto
qed

lemma seqbulk_loop_inv:
  assumes "entry_inv seq U t s" "simple_seq seq" "seq_limit seq (t + n) < 2 ^ 63"
    "seqbulk_loop seq n (save, s) = (vs, save', s')"
  shows "entry_inv seq (U \<union> set (vals_of vs)) (t + n) s' \<and> seqid s' = seqid s \<and>
    sorted_wrt (<) (vals_of vs) \<and>
    (\<forall>x\<in>set (vals_of vs). (\<forall>u\<in>U. u < x) \<and> \<not> out_of_range seq x \<and> seq_start seq \<le> x) \<and>
    (save' \<or> cached s' = cached s) \<and> (save \<longrightarrow> save')"
  using assms
proof (induction n arbitrary: U t s save vs save' s')
  case (Suc n)
  note simple = \<open>simple_seq seq\<close>
  obtain v save1 s1 where step: "seqbulk_next_value seq (save, s) = (v, save1, s1)"
    by (cases "seqbulk_next_value seq (save, s)")
  have "seq_limit seq (Suc t) < 2 ^ 63"
    using seq_limit_mono [OF simple, of "Suc t" "t + Suc n"] Suc.prems(3) by simp
  note one = seqbulk_next_value_inv [OF Suc.prems(1) simple this step]
  show ?case
  proof (cases v)
    case None
    then have "vs = None" "save' = save1" "s' = s1" using Suc.prems(4) step by auto
    then show ?thesis using None one entry_inv_mono [OF one(1) _ _ simple, of U "t + Suc n"] by auto
  next
    case (Some x)
    obtain ws save2 s2 where rest: "seqbulk_loop seq n (save1, s1) = (ws, save2, s2)"
      by (cases "seqbulk_loop seq n (save1, s1)")
    have vs: "vs = map_option (\<lambda>vs. x # vs) ws" "save' = save2" "s' = s2"
      using Suc.prems(4) step Some rest by auto
    have "seq_limit seq (Suc t + n) < 2 ^ 63" using Suc.prems(3) by simp
    note m = Suc.IH [OF one(1) simple this rest]
    show ?thesis
    proof (cases ws)
      case None
      have "entry_inv seq U (t + Suc n) s2"
        by (intro entry_inv_mono [OF conjunct1 [OF m] _ _ simple]) auto
      moreover have "save2 \<or> cached s2 = cached s" "save \<longrightarrow> save2" "seqid s2 = seqid s"
        using m one(2,4,5) by auto
      ultimately show ?thesis using vs None by simp
    next
      case (Some ys)
      have new: "vals_of vs = x # ys" "vals_of ws = ys" using vs Some by auto
      have "entry_inv seq (U \<union> set (x # ys)) (t + Suc n) s2"
        using conjunct1 [OF m] new \<open>v = Some x\<close> by simp
      moreover have "sorted_wrt (<) (x # ys)" "\<forall>y\<in>set (x # ys). \<forall>u\<in>U. u < y"
        "\<forall>y\<in>set (x # ys). \<not> out_of_range seq y \<and> seq_start seq \<le> y"
        using m one(3) new \<open>v = Some x\<close> by auto
      moreover have "save2 \<or> cached s2 = cached s" "save \<longrightarrow> save2" "seqid s2 = seqid s"
        using m one(2,4,5) by auto
      ultimately show ?thesis unfolding vs(2,3) new(1) by blast
    qed
  qed
qed auto

section \<open>The whole store\<close>

definition logged :: "sql_sequence \<Rightarrow> store \<Rightarrow> int" where
  "logged seq st = (case seq_log st (base_id seq) of None \<Rightarrow> seq_start seq | Some v \<Rightarrow> v)"

text \<open>
  The entry, present or about to be created, satisfies the invariant, and the log holds its
  continuation.
\<close>

definition store_inv :: "sql_sequence \<Rightarrow> int set \<Rightarrow> nat \<Rightarrow> store \<Rightarrow> bool" where
  "store_inv seq U t st \<longleftrightarrow>
     (case find_or_create seq st of (found, s, st') \<Rightarrow> entry_inv seq U t s \<and> logged seq st = cached s)"

lemma store_inv_bulk:
  assumes "store_inv seq U t st" "simple_seq seq" "seq_limit seq (t + n) < 2 ^ 63"
    "bat_next_value seq n st = (vs, st')"
  shows "store_inv seq (U \<union> set (vals_of vs)) (t + n) st' \<and> sorted_wrt (<) (vals_of vs) \<and>
    (\<forall>x\<in>set (vals_of vs). (\<forall>u\<in>U. u < x) \<and> \<not> out_of_range seq x \<and> seq_start seq \<le> x)"
proof (cases "n = 0")
  case True
  then show ?thesis using assms by (auto simp: bat_next_value_def)
next
  case False
  obtain found s st1 where f: "find_or_create seq st = (found, s, st1)"
    by (cases "find_or_create seq st")
  obtain ws save s' where l: "seqbulk_loop seq n (False, s) = (ws, save, s')"
    by (cases "seqbulk_loop seq n (False, s)")
  have inv: "entry_inv seq U t s" "logged seq st = cached s"
    using assms(1) f by (auto simp: store_inv_def)
  note loop = seqbulk_loop_inv [OF inv(1) assms(2,3) l]
  note ff = find_or_create_found [OF f]
  have vs: "vs = ws" "st' = seqbulk_destroy seq (save, s') st1"
    using assms(4) f l False by (auto simp: bat_next_value_def seqbulk_create_def)
  have "seqid s' = base_id seq" using loop ff(3) by simp
  then have "find_seq seq (put_seq s' st1) = Some s'" by (rule find_put_seq [OF ff(1)])
  then have "find_seq seq st' = Some s'"
    by (simp add: vs seqbulk_destroy_def sql_update_sequence_cache_def)
  moreover have "logged seq st' = cached s'"
    using inv(2) loop ff(2)
    by (auto simp: vs seqbulk_destroy_def sql_update_sequence_cache_def logged_def put_seq_def)
  ultimately have "store_inv seq (U \<union> set (vals_of vs)) (t + n) st'"
    using loop vs by (simp add: store_inv_def find_or_create_def)
  then show ?thesis using loop vs by simp
qed

lemma seq_next_value_is_bulk:
  "\<not> cycle seq \<Longrightarrow> seq_next_value seq st = (v, st') \<Longrightarrow>
   bat_next_value seq 1 st = (map_option (\<lambda>v. [v]) v, st')"
  by (auto simp: seq_next_value_bulk bat_next_value_def seqbulk_create_def
      split: prod.splits option.splits)

text \<open>A restart loses the entry, but the log lets the next one start at the continuation.\<close>

lemma store_inv_reboot:
  assumes "store_inv seq U t st"
  shows "store_inv (seq\<lparr>tr_old := True\<rparr>) U t (st\<lparr>sql_seqs := []\<rparr>)"
proof -
  obtain found s st' where f: "find_or_create seq st = (found, s, st')"
    by (cases "find_or_create seq st")
  have i: "entry_inv seq U t s" "logged seq st = cached s"
    using assms f by (auto simp: store_inv_def)
  let ?s = "\<lparr>seqid = base_id seq, called = False, cur = cached s, cached = cached s\<rparr>"
  have "find_or_create (seq\<lparr>tr_old := True\<rparr>) (st\<lparr>sql_seqs := []\<rparr>) =
      (False, ?s, st\<lparr>sql_seqs := [?s]\<rparr>)"
    using i(2) by (auto simp: find_or_create_def sql_create_sequence_def logged_def Let_def split: option.splits)
  moreover have "entry_inv (seq\<lparr>tr_old := True\<rparr>) U t ?s"
    using i(1) by (auto simp: entry_inv_def on_grid_def seq_limit_def seq_ahead_def)
  moreover have "logged (seq\<lparr>tr_old := True\<rparr>) (st\<lparr>sql_seqs := []\<rparr>) = cached s"
    using i(2) by (auto simp: logged_def split: option.splits)
  ultimately show ?thesis by (simp add: store_inv_def)
qed

lemma store_inv_peek: "store_inv seq U t st \<Longrightarrow> store_inv seq U t (snd (seq_get_value seq st))"
proof (cases "find_or_create seq st")
  case (fields found s st')
  note f = find_or_create_found [OF fields]
  have "snd (seq_get_value seq st) = st'" using fields by (auto simp: seq_get_value_def Let_def)
  moreover have "find_or_create seq st' = (True, s, st')" using f(1) by (simp add: find_or_create_def)
  ultimately show "store_inv seq U t st \<Longrightarrow> ?thesis"
    using fields f(2) by (simp add: store_inv_def logged_def)
qed

text \<open>The number of values a history asks for.\<close>

fun requested :: "seq_op list \<Rightarrow> nat" where
  "requested [] = 0"
| "requested (Next # cs) = Suc (requested cs)"
| "requested (Bulk n # cs) = n + requested cs"
| "requested (c # cs) = requested cs"

lemma seq_history_inv:
  assumes "store_inv seq U t st" "simple_seq seq" "seq_limit seq (t + requested ops) < 2 ^ 63"
    "seq_history ops (seq, st) = (vs, x)"
  shows "sorted_wrt (<) vs \<and>
    (\<forall>v\<in>set vs. (\<forall>u\<in>U. u < v) \<and> \<not> out_of_range seq v \<and> seq_start seq \<le> v)"
  using assms
proof (induction ops arbitrary: U t seq st vs)
  case (Cons c ops)
  note simple = \<open>simple_seq seq\<close>
  have bulk: ?case
    if b: "bat_next_value seq n st = (v, st')" "requested (c # ops) = n + requested ops"
      and h: "seq_history (c # ops) (seq, st) =
        (case seq_history ops (seq, st') of (ws, x) \<Rightarrow> (vals_of v @ ws, x))" for n v st'
  proof -
    have "seq_limit seq (t + n) < 2 ^ 63"
      using seq_limit_mono [OF simple, of "t + n" "t + requested (c # ops)"] Cons.prems(3) b(2) by simp
    note one = store_inv_bulk [OF Cons.prems(1) simple this b(1)]
    obtain ws where ws: "seq_history ops (seq, st') = (ws, x)" "vs = vals_of v @ ws"
      using h Cons.prems(4) by (auto split: prod.splits)
    have "seq_limit seq (t + n + requested ops) < 2 ^ 63"
      using Cons.prems(3) b(2) by (simp add: add.assoc)
    from Cons.IH [OF conjunct1 [OF one] simple this ws(1)] one show ?thesis
      by (auto simp: ws(2) sorted_wrt_append)
  qed
  show ?case
  proof (cases c)
    case Next
    obtain v st' where v: "seq_next_value seq st = (v, st')" by (cases "seq_next_value seq st")
    show ?thesis
    proof (rule bulk [of 1 "map_option (\<lambda>v. [v]) v" st'])
      show "bat_next_value seq 1 st = (map_option (\<lambda>v. [v]) v, st')"
        using seq_next_value_is_bulk [OF _ v] simple by (simp add: simple_seq_def)
    qed (use v Next in \<open>auto split: option.splits prod.splits\<close>)
  next
    case Peek
    then show ?thesis
      using Cons.IH [OF store_inv_peek [OF Cons.prems(1)] simple] Cons.prems(3,4)
      by (auto split: prod.splits)
  next
    case (Bulk n)
    obtain v st' where v: "bat_next_value seq n st = (v, st')" by (cases "bat_next_value seq n st")
    show ?thesis by (rule bulk [OF v]) (use v Bulk in \<open>auto split: prod.splits\<close>)
  next
    case Reboot
    have same: "seq_limit (seq\<lparr>tr_old := True\<rparr>) = seq_limit seq"
      "out_of_range (seq\<lparr>tr_old := True\<rparr>) = out_of_range seq" "simple_seq (seq\<lparr>tr_old := True\<rparr>)"
      using simple by (auto simp: fun_eq_iff seq_limit_def seq_ahead_def out_of_range_def simple_seq_def)
    show ?thesis
      using Cons.IH [OF store_inv_reboot [OF Cons.prems(1)] same(3)] Cons.prems(3,4) Reboot
      by (auto simp: same split: prod.splits)
  qed
qed auto

text \<open>
  C6. The numbers of a sequence that counts up without cycling never repeat.  Whatever is asked
  of it, one value or many at a time or only a look, and however often the server stops and
  starts again in between, every value handed out is larger than all earlier ones and within
  the sequence's limits.  The bound says that the continuation stays within 63 bits.
\<close>

theorem seq_values_increase:
  assumes "0 < increment seq" "1 \<le> cacheinc seq" "\<not> cycle seq" "0 \<le> seq_start seq"
    and "find (\<lambda>s. seqid s = base_id seq) (sql_seqs st) = None" "seq_log st (base_id seq) = None"
    and "seq_start seq + int (requested ops) * (cacheinc seq * increment seq) < 2 ^ 63"
  shows "sorted_wrt (<) (fst (seq_history ops (seq, st))) \<and>
    (\<forall>v\<in>set (fst (seq_history ops (seq, st))). seq_start seq \<le> v \<and> \<not> out_of_range seq v)"
proof -
  have simple: "simple_seq seq" using assms(1-4) by (simp add: simple_seq_def)
  have "store_inv seq {} 0 st"
    using assms(5,6)
    by (auto simp: store_inv_def find_or_create_def sql_create_sequence_def logged_def Let_def
        entry_inv_def on_grid_def seq_limit_def)
  from seq_history_inv [OF this simple, of ops] assms(7) show ?thesis
    by (cases "seq_history ops (seq, st)") (simp add: seq_limit_def seq_ahead_def)
qed

definition sample_seq :: sql_sequence where
  "sample_seq = \<lparr>base_id = 7, tr_old = False, seq_start = 1, minvalue = 0, maxvalue = 100,
     increment = 3, cacheinc = 2, cycle = False\<rparr>"

definition sample_store :: store where
  "sample_store = \<lparr>sql_seqs = [], seq_log = Map.empty\<rparr>"

lemma seq_values_increase_witness:
  "let ops = [Next, Bulk 3, Peek, Reboot, Next, Next, Reboot, Bulk 2] in
   fst (seq_history ops (sample_seq, sample_store)) = [1, 4, 7, 10, 13, 16, 19, 22] \<and>
   sorted_wrt (<) (fst (seq_history ops (sample_seq, sample_store)))"
proof -
  let ?ops = "[Next, Bulk 3, Peek, Reboot, Next, Next, Reboot, Bulk 2]"
  have "sorted_wrt (<) (fst (seq_history ?ops (sample_seq, sample_store)))"
    using seq_values_increase [of sample_seq sample_store ?ops]
    by (simp add: sample_seq_def sample_store_def)
  moreover have "fst (seq_history ?ops (sample_seq, sample_store)) = [1, 4, 7, 10, 13, 16, 19, 22]"
    by code_simp
  ultimately show ?thesis by (simp only: Let_def)
qed

text \<open>
  The theorem keeps the increment.  The continuation is logged only when the current value is
  equal to it, so a value that jumps over it is handed out without being covered by the log:
  after an increment larger than the prefetched distance and back (\<open>ALTER SEQUENCE\<close>), a restart
  makes the sequence repeat values.
\<close>

lemma seq_altered_increment_repeats:
  "let seq = sample_seq\<lparr>increment := 1, cacheinc := 10\<rparr>;
       (vs, _, st) = seq_history [Next] (seq, sample_store);
       (ws, _, st) = seq_history [Next] (seq\<lparr>increment := 12\<rparr>, st);
       (xs, _) = seq_history [Next, Reboot, Next, Next, Next, Next] (seq, st)
   in (vs, ws, xs) = ([1], [13], [14, 11, 12, 13, 14])"
  by code_simp

end
