(* ===== verification/Gdk_Ssort.thy ===== *)
theory Gdk_Ssort
  imports Monet_Prelude "HOL-Library.Monad_Syntax"
begin

text \<open>
  The stable sort of GDK (gdk/gdk_ssort.c and gdk/gdk_ssort_impl.h): timsort on an array of
  keys \<open>h\<close> with an array of tails \<open>t\<close> that moves along.

  The two arrays are one HOL list of pairs, since every statement that copies a key copies
  the tail at the same position; so are the two temporary areas \<open>ah\<close> and \<open>at\<close>, a function
  because their contents are arbitrary until written.  The copies of \<open>gdk_ssort_impl.h\<close> for the
  types differ in the comparison only, which is a parameter with the sort direction and the
  widths of keys and tails.  Positions and lengths are \<open>nat\<close> where they cannot become
  negative and \<open>int\<close> where they can.  \<open>None\<close> is a failed assertion, of all those in the two files
  but the ones that pointers are not null, or the overflow of the \<open>int\<close> that \<open>COPY_anyN\<close> counts with.
\<close>

section \<open>Environment and state\<close>

text \<open>
  The result of the \<open>k\<close>-th call of \<open>GDKmalloc\<close> is \<open>granted k\<close>, the contents of its memory
  \<open>fresh k\<close>.  The functions \<open>lng1h\<close> and \<open>lng1t\<close> say what becomes of an item of 16 bytes, two
  \<open>lng\<close>s, when only the first \<open>lng\<close> of another is copied to it.
\<close>

record ('h, 't) sortenv =
  compare :: "'h \<Rightarrow> 'h \<Rightarrow> int"
  descending :: bool
  hs :: nat
  ts :: nat
  lng1h :: "'h \<Rightarrow> 'h \<Rightarrow> 'h"
  lng1t :: "'t \<Rightarrow> 't \<Rightarrow> 't"
  granted :: "nat \<Rightarrow> bool"
  fresh :: "nat \<Rightarrow> nat \<Rightarrow> 'h \<times> 't"

definition ISLT :: "('h, 't) sortenv \<Rightarrow> 'h \<times> 't \<Rightarrow> 'h \<times> 't \<Rightarrow> bool" where
  "ISLT E x y \<longleftrightarrow>
     (if descending E then 0 < compare E (fst x) (fst y) else compare E (fst x) (fst y) < 0)"

definition MAX_MERGE_PENDING :: nat where "MAX_MERGE_PENDING = 85"
definition MIN_GALLOP :: nat where "MIN_GALLOP = 7"
definition MERGESTATE_TEMP_SIZE :: nat where "MERGESTATE_TEMP_SIZE = 256 * 8"

record 'a mergestate =
  base :: "'a list"
  temp :: "nat \<Rightarrow> 'a"
  allocedh :: nat
  allocedt :: nat
  mallocs :: nat
  min_gallop :: int
  pending :: "(nat \<times> nat) list"

section \<open>Memory\<close>

definition merge_freemem :: "'a mergestate \<Rightarrow> 'a mergestate" where
  "merge_freemem ms = ms\<lparr>allocedh := MERGESTATE_TEMP_SIZE, allocedt := MERGESTATE_TEMP_SIZE\<rparr>"

text \<open>\<open>MERGE_GETMEMH\<close> and \<open>MERGE_GETMEMT\<close> with \<open>merge_getmem\<close>.\<close>

definition MERGE_GETMEMH ::
  "('h, 't) sortenv \<Rightarrow> nat \<Rightarrow> ('h \<times> 't) mergestate \<Rightarrow> bool \<times> ('h \<times> 't) mergestate" where
  "MERGE_GETMEMH E need ms =
     (if need * hs E \<le> allocedh ms then (True, ms)
      else if granted E (mallocs ms)
      then (True, ms\<lparr>allocedh := need * hs E, mallocs := Suc (mallocs ms),
             temp := (\<lambda>i. (fst (fresh E (mallocs ms) i), snd (temp ms i)))\<rparr>)
      else (False, merge_freemem (ms\<lparr>mallocs := Suc (mallocs ms)\<rparr>)))"

definition MERGE_GETMEMT ::
  "('h, 't) sortenv \<Rightarrow> nat \<Rightarrow> ('h \<times> 't) mergestate \<Rightarrow> bool \<times> ('h \<times> 't) mergestate" where
  "MERGE_GETMEMT E need ms =
     (if need * ts E \<le> allocedt ms then (True, ms)
      else if granted E (mallocs ms)
      then (True, ms\<lparr>allocedt := need * ts E, mallocs := Suc (mallocs ms),
             temp := (\<lambda>i. (fst (temp ms i), snd (fresh E (mallocs ms) i)))\<rparr>)
      else (False, merge_freemem (ms\<lparr>mallocs := Suc (mallocs ms)\<rparr>)))"

text \<open>
  \<open>COPY_anyN\<close> of \<open>N\<close> items, for the item at position \<open>j\<close> and one of the two arrays: the loop
  for items of two \<open>lng\<close>s runs while \<open>i < (N < 2)\<close>.  The loops for items of 1, 2, 4 and 8 bytes count
  with an \<open>int\<close>, which overflows for \<open>2 ^ 31\<close> items; items of other widths are copied by \<open>memcpy\<close>.
\<close>

definition COPY_counts :: "nat \<Rightarrow> nat \<Rightarrow> bool" where
  "COPY_counts w N \<longleftrightarrow> (w = 1 \<or> w = 2 \<or> w = 4 \<or> w = 8 \<longrightarrow> N < 2 ^ 31)"

definition COPY_width :: "nat \<Rightarrow> ('b \<Rightarrow> 'b \<Rightarrow> 'b) \<Rightarrow> nat \<Rightarrow> nat \<Rightarrow> 'b \<Rightarrow> 'b \<Rightarrow> 'b" where
  "COPY_width w lng1 N j s d = (if w = 16 then if N < 2 \<and> j = 0 then lng1 s d else d else s)"

definition COPY_item :: "('h, 't) sortenv \<Rightarrow> nat \<Rightarrow> nat \<Rightarrow> 'h \<times> 't \<Rightarrow> 'h \<times> 't \<Rightarrow> 'h \<times> 't" where
  "COPY_item E N j s d =
     (COPY_width (hs E) (lng1h E) N j (fst s) (fst d), COPY_width (ts E) (lng1t E) N j (snd s) (snd d))"

text \<open>Overwriting part of an array; \<open>COPY_anyN\<close> from and to the temporary area; \<open>memmove\<close>.\<close>

definition write_at :: "'a list \<Rightarrow> nat \<Rightarrow> 'a list \<Rightarrow> 'a list" where
  "write_at xs d ys = take d xs @ ys @ drop (d + length ys) xs"

definition COPY_from_temp ::
  "('h, 't) sortenv \<Rightarrow> ('h \<times> 't) list \<Rightarrow> nat \<Rightarrow> (nat \<Rightarrow> 'h \<times> 't) \<Rightarrow> nat \<Rightarrow> nat \<Rightarrow> ('h \<times> 't) list option" where
  "COPY_from_temp E arr d tmp s N =
     (if COPY_counts (hs E) N \<and> COPY_counts (ts E) N
      then Some (write_at arr d (map (\<lambda>j. COPY_item E N j (tmp (s + j)) (arr ! (d + j))) [0..<N]))
      else None)"

definition COPY_to_temp ::
  "('h, 't) sortenv \<Rightarrow> (nat \<Rightarrow> 'h \<times> 't) \<Rightarrow> ('h \<times> 't) list \<Rightarrow> nat \<Rightarrow> nat \<Rightarrow> (nat \<Rightarrow> 'h \<times> 't) option" where
  "COPY_to_temp E tmp arr s N =
     (if COPY_counts (hs E) N \<and> COPY_counts (ts E) N
      then Some (\<lambda>i. if i < N then COPY_item E N i (arr ! (s + i)) (tmp i) else tmp i)
      else None)"

definition memmove :: "'a list \<Rightarrow> nat \<Rightarrow> nat \<Rightarrow> nat \<Rightarrow> 'a list" where
  "memmove arr d s k = write_at arr d (take k (drop s arr))"

section \<open>Short runs\<close>

function reverse_loop :: "nat \<Rightarrow> nat \<Rightarrow> 'a list \<Rightarrow> 'a list" where
  "reverse_loop lo hi xs =
     (if lo < hi then reverse_loop (Suc lo) (hi - 1) (xs[lo := xs ! hi, hi := xs ! lo]) else xs)"
  by pat_completeness auto

termination by (relation "measure (\<lambda>(lo, hi, xs). hi - lo)") auto

declare reverse_loop.simps [simp del]

definition reverse_slice :: "nat \<Rightarrow> nat \<Rightarrow> 'a list \<Rightarrow> 'a list" where
  "reverse_slice lo hi xs = reverse_loop lo (hi - 1) xs"

fun merge_compute_minrun_loop :: "nat \<Rightarrow> nat \<Rightarrow> nat" where
  "merge_compute_minrun_loop r n =
     (if 16 \<le> n then merge_compute_minrun_loop (if odd n then 1 else r) (n div 2) else n + r)"

declare merge_compute_minrun_loop.simps [simp del]

definition merge_compute_minrun :: "nat \<Rightarrow> nat" where
  "merge_compute_minrun n = merge_compute_minrun_loop 0 n"

text \<open>
  \<open>binarysort\<close>: where the pivot belongs, as the two bounds that have met, the slide, and the loop over
  \<open>start\<close>, with their assertions.
\<close>

function pivot_place :: "('a \<Rightarrow> 'a \<Rightarrow> bool) \<Rightarrow> 'a list \<Rightarrow> 'a \<Rightarrow> nat \<Rightarrow> nat \<Rightarrow> nat \<times> nat" where
  "pivot_place lt xs pivot l r =
     (if l < r then
        let p = l + (r - l) div 2
        in if lt pivot (xs ! p) then pivot_place lt xs pivot l p else pivot_place lt xs pivot (p + 1) r
      else (l, r))"
  by pat_completeness auto

termination by (relation "measure (\<lambda>(lt, xs, pivot, l, r). r - l)") auto

declare pivot_place.simps [simp del]

fun slide :: "'a list \<Rightarrow> nat \<Rightarrow> nat \<Rightarrow> 'a list" where
  "slide xs l 0 = xs"
| "slide xs l (Suc p) = (if l < Suc p then slide (xs[Suc p := xs ! p]) l p else xs)"

function binarysort_loop :: "('a \<Rightarrow> 'a \<Rightarrow> bool) \<Rightarrow> nat \<Rightarrow> nat \<Rightarrow> nat \<Rightarrow> 'a list \<Rightarrow> 'a list option" where
  "binarysort_loop lt lo hi start xs =
     (if start < hi then
        if \<not> lo < start then None
        else case pivot_place lt xs (xs ! start) lo start of (l, r) \<Rightarrow>
          if l \<noteq> r then None
          else binarysort_loop lt lo hi (Suc start) ((slide xs l start)[l := xs ! start])
      else Some xs)"
  by pat_completeness auto

termination by (relation "measure (\<lambda>(lt, lo, hi, start, xs). hi - start)") auto

declare binarysort_loop.simps [simp del]

definition binarysort :: "('a \<Rightarrow> 'a \<Rightarrow> bool) \<Rightarrow> nat \<Rightarrow> nat \<Rightarrow> nat \<Rightarrow> 'a list \<Rightarrow> 'a list option" where
  "binarysort lt lo hi start xs =
     (if \<not> (lo \<le> start \<and> start \<le> hi) then None
      else binarysort_loop lt lo hi (if lo = start then Suc start else start) xs)"

text \<open>
  The next run: its length and whether it is descending.  \<open>run_end\<close> is the loop of both cases,
  which goes on while comparing an element with its predecessor gives \<open>down\<close>.
\<close>

function run_end :: "('a \<Rightarrow> 'a \<Rightarrow> bool) \<Rightarrow> bool \<Rightarrow> 'a list \<Rightarrow> nat \<Rightarrow> nat \<Rightarrow> nat \<Rightarrow> nat" where
  "run_end lt down xs hi nlo n =
     (if nlo < hi \<and> lt (xs ! nlo) (xs ! (nlo - 1)) = down then run_end lt down xs hi (Suc nlo) (Suc n) else n)"
  by pat_completeness auto

termination by (relation "measure (\<lambda>(lt, down, xs, hi, nlo, n). hi - nlo)") auto

declare run_end.simps [simp del]

definition count_run :: "('a \<Rightarrow> 'a \<Rightarrow> bool) \<Rightarrow> 'a list \<Rightarrow> nat \<Rightarrow> nat \<Rightarrow> bool \<times> nat" where
  "count_run lt xs lo hi =
     (if lo + 1 = hi then (False, 1)
      else let down = lt (xs ! (lo + 1)) (xs ! lo) in (down, run_end lt down xs hi (lo + 2) 2))"

section \<open>Galloping\<close>

lemma c_cast_64_range: "- (2 ^ 63) \<le> c_cast 64 x" "c_cast 64 x < 2 ^ 63"
  using signed_take_bit_int_greater_eq_minus_exp [of 63 x] signed_take_bit_int_less_exp [of 63 x]
  by (simp_all add: c_cast_def)

lemma c_cast_64_double:
  assumes "- (2 ^ 63) \<le> x" "x < 2 ^ 63" "0 < c_cast 64 (x * 2 + 1)"
  shows "x < c_cast 64 (x * 2 + 1)"
proof (cases "x < 2 ^ 62")
  case True
  show ?thesis
  proof (cases "0 \<le> x")
    case True
    then show ?thesis using \<open>x < 2 ^ 62\<close> c_cast_id [of 64 "x * 2 + 1"] by simp
  qed (use assms in simp)
next
  case False
  have "c_cast 64 (x * 2 + 1) = c_cast 64 (x * 2 + 1 - 2 ^ 64)"
    using minus_mod_self2 [of "x * 2 + 1" "2 ^ 64"]
    by (simp only: c_cast_def signed_take_bit_eq_iff_take_bit_eq take_bit_eq_mod) simp
  also have "\<dots> = x * 2 + 1 - 2 ^ 64"
    using assms(2) False by (intro c_cast_id) auto
  finally show ?thesis using assms by simp
qed

text \<open>
  The search of \<open>gallop_left\<close> and \<open>gallop_right\<close> away from the hint, doubling the offset while
  \<open>P\<close> holds at it.  An offset that overflows \<open>ssize_t\<close> becomes the maximal one, which ends the
  loop.
\<close>

function gallop_loop :: "(int \<Rightarrow> bool) \<Rightarrow> int \<Rightarrow> int \<Rightarrow> int \<Rightarrow> int \<times> int" where
  "gallop_loop P maxofs lastofs ofs =
     (if ofs < maxofs \<and> P ofs then
        let next = c_cast 64 (ofs * 2 + 1)
        in if next \<le> 0 then (ofs, maxofs) else gallop_loop P maxofs ofs next
      else (lastofs, ofs))"
  by pat_completeness auto

termination
proof (relation "measure (\<lambda>(P, maxofs, lastofs, ofs).
    if - (2 ^ 63) \<le> ofs \<and> ofs < 2 ^ 63 then nat (2 ^ 63 - ofs) else nat (2 ^ 65))")
  fix P :: "int \<Rightarrow> bool" and maxofs lastofs ofs x :: int
  assume "x = c_cast 64 (ofs * 2 + 1)" "\<not> x \<le> 0"
  then show "((P, maxofs, ofs, x), (P, maxofs, lastofs, ofs)) \<in> measure (\<lambda>(P, maxofs, lastofs, ofs).
    if - (2 ^ 63) \<le> ofs \<and> ofs < 2 ^ 63 then nat (2 ^ 63 - ofs) else nat (2 ^ 65))"
    using c_cast_64_range [of "ofs * 2 + 1"] c_cast_64_double [of ofs] by auto
qed simp

declare gallop_loop.simps [simp del]

function gallop_binary :: "(int \<Rightarrow> bool) \<Rightarrow> int \<Rightarrow> int \<Rightarrow> int \<times> int" where
  "gallop_binary P lastofs ofs =
     (if lastofs < ofs then
        let m = lastofs + (ofs - lastofs) div 2
        in if P m then gallop_binary P (m + 1) ofs else gallop_binary P lastofs m
      else (lastofs, ofs))"
  by pat_completeness auto

termination by (relation "measure (\<lambda>(P, lastofs, ofs). nat (ofs - lastofs))") auto

declare gallop_binary.simps [simp del]

text \<open>
  Both functions, for the predicate \<open>P\<close> that an element goes before the key: from the hint to
  the right while it holds, or to the left while it does not, then between the last two
  offsets; with the three assertions.
\<close>

definition gallop :: "(int \<Rightarrow> bool) \<Rightarrow> int \<Rightarrow> int \<Rightarrow> int option" where
  "gallop P n hint =
     (if \<not> (0 < n \<and> 0 \<le> hint \<and> hint < n) then None
      else
        case (if P hint
              then let maxofs = n - hint;
                       (lastofs, ofs) = gallop_loop (\<lambda>ofs. P (hint + ofs)) maxofs 0 1;
                       ofs = (if maxofs < ofs then maxofs else ofs)
                   in (lastofs + hint, ofs + hint)
              else let maxofs = hint + 1;
                       (lastofs, ofs) = gallop_loop (\<lambda>ofs. \<not> P (hint - ofs)) maxofs 0 1;
                       ofs = (if maxofs < ofs then maxofs else ofs)
                   in (hint - ofs, hint - lastofs)) of
          (lastofs, ofs) \<Rightarrow>
            if \<not> (- 1 \<le> lastofs \<and> lastofs < ofs \<and> ofs \<le> n) then None
            else case gallop_binary P (lastofs + 1) ofs of
              (lastofs, ofs) \<Rightarrow> if lastofs = ofs then Some ofs else None)"

definition gallop_left :: "('a \<Rightarrow> 'a \<Rightarrow> bool) \<Rightarrow> 'a \<Rightarrow> (nat \<Rightarrow> 'a) \<Rightarrow> nat \<Rightarrow> nat \<Rightarrow> nat option" where
  "gallop_left lt key a n hint = map_option nat (gallop (\<lambda>i. lt (a (nat i)) key) (int n) (int hint))"

definition gallop_right :: "('a \<Rightarrow> 'a \<Rightarrow> bool) \<Rightarrow> 'a \<Rightarrow> (nat \<Rightarrow> 'a) \<Rightarrow> nat \<Rightarrow> nat \<Rightarrow> nat option" where
  "gallop_right lt key a n hint = map_option nat (gallop (\<lambda>i. \<not> lt key (a (nat i))) (int n) (int hint))"

section \<open>Merging two runs\<close>

text \<open>
  The two halves of \<open>merge_at\<close> consist of a straightforward loop and a galloping loop inside an
  endless one, left by jumps to two labels each.  A phase says which loop is running, with the
  numbers of times each run won in a row; one call of the step functions is one iteration.
\<close>

datatype label = SucceedA | CopyB | SucceedB | CopyA

datatype 's phase = Straight nat nat 's | Galloping 's | Goto label 's

subsection \<open>From the left, with the first run in the temporary area\<close>

record 'a lo_vars =
  lo_arr :: "'a list"
  lo_dest :: nat
  lo_pa :: nat
  lo_na :: nat
  lo_pb :: nat
  lo_nb :: nat
  lo_gal :: int

definition lo_take_b :: "'a lo_vars \<Rightarrow> 'a lo_vars" where
  "lo_take_b s = s\<lparr>lo_arr := (lo_arr s)[lo_dest s := lo_arr s ! lo_pb s],
     lo_dest := lo_dest s + 1, lo_pb := lo_pb s + 1, lo_nb := lo_nb s - 1\<rparr>"

definition lo_take_a :: "(nat \<Rightarrow> 'a) \<Rightarrow> 'a lo_vars \<Rightarrow> 'a lo_vars" where
  "lo_take_a tmp s = s\<lparr>lo_arr := (lo_arr s)[lo_dest s := tmp (lo_pa s)],
     lo_dest := lo_dest s + 1, lo_pa := lo_pa s + 1, lo_na := lo_na s - 1\<rparr>"

definition lo_straight ::
  "('h, 't) sortenv \<Rightarrow> (nat \<Rightarrow> 'h \<times> 't) \<Rightarrow> nat \<Rightarrow> nat \<Rightarrow> ('h \<times> 't) lo_vars \<Rightarrow> ('h \<times> 't) lo_vars phase" where
  "lo_straight E tmp acount bcount s =
     (if ISLT E (lo_arr s ! lo_pb s) (tmp (lo_pa s)) then
        let s = lo_take_b s
        in if lo_nb s = 0 then Goto SucceedA s
           else if lo_gal s \<le> int (bcount + 1) then Galloping (s\<lparr>lo_gal := lo_gal s + 1\<rparr>)
           else Straight 0 (bcount + 1) s
      else
        let s = lo_take_a tmp s
        in if lo_na s = 1 then Goto CopyB s
           else if lo_gal s \<le> int (acount + 1) then Galloping (s\<lparr>lo_gal := lo_gal s + 1\<rparr>)
           else Straight (acount + 1) 0 s)"

text \<open>The two block copies of the galloping loop.\<close>

definition lo_gallop_a ::
  "('h, 't) sortenv \<Rightarrow> (nat \<Rightarrow> 'h \<times> 't) \<Rightarrow> ('h \<times> 't) lo_vars \<Rightarrow> (nat \<times> ('h \<times> 't) lo_vars) option" where
  "lo_gallop_a E tmp s = do {
     k \<leftarrow> gallop_right (ISLT E) (lo_arr s ! lo_pb s) (\<lambda>i. tmp (lo_pa s + i)) (lo_na s) 0;
     if k = 0 then Some (k, s)
     else do {
       arr \<leftarrow> COPY_from_temp E (lo_arr s) (lo_dest s) tmp (lo_pa s) k;
       Some (k, s\<lparr>lo_arr := arr, lo_dest := lo_dest s + k, lo_pa := lo_pa s + k, lo_na := lo_na s - k\<rparr>)
     }
   }"

definition lo_gallop_b ::
  "('h, 't) sortenv \<Rightarrow> (nat \<Rightarrow> 'h \<times> 't) \<Rightarrow> ('h \<times> 't) lo_vars \<Rightarrow> (nat \<times> ('h \<times> 't) lo_vars) option" where
  "lo_gallop_b E tmp s = do {
     k \<leftarrow> gallop_left (ISLT E) (tmp (lo_pa s)) (\<lambda>i. lo_arr s ! (lo_pb s + i)) (lo_nb s) 0;
     Some (k, if k = 0 then s
              else s\<lparr>lo_arr := memmove (lo_arr s) (lo_dest s) (lo_pb s) k,
                     lo_dest := lo_dest s + k, lo_pb := lo_pb s + k, lo_nb := lo_nb s - k\<rparr>)
   }"

definition lo_gallop ::
  "('h, 't) sortenv \<Rightarrow> (nat \<Rightarrow> 'h \<times> 't) \<Rightarrow> ('h \<times> 't) lo_vars \<Rightarrow> ('h \<times> 't) lo_vars phase option" where
  "lo_gallop E tmp s = do {
     (acount, s) \<leftarrow> lo_gallop_a E tmp (s\<lparr>lo_gal := lo_gal s - (if 1 < lo_gal s then 1 else 0)\<rparr>);
     if acount \<noteq> 0 \<and> lo_na s = 1 then Some (Goto CopyB s)
     else if acount \<noteq> 0 \<and> lo_na s = 0 then Some (Goto SucceedA s)
     else
       let s = lo_take_b s
       in if lo_nb s = 0 then Some (Goto SucceedA s)
          else do {
            (bcount, s) \<leftarrow> lo_gallop_b E tmp s;
            Some (if bcount \<noteq> 0 \<and> lo_nb s = 0 then Goto SucceedA s
                  else
                    let s = lo_take_a tmp s
                    in if lo_na s = 1 then Goto CopyB s
                       else if MIN_GALLOP \<le> acount \<or> MIN_GALLOP \<le> bcount then Galloping s
                       else Straight 0 0 (s\<lparr>lo_gal := lo_gal s + 1\<rparr>))
          }
   }"

lemma lo_take_sel [simp]:
  "lo_na (lo_take_b s) = lo_na s" "lo_nb (lo_take_b s) = lo_nb s - 1"
  "lo_na (lo_take_a tmp s) = lo_na s - 1" "lo_nb (lo_take_a tmp s) = lo_nb s"
  by (simp_all add: lo_take_b_def lo_take_a_def)

lemma lo_gallop_sel:
  "lo_gallop_a E tmp s = Some (k, s') \<Longrightarrow> lo_na s' = lo_na s - k \<and> lo_nb s' = lo_nb s"
  "lo_gallop_b E tmp s = Some (k, s') \<Longrightarrow> lo_na s' = lo_na s \<and> lo_nb s' = lo_nb s - k"
proof -
  show "lo_gallop_a E tmp s = Some (k, s') \<Longrightarrow> lo_na s' = lo_na s - k \<and> lo_nb s' = lo_nb s"
    by (cases "k = 0")
      (auto simp: lo_gallop_a_def bind_eq_Some_conv Let_def split: if_splits dest: arg_cong [where f = lo_na])
  show "lo_gallop_b E tmp s = Some (k, s') \<Longrightarrow> lo_na s' = lo_na s \<and> lo_nb s' = lo_nb s - k"
    by (cases "k = 0") (auto simp: lo_gallop_b_def bind_eq_Some_conv Let_def split: if_splits)
qed

fun lo_left :: "'a lo_vars phase \<Rightarrow> nat" where
  "lo_left (Straight acount bcount s) = lo_na s + lo_nb s"
| "lo_left (Galloping s) = lo_na s + lo_nb s"
| "lo_left (Goto l s) = 0"

lemma lo_straight_left:
  "1 < lo_na s \<Longrightarrow> 0 < lo_nb s \<Longrightarrow> lo_left (lo_straight E tmp acount bcount s) < lo_na s + lo_nb s"
  by (simp add: lo_straight_def Let_def)

lemma lo_gallop_left:
  assumes "1 < lo_na s" "0 < lo_nb s" "lo_gallop E tmp s = Some ph"
  shows "lo_left ph < lo_na s + lo_nb s"
proof -
  obtain k s1 where a: "lo_gallop_a E tmp (s\<lparr>lo_gal := lo_gal s - (if 1 < lo_gal s then 1 else 0)\<rparr>) = Some (k, s1)"
    using assms(3) unfolding lo_gallop_def by (auto simp: bind_eq_Some_conv)
  show ?thesis
  proof (cases "lo_gallop_b E tmp (lo_take_b s1)")
    case None
    then show ?thesis
      using assms lo_gallop_sel(1) [OF a] unfolding lo_gallop_def a bind.bind_lunit prod.case Let_def
      by (auto split: if_splits)
  next
    case (Some r)
    obtain k' s2 where r: "r = (k', s2)" by fastforce
    show ?thesis
      using assms lo_gallop_sel(1) [OF a] lo_gallop_sel(2) [OF Some [unfolded r]]
      unfolding lo_gallop_def a bind.bind_lunit prod.case Let_def Some r by (auto split: if_splits)
  qed
qed

text \<open>The endless loop, with its assertions \<open>na > 1 && nb > 0\<close>.\<close>

function lo_run ::
  "('h, 't) sortenv \<Rightarrow> (nat \<Rightarrow> 'h \<times> 't) \<Rightarrow> ('h \<times> 't) lo_vars phase \<Rightarrow> (label \<times> ('h \<times> 't) lo_vars) option" where
  "lo_run E tmp (Goto l s) = Some (l, s)"
| "lo_run E tmp (Straight acount bcount s) =
     (if 1 < lo_na s \<and> 0 < lo_nb s then lo_run E tmp (lo_straight E tmp acount bcount s) else None)"
| "lo_run E tmp (Galloping s) =
     (if 1 < lo_na s \<and> 0 < lo_nb s
      then case lo_gallop E tmp s of None \<Rightarrow> None | Some ph \<Rightarrow> lo_run E tmp ph
      else None)"
  by pat_completeness auto

termination
  by (relation "measure (\<lambda>(E, tmp, ph). lo_left ph)") (auto intro: lo_straight_left lo_gallop_left)

definition lo_end ::
  "('h, 't) sortenv \<Rightarrow> (nat \<Rightarrow> 'h \<times> 't) \<Rightarrow> label \<Rightarrow> ('h \<times> 't) lo_vars \<Rightarrow> ('h \<times> 't) list option" where
  "lo_end E tmp l s =
     (if l = CopyB
      then if lo_na s = 1 \<and> 0 < lo_nb s
           then Some ((memmove (lo_arr s) (lo_dest s) (lo_pb s) (lo_nb s))[lo_dest s + lo_nb s := tmp (lo_pa s)])
           else None
      else if lo_na s \<noteq> 0 then COPY_from_temp E (lo_arr s) (lo_dest s) tmp (lo_pa s) (lo_na s)
      else Some (lo_arr s))"

definition merge_lo ::
  "('h, 't) sortenv \<Rightarrow> nat \<Rightarrow> nat \<Rightarrow> nat \<Rightarrow> nat \<Rightarrow> ('h \<times> 't) mergestate \<Rightarrow> (int \<times> ('h \<times> 't) mergestate) option" where
  "merge_lo E pa na pb nb ms =
     (if \<not> (0 < na \<and> 0 < nb \<and> pa + na = pb) then None
      else case MERGE_GETMEMH E na ms of
        (False, ms) \<Rightarrow> Some (- 1, ms)
      | (True, ms) \<Rightarrow>
        (case MERGE_GETMEMT E na ms of
           (False, ms) \<Rightarrow> Some (- 1, ms)
         | (True, ms) \<Rightarrow> do {
             tmp \<leftarrow> COPY_to_temp E (temp ms) (base ms) pa na;
             (l, s) \<leftarrow>
               (let s = lo_take_b \<lparr>lo_arr = base ms, lo_dest = pa, lo_pa = 0, lo_na = na, lo_pb = pb, lo_nb = nb,
                          lo_gal = min_gallop ms\<rparr>
                in if lo_nb s = 0 then Some (SucceedA, s)
                   else if lo_na s = 1 then Some (CopyB, s)
                   else lo_run E tmp (Straight 0 0 s));
             arr \<leftarrow> lo_end E tmp l s;
             Some (0, ms\<lparr>base := arr, temp := tmp, min_gallop := lo_gal s\<rparr>)
           }))"

subsection \<open>From the right, with the second run in the temporary area\<close>

record 'a hi_vars =
  hi_arr :: "'a list"
  hi_dest :: int
  hi_pa :: int
  hi_na :: nat
  hi_pb :: int
  hi_nb :: nat
  hi_gal :: int

definition hi_take_a :: "'a hi_vars \<Rightarrow> 'a hi_vars" where
  "hi_take_a s = s\<lparr>hi_arr := (hi_arr s)[nat (hi_dest s) := hi_arr s ! nat (hi_pa s)],
     hi_dest := hi_dest s - 1, hi_pa := hi_pa s - 1, hi_na := hi_na s - 1\<rparr>"

definition hi_take_b :: "(nat \<Rightarrow> 'a) \<Rightarrow> 'a hi_vars \<Rightarrow> 'a hi_vars" where
  "hi_take_b tmp s = s\<lparr>hi_arr := (hi_arr s)[nat (hi_dest s) := tmp (nat (hi_pb s))],
     hi_dest := hi_dest s - 1, hi_pb := hi_pb s - 1, hi_nb := hi_nb s - 1\<rparr>"

definition hi_straight ::
  "('h, 't) sortenv \<Rightarrow> (nat \<Rightarrow> 'h \<times> 't) \<Rightarrow> nat \<Rightarrow> nat \<Rightarrow> ('h \<times> 't) hi_vars \<Rightarrow> ('h \<times> 't) hi_vars phase" where
  "hi_straight E tmp acount bcount s =
     (if ISLT E (tmp (nat (hi_pb s))) (hi_arr s ! nat (hi_pa s)) then
        let s = hi_take_a s
        in if hi_na s = 0 then Goto SucceedB s
           else if hi_gal s \<le> int (acount + 1) then Galloping (s\<lparr>hi_gal := hi_gal s + 1\<rparr>)
           else Straight (acount + 1) 0 s
      else
        let s = hi_take_b tmp s
        in if hi_nb s = 1 then Goto CopyA s
           else if hi_gal s \<le> int (bcount + 1) then Galloping (s\<lparr>hi_gal := hi_gal s + 1\<rparr>)
           else Straight 0 (bcount + 1) s)"

definition hi_gallop_a ::
  "('h, 't) sortenv \<Rightarrow> nat \<Rightarrow> (nat \<Rightarrow> 'h \<times> 't) \<Rightarrow> ('h \<times> 't) hi_vars \<Rightarrow> (nat \<times> ('h \<times> 't) hi_vars) option" where
  "hi_gallop_a E basea tmp s = do {
     g \<leftarrow> gallop_right (ISLT E) (tmp (nat (hi_pb s))) (\<lambda>i. hi_arr s ! (basea + i)) (hi_na s) (hi_na s - 1);
     let k = hi_na s - g;
     Some (k, if k = 0 then s
              else let s = s\<lparr>hi_dest := hi_dest s - int k, hi_pa := hi_pa s - int k\<rparr>
                in s\<lparr>hi_arr := memmove (hi_arr s) (nat (hi_dest s + 1)) (nat (hi_pa s + 1)) k,
                     hi_na := hi_na s - k\<rparr>)
   }"

definition hi_gallop_b ::
  "('h, 't) sortenv \<Rightarrow> (nat \<Rightarrow> 'h \<times> 't) \<Rightarrow> ('h \<times> 't) hi_vars \<Rightarrow> (nat \<times> ('h \<times> 't) hi_vars) option" where
  "hi_gallop_b E tmp s = do {
     g \<leftarrow> gallop_left (ISLT E) (hi_arr s ! nat (hi_pa s)) tmp (hi_nb s) (hi_nb s - 1);
     let k = hi_nb s - g;
     Some (k, if k = 0 then s
              else let s = s\<lparr>hi_dest := hi_dest s - int k, hi_pb := hi_pb s - int k\<rparr>
                in s\<lparr>hi_arr := write_at (hi_arr s) (nat (hi_dest s + 1))
                       (map (\<lambda>j. tmp (nat (hi_pb s + 1) + j)) [0..<k]),
                     hi_nb := hi_nb s - k\<rparr>)
   }"

definition hi_gallop ::
  "('h, 't) sortenv \<Rightarrow> nat \<Rightarrow> (nat \<Rightarrow> 'h \<times> 't) \<Rightarrow> ('h \<times> 't) hi_vars \<Rightarrow> ('h \<times> 't) hi_vars phase option" where
  "hi_gallop E basea tmp s = do {
     (acount, s) \<leftarrow> hi_gallop_a E basea tmp (s\<lparr>hi_gal := hi_gal s - (if 1 < hi_gal s then 1 else 0)\<rparr>);
     if acount \<noteq> 0 \<and> hi_na s = 0 then Some (Goto SucceedB s)
     else
       let s = hi_take_b tmp s
       in if hi_nb s = 1 then Some (Goto CopyA s)
          else do {
            (bcount, s) \<leftarrow> hi_gallop_b E tmp s;
            Some (if bcount \<noteq> 0 \<and> hi_nb s = 1 then Goto CopyA s
                  else if bcount \<noteq> 0 \<and> hi_nb s = 0 then Goto SucceedB s
                  else
                    let s = hi_take_a s
                    in if hi_na s = 0 then Goto SucceedB s
                       else if MIN_GALLOP \<le> acount \<or> MIN_GALLOP \<le> bcount then Galloping s
                       else Straight 0 0 (s\<lparr>hi_gal := hi_gal s + 1\<rparr>))
          }
   }"

lemma hi_take_sel [simp]:
  "hi_na (hi_take_a s) = hi_na s - 1" "hi_nb (hi_take_a s) = hi_nb s"
  "hi_na (hi_take_b tmp s) = hi_na s" "hi_nb (hi_take_b tmp s) = hi_nb s - 1"
  by (simp_all add: hi_take_b_def hi_take_a_def)

lemma hi_gallop_sel:
  "hi_gallop_a E basea tmp s = Some (k, s') \<Longrightarrow> hi_na s' = hi_na s - k \<and> hi_nb s' = hi_nb s"
  "hi_gallop_b E tmp s = Some (k, s') \<Longrightarrow> hi_na s' = hi_na s \<and> hi_nb s' = hi_nb s - k"
proof -
  show "hi_gallop_a E basea tmp s = Some (k, s') \<Longrightarrow> hi_na s' = hi_na s - k \<and> hi_nb s' = hi_nb s"
    by (cases "k = 0") (auto simp: hi_gallop_a_def bind_eq_Some_conv Let_def split: if_splits)
  show "hi_gallop_b E tmp s = Some (k, s') \<Longrightarrow> hi_na s' = hi_na s \<and> hi_nb s' = hi_nb s - k"
    by (cases "k = 0") (auto simp: hi_gallop_b_def bind_eq_Some_conv Let_def split: if_splits)
qed

fun hi_left :: "'a hi_vars phase \<Rightarrow> nat" where
  "hi_left (Straight acount bcount s) = hi_na s + hi_nb s"
| "hi_left (Galloping s) = hi_na s + hi_nb s"
| "hi_left (Goto l s) = 0"

lemma hi_straight_left:
  "0 < hi_na s \<Longrightarrow> 1 < hi_nb s \<Longrightarrow> hi_left (hi_straight E tmp acount bcount s) < hi_na s + hi_nb s"
  by (simp add: hi_straight_def Let_def)

lemma hi_gallop_left:
  assumes "0 < hi_na s" "1 < hi_nb s" "hi_gallop E basea tmp s = Some ph"
  shows "hi_left ph < hi_na s + hi_nb s"
proof -
  obtain k s1 where a: "hi_gallop_a E basea tmp (s\<lparr>hi_gal := hi_gal s - (if 1 < hi_gal s then 1 else 0)\<rparr>) = Some (k, s1)"
    using assms(3) unfolding hi_gallop_def by (auto simp: bind_eq_Some_conv)
  show ?thesis
  proof (cases "hi_gallop_b E tmp (hi_take_b tmp s1)")
    case None
    then show ?thesis
      using assms hi_gallop_sel(1) [OF a] unfolding hi_gallop_def a bind.bind_lunit prod.case Let_def
      by (auto split: if_splits)
  next
    case (Some r)
    obtain k' s2 where r: "r = (k', s2)" by fastforce
    show ?thesis
      using assms hi_gallop_sel(1) [OF a] hi_gallop_sel(2) [OF Some [unfolded r]]
      unfolding hi_gallop_def a bind.bind_lunit prod.case Let_def Some r by (auto split: if_splits)
  qed
qed

function hi_run ::
  "('h, 't) sortenv \<Rightarrow> nat \<Rightarrow> (nat \<Rightarrow> 'h \<times> 't) \<Rightarrow> ('h \<times> 't) hi_vars phase \<Rightarrow>
    (label \<times> ('h \<times> 't) hi_vars) option" where
  "hi_run E basea tmp (Goto l s) = Some (l, s)"
| "hi_run E basea tmp (Straight acount bcount s) =
     (if 0 < hi_na s \<and> 1 < hi_nb s then hi_run E basea tmp (hi_straight E tmp acount bcount s) else None)"
| "hi_run E basea tmp (Galloping s) =
     (if 0 < hi_na s \<and> 1 < hi_nb s
      then case hi_gallop E basea tmp s of None \<Rightarrow> None | Some ph \<Rightarrow> hi_run E basea tmp ph
      else None)"
  by pat_completeness auto

termination
  by (relation "measure (\<lambda>(E, basea, tmp, ph). hi_left ph)") (auto intro: hi_straight_left hi_gallop_left)

definition hi_end ::
  "('h, 't) sortenv \<Rightarrow> (nat \<Rightarrow> 'h \<times> 't) \<Rightarrow> label \<Rightarrow> ('h \<times> 't) hi_vars \<Rightarrow> ('h \<times> 't) list option" where
  "hi_end E tmp l s =
     (if l = CopyA
      then if hi_nb s = 1 \<and> 0 < hi_na s
           then let s = s\<lparr>hi_dest := hi_dest s - int (hi_na s), hi_pa := hi_pa s - int (hi_na s)\<rparr>
             in Some ((memmove (hi_arr s) (nat (hi_dest s + 1)) (nat (hi_pa s + 1)) (hi_na s))
                        [nat (hi_dest s) := tmp (nat (hi_pb s))])
           else None
      else if hi_nb s \<noteq> 0
      then COPY_from_temp E (hi_arr s) (nat (hi_dest s + 1 - int (hi_nb s))) tmp 0 (hi_nb s)
      else Some (hi_arr s))"

definition merge_hi ::
  "('h, 't) sortenv \<Rightarrow> nat \<Rightarrow> nat \<Rightarrow> nat \<Rightarrow> nat \<Rightarrow> ('h \<times> 't) mergestate \<Rightarrow> (int \<times> ('h \<times> 't) mergestate) option" where
  "merge_hi E pa na pb nb ms =
     (if \<not> (0 < na \<and> 0 < nb \<and> pa + na = pb) then None
      else case MERGE_GETMEMH E nb ms of
        (False, ms) \<Rightarrow> Some (- 1, ms)
      | (True, ms) \<Rightarrow>
        (case MERGE_GETMEMT E nb ms of
           (False, ms) \<Rightarrow> Some (- 1, ms)
         | (True, ms) \<Rightarrow> do {
             tmp \<leftarrow> COPY_to_temp E (temp ms) (base ms) pb nb;
             (l, s) \<leftarrow>
               (let s = hi_take_a \<lparr>hi_arr = base ms, hi_dest = int (pb + nb) - 1, hi_pa = int (pa + na) - 1,
                          hi_na = na, hi_pb = int nb - 1, hi_nb = nb, hi_gal = min_gallop ms\<rparr>
                in if hi_na s = 0 then Some (SucceedB, s)
                   else if hi_nb s = 1 then Some (CopyA, s)
                   else hi_run E pa tmp (Straight 0 0 s));
             arr \<leftarrow> hi_end E tmp l s;
             Some (0, ms\<lparr>base := arr, temp := tmp, min_gallop := hi_gal s\<rparr>)
           }))"

subsection \<open>Merging neighbours on the stack of runs\<close>

definition merge_at :: "('h, 't) sortenv \<Rightarrow> nat \<Rightarrow> ('h \<times> 't) mergestate \<Rightarrow> (int \<times> ('h \<times> 't) mergestate) option" where
  "merge_at E i ms =
     (let p = pending ms; n = length p in
      if \<not> (i + 2 = n \<or> i + 3 = n) then None
      else
        let (pa, na) = p ! i; (pb, nb) = p ! (i + 1) in
        if \<not> (0 < na \<and> 0 < nb \<and> pa + na = pb) then None
        else
          let p = p[i := (pa, na + nb)];
              ms = ms\<lparr>pending := butlast (if i + 3 = n then p[i + 1 := p ! (i + 2)] else p)\<rparr>
          in do {
            k \<leftarrow> gallop_right (ISLT E) (base ms ! pb) (\<lambda>i. base ms ! (pa + i)) na 0;
            let pa = pa + k;
            let na = na - k;
            if na = 0 then Some (0, ms)
            else do {
              nb \<leftarrow> gallop_left (ISLT E) (base ms ! (pa + na - 1)) (\<lambda>i. base ms ! (pb + i)) nb (nb - 1);
              if nb = 0 then Some (0, ms)
              else if na \<le> nb then merge_lo E pa na pb nb ms
              else merge_hi E pa na pb nb ms
            }
          })"

section \<open>The stack of runs\<close>

lemma MERGE_GETMEM_pending:
  "MERGE_GETMEMH E need ms = (ok, ms') \<Longrightarrow> pending ms' = pending ms"
  "MERGE_GETMEMT E need ms = (ok, ms') \<Longrightarrow> pending ms' = pending ms"
  by (auto simp: MERGE_GETMEMH_def MERGE_GETMEMT_def merge_freemem_def split: if_splits)

lemma merge_pending:
  "merge_lo E pa na pb nb ms = Some (r, ms') \<Longrightarrow> pending ms' = pending ms"
  "merge_hi E pa na pb nb ms = Some (r, ms') \<Longrightarrow> pending ms' = pending ms"
  by (auto simp: merge_lo_def merge_hi_def Let_def bind_eq_Some_conv split: prod.splits bool.splits if_splits
      dest!: MERGE_GETMEM_pending)

lemma merge_at_pending:
  assumes "merge_at E i ms = Some (r, ms')"
  shows "length (pending ms') < length (pending ms)"
proof -
  let ?n = "length (pending ms)"
  have i: "i + 2 = ?n \<or> i + 3 = ?n" using assms by (auto simp: merge_at_def Let_def split: if_splits)
  have "length (pending ms') = ?n - 1"
    using assms i unfolding merge_at_def Let_def
    by (auto simp: bind_eq_Some_conv split: prod.splits if_splits dest!: merge_pending)
  then show ?thesis using i by auto
qed

text \<open>
  The loop that restores the stack invariants.  \<open>runlen\<close> is \<open>p[i].len\<close>.
\<close>

definition runlen :: "(nat \<times> nat) list \<Rightarrow> nat \<Rightarrow> nat" where
  "runlen p i = snd (p ! i)"

text \<open>The index at which the loop merges next, if it goes on.\<close>

definition collapse_index :: "(nat \<times> nat) list \<Rightarrow> nat option" where
  "collapse_index p =
     (if 1 < length p then
        let i = length p - 2 in
        if (0 < i \<and> runlen p (i - 1) \<le> runlen p i + runlen p (i + 1)) \<or>
           (1 < i \<and> runlen p (i - 2) \<le> runlen p (i - 1) + runlen p i)
        then Some (if runlen p (i - 1) < runlen p (i + 1) then i - 1 else i)
        else if runlen p i \<le> runlen p (i + 1) then Some i
        else None
      else None)"

definition force_index :: "(nat \<times> nat) list \<Rightarrow> nat option" where
  "force_index p =
     (if 1 < length p then
        let n = length p - 2 in
        Some (if 0 < n \<and> runlen p (n - 1) < runlen p (n + 1) then n - 1 else n)
      else None)"

function merge_while ::
  "((nat \<times> nat) list \<Rightarrow> nat option) \<Rightarrow> ('h, 't) sortenv \<Rightarrow> ('h \<times> 't) mergestate \<Rightarrow>
    (int \<times> ('h \<times> 't) mergestate) option" where
  "merge_while index E ms =
     (case index (pending ms) of
        None \<Rightarrow> Some (0, ms)
      | Some i \<Rightarrow>
          (case merge_at E i ms of
             None \<Rightarrow> None
           | Some (r, ms') \<Rightarrow> if r < 0 then Some (- 1, ms') else merge_while index E ms'))"
  by pat_completeness auto

termination
  by (relation "measure (\<lambda>(index, E, ms). length (pending ms))") (auto dest: merge_at_pending)

declare merge_while.simps [simp del]

section \<open>Sorting\<close>

lemma run_end_ge: "n \<le> run_end lt down xs hi nlo n"
  by (induction lt down xs hi nlo n rule: run_end.induct) (subst run_end.simps, auto)

lemma count_run_pos: "0 < snd (count_run lt xs lo hi)"
  using run_end_ge [of 2 lt "lt (xs ! (lo + 1)) (xs ! lo)" xs hi "lo + 2"]
  by (auto simp: count_run_def Let_def)

text \<open>
  Finding the next run: reversed if it is descending, extended to \<open>minrun\<close> or the end.
\<close>

definition next_run :: "('a \<Rightarrow> 'a \<Rightarrow> bool) \<Rightarrow> nat \<Rightarrow> nat \<Rightarrow> nat \<Rightarrow> nat \<Rightarrow> 'a list \<Rightarrow> (nat \<times> 'a list) option" where
  "next_run lt nremaining lo hi minrun xs =
     (if \<not> lo < hi then None
      else
        case count_run lt xs lo hi of (down, n) \<Rightarrow>
          let xs = (if down then reverse_slice lo (lo + n) xs else xs) in
          if n < minrun then
            let force = (if nremaining \<le> minrun then nremaining else minrun)
            in map_option (\<lambda>xs. (force, xs)) (binarysort lt lo (lo + force) (lo + n) xs)
          else Some (n, xs))"

lemma next_run_less:
  "next_run lt nremaining lo hi minrun xs = Some (n, ys) \<Longrightarrow> 0 < nremaining \<Longrightarrow> nremaining - n < nremaining"
  using count_run_pos [of lt xs lo hi] by (auto simp: next_run_def Let_def split: prod.splits if_splits)

text \<open>
  \<open>do_ssort\<close>: the loop over the runs; \<open>None\<close> is a failed assertion, in particular a push on the
  full stack.
\<close>

function do_ssort ::
  "('h, 't) sortenv \<Rightarrow> nat \<Rightarrow> nat \<Rightarrow> nat \<Rightarrow> nat \<Rightarrow> ('h \<times> 't) mergestate \<Rightarrow>
    (int \<times> ('h \<times> 't) mergestate) option" where
  "do_ssort E nremaining lo hi minrun ms =
     (if nremaining = 0 then
        if lo = hi then merge_while force_index E ms else None
      else if MAX_MERGE_PENDING \<le> length (pending ms) then None
      else
        case next_run (ISLT E) nremaining lo hi minrun (base ms) of
          None \<Rightarrow> None
        | Some (n, xs) \<Rightarrow>
          (case merge_while collapse_index E (ms\<lparr>base := xs, pending := pending ms @ [(lo, n)]\<rparr>) of
             None \<Rightarrow> None
           | Some (r, ms) \<Rightarrow>
               if r < 0 then Some (- 1, ms) else do_ssort E (nremaining - n) (lo + n) hi minrun ms))"
  by pat_completeness auto

termination
  apply (relation "measure (\<lambda>(E, nremaining, lo, hi, minrun, ms). nremaining)")
   apply simp
  apply simp
  apply (auto intro: next_run_less)
  done

declare do_ssort.simps [simp del]

text \<open>\<open>GDKssort\<close> and \<open>GDKssort_rev\<close>, on the items and the initial contents of the temporary area.\<close>

definition GDKssort ::
  "('h, 't) sortenv \<Rightarrow> (nat \<Rightarrow> 'h \<times> 't) \<Rightarrow> ('h \<times> 't) list \<Rightarrow> (int \<times> ('h \<times> 't) list) option" where
  "GDKssort E tmp items =
     (let ms = \<lparr>base = items, temp = tmp, allocedh = MERGESTATE_TEMP_SIZE, allocedt = MERGESTATE_TEMP_SIZE,
            mallocs = 0, min_gallop = int MIN_GALLOP, pending = []\<rparr> in
      if \<not> (0 < hs E \<and> hs E \<le> 16 \<and> ts E \<le> 16) then None
      else if length items < 2 then Some (0, items)
      else
        case do_ssort E (length items) 0 (length items) (merge_compute_minrun (length items)) ms of
          None \<Rightarrow> None
        | Some (r, ms) \<Rightarrow>
            if r < 0 then Some (- 1, base ms)
            else if pending ms = [(0, length items)] then Some (0, base ms)
            else None)"

end
