(* ===== verification/Gdk_Ssort_Merge.thy ===== *)
theory Gdk_Ssort_Merge
  imports Gdk_Ssort
begin

text \<open>
  Correctness of merging two runs.  The specification is a stable merge of two lists; both
  halves of \<open>merge_at\<close> maintain a decomposition of the array into finished part, hole and
  unfinished parts, whose stable merge stays the same.
\<close>

section \<open>Strict weak orders\<close>

locale weak_order =
  fixes lt :: "'a \<Rightarrow> 'a \<Rightarrow> bool"
  assumes lt_asym: "lt x y \<Longrightarrow> \<not> lt y x"
    and not_lt_trans: "\<not> lt x y \<Longrightarrow> \<not> lt y z \<Longrightarrow> \<not> lt x z"
begin

lemma lt_irrefl [simp]: "\<not> lt x x"
  using lt_asym by blast

lemma lt_not_lt_trans: "lt x y \<Longrightarrow> \<not> lt z y \<Longrightarrow> lt x z"
  using not_lt_trans by blast

lemma not_lt_lt_trans: "\<not> lt y x \<Longrightarrow> lt y z \<Longrightarrow> lt x z"
  using not_lt_trans by blast

lemma lt_trans: "lt x y \<Longrightarrow> lt y z \<Longrightarrow> lt x z"
  using lt_asym not_lt_trans by blast

text \<open>Ordered lists, equivalent elements, and permutations that keep equivalent ones in order.\<close>

abbreviation ordered :: "'a list \<Rightarrow> bool" where
  "ordered \<equiv> sorted_wrt (\<lambda>x y. \<not> lt y x)"

definition eqv :: "'a \<Rightarrow> 'a \<Rightarrow> bool" where
  "eqv x y \<longleftrightarrow> \<not> lt x y \<and> \<not> lt y x"

definition stable :: "'a list \<Rightarrow> 'a list \<Rightarrow> bool" where
  "stable xs ys \<longleftrightarrow> mset xs = mset ys \<and> (\<forall>z. filter (eqv z) xs = filter (eqv z) ys)"

lemma stable_refl [simp]: "stable xs xs"
  by (simp add: stable_def)

lemma stable_trans [trans]: "stable xs ys \<Longrightarrow> stable ys zs \<Longrightarrow> stable xs zs"
  by (simp add: stable_def)

lemma stable_append: "stable xs xs' \<Longrightarrow> stable ys ys' \<Longrightarrow> stable (xs @ ys) (xs' @ ys')"
  by (simp add: stable_def)

lemma stable_length: "stable xs ys \<Longrightarrow> length xs = length ys"
  unfolding stable_def using mset_eq_length by blast

text \<open>The stable merge.\<close>

fun smerge :: "'a list \<Rightarrow> 'a list \<Rightarrow> 'a list" where
  "smerge [] ys = ys"
| "smerge (x # xs) [] = x # xs"
| "smerge (x # xs) (y # ys) = (if lt y x then y # smerge (x # xs) ys else x # smerge xs (y # ys))"

lemma smerge_Nil [simp]: "smerge xs [] = xs"
  by (cases xs) auto

lemma mset_smerge [simp]: "mset (smerge xs ys) = mset xs + mset ys"
  by (induction xs ys rule: smerge.induct) auto

lemma set_smerge [simp]: "set (smerge xs ys) = set xs \<union> set ys"
  by (induction xs ys rule: smerge.induct) auto

lemma length_smerge [simp]: "length (smerge xs ys) = length xs + length ys"
  by (induction xs ys rule: smerge.induct) auto

lemma ordered_smerge: "ordered xs \<Longrightarrow> ordered ys \<Longrightarrow> ordered (smerge xs ys)"
proof (induction xs ys rule: smerge.induct)
  case (3 x xs y ys)
  have xs: "\<forall>a\<in>set xs. \<not> lt a x" and ys: "\<forall>a\<in>set ys. \<not> lt a y" using 3(3,4) by auto
  show ?case
  proof (cases "lt y x")
    case True
    then have "\<not> lt a y" if "a \<in> set (smerge (x # xs) ys)" for a
      using that xs ys lt_asym [OF True] not_lt_trans [of a x y] by auto
    moreover have "ordered (smerge (x # xs) ys)" using 3(1) [OF True 3(3)] 3(4) by simp
    ultimately show ?thesis using True by simp
  next
    case False
    then have "\<not> lt a x" if "a \<in> set (smerge xs (y # ys))" for a
      using that xs ys not_lt_trans [of a y x] by auto
    moreover have "ordered (smerge xs (y # ys))" using 3(2) [OF False _ 3(4)] 3(3) by simp
    ultimately show ?thesis using False by simp
  qed
qed auto

lemma filter_smerge:
  "ordered xs \<Longrightarrow> filter (eqv z) (smerge xs ys) = filter (eqv z) xs @ filter (eqv z) ys"
proof (induction xs ys rule: smerge.induct)
  case (3 x xs y ys)
  have none: "filter (eqv z) (x # xs) = []" if "lt y x" "eqv z y"
  proof (rule filter_False, rule ballI)
    fix a assume "a \<in> set (x # xs)"
    then have "\<not> lt a x" using 3(3) by auto
    then have "lt y a" using lt_not_lt_trans [OF that(1)] by blast
    then show "\<not> eqv z a" using that(2) not_lt_trans [of y z a] by (auto simp: eqv_def)
  qed
  show ?case
  proof (cases "lt y x")
    case True
    have "filter (eqv z) (smerge (x # xs) ys) = filter (eqv z) (x # xs) @ filter (eqv z) ys"
      using 3(1) [OF True 3(3)] .
    then show ?thesis using True none by (cases "eqv z y") simp_all
  next
    case False
    have "filter (eqv z) (smerge xs (y # ys)) = filter (eqv z) xs @ filter (eqv z) (y # ys)"
      using 3(2) [OF False] 3(3) by simp
    then show ?thesis using False by (simp del: filter.simps(2) add: filter.simps(2) [of _ x])
  qed
qed auto

lemma stable_smerge: "ordered xs \<Longrightarrow> stable (smerge xs ys) (xs @ ys)"
  by (simp add: stable_def filter_smerge)

text \<open>Peeling blocks off a merge, on the left and on the right.\<close>

lemma smerge_left_a: "\<forall>x\<in>set xs. ys \<noteq> [] \<longrightarrow> \<not> lt (hd ys) x \<Longrightarrow> smerge (xs @ xs') ys = xs @ smerge xs' ys"
  by (cases ys; induction xs) auto

lemma smerge_left_b: "\<forall>y\<in>set ys. lt y x \<Longrightarrow> smerge (x # xs) (ys @ ys') = ys @ smerge (x # xs) ys'"
  by (induction ys) auto

lemma smerge_right_a1: "\<forall>y\<in>set ys. lt y a \<Longrightarrow> smerge (xs @ [a]) ys = smerge xs ys @ [a]"
proof (induction xs ys rule: smerge.induct)
  case (1 ys)
  then show ?case using smerge_left_b [of ys a "[]" "[]"] by simp
qed auto

lemma smerge_right_b1: "\<forall>x\<in>set xs. \<not> lt b x \<Longrightarrow> smerge xs (ys @ [b]) = smerge xs ys @ [b]"
proof (induction xs ys rule: smerge.induct)
  case (2 x xs)
  then show ?case using smerge_left_a [of "x # xs" "[b]" "[]"] by simp
qed auto

lemma smerge_right_a: "\<forall>a\<in>set as. \<forall>y\<in>set ys. lt y a \<Longrightarrow> smerge (xs @ as) ys = smerge xs ys @ as"
proof (induction as rule: rev_induct)
  case (snoc a as)
  then show ?case using smerge_right_a1 [of ys a "xs @ as"] by simp
qed simp

lemma smerge_right_b: "\<forall>b\<in>set bs. \<forall>x\<in>set xs. \<not> lt b x \<Longrightarrow> smerge xs (ys @ bs) = smerge xs ys @ bs"
proof (induction bs rule: rev_induct)
  case (snoc b bs)
  then show ?case using smerge_right_b1 [of xs b "ys @ bs"] by simp
qed simp

end

section \<open>Galloping finds the place\<close>

lemma gallop_loop_spec:
  assumes "gallop_loop P maxofs lastofs ofs = (l, r)"
    and "0 \<le> lastofs" "lastofs < ofs" "lastofs < maxofs" "lastofs = 0 \<or> P lastofs" "maxofs < 2 ^ 63"
  shows "0 \<le> l \<and> l < r \<and> l < maxofs \<and> (l = 0 \<or> P l) \<and> (r < maxofs \<longrightarrow> \<not> P r)"
  using assms
proof (induction P maxofs lastofs ofs rule: gallop_loop.induct)
  case (1 P maxofs lastofs ofs)
  let ?next = "c_cast 64 (ofs * 2 + 1)"
  show ?case
  proof (cases "ofs < maxofs \<and> P ofs \<and> 0 < ?next")
    case True
    then have "ofs < ?next" using 1(7) 1(3,4) by (intro c_cast_64_double) auto
    then show ?thesis
      using 1(1) [of ?next] 1(2,3,4,7) True by (simp add: gallop_loop.simps [of P maxofs lastofs ofs])
  next
    case False
    then show ?thesis
      using 1(2-7) by (auto simp: gallop_loop.simps [of P maxofs lastofs ofs] Let_def split: if_splits)
  qed
qed

lemma gallop_binary_meet:
  "lo \<le> hi \<Longrightarrow> fst (gallop_binary P lo hi) = snd (gallop_binary P lo hi)"
proof (induction P lo hi rule: gallop_binary.induct)
  case (1 P lo hi)
  define m where "m = lo + (hi - lo) div 2"
  have "gallop_binary P lo hi =
    (if lo < hi then if P m then gallop_binary P (m + 1) hi else gallop_binary P lo m else (lo, hi))"
    unfolding m_def Let_def by (rule gallop_binary.simps [unfolded Let_def])
  moreover have "m + 1 \<le> hi" "lo \<le> m" if "lo < hi" using that by (auto simp: m_def)
  ultimately show ?case using 1(1) [OF _ m_def] 1(2) [OF _ m_def] 1(3) by auto
qed

lemma gallop_binary_spec:
  assumes "lo \<le> hi" "\<And>i j. lo \<le> i \<Longrightarrow> i < j \<Longrightarrow> j < hi \<Longrightarrow> P j \<Longrightarrow> P i"
  shows "lo \<le> snd (gallop_binary P lo hi) \<and> snd (gallop_binary P lo hi) \<le> hi \<and>
    (\<forall>i. lo \<le> i \<and> i < snd (gallop_binary P lo hi) \<longrightarrow> P i) \<and>
    (\<forall>i. snd (gallop_binary P lo hi) \<le> i \<and> i < hi \<longrightarrow> \<not> P i)"
  using assms
proof (induction P lo hi rule: gallop_binary.induct)
  case (1 P lo hi)
  show ?case
  proof (cases "lo < hi")
    case True
    define m where "m = lo + (hi - lo) div 2"
    have m: "lo \<le> m" "m < hi" using True by (auto simp: m_def)
    show ?thesis
    proof (cases "P m")
      case True
      have eq: "snd (gallop_binary P lo hi) = snd (gallop_binary P (m + 1) hi)"
        using \<open>lo < hi\<close> True by (subst gallop_binary.simps) (simp add: m_def Let_def)
      have "P i" if "lo \<le> i" "i < m + 1" for i
        using 1(4) [of i m] that m True by (cases "i = m") auto
      moreover have "m + 1 \<le> snd (gallop_binary P (m + 1) hi) \<and> snd (gallop_binary P (m + 1) hi) \<le> hi \<and>
        (\<forall>i. m + 1 \<le> i \<and> i < snd (gallop_binary P (m + 1) hi) \<longrightarrow> P i) \<and>
        (\<forall>i. snd (gallop_binary P (m + 1) hi) \<le> i \<and> i < hi \<longrightarrow> \<not> P i)"
        using m 1(4) by (intro 1(1) [OF \<open>lo < hi\<close> m_def True]) auto
      ultimately show ?thesis unfolding eq using m by (smt (verit))
    next
      case False
      have eq: "snd (gallop_binary P lo hi) = snd (gallop_binary P lo m)"
        using \<open>lo < hi\<close> False by (subst gallop_binary.simps) (simp add: m_def Let_def)
      have "\<not> P i" if "m \<le> i" "i < hi" for i
        using 1(4) [of m i] that m False by (cases "i = m") auto
      moreover have "lo \<le> snd (gallop_binary P lo m) \<and> snd (gallop_binary P lo m) \<le> m \<and>
        (\<forall>i. lo \<le> i \<and> i < snd (gallop_binary P lo m) \<longrightarrow> P i) \<and>
        (\<forall>i. snd (gallop_binary P lo m) \<le> i \<and> i < m \<longrightarrow> \<not> P i)"
        using m 1(4) by (intro 1(2) [OF \<open>lo < hi\<close> m_def False]) auto
      ultimately show ?thesis unfolding eq using m by (smt (verit))
    qed
  next
    case False
    then have "snd (gallop_binary P lo hi) = hi" by (subst gallop_binary.simps) simp
    then show ?thesis using False 1(3) by auto
  qed
qed

lemma gallop_spec:
  assumes hint: "0 \<le> hint" "hint < n" "n < 2 ^ 63"
    and mono: "\<And>i j. 0 \<le> i \<Longrightarrow> i < j \<Longrightarrow> j < n \<Longrightarrow> P j \<Longrightarrow> P i"
  shows "\<exists>g. gallop P n hint = Some g \<and> 0 \<le> g \<and> g \<le> n \<and>
    (\<forall>i. 0 \<le> i \<and> i < g \<longrightarrow> P i) \<and> (\<forall>i. g \<le> i \<and> i < n \<longrightarrow> \<not> P i)"
proof -
  define final where "final lo hi =
    (if \<not> (- 1 \<le> lo \<and> lo < hi \<and> hi \<le> n) then None
     else case gallop_binary P (lo + 1) hi of (lo, hi) \<Rightarrow> if lo = hi then Some hi else None)" for lo hi
  obtain lo hi where g: "gallop P n hint = final lo hi"
    and lo: "- 1 \<le> lo" "lo < hi" "hi \<le> n" "lo = - 1 \<or> P lo" "hi < n \<longrightarrow> \<not> P hi"
  proof (cases "P hint")
    case True
    obtain l r where lr: "gallop_loop (\<lambda>ofs. P (hint + ofs)) (n - hint) 0 1 = (l, r)" by fastforce
    have "0 \<le> l \<and> l < r \<and> l < n - hint \<and> (l = 0 \<or> P (hint + l)) \<and> (r < n - hint \<longrightarrow> \<not> P (hint + r))"
      using gallop_loop_spec [OF lr] hint by simp
    moreover have "gallop P n hint = final (l + hint) ((if n - hint < r then n - hint else r) + hint)"
      using True hint by (simp add: gallop_def final_def lr Let_def)
    ultimately show ?thesis
      using True hint
      by (intro that [of "l + hint" "(if n - hint < r then n - hint else r) + hint"]) (auto simp: add.commute)
  next
    case False
    obtain l r where lr: "gallop_loop (\<lambda>ofs. \<not> P (hint - ofs)) (hint + 1) 0 1 = (l, r)" by fastforce
    have "0 \<le> l \<and> l < r \<and> l < hint + 1 \<and> (l = 0 \<or> \<not> P (hint - l)) \<and> (r < hint + 1 \<longrightarrow> P (hint - r))"
      using gallop_loop_spec [OF lr] hint by simp
    moreover have "gallop P n hint = final (hint - (if hint + 1 < r then hint + 1 else r)) (hint - l)"
      using False hint by (simp add: gallop_def final_def lr Let_def)
    ultimately show ?thesis
      using False hint
      by (intro that [of "hint - (if hint + 1 < r then hint + 1 else r)" "hint - l"]) auto
  qed
  define g where "g = snd (gallop_binary P (lo + 1) hi)"
  have "gallop P n hint = Some g"
    using lo gallop_binary_meet [of "lo + 1" hi P]
    by (cases "gallop_binary P (lo + 1) hi") (simp add: g final_def g_def)
  moreover have "lo + 1 \<le> g \<and> g \<le> hi \<and> (\<forall>i. lo + 1 \<le> i \<and> i < g \<longrightarrow> P i) \<and>
    (\<forall>i. g \<le> i \<and> i < hi \<longrightarrow> \<not> P i)"
    unfolding g_def using lo mono by (intro gallop_binary_spec) auto
  moreover have "P i" if "0 \<le> i" "i < lo + 1" for i
    using that lo mono [of i lo] by (cases "i = lo") auto
  moreover have "\<not> P i" if "hi \<le> i" "i < n" for i
    using that lo mono [of hi i] by (cases "i = hi") auto
  ultimately show ?thesis using lo by (smt (verit))
qed

text \<open>The same on the elements of a list, for a predicate that holds of a prefix of it.\<close>

lemma gallop_list_spec:
  assumes hint: "hint < length xs" "length xs < 2 ^ 63"
    and mono: "\<And>i j. i < j \<Longrightarrow> j < length xs \<Longrightarrow> Q (xs ! j) \<Longrightarrow> Q (xs ! i)"
    and a: "\<And>i. i < length xs \<Longrightarrow> a i = xs ! i"
  obtains k where "map_option nat (gallop (\<lambda>i. Q (a (nat i))) (int (length xs)) (int hint)) = Some k"
    "k \<le> length xs" "\<forall>x\<in>set (take k xs). Q x" "\<forall>x\<in>set (drop k xs). \<not> Q x"
proof -
  let ?P = "\<lambda>i. Q (a (nat i))"
  have "?P i" if "0 \<le> i" "i < j" "j < int (length xs)" "?P j" for i j
    using that mono [of "nat i" "nat j"] a [of "nat i"] a [of "nat j"] by simp
  then obtain g where g: "gallop ?P (int (length xs)) (int hint) = Some g" "0 \<le> g" "g \<le> int (length xs)"
    "\<And>i. 0 \<le> i \<Longrightarrow> i < g \<Longrightarrow> ?P i" "\<And>i. g \<le> i \<Longrightarrow> i < int (length xs) \<Longrightarrow> \<not> ?P i"
    using gallop_spec [of "int hint" "int (length xs)" ?P] hint by auto
  show ?thesis
  proof (rule that [of "nat g"])
    show "map_option nat (gallop ?P (int (length xs)) (int hint)) = Some (nat g)" by (simp add: g(1))
    show "nat g \<le> length xs" using g(3) by simp
    show "\<forall>x\<in>set (take (nat g) xs). Q x"
    proof
      fix x assume "x \<in> set (take (nat g) xs)"
      then obtain i where i: "i < nat g" "i < length xs" "x = xs ! i" by (auto simp: in_set_conv_nth)
      then show "Q x" using g(4) [of "int i"] a [of i] by simp
    qed
    show "\<forall>x\<in>set (drop (nat g) xs). \<not> Q x"
    proof
      fix x assume "x \<in> set (drop (nat g) xs)"
      then obtain j where "j < length (drop (nat g) xs)" "x = drop (nat g) xs ! j" by (metis in_set_conv_nth)
      then obtain i where i: "nat g + i < length xs" "x = xs ! (nat g + i)" by (intro that [of j]) auto
      have "\<not> ?P (int (nat g + i))" using i(1) by (intro g(5)) linarith+
      then show "\<not> Q x" using a [of "nat g + i"] i unfolding nat_int by simp
    qed
  qed
qed

context weak_order
begin

lemma ordered_nth: "ordered xs \<Longrightarrow> i < j \<Longrightarrow> j < length xs \<Longrightarrow> \<not> lt (xs ! j) (xs ! i)"
  by (rule sorted_wrt_nth_less)

lemma gallop_right_spec:
  assumes "hint < length xs" "length xs < 2 ^ 63" "ordered xs" "\<And>i. i < length xs \<Longrightarrow> a i = xs ! i"
  obtains k where "gallop_right lt key a (length xs) hint = Some k" "k \<le> length xs"
    "\<forall>x\<in>set (take k xs). \<not> lt key x" "\<forall>x\<in>set (drop k xs). lt key x"
proof (rule gallop_list_spec [of hint xs "\<lambda>x. \<not> lt key x" a])
  show "\<not> lt key (xs ! i)" if "i < j" "j < length xs" "\<not> lt key (xs ! j)" for i j
    using not_lt_trans [OF that(3) ordered_nth [OF assms(3) that(1,2)]] .
qed (use assms that in \<open>auto simp: gallop_right_def\<close>)

lemma gallop_left_spec:
  assumes "hint < length xs" "length xs < 2 ^ 63" "ordered xs" "\<And>i. i < length xs \<Longrightarrow> a i = xs ! i"
  obtains k where "gallop_left lt key a (length xs) hint = Some k" "k \<le> length xs"
    "\<forall>x\<in>set (take k xs). lt x key" "\<forall>x\<in>set (drop k xs). \<not> lt x key"
proof (rule gallop_list_spec [of hint xs "\<lambda>x. lt x key" a])
  show "lt (xs ! i) key" if "i < j" "j < length xs" "lt (xs ! j) key" for i j
    using not_lt_lt_trans [OF ordered_nth [OF assms(3) that(1,2)] that(3)] .
qed (use assms that in \<open>auto simp: gallop_left_def\<close>)

end

section \<open>Copying\<close>

lemma write_at_append: "length ys = length h \<Longrightarrow> write_at (xs @ h @ zs) (length xs) ys = xs @ ys @ zs"
  by (simp add: write_at_def)

lemma nth_hole: "length h = k \<Longrightarrow> (xs @ h @ y # zs) ! (length xs + k) = y"
  using nth_append_length [of "xs @ h" y zs] by simp

lemma slice_hole: "length h = k \<Longrightarrow> take (length ys) (drop (length xs + k) (xs @ h @ ys @ zs)) = ys"
  by simp

text \<open>
  Moving a block over a hole in front of it: the block arrives, the hole keeps its size.
\<close>

lemma memmove_left:
  "\<exists>h'. length h' = length h \<and>
    memmove (xs @ h @ ys @ zs) (length xs) (length xs + length h) (length ys) = xs @ ys @ h' @ zs"
  by (rule exI [of _ "drop (length ys) (h @ ys)"])
    (simp add: memmove_def write_at_def drop_append)

lemma memmove_right:
  "\<exists>h'. length h' = length h \<and>
    memmove (xs @ ys @ h @ zs) (length xs + length h) (length xs) (length ys) = xs @ h' @ ys @ zs"
  by (rule exI [of _ "take (length h) (ys @ h)"])
    (simp add: memmove_def write_at_def drop_append)

text \<open>The temporary area holds a list from some position on.\<close>

definition temp_holds :: "(nat \<Rightarrow> 'a) \<Rightarrow> nat \<Rightarrow> 'a list \<Rightarrow> bool" where
  "temp_holds tmp k xs \<longleftrightarrow> (\<forall>i<length xs. tmp (k + i) = xs ! i)"

lemma temp_holds_Cons: "temp_holds tmp k (x # xs) \<longleftrightarrow> tmp k = x \<and> temp_holds tmp (k + 1) xs"
  unfolding temp_holds_def by (auto simp: nth_Cons split: nat.splits)

lemma temp_holds_append:
  "temp_holds tmp k (xs @ ys) \<longleftrightarrow> temp_holds tmp k xs \<and> temp_holds tmp (k + length xs) ys"
  by (induction xs arbitrary: k) (simp_all add: temp_holds_Cons temp_holds_def [of _ _ "[]"])

lemma temp_holds_map: "temp_holds tmp k xs \<Longrightarrow> map (\<lambda>j. tmp (k + j)) [0..<length xs] = xs"
  by (intro nth_equalityI) (auto simp: temp_holds_def)

text \<open>
  The environment of a sort whose items are not two \<open>lng\<close>s wide, so that \<open>COPY_anyN\<close> copies.
\<close>

locale sort_order = weak_order "ISLT E" for E :: "('h, 't) sortenv" +
  assumes narrow: "hs E \<noteq> 16" "ts E \<noteq> 16"
begin

lemma COPY_item_eq [simp]: "COPY_item E N j s d = s"
  using narrow by (simp add: COPY_item_def COPY_width_def)

lemma COPY_from_temp_eq:
  "N < 2 ^ 31 \<Longrightarrow> COPY_from_temp E arr d tmp s N = Some (write_at arr d (map (\<lambda>j. tmp (s + j)) [0..<N]))"
  by (simp add: COPY_from_temp_def COPY_counts_def)

lemma COPY_to_temp_eq:
  assumes "N < 2 ^ 31"
  obtains tmp' where "COPY_to_temp E tmp arr s N = Some tmp'" "\<And>i. i < N \<Longrightarrow> tmp' i = arr ! (s + i)"
  using assms by (simp add: COPY_to_temp_def COPY_counts_def)

section \<open>Merging from the left\<close>

text \<open>
  The array is a finished part, a hole as long as the rest \<open>as\<close> of the first run, the rest
  \<open>bs\<close> of the second run, and what follows; \<open>res\<close> is the array that is to come out.
\<close>

definition lo_rep ::
  "('h \<times> 't) list \<Rightarrow> (nat \<Rightarrow> 'h \<times> 't) \<Rightarrow> ('h \<times> 't) list \<Rightarrow> ('h \<times> 't) list \<Rightarrow> ('h \<times> 't) lo_vars \<Rightarrow> bool" where
  "lo_rep res tmp as bs s \<longleftrightarrow>
     (\<exists>xs h zs. lo_arr s = xs @ h @ bs @ zs \<and> res = xs @ smerge as bs @ zs \<and>
        length h = length as \<and> lo_dest s = length xs \<and> lo_na s = length as \<and>
        lo_pb s = length xs + length as \<and> lo_nb s = length bs) \<and>
     temp_holds tmp (lo_pa s) as \<and>
     ordered as \<and> ordered bs \<and> (as \<noteq> [] \<longrightarrow> (\<forall>b\<in>set bs. ISLT E b (last as))) \<and>
     length res < 2 ^ 63 \<and> length as < 2 ^ 31"

lemma lo_take_b_rep:
  assumes "lo_rep res tmp (a # as) (b # bs) s" "ISLT E b a"
  shows "lo_rep res tmp (a # as) bs (lo_take_b s)"
proof -
  obtain xs h zs where r: "lo_arr s = xs @ h @ (b # bs) @ zs" "res = xs @ smerge (a # as) (b # bs) @ zs"
    "length h = length (a # as)" "lo_dest s = length xs" "lo_na s = length (a # as)"
    "lo_pb s = length xs + length (a # as)" "lo_nb s = length (b # bs)"
    using assms(1) unfolding lo_rep_def by blast
  obtain y h' where h: "h = y # h'" using r(3) by (cases h) auto
  have "lo_arr s ! lo_pb s = b" using r(3) nth_hole [OF r(3), of xs b "bs @ zs"] by (simp only: r(1,6) append_Cons)
  then have "lo_arr (lo_take_b s) = (xs @ [b]) @ (h' @ [b]) @ bs @ zs"
    by (simp add: lo_take_b_def r(1,4) h)
  moreover have "res = (xs @ [b]) @ smerge (a # as) bs @ zs" using assms(2) by (simp add: r(2))
  ultimately have "\<exists>xs h zs. lo_arr (lo_take_b s) = xs @ h @ bs @ zs \<and> res = xs @ smerge (a # as) bs @ zs \<and>
      length h = length (a # as) \<and> lo_dest (lo_take_b s) = length xs \<and> lo_na (lo_take_b s) = length (a # as) \<and>
      lo_pb (lo_take_b s) = length xs + length (a # as) \<and> lo_nb (lo_take_b s) = length bs"
    using r h by (intro exI [of _ "xs @ [b]"] exI [of _ "h' @ [b]"] exI [of _ zs]) (simp add: lo_take_b_def)
  then show ?thesis using assms(1) by (simp add: lo_rep_def lo_take_b_def)
qed

lemma lo_take_a_rep:
  assumes "lo_rep res tmp (a # as) bs s" "bs \<noteq> [] \<Longrightarrow> \<not> ISLT E (hd bs) a"
  shows "lo_rep res tmp as bs (lo_take_a tmp s)"
proof -
  obtain xs h zs where r: "lo_arr s = xs @ h @ bs @ zs" "res = xs @ smerge (a # as) bs @ zs"
    "length h = length (a # as)" "lo_dest s = length xs" "lo_na s = length (a # as)"
    "lo_pb s = length xs + length (a # as)" "lo_nb s = length bs"
    using assms(1) unfolding lo_rep_def by blast
  obtain y h' where h: "h = y # h'" using r(3) by (cases h) auto
  have t: "tmp (lo_pa s) = a" "temp_holds tmp (lo_pa s + 1) as"
    using assms(1) by (auto simp: lo_rep_def temp_holds_Cons)
  have "lo_arr (lo_take_a tmp s) = (xs @ [a]) @ h' @ bs @ zs"
    by (simp add: lo_take_a_def r(1,4) h t(1))
  moreover have "res = (xs @ [a]) @ smerge as bs @ zs"
    using assms(2) smerge_left_a [of "[a]" bs as] by (simp add: r(2))
  ultimately have "\<exists>xs h zs. lo_arr (lo_take_a tmp s) = xs @ h @ bs @ zs \<and> res = xs @ smerge as bs @ zs \<and>
      length h = length as \<and> lo_dest (lo_take_a tmp s) = length xs \<and> lo_na (lo_take_a tmp s) = length as \<and>
      lo_pb (lo_take_a tmp s) = length xs + length as \<and> lo_nb (lo_take_a tmp s) = length bs"
    using r h by (intro exI [of _ "xs @ [a]"] exI [of _ h'] exI [of _ zs]) (simp add: lo_take_a_def)
  moreover have "as \<noteq> [] \<longrightarrow> (\<forall>b\<in>set bs. ISLT E b (last as))"
    using assms(1) by (auto simp: lo_rep_def)
  ultimately show ?thesis using assms(1) t(2) by (simp add: lo_rep_def lo_take_a_def)
qed

lemma lo_rep_sel:
  assumes "lo_rep res tmp as bs s"
  shows "lo_na s = length as" "lo_nb s = length bs" "temp_holds tmp (lo_pa s) as" "ordered as" "ordered bs"
    "length as < 2 ^ 63" "length bs < 2 ^ 63" "i < length bs \<Longrightarrow> lo_arr s ! (lo_pb s + i) = bs ! i"
    "length as < 2 ^ 31"
proof -
  obtain xs h zs where r: "lo_arr s = xs @ h @ bs @ zs" "res = xs @ smerge as bs @ zs"
    "length h = length as" "lo_na s = length as" "lo_pb s = length xs + length as" "lo_nb s = length bs"
    using assms unfolding lo_rep_def by blast
  show "lo_na s = length as" "lo_nb s = length bs" using r by simp_all
  show "temp_holds tmp (lo_pa s) as" "ordered as" "ordered bs" using assms by (auto simp: lo_rep_def)
  have "length res < 2 ^ 63" using assms by (simp add: lo_rep_def)
  then show "length as < 2 ^ 63" "length bs < 2 ^ 63" using r(2) by simp_all
  show "length as < 2 ^ 31" using assms by (simp add: lo_rep_def)
  show "lo_arr s ! (lo_pb s + i) = bs ! i" if "i < length bs"
    using that r(3) by (simp add: r(1,5) nth_append)
qed

lemma lo_block_a:
  assumes "lo_rep res tmp (as @ as') bs s" "\<forall>x\<in>set as. bs \<noteq> [] \<longrightarrow> \<not> ISLT E (hd bs) x"
  shows "\<exists>arr. COPY_from_temp E (lo_arr s) (lo_dest s) tmp (lo_pa s) (length as) = Some arr \<and>
    lo_rep res tmp as' bs (s\<lparr>lo_arr := arr, lo_dest := lo_dest s + length as, lo_pa := lo_pa s + length as,
      lo_na := lo_na s - length as\<rparr>)"
proof -
  obtain xs h zs where r: "lo_arr s = xs @ h @ bs @ zs" "res = xs @ smerge (as @ as') bs @ zs"
    "length h = length (as @ as')" "lo_dest s = length xs" "lo_na s = length (as @ as')"
    "lo_pb s = length xs + length (as @ as')" "lo_nb s = length bs"
    using assms(1) unfolding lo_rep_def by blast
  obtain h1 h2 where h: "h = h1 @ h2" "length h1 = length as" "length h2 = length as'"
    using r(3) that [of "take (length as) h" "drop (length as) h"] by simp
  have t: "temp_holds tmp (lo_pa s) as" "temp_holds tmp (lo_pa s + length as) as'"
    using assms(1) by (auto simp: lo_rep_def temp_holds_append)
  have short: "length as < 2 ^ 31" using assms(1) by (simp add: lo_rep_def)
  define arr where "arr = (xs @ as) @ h2 @ bs @ zs"
  let ?s = "s\<lparr>lo_arr := arr, lo_dest := lo_dest s + length as, lo_pa := lo_pa s + length as,
    lo_na := lo_na s - length as\<rparr>"
  have copy: "COPY_from_temp E (lo_arr s) (lo_dest s) tmp (lo_pa s) (length as) = Some arr"
    using write_at_append [of as h1 xs "h2 @ bs @ zs"] h(2)
    by (simp add: COPY_from_temp_eq [OF short] arr_def r(1,4) h(1) temp_holds_map [OF t(1)])
  have "res = (xs @ as) @ smerge as' bs @ zs"
    using assms(2) by (simp add: r(2) smerge_left_a)
  then have "\<exists>xs h zs. lo_arr ?s = xs @ h @ bs @ zs \<and> res = xs @ smerge as' bs @ zs \<and>
      length h = length as' \<and> lo_dest ?s = length xs \<and> lo_na ?s = length as' \<and>
      lo_pb ?s = length xs + length as' \<and> lo_nb ?s = length bs"
    using r h by (intro exI [of _ "xs @ as"] exI [of _ h2] exI [of _ zs]) (simp add: arr_def)
  moreover have "as' \<noteq> [] \<longrightarrow> (\<forall>b\<in>set bs. ISLT E b (last as'))"
    using assms(1) by (auto simp: lo_rep_def)
  ultimately have "lo_rep res tmp as' bs ?s" using assms(1) t(2) by (simp add: lo_rep_def sorted_wrt_append)
  with copy show ?thesis by blast
qed

lemma lo_block_b:
  assumes "lo_rep res tmp (a # as) (bs @ bs') s" "\<forall>y\<in>set bs. ISLT E y a"
  shows "lo_rep res tmp (a # as) bs'
    (s\<lparr>lo_arr := memmove (lo_arr s) (lo_dest s) (lo_pb s) (length bs),
       lo_dest := lo_dest s + length bs, lo_pb := lo_pb s + length bs, lo_nb := lo_nb s - length bs\<rparr>)"
    (is "lo_rep _ _ _ _ ?s")
proof -
  obtain xs h zs where r: "lo_arr s = xs @ h @ (bs @ bs') @ zs" "res = xs @ smerge (a # as) (bs @ bs') @ zs"
    "length h = length (a # as)" "lo_dest s = length xs" "lo_na s = length (a # as)"
    "lo_pb s = length xs + length (a # as)" "lo_nb s = length (bs @ bs')"
    using assms(1) unfolding lo_rep_def by blast
  obtain h' where h: "length h' = length h"
    "memmove (xs @ h @ bs @ bs' @ zs) (length xs) (length xs + length h) (length bs) = xs @ bs @ h' @ bs' @ zs"
    using memmove_left [of h xs bs "bs' @ zs"] by blast
  have "lo_arr ?s = (xs @ bs) @ h' @ bs' @ zs"
    using h(2) r(3) by (simp add: r(1,4,6))
  moreover have "res = (xs @ bs) @ smerge (a # as) bs' @ zs"
    using assms(2) by (simp add: r(2) smerge_left_b)
  ultimately have "\<exists>xs h zs. lo_arr ?s = xs @ h @ bs' @ zs \<and> res = xs @ smerge (a # as) bs' @ zs \<and>
      length h = length (a # as) \<and> lo_dest ?s = length xs \<and> lo_na ?s = length (a # as) \<and>
      lo_pb ?s = length xs + length (a # as) \<and> lo_nb ?s = length bs'"
    using r h by (intro exI [of _ "xs @ bs"] exI [of _ h'] exI [of _ zs]) simp
  then show ?thesis using assms(1) by (simp add: lo_rep_def sorted_wrt_append)
qed

lemma take_drop_split:
  "k \<le> length xs \<Longrightarrow> \<exists>ys zs. xs = ys @ zs \<and> length ys = k \<and> ys = take k xs \<and> zs = drop k xs"
  by (intro exI [of _ "take k xs"] exI [of _ "drop k xs"]) simp

lemma lo_gallop_a_rep:
  assumes "lo_rep res tmp as (b # bs) s" "as \<noteq> []"
  obtains k s' as1 as2 where "lo_gallop_a E tmp s = Some (k, s')" "as = as1 @ as2" "length as1 = k"
    "lo_rep res tmp as2 (b # bs) s'" "\<forall>x\<in>set as2. ISLT E b x"
proof -
  note r = lo_rep_sel [OF assms(1)]
  have key: "lo_arr s ! lo_pb s = b" using r(8) [of 0] by simp
  obtain k where k: "gallop_right (ISLT E) (lo_arr s ! lo_pb s) (\<lambda>i. tmp (lo_pa s + i)) (lo_na s) 0 = Some k"
    and g: "k \<le> length as" "\<forall>x\<in>set (take k as). \<not> ISLT E b x" "\<forall>x\<in>set (drop k as). ISLT E b x"
    using gallop_right_spec [of 0 as "\<lambda>i. tmp (lo_pa s + i)" b] r assms(2)
    unfolding key r(1) by (auto simp: temp_holds_def)
  obtain as1 as2 where as: "as = as1 @ as2" "length as1 = k" "as1 = take k as" "as2 = drop k as"
    using take_drop_split [OF g(1)] by blast
  have "\<exists>s'. lo_gallop_a E tmp s = Some (k, s') \<and> lo_rep res tmp as2 (b # bs) s'"
  proof (cases "k = 0")
    case True
    then have "as2 = as" using as(1,2) by simp
    then show ?thesis using assms(1) True by (simp add: lo_gallop_a_def k)
  next
    case False
    have "\<forall>x\<in>set as1. b # bs \<noteq> [] \<longrightarrow> \<not> ISLT E (hd (b # bs)) x" using g(2) as(3) by simp
    from lo_block_a [OF assms(1) [unfolded as(1)] this] False show ?thesis
      by (auto simp: lo_gallop_a_def k as(2))
  qed
  then show thesis using that as(1,2) g(3) unfolding as(4) [symmetric] by blast
qed

lemma lo_gallop_b_rep:
  assumes "lo_rep res tmp (a # as) bs s" "bs \<noteq> []"
  obtains k s' bs1 bs2 where "lo_gallop_b E tmp s = Some (k, s')" "bs = bs1 @ bs2" "length bs1 = k"
    "lo_rep res tmp (a # as) bs2 s'" "\<forall>y\<in>set bs2. \<not> ISLT E y a"
proof -
  note r = lo_rep_sel [OF assms(1)]
  have key: "tmp (lo_pa s) = a" using r(3) by (simp add: temp_holds_Cons)
  obtain k where k: "gallop_left (ISLT E) (tmp (lo_pa s)) (\<lambda>i. lo_arr s ! (lo_pb s + i)) (lo_nb s) 0 = Some k"
    and g: "k \<le> length bs" "\<forall>x\<in>set (take k bs). ISLT E x a" "\<forall>x\<in>set (drop k bs). \<not> ISLT E x a"
    using gallop_left_spec [of 0 bs "\<lambda>i. lo_arr s ! (lo_pb s + i)" a] r assms(2)
    unfolding key r(2) by auto
  obtain bs1 bs2 where bs: "bs = bs1 @ bs2" "length bs1 = k" "bs1 = take k bs" "bs2 = drop k bs"
    using take_drop_split [OF g(1)] by blast
  have "\<exists>s'. lo_gallop_b E tmp s = Some (k, s') \<and> lo_rep res tmp (a # as) bs2 s'"
  proof (cases "k = 0")
    case True
    then have "bs2 = bs" using bs(1,2) by simp
    then show ?thesis using assms(1) True by (simp add: lo_gallop_b_def k)
  next
    case False
    have "\<forall>x\<in>set bs1. ISLT E x a" using g(2) bs(3) by simp
    from lo_block_b [OF assms(1) [unfolded bs(1)] this] False show ?thesis
      by (simp add: lo_gallop_b_def k bs(2))
  qed
  then show thesis using that bs(1,2) g(3) unfolding bs(4) [symmetric] by blast
qed

lemma lo_rep_gal [simp]: "lo_rep res tmp as bs (s\<lparr>lo_gal := g\<rparr>) = lo_rep res tmp as bs s"
  by (simp add: lo_rep_def)

text \<open>What holds of a phase: the loops have work to do, the labels the work they expect.\<close>

definition lo_busy :: "('h \<times> 't) list \<Rightarrow> (nat \<Rightarrow> 'h \<times> 't) \<Rightarrow> ('h \<times> 't) lo_vars \<Rightarrow> bool" where
  "lo_busy res tmp s \<longleftrightarrow> (\<exists>as bs. lo_rep res tmp as bs s \<and> 1 < length as \<and> bs \<noteq> [])"

definition lo_at :: "('h \<times> 't) list \<Rightarrow> (nat \<Rightarrow> 'h \<times> 't) \<Rightarrow> label \<Rightarrow> ('h \<times> 't) lo_vars \<Rightarrow> bool" where
  "lo_at res tmp l s \<longleftrightarrow> (\<exists>as bs. lo_rep res tmp as bs s \<and>
     (l = CopyB \<and> length as = 1 \<and> bs \<noteq> [] \<or> l = SucceedA \<and> (as = [] \<or> bs = [])))"

fun lo_ok :: "('h \<times> 't) list \<Rightarrow> (nat \<Rightarrow> 'h \<times> 't) \<Rightarrow> ('h \<times> 't) lo_vars phase \<Rightarrow> bool" where
  "lo_ok res tmp (Straight acount bcount s) = lo_busy res tmp s"
| "lo_ok res tmp (Galloping s) = lo_busy res tmp s"
| "lo_ok res tmp (Goto l s) = lo_at res tmp l s"

lemma lo_busy_gal [simp]: "lo_busy res tmp (s\<lparr>lo_gal := g\<rparr>) = lo_busy res tmp s"
  by (simp add: lo_busy_def)

text \<open>After one more item of either run, the exits are taken exactly when due.\<close>

lemma lo_after:
  assumes "lo_rep res tmp as bs s"
  shows "as \<noteq> [] \<Longrightarrow> lo_nb s = 0 \<Longrightarrow> lo_at res tmp SucceedA s"
    "lo_na s = 0 \<Longrightarrow> lo_at res tmp SucceedA s"
    "lo_na s = 1 \<Longrightarrow> lo_nb s \<noteq> 0 \<Longrightarrow> lo_at res tmp CopyB s"
    "1 < lo_na s \<Longrightarrow> lo_nb s \<noteq> 0 \<Longrightarrow> lo_busy res tmp s"
  using assms lo_rep_sel(1,2) [OF assms] unfolding lo_at_def lo_busy_def by auto

lemma lo_straight_ok:
  assumes "lo_busy res tmp s"
  shows "lo_ok res tmp (lo_straight E tmp acount bcount s)"
proof -
  obtain a as b bs where r: "lo_rep res tmp (a # as) (b # bs) s" "as \<noteq> []"
    using assms unfolding lo_busy_def by (metis One_nat_def length_Suc_conv length_greater_0_conv
        less_numeral_extra(4) list.exhaust list.size(3) list.size(4) less_one not_less_zero plus_1_eq_Suc)
  have key: "lo_arr s ! lo_pb s = b" "tmp (lo_pa s) = a"
    using lo_rep_sel(8) [OF r(1), of 0] lo_rep_sel(3) [OF r(1)] by (simp_all add: temp_holds_Cons)
  show ?thesis
  proof (cases "ISLT E b a")
    case True
    note n = lo_take_b_rep [OF r(1) True]
    show ?thesis
      using True lo_after [OF n] lo_rep_sel(1) [OF r(1)] r(2)
      by (auto simp: lo_straight_def key Let_def)
  next
    case False
    note n = lo_take_a_rep [OF r(1), simplified, OF False]
    show ?thesis
      using False lo_after [OF n] lo_rep_sel(1,2) [OF r(1)] lo_rep_sel(1,2) [OF n] r(2)
      by (cases as) (auto simp: lo_straight_def key Let_def)
  qed
qed

lemma lo_gallop_ok:
  assumes "lo_busy res tmp s0"
  shows "\<exists>ph. lo_gallop E tmp s0 = Some ph \<and> lo_ok res tmp ph"
proof -
  define s where "s = s0\<lparr>lo_gal := lo_gal s0 - (if 1 < lo_gal s0 then 1 else 0)\<rparr>"
  obtain as b bs where r: "lo_rep res tmp as (b # bs) s" "as \<noteq> []" "1 < length as"
    using assms unfolding lo_busy_def s_def by (metis lo_rep_gal list.exhaust list.size(3) not_one_less_zero)
  obtain acount s1 as1 as2 where s1: "lo_gallop_a E tmp s = Some (acount, s1)"
    and as: "as = as1 @ as2" "length as1 = acount" "lo_rep res tmp as2 (b # bs) s1"
    "\<forall>x\<in>set as2. ISLT E b x"
    using lo_gallop_a_rep [OF r(1,2)] .
  note sel1 = lo_rep_sel(1,2) [OF as(3)]
  define s2 where "s2 = lo_take_b s1"
  note def = lo_gallop_def [of E tmp s0, folded s_def, unfolded s1 bind.bind_lunit prod.case Let_def, folded s2_def]
  show ?thesis
  proof (cases "acount \<noteq> 0 \<and> lo_na s1 \<le> 1")
    case True
    then show ?thesis
      using lo_after(2,3) [OF as(3)] sel1(2) unfolding def by (auto simp: le_Suc_eq)
  next
    case False
    have "1 < length as2"
      using False sel1 as(1,2) r(3) by (cases "acount = 0") auto
    then obtain a as' where as2: "as2 = a # as'" "as' \<noteq> []" by (cases as2) auto
    have r2: "lo_rep res tmp (a # as') bs s2"
      using lo_take_b_rep as(3,4) unfolding as2 s2_def by simp
    note sel2 = lo_rep_sel(1,2) [OF r2]
    show ?thesis
    proof (cases "lo_nb s2 = 0")
      case True
      then show ?thesis using False lo_after(1) [OF r2] unfolding def by auto
    next
      case nb: False
      then have "bs \<noteq> []" using sel2 by auto
      from lo_gallop_b_rep [OF r2 this]
      obtain bcount s3 bs1 bs2 where s3: "lo_gallop_b E tmp s2 = Some (bcount, s3)" and bs: "bs = bs1 @ bs2" "length bs1 = bcount" "lo_rep res tmp (a # as') bs2 s3"
        "\<forall>y\<in>set bs2. \<not> ISLT E y a" .
      note sel3 = lo_rep_sel(1,2) [OF bs(3)]
      show ?thesis
      proof (cases "bcount \<noteq> 0 \<and> lo_nb s3 = 0")
        case True
        then show ?thesis using False nb lo_after(1) [OF bs(3)] unfolding def s3 by auto
      next
        case go: False
        have "bs2 \<noteq> []" using go sel2 sel3 nb bs(1,2) by auto
        have "lo_rep res tmp as' bs2 (lo_take_a tmp s3)"
          using bs(4) \<open>bs2 \<noteq> []\<close> by (intro lo_take_a_rep [OF bs(3)]) (cases bs2, auto)
        note after = lo_after [OF this] lo_rep_sel(1,2) [OF this]
        show ?thesis
          using False nb go after as2(2) \<open>bs2 \<noteq> []\<close> unfolding def s3 by (cases as') auto
      qed
    qed
  qed
qed

lemma lo_busy_guard: "lo_busy res tmp s \<Longrightarrow> 1 < lo_na s \<and> 0 < lo_nb s"
  unfolding lo_busy_def using lo_rep_sel(1,2) by fastforce

lemma lo_run_ok:
  "lo_ok res tmp ph \<Longrightarrow> \<exists>l s. lo_run E tmp ph = Some (l, s) \<and> lo_at res tmp l s"
proof (induction "lo_left ph" arbitrary: ph rule: less_induct)
  case less
  show ?case
  proof (cases ph)
    case (Straight acount bcount s)
    then have b: "lo_busy res tmp s" using less.prems by simp
    note g = lo_busy_guard [OF b]
    show ?thesis
      using less.hyps [OF _ lo_straight_ok [OF b]] lo_straight_left [of s E tmp acount bcount] g Straight by simp
  next
    case (Galloping s)
    then have b: "lo_busy res tmp s" using less.prems by simp
    note g = lo_busy_guard [OF b]
    obtain ph' where ph': "lo_gallop E tmp s = Some ph'" "lo_ok res tmp ph'" using lo_gallop_ok [OF b] by blast
    show ?thesis
      using less.hyps [OF _ ph'(2)] lo_gallop_left [OF _ _ ph'(1)] g Galloping ph'(1) by simp
  qed (use less.prems in auto)
qed

text \<open>The code after the labels completes the array.\<close>

lemma lo_end_ok:
  assumes "lo_at res tmp l s"
  shows "lo_end E tmp l s = Some res"
proof -
  obtain as bs where r: "lo_rep res tmp as bs s"
    and l: "l = CopyB \<and> length as = 1 \<and> bs \<noteq> [] \<or> l = SucceedA \<and> (as = [] \<or> bs = [])"
    using assms unfolding lo_at_def by blast
  obtain xs h zs where a: "lo_arr s = xs @ h @ bs @ zs" "res = xs @ smerge as bs @ zs"
    "length h = length as" "lo_dest s = length xs" "lo_na s = length as"
    "lo_pb s = length xs + length as" "lo_nb s = length bs"
    using r unfolding lo_rep_def by blast
  note t = lo_rep_sel(3) [OF r] and short = lo_rep_sel(9) [OF r]
  show ?thesis
  proof (cases "l = CopyB")
    case True
    then obtain x where x: "as = [x]" "bs \<noteq> []" using l by (cases as) auto
    obtain h' where h: "length h' = length h"
      "memmove (xs @ h @ bs @ zs) (length xs) (length xs + length h) (length bs) = xs @ bs @ h' @ zs"
      using memmove_left by blast
    obtain y where y: "h' = [y]" using h(1) a(3) x by (cases h') auto
    have "lo_end E tmp l s = Some ((xs @ bs @ [y] @ zs)[length xs + length bs := x])"
      using True h(2) t by (simp add: lo_end_def a x y temp_holds_Cons)
    also have "(xs @ bs @ [y] @ zs)[length xs + length bs := x] = xs @ bs @ [x] @ zs"
      using list_update_length [of "xs @ bs" y zs x] by simp
    also have "smerge [x] bs = bs @ [x]"
      using r x smerge_left_b [of bs x "[]" "[]"] by (auto simp: lo_rep_def)
    then have "xs @ bs @ [x] @ zs = res" by (simp add: a(2) x)
    finally show ?thesis .
  next
    case False
    then consider "as = []" | "bs = []" "as \<noteq> []" using l by auto
    then show ?thesis
    proof cases
      case 1
      then show ?thesis using False a by (simp add: lo_end_def)
    next
      case 2
      have "write_at (xs @ h @ zs) (length xs) as = xs @ as @ zs"
        using a(3) by (intro write_at_append) simp
      then show ?thesis
        using False 2 by (simp add: lo_end_def COPY_from_temp_eq [OF short] a temp_holds_map [OF t])
    qed
  qed
qed

text \<open>
  The whole of \<open>merge_lo\<close>: it fails only for lack of memory, and then leaves the array alone.
\<close>

lemma getmem_base:
  "MERGE_GETMEMH E need ms = (ok, ms') \<Longrightarrow> base ms' = base ms"
  "MERGE_GETMEMT E need ms = (ok, ms') \<Longrightarrow> base ms' = base ms"
  "MERGE_GETMEMH E need ms = (ok, ms') \<Longrightarrow> \<forall>k. granted E k \<Longrightarrow> ok"
  "MERGE_GETMEMT E need ms = (ok, ms') \<Longrightarrow> \<forall>k. granted E k \<Longrightarrow> ok"
  by (auto simp: MERGE_GETMEMH_def MERGE_GETMEMT_def merge_freemem_def split: if_splits)

lemma merge_lo_ok:
  assumes arr: "base ms = xs @ as @ (b # bs) @ zs" "pa = length xs" "na = length as" "pb = pa + na"
      "nb = length (b # bs)" "length (base ms) < 2 ^ 63" "na < 2 ^ 31"
    and as: "ordered as" "as \<noteq> []" and bs: "ordered (b # bs)"
    and first: "ISLT E b (hd as)" and last: "\<forall>y\<in>set (b # bs). ISLT E y (last as)"
  shows "\<exists>r ms'. merge_lo E pa na pb nb ms = Some (r, ms') \<and>
    (r = 0 \<and> base ms' = xs @ smerge as (b # bs) @ zs \<or> r = - 1 \<and> base ms' = base ms) \<and>
    ((\<forall>k. granted E k) \<longrightarrow> r = 0)"
proof -
  obtain ok1 ms1 where m1: "MERGE_GETMEMH E na ms = (ok1, ms1)" by fastforce
  obtain ok2 ms2 where m2: "MERGE_GETMEMT E na ms1 = (ok2, ms2)" by fastforce
  note base = getmem_base(1) [OF m1] getmem_base(2) [OF m2]
  consider "\<not> ok1" | "ok1" "\<not> ok2" | "ok1" "ok2" by blast
  then show ?thesis
  proof cases
    case 1
    then show ?thesis using m1 base getmem_base(3) [OF m1] arr(3-5) as(2) by (auto simp: merge_lo_def)
  next
    case 2
    then show ?thesis using m1 m2 base getmem_base(4) [OF m2] arr(3-5) as(2) by (auto simp: merge_lo_def)
  next
    case 3
    obtain tmp where tmp: "COPY_to_temp E (temp ms2) (base ms2) pa na = Some tmp"
      "\<And>i. i < na \<Longrightarrow> tmp i = base ms2 ! (pa + i)"
      using COPY_to_temp_eq [OF arr(7)] by blast
    define s0 where "s0 = \<lparr>lo_arr = base ms2, lo_dest = pa, lo_pa = 0, lo_na = na, lo_pb = pb, lo_nb = nb,
      lo_gal = min_gallop ms2\<rparr>"
    define s1 where "s1 = lo_take_b s0"
    define res where "res = xs @ smerge as (b # bs) @ zs"
    have "temp_holds tmp 0 as"
      using tmp(2) by (simp add: temp_holds_def base arr(1-3) nth_append)
    then have r0: "lo_rep res tmp as (b # bs) s0"
      unfolding lo_rep_def s0_def res_def using arr as bs last base
      by (intro conjI exI [of _ xs] exI [of _ as] exI [of _ zs]) auto
    obtain a as' where a: "as = a # as'" using as(2) by (cases as) auto
    have r1: "lo_rep res tmp as bs s1"
      using lo_take_b_rep [OF r0 [unfolded a]] first unfolding a s1_def by simp
    define go where "go = (if lo_nb s1 = 0 then Some (SucceedA, s1)
      else if lo_na s1 = 1 then Some (CopyB, s1) else lo_run E tmp (Straight 0 0 s1))"
    have "\<exists>l s. go = Some (l, s) \<and> lo_at res tmp l s"
    proof (cases "lo_nb s1 = 0 \<or> lo_na s1 = 1")
      case True
      then show ?thesis using lo_after(1,3) [OF r1] as(2) by (auto simp: go_def)
    next
      case False
      have "lo_na s1 \<noteq> 0" using lo_rep_sel(1) [OF r1] as(2) by simp
      then have "lo_ok res tmp (Straight 0 0 s1)" using False lo_after(4) [OF r1] by simp
      from lo_run_ok [OF this] False show ?thesis by (simp only: go_def de_Morgan_disj if_False)
    qed
    then obtain l s where go: "go = Some (l, s)" "lo_at res tmp l s" by blast
    have "0 < na" "0 < nb" "pa + na = pb" using arr(3-5) as(2) by simp_all
    then have "merge_lo E pa na pb nb ms =
      Option.bind go (\<lambda>(l, s). Option.bind (lo_end E tmp l s)
        (\<lambda>arr. Some (0, ms2\<lparr>base := arr, temp := tmp, min_gallop := lo_gal s\<rparr>)))"
      using 3 m1 m2 tmp(1) unfolding merge_lo_def Let_def go_def s1_def s0_def by (simp del: lo_run.simps)
    then show ?thesis by (simp add: go(1) lo_end_ok [OF go(2)] res_def)
  qed
qed

end

end
