(* ===== verification/Gdk_Ssort_Hi.thy ===== *)
theory Gdk_Ssort_Hi
  imports Gdk_Ssort_Merge
begin

text \<open>
  The half of \<open>merge_at\<close> that merges from the right, with the second run in the temporary area,
  and \<open>merge_at\<close> itself: two neighbouring ordered runs become their stable merge.
\<close>

context sort_order
begin

section \<open>Merging from the right\<close>

text \<open>
  Here the hole, as long as the rest of the second run, follows the rest of the first run, and
  the finished part is at the right.
\<close>

definition hi_rep ::
  "('h \<times> 't) list \<Rightarrow> nat \<Rightarrow> (nat \<Rightarrow> 'h \<times> 't) \<Rightarrow> ('h \<times> 't) list \<Rightarrow> ('h \<times> 't) list \<Rightarrow> ('h \<times> 't) hi_vars \<Rightarrow> bool" where
  "hi_rep res basea tmp as bs s \<longleftrightarrow>
     (\<exists>xs h zs. hi_arr s = xs @ as @ h @ zs \<and> res = xs @ smerge as bs @ zs \<and>
        length h = length bs \<and> basea = length xs \<and>
        hi_dest s = int (length xs + length as + length bs) - 1 \<and> hi_na s = length as \<and>
        hi_pa s = int (length xs + length as) - 1 \<and> hi_nb s = length bs \<and> hi_pb s = int (length bs) - 1) \<and>
     temp_holds tmp 0 bs \<and>
     ordered as \<and> ordered bs \<and> (bs \<noteq> [] \<longrightarrow> (\<forall>a\<in>set as. ISLT E (hd bs) a)) \<and>
     length res < 2 ^ 63 \<and> length bs < 2 ^ 31"

lemma hi_rep_gal [simp]: "hi_rep res basea tmp as bs (s\<lparr>hi_gal := g\<rparr>) = hi_rep res basea tmp as bs s"
  by (simp add: hi_rep_def)

lemma hi_rep_sel:
  assumes "hi_rep res basea tmp as bs s"
  shows "hi_na s = length as" "hi_nb s = length bs" "temp_holds tmp 0 bs" "ordered as" "ordered bs"
    "length as < 2 ^ 63" "length bs < 2 ^ 63" "i < length as \<Longrightarrow> hi_arr s ! (basea + i) = as ! i"
    "nat (hi_pb s) = length bs - 1" "as \<noteq> [] \<Longrightarrow> nat (hi_pa s) = basea + (length as - 1)"
    "length bs < 2 ^ 31"
proof -
  obtain xs h zs where r: "hi_arr s = xs @ as @ h @ zs" "res = xs @ smerge as bs @ zs"
    "hi_na s = length as" "basea = length xs" "hi_nb s = length bs" "hi_pb s = int (length bs) - 1"
    "hi_pa s = int (length xs + length as) - 1"
    using assms unfolding hi_rep_def by blast
  show "hi_na s = length as" "hi_nb s = length bs" "nat (hi_pb s) = length bs - 1" using r by simp_all
  show "as \<noteq> [] \<Longrightarrow> nat (hi_pa s) = basea + (length as - 1)" using r(4,7) by (cases as) auto
  show "temp_holds tmp 0 bs" "ordered as" "ordered bs" "length bs < 2 ^ 31" using assms by (auto simp: hi_rep_def)
  have "length res < 2 ^ 63" using assms by (simp add: hi_rep_def)
  then show "length as < 2 ^ 63" "length bs < 2 ^ 63" using r(2) by simp_all
  show "hi_arr s ! (basea + i) = as ! i" if "i < length as"
    using that by (simp add: r(1,4) nth_append)
qed

lemma hi_rep_last:
  "hi_rep res basea tmp (as @ [a]) bs s \<Longrightarrow> hi_arr s ! nat (hi_pa s) = a"
  "hi_rep res basea tmp as (bs @ [b]) s \<Longrightarrow> tmp (nat (hi_pb s)) = b"
  using hi_rep_sel(8) [of res basea tmp "as @ [a]" bs s "length as"] hi_rep_sel(10) [of res basea tmp "as @ [a]" bs s]
    hi_rep_sel(3,9) [of res basea tmp as "bs @ [b]" s]
  by (auto simp: temp_holds_append temp_holds_def)

lemma hi_take_a_arr: "hi_arr (hi_take_a s) = (hi_arr s)[nat (hi_dest s) := hi_arr s ! nat (hi_pa s)]"
  by (simp add: hi_take_a_def)

lemma hi_take_a_rep:
  assumes "hi_rep res basea tmp (as @ [a]) bs s" "\<forall>y\<in>set bs. ISLT E y a"
  shows "hi_rep res basea tmp as bs (hi_take_a s)"
proof -
  obtain xs h zs where r: "hi_arr s = xs @ (as @ [a]) @ h @ zs" "res = xs @ smerge (as @ [a]) bs @ zs"
    "length h = length bs" "basea = length xs" "hi_dest s = int (length xs + length (as @ [a]) + length bs) - 1"
    "hi_na s = length (as @ [a])" "hi_pa s = int (length xs + length (as @ [a])) - 1"
    "hi_nb s = length bs" "hi_pb s = int (length bs) - 1"
    using assms(1) unfolding hi_rep_def by blast
  obtain h' y where h: "a # h = h' @ [y]" by (metis rev_exhaust list.distinct(1))
  have lh: "length h' = length h" using arg_cong [OF h, of length] by simp
  have d: "nat (hi_dest s) = length (xs @ as @ h')" using r(3,5) lh by simp
  have "xs @ (as @ [a]) @ h @ zs = (xs @ as @ h') @ y # zs" using h by simp
  then have "hi_arr (hi_take_a s) = ((xs @ as @ h') @ y # zs)[length (xs @ as @ h') := a]"
    using hi_rep_last(1) [OF assms(1)] d r(1) by (simp only: hi_take_a_arr)
  also have "\<dots> = xs @ as @ h' @ a # zs"
    using list_update_length [of "xs @ as @ h'" y zs a] by simp
  finally have "hi_arr (hi_take_a s) = xs @ as @ h' @ a # zs" .
  moreover have "res = xs @ smerge as bs @ a # zs"
    using smerge_right_a1 [OF assms(2)] by (simp add: r(2))
  ultimately have "\<exists>xs h zs. hi_arr (hi_take_a s) = xs @ as @ h @ zs \<and> res = xs @ smerge as bs @ zs \<and>
        length h = length bs \<and> basea = length xs \<and>
        hi_dest (hi_take_a s) = int (length xs + length as + length bs) - 1 \<and> hi_na (hi_take_a s) = length as \<and>
        hi_pa (hi_take_a s) = int (length xs + length as) - 1 \<and> hi_nb (hi_take_a s) = length bs \<and>
        hi_pb (hi_take_a s) = int (length bs) - 1"
    using r lh by (intro exI [of _ xs] exI [of _ h'] exI [of _ "a # zs"]) (simp add: hi_take_a_def)
  then show ?thesis using assms(1) by (simp add: hi_rep_def hi_take_a_def sorted_wrt_append)
qed

lemma hi_take_b_rep:
  assumes "hi_rep res basea tmp as (bs @ [b]) s" "\<forall>x\<in>set as. \<not> ISLT E b x"
  shows "hi_rep res basea tmp as bs (hi_take_b tmp s)"
proof -
  obtain xs h zs where r: "hi_arr s = xs @ as @ h @ zs" "res = xs @ smerge as (bs @ [b]) @ zs"
    "length h = length (bs @ [b])" "basea = length xs" "hi_dest s = int (length xs + length as + length (bs @ [b])) - 1"
    "hi_na s = length as" "hi_pa s = int (length xs + length as) - 1"
    "hi_nb s = length (bs @ [b])" "hi_pb s = int (length (bs @ [b])) - 1"
    using assms(1) unfolding hi_rep_def by blast
  obtain h' y where h: "h = h' @ [y]" using r(3) by (metis append_is_Nil_conv length_0_conv not_Cons_self2 rev_exhaust)
  have d: "nat (hi_dest s) = length (xs @ as @ h')" using r(3,5) h by simp
  have "hi_arr (hi_take_b tmp s) = ((xs @ as @ h') @ y # zs)[length (xs @ as @ h') := b]"
    using hi_rep_last(2) [OF assms(1)] by (simp add: hi_take_b_def d r(1) h)
  also have "\<dots> = xs @ as @ h' @ b # zs"
    using list_update_length [of "xs @ as @ h'" y zs b] by simp
  finally have "hi_arr (hi_take_b tmp s) = xs @ as @ h' @ b # zs" .
  moreover have "res = xs @ smerge as bs @ b # zs"
    using smerge_right_b1 [OF assms(2)] by (simp add: r(2))
  ultimately have "\<exists>xs h zs. hi_arr (hi_take_b tmp s) = xs @ as @ h @ zs \<and> res = xs @ smerge as bs @ zs \<and>
        length h = length bs \<and> basea = length xs \<and>
        hi_dest (hi_take_b tmp s) = int (length xs + length as + length bs) - 1 \<and> hi_na (hi_take_b tmp s) = length as \<and>
        hi_pa (hi_take_b tmp s) = int (length xs + length as) - 1 \<and> hi_nb (hi_take_b tmp s) = length bs \<and>
        hi_pb (hi_take_b tmp s) = int (length bs) - 1"
    using r h by (intro exI [of _ xs] exI [of _ h'] exI [of _ "b # zs"]) (simp add: hi_take_b_def)
  moreover have "bs \<noteq> [] \<longrightarrow> (\<forall>a\<in>set as. ISLT E (hd bs) a)" using assms(1) by (auto simp: hi_rep_def)
  ultimately show ?thesis using assms(1) by (simp add: hi_rep_def hi_take_b_def sorted_wrt_append temp_holds_append)
qed

lemma hi_block_a:
  assumes "hi_rep res basea tmp (as @ as') bs s" "\<forall>a\<in>set as'. \<forall>y\<in>set bs. ISLT E y a"
  shows "hi_rep res basea tmp as bs
    (s\<lparr>hi_dest := hi_dest s - int (length as'), hi_pa := hi_pa s - int (length as'),
       hi_arr := memmove (hi_arr s) (nat (hi_dest s - int (length as') + 1)) (nat (hi_pa s - int (length as') + 1))
         (length as'),
       hi_na := hi_na s - length as'\<rparr>)"
    (is "hi_rep _ _ _ _ _ ?s")
proof -
  obtain xs h zs where r: "hi_arr s = xs @ (as @ as') @ h @ zs" "res = xs @ smerge (as @ as') bs @ zs"
    "length h = length bs" "basea = length xs" "hi_dest s = int (length xs + length (as @ as') + length bs) - 1"
    "hi_na s = length (as @ as')" "hi_pa s = int (length xs + length (as @ as')) - 1"
    "hi_nb s = length bs" "hi_pb s = int (length bs) - 1"
    using assms(1) unfolding hi_rep_def by blast
  obtain h' where h: "length h' = length h"
    "memmove ((xs @ as) @ as' @ h @ zs) (length (xs @ as) + length h) (length (xs @ as)) (length as') =
      (xs @ as) @ h' @ as' @ zs"
    using memmove_right [of h "xs @ as" as' zs] by blast
  have "nat (hi_dest s - int (length as') + 1) = length (xs @ as) + length h"
    "nat (hi_pa s - int (length as') + 1) = length (xs @ as)"
    using r(3) by (simp_all add: r(5,7))
  then have "hi_arr ?s = xs @ as @ h' @ as' @ zs" using h(2) by (simp add: r(1))
  moreover have "res = xs @ smerge as bs @ as' @ zs"
    using smerge_right_a [OF assms(2)] by (simp add: r(2))
  ultimately have "\<exists>xs h zs. hi_arr ?s = xs @ as @ h @ zs \<and> res = xs @ smerge as bs @ zs \<and>
        length h = length bs \<and> basea = length xs \<and>
        hi_dest ?s = int (length xs + length as + length bs) - 1 \<and> hi_na ?s = length as \<and>
        hi_pa ?s = int (length xs + length as) - 1 \<and> hi_nb ?s = length bs \<and> hi_pb ?s = int (length bs) - 1"
    using r h by (intro exI [of _ xs] exI [of _ h'] exI [of _ "as' @ zs"]) simp
  then show ?thesis using assms(1) by (simp add: hi_rep_def sorted_wrt_append)
qed

lemma hi_block_b:
  assumes "hi_rep res basea tmp as (bs @ bs') s" "\<forall>b\<in>set bs'. \<forall>x\<in>set as. \<not> ISLT E b x"
  shows "hi_rep res basea tmp as bs
    (s\<lparr>hi_dest := hi_dest s - int (length bs'), hi_pb := hi_pb s - int (length bs'),
       hi_arr := write_at (hi_arr s) (nat (hi_dest s - int (length bs') + 1))
         (map (\<lambda>j. tmp (nat (hi_pb s - int (length bs') + 1) + j)) [0..<length bs']),
       hi_nb := hi_nb s - length bs'\<rparr>)"
    (is "hi_rep _ _ _ _ _ ?s")
proof -
  obtain xs h zs where r: "hi_arr s = xs @ as @ h @ zs" "res = xs @ smerge as (bs @ bs') @ zs"
    "length h = length (bs @ bs')" "basea = length xs" "hi_dest s = int (length xs + length as + length (bs @ bs')) - 1"
    "hi_na s = length as" "hi_pa s = int (length xs + length as) - 1"
    "hi_nb s = length (bs @ bs')" "hi_pb s = int (length (bs @ bs')) - 1"
    using assms(1) unfolding hi_rep_def by blast
  obtain h1 h2 where h: "h = h1 @ h2" "length h1 = length bs" "length h2 = length bs'"
    using r(3) that [of "take (length bs) h" "drop (length bs) h"] by simp
  have t: "temp_holds tmp 0 bs" "temp_holds tmp (length bs) bs'"
    using assms(1) by (auto simp: hi_rep_def temp_holds_append)
  have "nat (hi_dest s - int (length bs') + 1) = length (xs @ as @ h1)"
    "nat (hi_pb s - int (length bs') + 1) = length bs"
    using h(2) by (simp_all add: r(5,9))
  then have "hi_arr ?s = xs @ as @ h1 @ bs' @ zs"
    using write_at_append [of bs' h2 "xs @ as @ h1" zs] h(3)
    by (simp add: r(1) h(1) temp_holds_map [OF t(2)])
  moreover have "res = xs @ smerge as bs @ bs' @ zs"
    using smerge_right_b [OF assms(2)] by (simp add: r(2))
  ultimately have "\<exists>xs h zs. hi_arr ?s = xs @ as @ h @ zs \<and> res = xs @ smerge as bs @ zs \<and>
        length h = length bs \<and> basea = length xs \<and>
        hi_dest ?s = int (length xs + length as + length bs) - 1 \<and> hi_na ?s = length as \<and>
        hi_pa ?s = int (length xs + length as) - 1 \<and> hi_nb ?s = length bs \<and> hi_pb ?s = int (length bs) - 1"
    using r h by (intro exI [of _ xs] exI [of _ h1] exI [of _ "bs' @ zs"]) simp
  moreover have "bs \<noteq> [] \<longrightarrow> (\<forall>a\<in>set as. ISLT E (hd bs) a)" using assms(1) by (auto simp: hi_rep_def)
  ultimately show ?thesis using assms(1) t(1) by (simp add: hi_rep_def sorted_wrt_append)
qed

lemma ordered_last: "ordered (xs @ [y]) \<Longrightarrow> x \<in> set (xs @ [y]) \<Longrightarrow> \<not> ISLT E y x"
  by (auto simp: sorted_wrt_append)

lemma hi_gallop_a_rep:
  assumes "hi_rep res basea tmp as (bs @ [b]) s" "as \<noteq> []"
  obtains k s' as1 as2 where "hi_gallop_a E basea tmp s = Some (k, s')" "as = as1 @ as2" "length as2 = k"
    "hi_rep res basea tmp as1 (bs @ [b]) s'" "\<forall>x\<in>set as1. \<not> ISLT E b x"
proof -
  note r = hi_rep_sel [OF assms(1)]
  obtain g where gal: "gallop_right (ISLT E) b (\<lambda>i. hi_arr s ! (basea + i)) (length as) (length as - 1) = Some g"
    and g: "g \<le> length as" "\<forall>x\<in>set (take g as). \<not> ISLT E b x" "\<forall>x\<in>set (drop g as). ISLT E b x"
    using gallop_right_spec [of "length as - 1" as "\<lambda>i. hi_arr s ! (basea + i)" b] r assms(2) by auto
  define k where "k = length as - g"
  define as1 as2 where "as1 = take g as" and "as2 = drop g as"
  have as: "as = as1 @ as2" "length as2 = k" by (simp_all add: as1_def as2_def k_def)
  note def = hi_gallop_a_def [of E basea tmp s, unfolded hi_rep_last(2) [OF assms(1)] r(1) gal bind.bind_lunit,
      folded k_def]
  have "\<exists>s'. hi_gallop_a E basea tmp s = Some (k, s') \<and> hi_rep res basea tmp as1 (bs @ [b]) s'"
  proof (cases "k = 0")
    case True
    then have "as1 = as" using as by simp
    then show ?thesis using assms(1) True by (simp add: def)
  next
    case False
    have "\<forall>a\<in>set as2. \<forall>y\<in>set (bs @ [b]). ISLT E y a"
      using g(3) ordered_last [OF r(5)] not_lt_lt_trans unfolding as2_def by blast
    from hi_block_a [OF assms(1) [unfolded as(1)] this] False show ?thesis
      using arg_cong [OF as(1), of length] by (simp add: def as(2) r(1))
  qed
  then show thesis using that as g(2) unfolding as1_def [symmetric] by blast
qed

lemma hi_gallop_b_rep:
  assumes "hi_rep res basea tmp (as @ [a]) bs s" "bs \<noteq> []"
  obtains k s' bs1 bs2 where "hi_gallop_b E tmp s = Some (k, s')" "bs = bs1 @ bs2" "length bs2 = k"
    "hi_rep res basea tmp (as @ [a]) bs1 s'" "\<forall>y\<in>set bs1. ISLT E y a"
proof -
  note r = hi_rep_sel [OF assms(1)]
  obtain g where gal: "gallop_left (ISLT E) a tmp (length bs) (length bs - 1) = Some g"
    and g: "g \<le> length bs" "\<forall>x\<in>set (take g bs). ISLT E x a" "\<forall>x\<in>set (drop g bs). \<not> ISLT E x a"
    using gallop_left_spec [of "length bs - 1" bs tmp a] r assms(2) by (auto simp: temp_holds_def)
  define k where "k = length bs - g"
  define bs1 bs2 where "bs1 = take g bs" and "bs2 = drop g bs"
  have bs: "bs = bs1 @ bs2" "length bs2 = k" by (simp_all add: bs1_def bs2_def k_def)
  note def = hi_gallop_b_def [of E tmp s, unfolded hi_rep_last(1) [OF assms(1)] r(2) gal bind.bind_lunit, folded k_def]
  have "\<exists>s'. hi_gallop_b E tmp s = Some (k, s') \<and> hi_rep res basea tmp (as @ [a]) bs1 s'"
  proof (cases "k = 0")
    case True
    then have "bs1 = bs" using bs by simp
    then show ?thesis using assms(1) True by (simp add: def)
  next
    case False
    have "\<forall>b\<in>set bs2. \<forall>x\<in>set (as @ [a]). \<not> ISLT E b x"
      using g(3) ordered_last [OF r(4)] not_lt_trans unfolding bs2_def by blast
    from hi_block_b [OF assms(1) [unfolded bs(1)] this] False show ?thesis
      using arg_cong [OF bs(1), of length] by (simp add: def bs(2) r(2))
  qed
  then show thesis using that bs g(2) unfolding bs1_def [symmetric] by blast
qed

definition hi_busy :: "('h \<times> 't) list \<Rightarrow> nat \<Rightarrow> (nat \<Rightarrow> 'h \<times> 't) \<Rightarrow> ('h \<times> 't) hi_vars \<Rightarrow> bool" where
  "hi_busy res basea tmp s \<longleftrightarrow> (\<exists>as bs. hi_rep res basea tmp as bs s \<and> as \<noteq> [] \<and> 1 < length bs)"

definition hi_at :: "('h \<times> 't) list \<Rightarrow> nat \<Rightarrow> (nat \<Rightarrow> 'h \<times> 't) \<Rightarrow> label \<Rightarrow> ('h \<times> 't) hi_vars \<Rightarrow> bool" where
  "hi_at res basea tmp l s \<longleftrightarrow> (\<exists>as bs. hi_rep res basea tmp as bs s \<and>
     (l = CopyA \<and> length bs = 1 \<and> as \<noteq> [] \<or> l = SucceedB \<and> (as = [] \<or> bs = [])))"

fun hi_ok :: "('h \<times> 't) list \<Rightarrow> nat \<Rightarrow> (nat \<Rightarrow> 'h \<times> 't) \<Rightarrow> ('h \<times> 't) hi_vars phase \<Rightarrow> bool" where
  "hi_ok res basea tmp (Straight acount bcount s) = hi_busy res basea tmp s"
| "hi_ok res basea tmp (Galloping s) = hi_busy res basea tmp s"
| "hi_ok res basea tmp (Goto l s) = hi_at res basea tmp l s"

lemma hi_busy_gal [simp]: "hi_busy res basea tmp (s\<lparr>hi_gal := g\<rparr>) = hi_busy res basea tmp s"
  by (simp add: hi_busy_def)

lemma hi_after:
  assumes "hi_rep res basea tmp as bs s"
  shows "hi_na s = 0 \<Longrightarrow> hi_at res basea tmp SucceedB s"
    "hi_nb s = 0 \<Longrightarrow> hi_at res basea tmp SucceedB s"
    "hi_nb s = 1 \<Longrightarrow> hi_na s \<noteq> 0 \<Longrightarrow> hi_at res basea tmp CopyA s"
    "1 < hi_nb s \<Longrightarrow> hi_na s \<noteq> 0 \<Longrightarrow> hi_busy res basea tmp s"
  using assms hi_rep_sel(1,2) [OF assms] unfolding hi_at_def hi_busy_def by auto

lemma hi_straight_ok:
  assumes "hi_busy res basea tmp s"
  shows "hi_ok res basea tmp (hi_straight E tmp acount bcount s)"
proof -
  obtain as bs where r0: "hi_rep res basea tmp as bs s" "as \<noteq> []" "1 < length bs"
    using assms unfolding hi_busy_def by blast
  obtain as' a bs' b where eq: "as = as' @ [a]" "bs = bs' @ [b]" "bs' \<noteq> []"
    using r0(2,3) by (cases as rule: rev_cases; cases bs rule: rev_cases) auto
  note r = r0(1) [unfolded eq(1,2)]
  have key: "tmp (nat (hi_pb s)) = b" "hi_arr s ! nat (hi_pa s) = a"
    using hi_rep_last r by blast+
  note ord = ordered_last [OF hi_rep_sel(5) [OF r]] ordered_last [OF hi_rep_sel(4) [OF r]]
  show ?thesis
  proof (cases "ISLT E b a")
    case True
    then have "\<forall>y\<in>set (bs' @ [b]). ISLT E y a" using ord(1) not_lt_lt_trans by blast
    note n = hi_take_a_rep [OF r this]
    show ?thesis
      using True hi_after [OF n] hi_rep_sel(1,2) [OF n] eq(3)
      by (cases bs'; cases as') (auto simp: hi_straight_def key Let_def)
  next
    case False
    then have "\<forall>x\<in>set (as' @ [a]). \<not> ISLT E b x" using ord(2) not_lt_trans by blast
    note n = hi_take_b_rep [OF r this]
    show ?thesis
      using False hi_after [OF n] hi_rep_sel(1,2) [OF n] eq(3)
      by (cases bs') (auto simp: hi_straight_def key Let_def)
  qed
qed

lemma hi_gallop_ok:
  assumes "hi_busy res basea tmp s0"
  shows "\<exists>ph. hi_gallop E basea tmp s0 = Some ph \<and> hi_ok res basea tmp ph"
proof -
  define s where "s = s0\<lparr>hi_gal := hi_gal s0 - (if 1 < hi_gal s0 then 1 else 0)\<rparr>"
  obtain as bs0 where r0: "hi_rep res basea tmp as bs0 s" "as \<noteq> []" "1 < length bs0"
    using assms unfolding hi_busy_def s_def by auto
  obtain bs b where bs0: "bs0 = bs @ [b]" "bs \<noteq> []" using r0(3) by (cases bs0 rule: rev_cases) auto
  note r = r0(1) [unfolded bs0(1)]
  obtain acount s1 as1 as2 where s1: "hi_gallop_a E basea tmp s = Some (acount, s1)" and as: "as = as1 @ as2" "length as2 = acount" "hi_rep res basea tmp as1 (bs @ [b]) s1"
    "\<forall>x\<in>set as1. \<not> ISLT E b x"
    using hi_gallop_a_rep [OF r r0(2)] .
  note sel1 = hi_rep_sel(1,2) [OF as(3)]
  define s2 where "s2 = hi_take_b tmp s1"
  note def = hi_gallop_def [of E basea tmp s0, folded s_def, unfolded s1 bind.bind_lunit prod.case Let_def, folded s2_def]
  show ?thesis
  proof (cases "acount \<noteq> 0 \<and> hi_na s1 = 0")
    case True
    then show ?thesis using hi_after(1) [OF as(3)] unfolding def by auto
  next
    case False
    then have "as1 \<noteq> []" using sel1 as(1,2) r0(2) by (cases "acount = 0") auto
    have r2: "hi_rep res basea tmp as1 bs s2"
      using hi_take_b_rep [OF as(3,4)] unfolding s2_def .
    note sel2 = hi_rep_sel(1,2) [OF r2]
    show ?thesis
    proof (cases "hi_nb s2 = 1")
      case True
      then show ?thesis using False hi_after(3) [OF r2] sel2 \<open>as1 \<noteq> []\<close> unfolding def by auto
    next
      case nb: False
      obtain as' a where as1: "as1 = as' @ [a]" using \<open>as1 \<noteq> []\<close> by (cases as1 rule: rev_cases) auto
      from hi_gallop_b_rep [OF r2 [unfolded as1] bs0(2)]
      obtain bcount s3 bs1 bs2 where s3: "hi_gallop_b E tmp s2 = Some (bcount, s3)" and bs: "bs = bs1 @ bs2" "length bs2 = bcount" "hi_rep res basea tmp (as' @ [a]) bs1 s3"
        "\<forall>y\<in>set bs1. ISLT E y a" .
      note sel3 = hi_rep_sel(1,2) [OF bs(3)]
      show ?thesis
      proof (cases "bcount \<noteq> 0 \<and> hi_nb s3 \<le> 1")
        case True
        then show ?thesis using False nb hi_after(2,3) [OF bs(3)] sel3 unfolding def s3 by (auto simp: le_Suc_eq)
      next
        case go: False
        have n1: "1 < length bs1"
          using go sel2 sel3 nb bs(1,2) bs0(2) by (cases "bcount = 0"; cases bs1) auto
        note n = hi_take_a_rep [OF bs(3,4)]
        note after = hi_after [OF n] hi_rep_sel(1,2) [OF n]
        show ?thesis
          using False nb go after n1 unfolding def s3 by (cases as') auto
      qed
    qed
  qed
qed

lemma hi_busy_guard: "hi_busy res basea tmp s \<Longrightarrow> 0 < hi_na s \<and> 1 < hi_nb s"
  unfolding hi_busy_def using hi_rep_sel(1,2) by fastforce

lemma hi_run_ok:
  "hi_ok res basea tmp ph \<Longrightarrow> \<exists>l s. hi_run E basea tmp ph = Some (l, s) \<and> hi_at res basea tmp l s"
proof (induction "hi_left ph" arbitrary: ph rule: less_induct)
  case less
  show ?case
  proof (cases ph)
    case (Straight acount bcount s)
    then have b: "hi_busy res basea tmp s" using less.prems by simp
    note g = hi_busy_guard [OF b]
    show ?thesis
      using less.hyps [OF _ hi_straight_ok [OF b]] hi_straight_left [of s E tmp acount bcount] g Straight by simp
  next
    case (Galloping s)
    then have b: "hi_busy res basea tmp s" using less.prems by simp
    note g = hi_busy_guard [OF b]
    obtain ph' where ph': "hi_gallop E basea tmp s = Some ph'" "hi_ok res basea tmp ph'" using hi_gallop_ok [OF b] by blast
    show ?thesis
      using less.hyps [OF _ ph'(2)] hi_gallop_left [OF _ _ ph'(1)] g Galloping ph'(1) by simp
  qed (use less.prems in auto)
qed

lemma hi_end_ok:
  assumes "hi_at res basea tmp l s"
  shows "hi_end E tmp l s = Some res"
proof -
  obtain as bs where r: "hi_rep res basea tmp as bs s"
    and l: "l = CopyA \<and> length bs = 1 \<and> as \<noteq> [] \<or> l = SucceedB \<and> (as = [] \<or> bs = [])"
    using assms unfolding hi_at_def by blast
  obtain xs h zs where a: "hi_arr s = xs @ as @ h @ zs" "res = xs @ smerge as bs @ zs"
    "length h = length bs" "basea = length xs" "hi_dest s = int (length xs + length as + length bs) - 1"
    "hi_na s = length as" "hi_pa s = int (length xs + length as) - 1"
    "hi_nb s = length bs" "hi_pb s = int (length bs) - 1"
    using r unfolding hi_rep_def by blast
  note t = hi_rep_sel(3) [OF r] and short = hi_rep_sel(11) [OF r]
  show ?thesis
  proof (cases "l = CopyA")
    case True
    then obtain x where x: "bs = [x]" "as \<noteq> []" using l by (cases bs) auto
    obtain h' where h: "length h' = length h"
      "memmove (xs @ as @ h @ zs) (length xs + length h) (length xs) (length as) = xs @ h' @ as @ zs"
      using memmove_right by blast
    obtain y where y: "h' = [y]" using h(1) a(3) x by (cases h') auto
    have "nat (int (length xs) + 1) = length xs + 1" by linarith
    then have "hi_end E tmp l s = Some ((xs @ y # as @ zs)[length xs := x])"
      using True h(2) t a(3) by (simp add: hi_end_def Let_def a x y temp_holds_Cons)
    also have "(xs @ y # as @ zs)[length xs := x] = xs @ x # as @ zs" by simp
    also have "smerge as [x] = x # as"
      using r x smerge_left_b [of "[x]"] by (cases as) (auto simp: hi_rep_def)
    then have "xs @ x # as @ zs = res" by (simp add: a(2) x)
    finally show ?thesis .
  next
    case False
    then consider "bs = []" | "as = []" "bs \<noteq> []" using l by auto
    then show ?thesis
    proof cases
      case 1
      then show ?thesis using False a by (simp add: hi_end_def)
    next
      case 2
      have "nat (hi_dest s + 1 - int (length bs)) = length xs" using 2 by (simp add: a(5))
      moreover have "map tmp [0..<length bs] = bs" using temp_holds_map [OF t] by simp
      moreover have "write_at (xs @ h @ zs) (length xs) bs = xs @ bs @ zs"
        using a(3) by (intro write_at_append) simp
      ultimately show ?thesis using False 2 by (simp add: hi_end_def COPY_from_temp_eq [OF short] a(1,2,8))
    qed
  qed
qed

lemma merge_hi_ok:
  assumes arr: "base ms = xs @ (as @ [a]) @ bs @ zs" "pa = length xs" "na = length (as @ [a])" "pb = pa + na"
      "nb = length bs" "length (base ms) < 2 ^ 63" "nb < 2 ^ 31"
    and as: "ordered (as @ [a])" and bs: "ordered bs" "bs \<noteq> []"
    and first: "\<forall>x\<in>set (as @ [a]). ISLT E (hd bs) x" and last: "\<forall>y\<in>set bs. ISLT E y a"
  shows "\<exists>r ms'. merge_hi E pa na pb nb ms = Some (r, ms') \<and>
    (r = 0 \<and> base ms' = xs @ smerge (as @ [a]) bs @ zs \<or> r = - 1 \<and> base ms' = base ms) \<and>
    ((\<forall>k. granted E k) \<longrightarrow> r = 0)"
proof -
  obtain ok1 ms1 where m1: "MERGE_GETMEMH E nb ms = (ok1, ms1)" by fastforce
  obtain ok2 ms2 where m2: "MERGE_GETMEMT E nb ms1 = (ok2, ms2)" by fastforce
  note base = getmem_base(1) [OF m1] getmem_base(2) [OF m2]
  consider "\<not> ok1" | "ok1" "\<not> ok2" | "ok1" "ok2" by blast
  then show ?thesis
  proof cases
    case 1
    then show ?thesis using m1 base getmem_base(3) [OF m1] arr(3-5) bs(2) by (auto simp: merge_hi_def)
  next
    case 2
    then show ?thesis using m1 m2 base getmem_base(4) [OF m2] arr(3-5) bs(2) by (auto simp: merge_hi_def)
  next
    case 3
    obtain tmp where tmp: "COPY_to_temp E (temp ms2) (base ms2) pb nb = Some tmp"
      "\<And>i. i < nb \<Longrightarrow> tmp i = base ms2 ! (pb + i)"
      using COPY_to_temp_eq [OF arr(7)] by blast
    define s0 where "s0 = \<lparr>hi_arr = base ms2, hi_dest = int (pb + nb) - 1, hi_pa = int (pa + na) - 1,
      hi_na = na, hi_pb = int nb - 1, hi_nb = nb, hi_gal = min_gallop ms2\<rparr>"
    define s1 where "s1 = hi_take_a s0"
    define res where "res = xs @ smerge (as @ [a]) bs @ zs"
    have "temp_holds tmp 0 bs"
      using tmp(2) by (simp add: temp_holds_def base arr(1-5) nth_append)
    then have r0: "hi_rep res pa tmp (as @ [a]) bs s0"
      unfolding hi_rep_def s0_def res_def using arr as bs first base
      by (intro conjI exI [of _ xs] exI [of _ bs] exI [of _ zs]) auto
    have r1: "hi_rep res pa tmp as bs s1"
      using hi_take_a_rep [OF r0 last] unfolding s1_def .
    define go where "go = (if hi_na s1 = 0 then Some (SucceedB, s1)
      else if hi_nb s1 = 1 then Some (CopyA, s1) else hi_run E pa tmp (Straight 0 0 s1))"
    have "\<exists>l s. go = Some (l, s) \<and> hi_at res pa tmp l s"
    proof (cases "hi_na s1 = 0 \<or> hi_nb s1 = 1")
      case True
      then show ?thesis using hi_after(1,3) [OF r1] by (cases "hi_na s1 = 0") (auto simp: go_def)
    next
      case False
      have "hi_nb s1 \<noteq> 0" using hi_rep_sel(2) [OF r1] bs(2) by simp
      then have "hi_ok res pa tmp (Straight 0 0 s1)" using False hi_after(4) [OF r1] by simp
      from hi_run_ok [OF this] False show ?thesis by (simp only: go_def de_Morgan_disj if_False)
    qed
    then obtain l s where go: "go = Some (l, s)" "hi_at res pa tmp l s" by blast
    have "0 < na" "0 < nb" "pa + na = pb" using arr(3-5) bs(2) by simp_all
    then have "merge_hi E pa na pb nb ms =
      Option.bind go (\<lambda>(l, s). Option.bind (hi_end E tmp l s)
        (\<lambda>arr. Some (0, ms2\<lparr>base := arr, temp := tmp, min_gallop := hi_gal s\<rparr>)))"
      using 3 m1 m2 tmp(1) unfolding merge_hi_def Let_def go_def s1_def s0_def by (simp del: hi_run.simps)
    then show ?thesis by (simp add: go(1) hi_end_ok [OF go(2)] res_def)
  qed
qed

end

end
