(* ===== verification/Gdk_Ssort_Runs.thy ===== *)
theory Gdk_Ssort_Runs
  imports Gdk_Ssort_Merge
begin

text \<open>
  Finding runs: the next natural run, reversed if it descends, extended by binary insertion,
  is an ordered and stable rearrangement of the front of the rest of the array.
\<close>

section \<open>In-place rearrangements\<close>

lemma reverse_loop_append:
  "reverse_loop (length xs) (length xs + length ys - 1) (xs @ ys @ zs) = xs @ rev ys @ zs"
proof (induction "length ys" arbitrary: xs ys zs rule: less_induct)
  case less
  show ?case
  proof (cases "length ys < 2")
    case True
    then have "ys = [] \<or> (\<exists>y. ys = [y])" by (cases ys; cases "tl ys") auto
    then show ?thesis by (subst reverse_loop.simps) auto
  next
    case False
    then obtain a ys' b where ys: "ys = a # ys' @ [b]"
      by (cases ys; cases "tl ys" rule: rev_cases) auto
    let ?hi = "length xs + length ys - 1"
    have hi: "?hi = length (xs @ a # ys')" by (simp add: ys)
    have nth: "(xs @ ys @ zs) ! length xs = a" "(xs @ ys @ zs) ! ?hi = b"
      using nth_append_length [of "xs @ a # ys'" b zs] unfolding hi by (simp_all add: ys)
    have "(xs @ ys @ zs)[length xs := b, ?hi := a] = ((xs @ b # ys') @ b # zs)[length (xs @ b # ys') := a]"
      by (simp add: ys)
    also have "\<dots> = (xs @ [b]) @ ys' @ a # zs" by (simp only: list_update_length) simp
    finally have swap: "(xs @ ys @ zs)[length xs := b, ?hi := a] = (xs @ [b]) @ ys' @ a # zs" .
    have "length xs < ?hi" by (simp add: ys)
    then have "reverse_loop (length xs) ?hi (xs @ ys @ zs) =
        reverse_loop (length (xs @ [b])) (length (xs @ [b]) + length ys' - 1) ((xs @ [b]) @ ys' @ a # zs)"
      unfolding reverse_loop.simps [of "length xs" ?hi] Let_def nth swap
      by (simp add: ys)
    also have "\<dots> = (xs @ [b]) @ rev ys' @ a # zs" by (rule less) (simp add: ys)
    finally show ?thesis by (simp add: ys)
  qed
qed

lemma reverse_slice_append:
  "lo = length xs \<Longrightarrow> hi = length xs + length ys \<Longrightarrow> reverse_slice lo hi (xs @ ys @ zs) = xs @ rev ys @ zs"
  using reverse_loop_append [of xs ys zs] by (simp add: reverse_slice_def)

lemma slide_same [simp]: "slide xs n n = xs"
  by (cases n) auto

lemma slide_append:
  "(slide (xs @ ys @ x # zs) (length xs) (length xs + length ys))[length xs := v] = xs @ v # ys @ zs"
proof (induction ys arbitrary: x zs rule: rev_induct)
  case Nil
  show ?case by simp
next
  case (snoc y ys)
  have "(xs @ (ys @ [y]) @ x # zs) ! (length xs + length ys) = y"
    using nth_append_length [of "xs @ ys" y "x # zs"] by simp
  moreover have "(xs @ (ys @ [y]) @ x # zs)[Suc (length xs + length ys) := y] = xs @ ys @ y # y # zs"
    using list_update_length [of "xs @ ys @ [y]" x zs y] by simp
  ultimately show ?case using snoc.IH [of y "y # zs"] by simp
qed

lemma pivot_place_meet:
  "l \<le> r \<Longrightarrow> fst (pivot_place lt xs p l r) = snd (pivot_place lt xs p l r)"
proof (induction lt xs p l r rule: pivot_place.induct)
  case (1 lt xs p l r)
  define m where "m = l + (r - l) div 2"
  have "pivot_place lt xs p l r =
    (if l < r then if lt p (xs ! m) then pivot_place lt xs p l m else pivot_place lt xs p (m + 1) r else (l, r))"
    unfolding m_def by (rule pivot_place.simps [unfolded Let_def])
  moreover have "m + 1 \<le> r" "l \<le> m" if "l < r" using that by (auto simp: m_def)
  ultimately show ?case using 1(1) [OF _ m_def] 1(2) [OF _ m_def] 1(3) by auto
qed

context weak_order
begin

section \<open>Binary insertion\<close>

lemma pivot_place_spec:
  assumes "l \<le> r" "\<And>i j. l \<le> i \<Longrightarrow> i < j \<Longrightarrow> j < r \<Longrightarrow> lt p (xs ! i) \<Longrightarrow> lt p (xs ! j)"
  shows "l \<le> fst (pivot_place lt xs p l r) \<and> fst (pivot_place lt xs p l r) \<le> r \<and>
    (\<forall>i. l \<le> i \<and> i < fst (pivot_place lt xs p l r) \<longrightarrow> \<not> lt p (xs ! i)) \<and>
    (\<forall>i. fst (pivot_place lt xs p l r) \<le> i \<and> i < r \<longrightarrow> lt p (xs ! i))"
  using assms
proof (induction "r - l" arbitrary: l r rule: less_induct)
  case less
  show ?case
  proof (cases "l < r")
    case True
    define m where "m = l + (r - l) div 2"
    have m: "l \<le> m" "m < r" using True by (auto simp: m_def)
    show ?thesis
    proof (cases "lt p (xs ! m)")
      case True
      have eq: "fst (pivot_place lt xs p l r) = fst (pivot_place lt xs p l m)"
        using \<open>l < r\<close> True by (subst pivot_place.simps) (simp add: m_def Let_def)
      have "lt p (xs ! i)" if "m \<le> i" "i < r" for i
        using less.prems(2) [of m i] that m True by (cases "i = m") auto
      moreover have "l \<le> fst (pivot_place lt xs p l m) \<and> fst (pivot_place lt xs p l m) \<le> m \<and>
        (\<forall>i. l \<le> i \<and> i < fst (pivot_place lt xs p l m) \<longrightarrow> \<not> lt p (xs ! i)) \<and>
        (\<forall>i. fst (pivot_place lt xs p l m) \<le> i \<and> i < m \<longrightarrow> lt p (xs ! i))"
      proof (rule less.hyps)
        fix i j assume "l \<le> i" "i < j" "j < m" "lt p (xs ! i)"
        then show "lt p (xs ! j)" using less.prems(2) [of i j] m by simp
      qed (use m in auto)
      ultimately show ?thesis unfolding eq using m by (meson le_less_linear less_imp_le_nat order_trans)
    next
      case False
      have eq: "fst (pivot_place lt xs p l r) = fst (pivot_place lt xs p (m + 1) r)"
        using \<open>l < r\<close> False by (subst pivot_place.simps) (simp add: m_def Let_def)
      have "\<not> lt p (xs ! i)" if "l \<le> i" "i < m + 1" for i
        using less.prems(2) [of i m] that m False by (cases "i = m") auto
      moreover have "m + 1 \<le> fst (pivot_place lt xs p (m + 1) r) \<and> fst (pivot_place lt xs p (m + 1) r) \<le> r \<and>
        (\<forall>i. m + 1 \<le> i \<and> i < fst (pivot_place lt xs p (m + 1) r) \<longrightarrow> \<not> lt p (xs ! i)) \<and>
        (\<forall>i. fst (pivot_place lt xs p (m + 1) r) \<le> i \<and> i < r \<longrightarrow> lt p (xs ! i))"
      proof (rule less.hyps)
        fix i j assume "m + 1 \<le> i" "i < j" "j < r" "lt p (xs ! i)"
        then show "lt p (xs ! j)" using less.prems(2) [of i j] m by simp
      qed (use m in auto)
      ultimately show ?thesis unfolding eq using m by (meson le_less_linear order_trans le_add1)
    qed
  next
    case False
    then have "l = r" using less.prems(1) by simp
    moreover have "fst (pivot_place lt xs p l r) = l" using False by (subst pivot_place.simps) simp
    ultimately show ?thesis by auto
  qed
qed

lemma binary_place:
  assumes "ordered ys"
  obtains ys1 ys2 where "ys = ys1 @ ys2"
    "pivot_place lt (xs @ ys @ zs) p (length xs) (length xs + length ys) = (length xs + length ys1, length xs + length ys1)"
    "\<forall>y\<in>set ys1. \<not> lt p y" "\<forall>y\<in>set ys2. lt p y"
proof -
  let ?l = "length xs" and ?r = "length xs + length ys" and ?a = "xs @ ys @ zs"
  have nth: "?a ! i = ys ! (i - ?l)" if "?l \<le> i" "i < ?r" for i
  proof -
    have "i - ?l < length ys" using that by linarith
    then show ?thesis using that by (simp add: nth_append)
  qed
  have mono: "lt p (?a ! j)" if "?l \<le> i" "i < j" "j < ?r" "lt p (?a ! i)" for i j
  proof -
    have "\<not> lt (ys ! (j - ?l)) (ys ! (i - ?l))"
      by (rule ordered_nth [OF assms]) (use that in linarith)+
    moreover have "i < ?r" "?l \<le> j" using that by linarith+
    ultimately have "lt p (ys ! (j - ?l))" using that(4) unfolding nth [OF that(1) \<open>i < ?r\<close>] by (metis lt_not_lt_trans)
    then show ?thesis unfolding nth [OF \<open>?l \<le> j\<close> that(3)] .
  qed
  have s: "?l \<le> fst (pivot_place lt ?a p ?l ?r) \<and> fst (pivot_place lt ?a p ?l ?r) \<le> ?r \<and>
    (\<forall>i. ?l \<le> i \<and> i < fst (pivot_place lt ?a p ?l ?r) \<longrightarrow> \<not> lt p (?a ! i)) \<and>
    (\<forall>i. fst (pivot_place lt ?a p ?l ?r) \<le> i \<and> i < ?r \<longrightarrow> lt p (?a ! i))"
  proof (rule pivot_place_spec)
    fix i j assume "?l \<le> i" "i < j" "j < ?r" "lt p (?a ! i)"
    then show "lt p (?a ! j)" by (rule mono)
  qed (rule le_add1)
  define k where "k = fst (pivot_place lt ?a p ?l ?r) - ?l"
  have k: "fst (pivot_place lt ?a p ?l ?r) = ?l + k" "k \<le> length ys" using s by (auto simp: k_def)
  have lo: "\<not> lt p (ys ! i)" if "i < k" for i
  proof -
    have "\<not> lt p (?a ! (?l + i))"
      using s [THEN conjunct2, THEN conjunct2, THEN conjunct1, rule_format, of "?l + i"] that unfolding k(1) by linarith
    then show ?thesis using nth [of "?l + i"] that k(2) by simp
  qed
  have hi: "lt p (ys ! i)" if "k \<le> i" "i < length ys" for i
  proof -
    have "lt p (?a ! (?l + i))"
      using s [THEN conjunct2, THEN conjunct2, THEN conjunct2, rule_format, of "?l + i"] that unfolding k(1) by linarith
    then show ?thesis using nth [of "?l + i"] that by simp
  qed
  show thesis
  proof (rule that [of "take k ys" "drop k ys"])
    show "\<forall>y\<in>set (take k ys). \<not> lt p y" using lo by (auto simp: in_set_conv_nth)
    show "\<forall>y\<in>set (drop k ys). lt p y"
    proof
      fix y assume "y \<in> set (drop k ys)"
      then obtain j where "j < length (drop k ys)" "y = drop k ys ! j" by (metis in_set_conv_nth)
      then show "lt p y" using hi [of "k + j"] by simp
    qed
    show "pivot_place lt ?a p ?l ?r = (?l + length (take k ys), ?l + length (take k ys))"
      using k pivot_place_meet [of ?l ?r lt ?a p] by (cases "pivot_place lt ?a p ?l ?r") simp
  qed simp
qed

text \<open>Inserting the pivot after the elements that do not exceed it.\<close>

lemma insert_ordered:
  assumes "ordered (ys1 @ ys2)" "\<forall>y\<in>set ys1. \<not> lt p y" "\<forall>y\<in>set ys2. lt p y"
  shows "ordered (ys1 @ p # ys2)" "stable (ys1 @ p # ys2) ((ys1 @ ys2) @ [p])"
proof -
  show "ordered (ys1 @ p # ys2)"
    using assms lt_asym by (auto simp: sorted_wrt_append)
  have "filter (eqv z) ys2 = []" if "eqv z p" for z
  proof (rule filter_False, rule ballI)
    fix y assume "y \<in> set ys2"
    then have "lt p y" using assms(3) by blast
    then show "\<not> eqv z y" using that not_lt_trans [of p z y] by (auto simp: eqv_def)
  qed
  then show "stable (ys1 @ p # ys2) ((ys1 @ ys2) @ [p])" by (auto simp: stable_def)
qed

lemma binarysort_loop_spec:
  assumes "ordered ys" "lo = length xs" "start = lo + length ys" "hi = start + length zs"
    and "ys \<noteq> []"
  shows "\<exists>rs. binarysort_loop lt lo hi start (xs @ ys @ zs @ us) = Some (xs @ rs @ us) \<and>
    ordered rs \<and> stable rs (ys @ zs)"
  using assms
proof (induction zs arbitrary: ys start)
  case Nil
  then show ?case by (subst binarysort_loop.simps) (auto intro: exI [of _ ys])
next
  case (Cons p zs)
  obtain ys1 ys2 where ys: "ys = ys1 @ ys2"
    "pivot_place lt (xs @ ys @ p # zs @ us) p (length xs) (length xs + length ys) =
      (length xs + length ys1, length xs + length ys1)"
    "\<forall>y\<in>set ys1. \<not> lt p y" "\<forall>y\<in>set ys2. lt p y"
    using binary_place [OF Cons.prems(1)] .
  note ins = insert_ordered [OF Cons.prems(1) [unfolded ys(1)] ys(3,4)]
  have nth: "(xs @ ys @ p # zs @ us) ! start = p"
    using nth_append_length [of "xs @ ys" p "zs @ us"] Cons.prems(2,3) by simp
  have "(slide ((xs @ ys1) @ ys2 @ p # zs @ us) (length (xs @ ys1)) (length (xs @ ys1) + length ys2))[length (xs @ ys1) := p] =
    (xs @ ys1) @ p # ys2 @ zs @ us"
    by (rule slide_append)
  then have sl: "(slide (xs @ ys @ p # zs @ us) (length xs + length ys1) start)[length xs + length ys1 := p] =
    xs @ (ys1 @ p # ys2) @ zs @ us"
    using Cons.prems(2,3) ys(1) by (simp add: add.assoc)
  have "binarysort_loop lt lo hi start (xs @ ys @ (p # zs) @ us) =
    binarysort_loop lt lo hi (Suc start) (xs @ (ys1 @ p # ys2) @ zs @ us)"
    using Cons.prems(2-5) ys(2) nth sl by (subst binarysort_loop.simps) (simp add: Let_def)
  moreover have "\<exists>rs. binarysort_loop lt lo hi (Suc start) (xs @ (ys1 @ p # ys2) @ zs @ us) = Some (xs @ rs @ us) \<and>
      ordered rs \<and> stable rs ((ys1 @ p # ys2) @ zs)"
    using Cons.prems ys(1) by (intro Cons.IH ins(1)) auto
  moreover have "stable ((ys1 @ p # ys2) @ zs) (ys @ p # zs)"
    using stable_append [OF ins(2) stable_refl [of zs]] ys(1) by simp
  ultimately show ?case using stable_trans by fastforce
qed

lemma binarysort_spec:
  assumes "ordered ys" "ys \<noteq> []" "lo = length xs" "start = lo + length ys" "hi = start + length zs"
  shows "\<exists>rs. binarysort lt lo hi start (xs @ ys @ zs @ us) = Some (xs @ rs @ us) \<and>
    ordered rs \<and> stable rs (ys @ zs)"
  using binarysort_loop_spec [OF assms(1,3-5,2)] assms by (simp add: binarysort_def)

section \<open>Natural runs\<close>

lemma run_end_spec:
  assumes "nlo = lo + n" "nlo \<le> hi"
    and "\<And>i. lo < i \<Longrightarrow> i < nlo \<Longrightarrow> lt (xs ! i) (xs ! (i - 1)) = down"
  shows "n \<le> run_end lt down xs hi nlo n \<and> lo + run_end lt down xs hi nlo n \<le> hi \<and>
    (\<forall>i. lo < i \<and> i < lo + run_end lt down xs hi nlo n \<longrightarrow> lt (xs ! i) (xs ! (i - 1)) = down)"
  using assms
proof (induction "hi - nlo" arbitrary: nlo n rule: less_induct)
  case less
  show ?case
  proof (cases "nlo < hi \<and> lt (xs ! nlo) (xs ! (nlo - 1)) = down")
    case True
    have "Suc n \<le> run_end lt down xs hi (Suc nlo) (Suc n) \<and> lo + run_end lt down xs hi (Suc nlo) (Suc n) \<le> hi \<and>
      (\<forall>i. lo < i \<and> i < lo + run_end lt down xs hi (Suc nlo) (Suc n) \<longrightarrow> lt (xs ! i) (xs ! (i - 1)) = down)"
    proof (rule less.hyps)
      fix i assume "lo < i" "i < Suc nlo"
      then show "lt (xs ! i) (xs ! (i - 1)) = down" using True less.prems(3) [of i] by (cases "i = nlo") auto
    qed (use True less.prems in auto)
    moreover have "run_end lt down xs hi nlo n = run_end lt down xs hi (Suc nlo) (Suc n)"
      using True by (subst run_end.simps) simp
    ultimately show ?thesis by simp
  next
    case False
    then have "run_end lt down xs hi nlo n = n" by (simp only: run_end.simps [of lt down xs hi nlo n] if_False)
    then show ?thesis using less.prems by auto
  qed
qed

lemma count_run_spec:
  assumes "count_run lt xs lo hi = (down, n)" "lo < hi"
  shows "0 < n" "lo + n \<le> hi"
    "\<forall>i. lo < i \<and> i < lo + n \<longrightarrow> lt (xs ! i) (xs ! (i - 1)) = down"
proof -
  have "0 < n \<and> lo + n \<le> hi \<and> (\<forall>i. lo < i \<and> i < lo + n \<longrightarrow> lt (xs ! i) (xs ! (i - 1)) = down)"
  proof (cases "lo + 1 = hi")
    case True
    then show ?thesis using assms by (auto simp: count_run_def)
  next
    case False
    then have d: "down = lt (xs ! (lo + 1)) (xs ! lo)" "n = run_end lt down xs hi (lo + 2) 2"
      using assms(1) by (auto simp: count_run_def Let_def)
    have "2 \<le> run_end lt down xs hi (lo + 2) 2 \<and> lo + run_end lt down xs hi (lo + 2) 2 \<le> hi \<and>
      (\<forall>i. lo < i \<and> i < lo + run_end lt down xs hi (lo + 2) 2 \<longrightarrow> lt (xs ! i) (xs ! (i - 1)) = down)"
    proof (rule run_end_spec)
      fix i assume "lo < i" "i < lo + 2"
      then have "i = lo + 1" by simp
      then show "lt (xs ! i) (xs ! (i - 1)) = down" by (simp add: d(1))
    qed (use False assms(2) in auto)
    then show ?thesis unfolding d(2) [symmetric] by auto
  qed
  then show "0 < n" "lo + n \<le> hi"
    "\<forall>i. lo < i \<and> i < lo + n \<longrightarrow> lt (xs ! i) (xs ! (i - 1)) = down" by auto
qed

lemma ordered_adjacent:
  assumes "\<And>i. 0 < i \<Longrightarrow> i < length xs \<Longrightarrow> \<not> lt (xs ! i) (xs ! (i - 1))"
  shows "ordered xs"
proof -
  have "transp (\<lambda>x y. \<not> lt y x)" using not_lt_trans by (auto intro: transpI)
  then show ?thesis using assms [of "Suc _"] by (subst sorted_wrt_iff_nth_Suc_transp) auto
qed

text \<open>A strictly descending run holds no equivalent elements, so reversing it is stable.\<close>

lemma descending_rev:
  assumes "\<And>i. 0 < i \<Longrightarrow> i < length xs \<Longrightarrow> lt (xs ! i) (xs ! (i - 1))"
  shows "ordered (rev xs)" "stable (rev xs) xs"
proof -
  have "transp (\<lambda>x y. lt y x)" using lt_trans by (auto intro: transpI)
  then have desc: "sorted_wrt (\<lambda>x y. lt y x) xs"
    using assms [of "Suc _"] by (subst sorted_wrt_iff_nth_Suc_transp) auto
  have "sorted_wrt (\<lambda>x y. \<not> lt x y) xs"
    by (rule sorted_wrt_mono_rel [OF _ desc]) (use lt_asym in blast)
  then show "ordered (rev xs)" by (simp add: sorted_wrt_rev)
  have "filter (eqv z) (rev ys) = filter (eqv z) ys" if "sorted_wrt (\<lambda>x y. lt y x) ys" for ys z
    using that
  proof (induction ys)
    case (Cons y ys)
    have "filter (eqv z) ys = []" if "eqv z y"
    proof (rule filter_False, rule ballI)
      fix x assume "x \<in> set ys"
      then have "lt x y" using Cons.prems by auto
      then show "\<not> eqv z x" using that not_lt_trans [of x z y] by (auto simp: eqv_def)
    qed
    then show ?case using Cons by auto
  qed simp
  then show "stable (rev xs) xs" using desc by (simp add: stable_def)
qed

text \<open>The next run.\<close>

lemma next_run_spec:
  assumes lo: "lo = length xs" "nremaining = length ys" "hi = lo + nremaining" "ys \<noteq> []"
  obtains n rs zs where "next_run lt nremaining lo hi minrun (xs @ ys) = Some (n, xs @ rs @ zs)" "length rs = n" "0 < n" "n \<le> nremaining" "ordered rs"
    "stable (rs @ zs) ys" "minrun \<le> n \<or> n = nremaining"
proof -
  obtain down m where c: "count_run lt (xs @ ys) lo hi = (down, m)" by fastforce
  have "lo < hi" using lo by simp
  note cs = count_run_spec [OF c this]
  define as bs where "as = take m ys" and "bs = drop m ys"
  have ys: "ys = as @ bs" "length as = m" using cs(2) lo by (auto simp: as_def bs_def)
  have adj: "lt (as ! i) (as ! (i - 1)) = down" if "0 < i" "i < length as" for i
  proof -
    have "(xs @ ys) ! (lo + i) = as ! i" "(xs @ ys) ! (lo + i - 1) = as ! (i - 1)"
      using that lo(1) by (auto simp: ys(1) nth_append)
    then show ?thesis using cs(3) [rule_format, of "lo + i"] that ys(2) by simp
  qed
  define as' where "as' = (if down then rev as else as)"
  have as': "ordered as'" "stable as' as" "length as' = m"
    using adj ordered_adjacent [of as] descending_rev [of as] ys(2) by (cases down; auto simp: as'_def)+
  have arr: "(if down then reverse_slice lo (lo + m) (xs @ ys) else xs @ ys) = xs @ as' @ bs"
    using reverse_slice_append [of lo xs "lo + m" as bs] ys lo(1) by (auto simp: as'_def)
  show thesis
  proof (cases "m < minrun")
    case True
    define force where "force = (if nremaining \<le> minrun then nremaining else minrun)"
    have f: "m \<le> force" "force \<le> nremaining" using True ys lo(2) by (auto simp: force_def)
    define us vs where "us = take (force - m) bs" and "vs = drop (force - m) bs"
    have bs: "bs = us @ vs" "length us = force - m" using f ys lo(2) by (auto simp: us_def vs_def)
    have "as' \<noteq> []" using as'(3) cs(1) by auto
    then obtain rs where rs: "binarysort lt lo (lo + force) (lo + m) (xs @ as' @ us @ vs) = Some (xs @ rs @ vs)"
      "ordered rs" "stable rs (as' @ us)"
      using binarysort_spec [of as' lo xs "lo + m" "lo + force" us vs] as' lo(1) bs(2) f(1) by auto
    have "next_run lt nremaining lo hi minrun (xs @ ys) = Some (force, xs @ rs @ vs)"
      using \<open>lo < hi\<close> True rs(1) unfolding next_run_def c prod.case Let_def arr force_def [symmetric] bs(1) by simp
    moreover have "length rs = force" using stable_length [OF rs(3)] as'(3) bs(2) f(1) by simp
    moreover have "stable (rs @ vs) ys"
      using stable_append [OF stable_trans [OF rs(3) stable_append [OF as'(2) stable_refl]] stable_refl]
      by (simp add: ys(1) bs(1))
    moreover have "0 < force" using f cs(1) by simp
    ultimately show thesis using f rs(2) by (intro that [of force rs vs]) (auto simp: force_def)
  next
    case False
    then have "next_run lt nremaining lo hi minrun (xs @ ys) = Some (m, xs @ as' @ bs)"
      using \<open>lo < hi\<close> unfolding next_run_def c prod.case Let_def arr by simp
    moreover have "stable (as' @ bs) ys" using stable_append [OF as'(2) stable_refl] by (simp add: ys(1))
    ultimately show thesis using False as' cs lo ys by (intro that [of m as' bs]) auto
  qed
qed

end

section \<open>The minimal run\<close>

lemma minrun_loop_bounds:
  "8 \<le> n \<Longrightarrow> r \<le> 1 \<Longrightarrow> 8 \<le> merge_compute_minrun_loop r n"
proof (induction r n rule: merge_compute_minrun_loop.induct)
  case (1 r n)
  then show ?case by (subst merge_compute_minrun_loop.simps) auto
qed

lemma minrun_bounds: "16 \<le> n \<Longrightarrow> 8 \<le> merge_compute_minrun n"
  by (simp add: merge_compute_minrun_def minrun_loop_bounds)

lemma minrun_small: "n < 16 \<Longrightarrow> merge_compute_minrun n = n"
  by (simp add: merge_compute_minrun_def merge_compute_minrun_loop.simps)

end
