(* ===== verification/Gdk_Ssort_Props.thy ===== *)
theory Gdk_Ssort_Props
  imports Gdk_Ssort_Hi Gdk_Ssort_Runs Gdk_Atoms
begin

text \<open>
  Correctness of the whole sort: the pending stack describes adjacent ordered runs, merging
  keeps that, the invariant on the run lengths bounds the height of the stack, and so the
  sort ends with one run, a stable rearrangement of the array, and no failed assertion.
\<close>

section \<open>Merging two neighbours\<close>

text \<open>The stack after the merge of the runs \<open>i\<close> and \<open>i + 1\<close>.\<close>

definition merged :: "(nat \<times> nat) list \<Rightarrow> nat \<Rightarrow> (nat \<times> nat) list" where
  "merged p i =
     (let q = p[i := (fst (p ! i), snd (p ! i) + snd (p ! (i + 1)))]
      in butlast (if i + 3 = length p then q[i + 1 := q ! (i + 2)] else q))"

context sort_order
begin

text \<open>The parts that the merge skips are where they belong.\<close>

lemma smerge_trim:
  assumes "\<forall>x\<in>set as1. \<not> ISLT E (hd (bs1 @ bs2)) x" "ordered as2" "as2 \<noteq> []"
    and "\<forall>y\<in>set bs2. \<not> ISLT E y (last as2)"
  shows "smerge (as1 @ as2) (bs1 @ bs2) = as1 @ smerge as2 bs1 @ bs2"
proof -
  have "\<not> ISLT E b x" if "b \<in> set bs2" "x \<in> set as2" for b x
  proof -
    obtain as3 z where z: "as2 = as3 @ [z]" using assms(3) by (cases as2 rule: rev_cases) auto
    have "x = z \<or> \<not> ISLT E z x" using assms(2) that(2) by (auto simp: z sorted_wrt_append)
    moreover have "\<not> ISLT E b z" using assms(4) that(1) by (simp add: z)
    ultimately show ?thesis using not_lt_trans by blast
  qed
  then have "smerge as2 (bs1 @ bs2) = smerge as2 bs1 @ bs2" by (intro smerge_right_b) blast
  then show ?thesis using assms(1) by (simp add: smerge_left_a)
qed

lemma merge_at_ok:
  assumes p: "pending ms ! i = (length xs, length as)" "pending ms ! (i + 1) = (length xs + length as, length bs)"
      "i + 2 = length (pending ms) \<or> i + 3 = length (pending ms)"
    and arr: "base ms = xs @ as @ bs @ zs" "length (base ms) < 2 ^ 32"
    and as: "ordered as" "as \<noteq> []" and bs: "ordered bs" "bs \<noteq> []"
  shows "\<exists>r ms'. merge_at E i ms = Some (r, ms') \<and> pending ms' = merged (pending ms) i \<and>
    (r = 0 \<and> base ms' = xs @ smerge as bs @ zs \<or> r = - 1 \<and> base ms' = base ms) \<and>
    ((\<forall>k. granted E k) \<longrightarrow> r = 0)"
proof -
  define ms1 where "ms1 = ms\<lparr>pending := merged (pending ms) i\<rparr>"
  have ms1: "base ms1 = base ms" "pending ms1 = merged (pending ms) i" by (simp_all add: ms1_def)
  have hd: "base ms ! (length xs + length as) = hd bs"
    using nth_hole [of as "length as" xs _ "tl bs @ zs"] bs(2) unfolding arr(1) by (cases bs) auto
  have "length as < 2 ^ 63" "length bs < 2 ^ 63" using arr by simp_all
  have asn: "base ms ! (length xs + i) = as ! i" if "i < length as" for i
    using that by (simp add: arr(1) nth_append)
  obtain k where gk: "gallop_right (ISLT E) (hd bs) (\<lambda>i. base ms ! (length xs + i)) (length as) 0 = Some k"
    and k0: "k \<le> length as" "\<forall>x\<in>set (take k as). \<not> ISLT E (hd bs) x" "\<forall>x\<in>set (drop k as). ISLT E (hd bs) x"
    using gallop_right_spec [OF _ \<open>length as < 2 ^ 63\<close> as(1) asn] as(2) by blast
  define as1 as2 where "as1 = take k as" and "as2 = drop k as"
  note k = k0 [folded as1_def as2_def]
  have as12: "as = as1 @ as2" "length as1 = k" using k(1) by (simp_all add: as1_def as2_def)
  have mp: "merged (pending ms) i = butlast (if i + 3 = length (pending ms)
    then (pending ms)[i := (length xs, length as + length bs),
        i + 1 := (pending ms)[i := (length xs, length as + length bs)] ! (i + 2)]
    else (pending ms)[i := (length xs, length as + length bs)])"
    unfolding merged_def Let_def p(1,2) fst_conv snd_conv ..
  have sel: "base (ms\<lparr>pending := q\<rparr>) = base ms" for q by simp
  have start: "merge_at E i ms =
    (if length as - k = 0 then Some (0, ms1)
     else Option.bind
       (gallop_left (ISLT E) (base ms ! (length xs + k + (length as - k) - 1))
          (\<lambda>i. base ms ! (length xs + length as + i)) (length bs) (length bs - 1))
       (\<lambda>nb. if nb = 0 then Some (0, ms1)
          else if length as - k \<le> nb then merge_lo E (length xs + k) (length as - k) (length xs + length as) nb ms1
          else merge_hi E (length xs + k) (length as - k) (length xs + length as) nb ms1))"
    using p(3) as(2) bs(2) unfolding merge_at_def Let_def p(1,2) prod.case sel hd gk bind.bind_lunit ms1_def mp by simp
  show ?thesis
  proof (cases "as2 = []")
    case True
    then have "smerge as bs = as @ bs" using k(2) as12(1) smerge_left_a [of as1 bs "[]"] by simp
    moreover have "merge_at E i ms = Some (0, ms1)" using start True as12 by simp
    ultimately show ?thesis using ms1 arr(1) by simp
  next
    case False
    have bsn: "base ms ! (length xs + length as + i) = bs ! i" if "i < length bs" for i
      using that nth_append [of "xs @ as" "bs @ zs" "length xs + length as + i"]
      by (simp add: arr(1) nth_append)
    have hint: "length bs - 1 < length bs" using bs(2) by simp
    obtain nb where gnb: "gallop_left (ISLT E) (last as2) (\<lambda>i. base ms ! (length xs + length as + i)) (length bs)
        (length bs - 1) = Some nb"
      and nb0: "nb \<le> length bs" "\<forall>y\<in>set (take nb bs). ISLT E y (last as2)"
        "\<forall>y\<in>set (drop nb bs). \<not> ISLT E y (last as2)"
      using gallop_left_spec [OF hint \<open>length bs < 2 ^ 63\<close> bs(1) bsn] .
    define bs1 bs2 where "bs1 = take nb bs" and "bs2 = drop nb bs"
    note nb = nb0 [folded bs1_def bs2_def]
    have bs12: "bs = bs1 @ bs2" "length bs1 = nb" using nb(1) by (simp_all add: bs1_def bs2_def)
    have "bs1 \<noteq> []"
    proof
      assume "bs1 = []"
      then have "hd bs \<in> set bs2" using bs12 bs(2) by simp
      then show False using nb(3) k(3) False last_in_set by blast
    qed
    obtain as3 a where a: "as2 = as3 @ [a]" using False by (cases as2 rule: rev_cases) auto
    have last: "base ms ! (length xs + k + (length as - k) - 1) = last as2"
    proof -
      have "base ms ! (length (xs @ as1 @ as3)) = a"
        unfolding arr(1) as12(1) a using nth_append_length [of "xs @ as1 @ as3" a "bs @ zs"] by simp
      then show ?thesis using as12 by (simp add: a add.assoc)
    qed
    have go: "merge_at E i ms =
      (if length as2 \<le> nb then merge_lo E (length (xs @ as1)) (length as2) (length (xs @ as1) + length as2) nb ms1
       else merge_hi E (length (xs @ as1)) (length as2) (length (xs @ as1) + length as2) nb ms1)"
      unfolding start last gnb bind.bind_lunit using False as12 \<open>bs1 \<noteq> []\<close> bs12(2)
      by (auto simp: add.assoc)
    have base1: "base ms1 = (xs @ as1) @ as2 @ bs1 @ (bs2 @ zs)" by (simp add: ms1 arr(1) as12(1) bs12(1))
    have ord: "ordered as2" "ordered bs1" using as(1) bs(1) by (simp_all add: as12(1) bs12(1) sorted_wrt_append)
    have hdbs: "hd bs1 = hd bs" using \<open>bs1 \<noteq> []\<close> by (simp add: bs12(1))
    have trim: "smerge as bs = as1 @ smerge as2 bs1 @ bs2"
      unfolding as12(1) bs12(1) by (rule smerge_trim) (use k(2) ord nb(3) False in \<open>simp_all add: bs12(1) [symmetric]\<close>)
    have ex: "\<exists>r ms'. merge_at E i ms = Some (r, ms') \<and>
      (r = 0 \<and> base ms' = (xs @ as1) @ smerge as2 bs1 @ (bs2 @ zs) \<or> r = - 1 \<and> base ms' = base ms1) \<and>
      ((\<forall>k. granted E k) \<longrightarrow> r = 0)"
    proof (cases "length as2 \<le> nb")
      case True
      obtain b bs3 where b: "bs1 = b # bs3" using \<open>bs1 \<noteq> []\<close> by (cases bs1) auto
      show ?thesis
        unfolding go if_P [OF True] unfolding b
        by (rule merge_lo_ok)
          (use True base1 bs12(2) arr(2) ord False k(3) nb(2) hdbs in \<open>simp_all add: b ms1\<close>)
    next
      case lo: False
      show ?thesis
        unfolding go if_not_P [OF lo] unfolding a
        by (rule merge_hi_ok)
          (use lo base1 bs12(2) arr(2) ord \<open>bs1 \<noteq> []\<close> k(3) nb(2) hdbs in \<open>simp_all add: a ms1\<close>)
    qed
    then obtain r ms' where r: "merge_at E i ms = Some (r, ms')"
      "r = 0 \<and> base ms' = (xs @ as1) @ smerge as2 bs1 @ (bs2 @ zs) \<or> r = - 1 \<and> base ms' = base ms1"
      "(\<forall>k. granted E k) \<longrightarrow> r = 0"
      by blast
    have "pending ms' = merged (pending ms) i"
      using r(1) unfolding go ms1(2) [symmetric] by (auto split: if_splits dest: merge_pending)
    moreover have "r = 0 \<and> base ms' = xs @ smerge as bs @ zs \<or> r = - 1 \<and> base ms' = base ms"
      using r(2) unfolding trim ms1(1) append_assoc .
    ultimately show ?thesis using r(1,3) by blast
  qed
qed

end

section \<open>The stack of runs\<close>

lemma merged_append:
  assumes "length V \<le> 1"
  shows "merged (U @ [a, b] @ V) (length U) = U @ [(fst a, snd a + snd b)] @ V"
proof (cases V)
  case (Cons c W)
  then show ?thesis using assms
    by (simp add: merged_def Let_def nth_append list_update_append butlast_append)
qed (simp add: merged_def Let_def nth_append list_update_append butlast_append)

lemma split_pair:
  assumes "i + 2 = length p \<or> i + 3 = length p"
  obtains U a b V where "p = U @ [a, b] @ V" "length U = i" "length V \<le> 1"
proof (rule that)
  show "p = take i p @ [p ! i, p ! (i + 1)] @ drop (i + 2) p"
    using id_take_nth_drop [of i p] Cons_nth_drop_Suc [of "Suc i" p] assms by fastforce
qed (use assms in auto)

text \<open>The entries of the stack for adjacent runs.\<close>

fun slices :: "nat \<Rightarrow> 'a list list \<Rightarrow> (nat \<times> nat) list" where
  "slices b [] = []"
| "slices b (r # rs) = (b, length r) # slices (b + length r) rs"

lemma slices_append: "slices b (rs @ us) = slices b rs @ slices (b + length (concat rs)) us"
  by (induction b rs rule: slices.induct) (auto simp: add.assoc)

lemma length_slices [simp]: "length (slices b rs) = length rs"
  by (induction b rs rule: slices.induct) auto

lemma snd_slices [simp]: "map snd (slices b rs) = map length rs"
  by (induction b rs rule: slices.induct) auto

lemma index_ends:
  "collapse_index p = Some i \<Longrightarrow> i + 2 = length p \<or> i + 3 = length p"
  "force_index p = Some i \<Longrightarrow> i + 2 = length p \<or> i + 3 = length p"
  by (unfold collapse_index_def force_index_def Let_def) (clarsimp split: if_splits; linarith)+

context sort_order
begin

definition stack_rep :: "('h \<times> 't) mergestate \<Rightarrow> ('h \<times> 't) list list \<Rightarrow> ('h \<times> 't) list \<Rightarrow> bool" where
  "stack_rep ms rs rest \<longleftrightarrow>
     base ms = concat rs @ rest \<and> pending ms = slices 0 rs \<and> (\<forall>r\<in>set rs. r \<noteq> [] \<and> ordered r)"

lemma merge_at_stack:
  assumes rep: "stack_rep ms (us @ [as, bs] @ vs) rest" and vs: "length vs \<le> 1" and len: "length (base ms) < 2 ^ 32"
  shows "\<exists>r ms'. merge_at E (length us) ms = Some (r, ms') \<and>
    (r = 0 \<and> stack_rep ms' (us @ [smerge as bs] @ vs) rest \<or> r = - 1 \<and> base ms' = base ms) \<and>
    ((\<forall>k. granted E k) \<longrightarrow> r = 0)"
proof -
  let ?xs = "concat us" and ?zs = "concat vs @ rest"
  have p: "pending ms = slices 0 us @ [(length ?xs, length as), (length ?xs + length as, length bs)] @
      slices (length ?xs + length as + length bs) vs"
    using rep by (simp add: stack_rep_def slices_append)
  have b: "base ms = ?xs @ as @ bs @ ?zs" "as \<noteq> []" "ordered as" "bs \<noteq> []" "ordered bs"
    using rep by (simp_all add: stack_rep_def)
  have v: "vs = [] \<or> length vs = 1" using vs by (cases vs) auto
  have "\<exists>r ms'. merge_at E (length us) ms = Some (r, ms') \<and> pending ms' = merged (pending ms) (length us) \<and>
    (r = 0 \<and> base ms' = ?xs @ smerge as bs @ ?zs \<or> r = - 1 \<and> base ms' = base ms) \<and>
    ((\<forall>k. granted E k) \<longrightarrow> r = 0)"
    by (rule merge_at_ok [where as = as and bs = bs])
      (use b v len in \<open>auto simp: p nth_append\<close>)
  then obtain r ms' where r: "merge_at E (length us) ms = Some (r, ms')"
    "pending ms' = merged (pending ms) (length us)"
    "r = 0 \<and> base ms' = ?xs @ smerge as bs @ ?zs \<or> r = - 1 \<and> base ms' = base ms"
    "(\<forall>k. granted E k) \<longrightarrow> r = 0"
    by blast
  have "pending ms' = slices 0 (us @ [smerge as bs] @ vs)"
    using merged_append [of "slices (length ?xs + length as + length bs) vs" "slices 0 us"] vs
    by (simp add: r(2) p slices_append add.assoc)
  moreover have "\<forall>r\<in>set (us @ [smerge as bs] @ vs). r \<noteq> [] \<and> ordered r"
    using rep ordered_smerge [of as bs] length_smerge [of as bs] by (auto simp: stack_rep_def simp del: length_smerge)
  ultimately show ?thesis using r by (fastforce simp: stack_rep_def)
qed

text \<open>
  The merging loop, for an index function that asks for one of the last two pairs, and a
  property \<open>J\<close> of the stack that such merges keep.
\<close>

lemma merge_while_ok:
  assumes index: "\<And>p i. index p = Some i \<Longrightarrow> i + 2 = length p \<or> i + 3 = length p"
    and J: "\<And>U a b V. J (U @ [a, b] @ V) \<Longrightarrow> length V \<le> 1 \<Longrightarrow> J (U @ [(fst a, snd a + snd b)] @ V)"
    and rep: "stack_rep ms rs rest" "length (base ms) < 2 ^ 32" "J (pending ms)"
  shows "\<exists>r ms'. merge_while index E ms = Some (r, ms') \<and> stable (base ms') (base ms) \<and>
    (r = 0 \<and> (\<exists>rs'. stack_rep ms' rs' rest \<and> index (pending ms') = None \<and> J (pending ms')) \<or> r = - 1) \<and>
    ((\<forall>k. granted E k) \<longrightarrow> r = 0)"
  using rep
proof (induction "length (pending ms)" arbitrary: ms rs rule: less_induct)
  case less
  show ?case
  proof (cases "index (pending ms)")
    case None
    then show ?thesis using less.prems by (subst merge_while.simps) auto
  next
    case (Some i)
    have "i + 2 = length rs \<or> i + 3 = length rs"
      using index [OF Some] less.prems(1) by (simp add: stack_rep_def)
    then obtain us as bs vs where rs: "rs = us @ [as, bs] @ vs" "length us = i" "length vs \<le> 1"
      by (rule split_pair)
    obtain r ms1 where r: "merge_at E i ms = Some (r, ms1)"
      "r = 0 \<and> stack_rep ms1 (us @ [smerge as bs] @ vs) rest \<or> r = - 1 \<and> base ms1 = base ms"
      "(\<forall>k. granted E k) \<longrightarrow> r = 0"
      using merge_at_stack [of ms us as bs vs rest] less.prems(1,2) rs by auto
    have step: "merge_while index E ms = (if r < 0 then Some (- 1, ms1) else merge_while index E ms1)"
      by (subst merge_while.simps) (simp add: Some r(1))
    show ?thesis
    proof (cases "r = 0")
      case True
      then have rep1: "stack_rep ms1 (us @ [smerge as bs] @ vs) rest" using r(2) by simp
      have "ordered as" using less.prems(1) by (simp add: stack_rep_def rs(1))
      then have st: "stable (base ms1) (base ms)"
        using rep1 less.prems(1) stable_append [OF stable_refl [of "concat us"]
            stable_append [OF stable_smerge [of as bs] stable_refl [of "concat vs @ rest"]]]
        by (simp add: stack_rep_def rs(1))
      have "J (pending ms1)"
        using J [of "slices 0 us" "(length (concat us), length as)" "(length (concat us) + length as, length bs)"
            "slices (length (concat us) + length as + length bs) vs"] less.prems(1,3) rep1 rs(3)
        by (simp add: stack_rep_def rs(1) slices_append add.assoc)
      then obtain r' ms' where "merge_while index E ms1 = Some (r', ms')" "stable (base ms') (base ms1)"
        "r' = 0 \<and> (\<exists>rs'. stack_rep ms' rs' rest \<and> index (pending ms') = None \<and> J (pending ms')) \<or> r' = - 1"
        "(\<forall>k. granted E k) \<longrightarrow> r' = 0"
        using less.hyps [OF merge_at_pending [OF r(1)] rep1] less.prems(2) stable_length [OF st] by auto
      then show ?thesis using True step stable_trans [OF _ st] by auto
    next
      case False
      then show ?thesis using r step by auto
    qed
  qed
qed

end

section \<open>The height of the stack\<close>

text \<open>Every run is longer than the two above it together.\<close>

fun steep :: "nat list \<Rightarrow> bool" where
  "steep (x # y # z # L) \<longleftrightarrow> y + z < x \<and> steep (y # z # L)"
| "steep [x, y] \<longleftrightarrow> y < x"
| "steep _ \<longleftrightarrow> True"

definition grow :: "nat list \<Rightarrow> bool" where
  "grow L \<longleftrightarrow> (\<forall>i. i + 2 < length L \<longrightarrow> L ! (i + 1) + L ! (i + 2) < L ! i)"

lemma steepI: "grow L \<Longrightarrow> (\<And>i. i + 2 = length L \<Longrightarrow> L ! (i + 1) < L ! i) \<Longrightarrow> steep L"
proof (induction L rule: steep.induct)
  case (1 x y z L)
  have "grow (y # z # L)"
    unfolding grow_def
  proof (intro allI impI)
    fix i assume "i + 2 < length (y # z # L)"
    then show "(y # z # L) ! (i + 1) + (y # z # L) ! (i + 2) < (y # z # L) ! i"
      using 1(2) [unfolded grow_def, rule_format, of "Suc i"] by simp
  qed
  moreover have "(y # z # L) ! (i + 1) < (y # z # L) ! i" if "i + 2 = length (y # z # L)" for i
    using 1(3) [of "Suc i"] that by simp
  moreover have "y + z < x" using 1(2) [unfolded grow_def, rule_format, of 0] by simp
  ultimately show ?case using 1(1) by simp
next
  case (2 x y)
  show ?case using 2(2) [of 0] by simp
qed simp_all

lemma steepD: "steep L \<Longrightarrow> grow L"
proof (induction L rule: steep.induct)
  case (1 x y z L)
  show ?case unfolding grow_def
  proof (intro allI impI)
    fix i assume "i + 2 < length (x # y # z # L)"
    then show "(x # y # z # L) ! (i + 1) + (x # y # z # L) ! (i + 2) < (x # y # z # L) ! i"
      using 1 by (cases i) (auto simp: grow_def)
  qed
qed (simp_all add: grow_def)

text \<open>The least lengths of the runs above which \<open>n\<close> runs of at least 8 elements are pending.\<close>

fun least_run :: "nat \<Rightarrow> int \<times> int" where
  "least_run 0 = (8, 9)"
| "least_run (Suc n) = (case least_run n of (a, b) \<Rightarrow> (b, a + b + 1))"

lemma least_run_Suc: "fst (least_run (Suc n)) = snd (least_run n)"
  "snd (least_run (Suc n)) = fst (least_run n) + snd (least_run n) + 1"
  by (simp_all split: prod.splits)

declare least_run.simps(2) [simp del]

lemma least_run_one: "least_run (Suc 0) = (9, 18)"
  by (simp add: least_run.simps(2))

lemma least_run_numeral: "least_run (numeral k) = (case least_run (pred_numeral k) of (a, b) \<Rightarrow> (b, a + b + 1))"
  by (simp only: numeral_eq_Suc least_run.simps(2))

lemma least_run_pos: "0 < fst (least_run n) \<and> 0 < snd (least_run n)"
  by (induction n) (auto simp: least_run_Suc)

lemma steep_nth:
  "steep L \<Longrightarrow> \<forall>y\<in>set L. 8 \<le> y \<Longrightarrow> i < length L \<Longrightarrow> fst (least_run (length L - 1 - i)) \<le> int (L ! i)"
proof (induction L arbitrary: i rule: steep.induct)
  case (1 x y z L)
  have IH: "fst (least_run (length L + 1 - i)) \<le> int ((y # z # L) ! i)" if "i < length (y # z # L)" for i
    using 1(1) [of i] 1(2-3) that by simp
  have "fst (least_run (Suc (length L))) \<le> int y" "fst (least_run (length L)) \<le> int z"
    using IH [of 0] IH [of 1] by simp_all
  then have "fst (least_run (length L + 2)) \<le> int x" using 1(2) by (simp add: least_run_Suc)
  then show ?case using IH [of "i - 1"] 1(4) by (cases i) auto
next
  case (2 x y)
  then show ?case by (cases i) (auto simp: least_run_Suc)
qed simp_all

definition least_total :: "nat \<Rightarrow> int" where
  "least_total n = snd (least_run n) - 9 - int n"

lemma least_total_Suc: "least_total (Suc n) = fst (least_run n) + least_total n"
  by (simp add: least_total_def least_run_Suc)

lemma least_total_mono: "m \<le> n \<Longrightarrow> least_total m \<le> least_total n"
  by (rule lift_Suc_mono_le [of least_total]) (use least_run_pos in \<open>auto simp: least_total_Suc less_imp_le\<close>)

lemma steep_tl: "steep (x # L) \<Longrightarrow> steep L"
  by (cases L; cases "tl L") auto

lemma steep_total: "steep L \<Longrightarrow> \<forall>y\<in>set L. 8 \<le> y \<Longrightarrow> least_total (length L) \<le> int (sum_list L)"
proof (induction L)
  case (Cons x L)
  have "fst (least_run (length L)) \<le> int x" using steep_nth [OF Cons.prems, of 0] by simp
  then show ?case using Cons.IH [OF steep_tl [OF Cons.prems(1)]] Cons.prems(2) by (simp add: least_total_Suc)
qed (simp add: least_total_def)

lemma steep_height:
  assumes "steep L" "\<forall>y\<in>set L. 8 \<le> y" "sum_list L < 2 ^ 62"
  shows "length L < MAX_MERGE_PENDING"
proof (rule ccontr)
  assume "\<not> ?thesis"
  then have "least_total 85 \<le> least_total (length L)"
    by (intro least_total_mono) (simp add: MAX_MERGE_PENDING_def)
  moreover have "(2::int) ^ 62 < least_total 85" 
    by (simp add: least_total_def least_run_numeral least_run_one)
  ultimately have "(2::int) ^ 62 < int (sum_list L)" using steep_total [OF assms(1,2)] by linarith
  moreover have "int (sum_list L) < 2 ^ 62" using assms(3) by simp
  ultimately show False by linarith
qed

text \<open>What the merging loop keeps of the run lengths, and what it restores.\<close>

definition nearly_steep :: "nat \<Rightarrow> (nat \<times> nat) list \<Rightarrow> bool" where
  "nearly_steep m p \<longleftrightarrow> grow (take (length p - 2) (map snd p)) \<and> (\<forall>x\<in>set (map snd p). m \<le> x)"

lemma grow_take: "grow L \<Longrightarrow> grow (take n L)"
  by (simp add: grow_def)

lemma nearly_steep_merge:
  assumes "nearly_steep m (U @ [a, b] @ V)" "length V \<le> 1"
  shows "nearly_steep m (U @ [(fst a, snd a + snd b)] @ V)"
proof -
  let ?L = "\<lambda>q. take (length U + length V - 1) (map snd (U @ q @ V))"
  have "?L [(fst a, snd a + snd b)] = ?L [a, b]" using assms(2) by simp
  moreover have "?L [a, b] = take (length U + length V - 1) (take (length U + length V) (map snd (U @ [a, b] @ V)))"
    by (simp del: map_append append.simps)
  moreover have "grow (take (length U + length V) (map snd (U @ [a, b] @ V)))"
    using assms(1) by (simp add: nearly_steep_def)
  ultimately have "grow (?L [(fst a, snd a + snd b)])" using grow_take by metis
  then show ?thesis using assms(1) by (auto simp: nearly_steep_def)
qed

lemma collapse_steep:
  assumes "collapse_index p = None" "grow (take (length p - 2) (map snd p))"
  shows "steep (map snd p)"
proof (rule steepI)
  let ?L = "map snd p"
  have stop: "\<not> (0 < i \<and> ?L ! (i - 1) \<le> ?L ! i + ?L ! (i + 1))"
    "\<not> (1 < i \<and> ?L ! (i - 2) \<le> ?L ! (i - 1) + ?L ! i)" "?L ! (i + 1) < ?L ! i"
    if "i + 2 = length p" for i
  proof -
    have i: "length p - 2 = i" "1 < length p" using that by auto
    have nth: "?L ! j = runlen p j" if "j \<le> i + 1" for j
      using that \<open>i + 2 = length p\<close> by (simp add: runlen_def)
    have "\<not> ((0 < i \<and> runlen p (i - 1) \<le> runlen p i + runlen p (i + 1)) \<or>
           (1 < i \<and> runlen p (i - 2) \<le> runlen p (i - 1) + runlen p i))" "\<not> runlen p i \<le> runlen p (i + 1)"
      using assms(1) i by (auto simp: collapse_index_def Let_def split: if_splits)
    then show "\<not> (0 < i \<and> ?L ! (i - 1) \<le> ?L ! i + ?L ! (i + 1))"
      "\<not> (1 < i \<and> ?L ! (i - 2) \<le> ?L ! (i - 1) + ?L ! i)" "?L ! (i + 1) < ?L ! i"
      by (simp_all only: nth le_add1 le_add2 le_refl diff_le_self trans_le_add1 not_le) auto
  qed
  show "?L ! (i + 1) < ?L ! i" if "i + 2 = length ?L" for i using stop(3) [of i] that by simp
  show "grow ?L"
    unfolding grow_def
  proof (intro allI impI)
    fix i assume i: "i + 2 < length ?L"
    consider "i + 3 = length p" | "i + 4 = length p" | "i + 4 < length p" using i by fastforce
    then show "?L ! (i + 1) + ?L ! (i + 2) < ?L ! i"
    proof cases
      case 1
      then show ?thesis using stop(1) [of "i + 1"] by simp
    next
      case 2
      then show ?thesis using stop(2) [of "i + 2"] by simp
    next
      case 3
      then show ?thesis using assms(2) [unfolded grow_def, rule_format, of i] by simp
    qed
  qed
qed

section \<open>The loop over the runs\<close>

context sort_order
begin

lemma force_ok:
  assumes "stack_rep ms rs []" "length (base ms) < 2 ^ 32" "base ms \<noteq> []"
  shows "\<exists>r ms'. merge_while force_index E ms = Some (r, ms') \<and> stable (base ms') (base ms) \<and>
    (r = 0 \<and> ordered (base ms') \<and> pending ms' = [(0, length (base ms'))] \<or> r = - 1) \<and>
    ((\<forall>k. granted E k) \<longrightarrow> r = 0)"
proof -
  have "\<exists>r ms'. merge_while force_index E ms = Some (r, ms') \<and> stable (base ms') (base ms) \<and>
    (r = 0 \<and> (\<exists>rs'. stack_rep ms' rs' [] \<and> force_index (pending ms') = None \<and> True) \<or> r = - 1) \<and>
    ((\<forall>k. granted E k) \<longrightarrow> r = 0)"
    by (rule merge_while_ok [where J = "\<lambda>_. True"]) (use index_ends(2) assms in auto)
  then obtain r ms' where r: "merge_while force_index E ms = Some (r, ms')" "stable (base ms') (base ms)"
    "r = 0 \<and> (\<exists>rs'. stack_rep ms' rs' [] \<and> force_index (pending ms') = None) \<or> r = - 1"
    "(\<forall>k. granted E k) \<longrightarrow> r = 0"
    by blast
  have "ordered (base ms') \<and> pending ms' = [(0, length (base ms'))]"
    if rep: "stack_rep ms' rs' []" "force_index (pending ms') = None" for rs'
  proof -
    have "length rs' \<le> 1"
      using rep by (auto simp: force_index_def Let_def stack_rep_def split: if_splits)
    moreover have "rs' \<noteq> []" using rep(1) stable_length [OF r(2)] assms(3) by (auto simp: stack_rep_def)
    ultimately obtain ys where "rs' = [ys]" by (cases rs'; cases "tl rs'") auto
    then show ?thesis using rep(1) by (simp add: stack_rep_def)
  qed
  then show ?thesis using r by blast
qed

text \<open>
  The invariant of the loop: the pending runs are steep, and not shorter than \<open>minrun\<close> unless
  nothing remains.
\<close>

lemma push_ok:
  assumes rep: "stack_rep ms rs rest" "length (base ms) < 2 ^ 32" "rest \<noteq> []"
    and steep: "steep (map length rs)" "\<forall>r\<in>set rs. minrun \<le> length r"
  shows "\<exists>n arr r ms'.
    next_run (ISLT E) (length rest) (length (concat rs)) (length (base ms)) minrun (base ms) = Some (n, arr) \<and>
    merge_while collapse_index E (ms\<lparr>base := arr, pending := pending ms @ [(length (concat rs), n)]\<rparr>) = Some (r, ms') \<and> stable (base ms') (base ms) \<and> 0 < n \<and> n \<le> length rest \<and>
    (r = 0 \<and> (\<exists>rs' rest'. stack_rep ms' rs' rest' \<and> length rest' = length rest - n \<and> steep (map length rs') \<and>
        (rest' = [] \<or> (\<forall>r\<in>set rs'. minrun \<le> length r))) \<or> r = - 1) \<and>
    ((\<forall>k. granted E k) \<longrightarrow> r = 0)"
proof -
  have b: "base ms = concat rs @ rest" using rep(1) by (simp add: stack_rep_def)
  obtain n ys zs where ys: "next_run (ISLT E) (length rest) (length (concat rs)) (length (base ms)) minrun (base ms) =
      Some (n, concat rs @ ys @ zs)" "length ys = n" "0 < n" "n \<le> length rest" "ordered ys"
    "stable (ys @ zs) rest" "minrun \<le> n \<or> n = length rest"
    unfolding b by (rule next_run_spec [OF refl refl _ rep(3), where xs = "concat rs"]) auto
  let ?p = "pending ms @ [(length (concat rs), n)]"
  let ?ms = "ms\<lparr>base := concat rs @ ys @ zs, pending := ?p\<rparr>"
  have zs: "length zs = length rest - n" using stable_length [OF ys(6)] ys(2) by simp
  define m where "m = (if zs = [] then 0 else minrun)"
  have rep1: "stack_rep ?ms (rs @ [ys]) zs"
    using rep(1) ys(2,3,5) by (auto simp: stack_rep_def slices_append)
  have len: "length (base ?ms) < 2 ^ 32" using rep(2) ys(2,4) zs by (simp add: b)
  have lens: "map snd ?p = map length rs @ [n]" using rep(1) by (simp add: stack_rep_def)
  have "length ?p = length rs + 1" using rep(1) by (simp add: stack_rep_def)
  then have "take (length ?p - 2) (map snd ?p) = take (length rs - 1) (map length rs)" unfolding lens by simp
  moreover have "\<forall>x\<in>set (map snd ?p). m \<le> x" 
    using steep(2) ys(7) zs unfolding lens m_def by auto
  ultimately have "nearly_steep m (pending ?ms)"
    using grow_take [OF steepD [OF steep(1)], of "length rs - 1"] by (simp add: nearly_steep_def)
  then have "\<exists>r ms'. merge_while collapse_index E ?ms = Some (r, ms') \<and> stable (base ms') (base ?ms) \<and>
    (r = 0 \<and> (\<exists>rs'. stack_rep ms' rs' zs \<and> collapse_index (pending ms') = None \<and> nearly_steep m (pending ms')) \<or> r = - 1) \<and>
    ((\<forall>k. granted E k) \<longrightarrow> r = 0)"
    using merge_while_ok [where J = "nearly_steep m" and index = collapse_index, OF index_ends(1) nearly_steep_merge rep1 len]
    by blast
  then obtain r ms' where r: "merge_while collapse_index E ?ms = Some (r, ms')" "stable (base ms') (base ?ms)"
    "r = 0 \<and> (\<exists>rs'. stack_rep ms' rs' zs \<and> collapse_index (pending ms') = None \<and> nearly_steep m (pending ms')) \<or> r = - 1"
    "(\<forall>k. granted E k) \<longrightarrow> r = 0"
    by blast
  have "stable (base ?ms) (base ms)" using stable_append [OF stable_refl ys(6)] by (simp add: b)
  then have st: "stable (base ms') (base ms)" using r(2) stable_trans by blast
  have "steep (map length rs') \<and> (zs = [] \<or> (\<forall>r\<in>set rs'. minrun \<le> length r))"
    if s: "stack_rep ms' rs' zs" "collapse_index (pending ms') = None" "nearly_steep m (pending ms')" for rs'
  proof -
    have "map snd (pending ms') = map length rs'" using s(1) by (simp add: stack_rep_def)
    then show ?thesis using collapse_steep [OF s(2)] s(3) by (auto simp: nearly_steep_def m_def)
  qed
  then show ?thesis using r(1,3,4) st ys(1,3,4) zs by blast
qed

lemma do_ssort_ok:
  assumes rep: "stack_rep ms rs rest" "length (base ms) < 2 ^ 32" "base ms \<noteq> []"
    and steep: "steep (map length rs)" "rest = [] \<or> (\<forall>r\<in>set rs. minrun \<le> length r)"
    and minrun: "8 \<le> minrun \<or> length (base ms) \<le> minrun"
  shows "\<exists>r ms'. do_ssort E (length rest) (length (concat rs)) (length (base ms)) minrun ms = Some (r, ms') \<and>
    stable (base ms') (base ms) \<and>
    (r = 0 \<and> ordered (base ms') \<and> pending ms' = [(0, length (base ms'))] \<or> r = - 1) \<and>
    ((\<forall>k. granted E k) \<longrightarrow> r = 0)"
  using assms
proof (induction "length rest" arbitrary: ms rs rest rule: less_induct)
  case less
  let ?lo = "length (concat rs)" and ?hi = "length (base ms)"
  have b: "base ms = concat rs @ rest" using less.prems(1) by (simp add: stack_rep_def)
  note len = less.prems(2)
  show ?case
  proof (cases "rest = []")
    case True
    then have "do_ssort E (length rest) ?lo ?hi minrun ms = merge_while force_index E ms"
      by (subst do_ssort.simps) (simp add: b)
    then show ?thesis using force_ok [OF _ len less.prems(3)] less.prems(1) True by simp
  next
    case False
    have lens: "\<forall>r\<in>set rs. minrun \<le> length r" using less.prems(5) False by blast
    have height: "length (pending ms) < MAX_MERGE_PENDING"
    proof (cases "8 \<le> minrun")
      case True
      have "sum_list (map length rs) \<le> ?hi" by (simp add: b length_concat)
      then have "length (map length rs) < MAX_MERGE_PENDING"
        using less.prems(2) lens True by (intro steep_height less.prems(4)) auto
      then show ?thesis using less.prems(1) by (simp add: stack_rep_def)
    next
      case small: False
      have "rs = []"
      proof (rule ccontr)
        assume "rs \<noteq> []"
        then obtain r rs' where rs: "rs = r # rs'" by (cases rs) auto
        then have "minrun \<le> length r" using lens by simp
        then show False using less.prems(6) small False by (cases rest) (auto simp: b rs)
      qed
      then show ?thesis using less.prems(1) by (simp add: stack_rep_def MAX_MERGE_PENDING_def)
    qed
    obtain n arr r ms1 where run: "next_run (ISLT E) (length rest) ?lo ?hi minrun (base ms) = Some (n, arr)"
      and r: "merge_while collapse_index E (ms\<lparr>base := arr, pending := pending ms @ [(?lo, n)]\<rparr>) = Some (r, ms1)"
      "stable (base ms1) (base ms)" "0 < n" "n \<le> length rest"
      "r = 0 \<and> (\<exists>rs' rest'. stack_rep ms1 rs' rest' \<and> length rest' = length rest - n \<and> steep (map length rs') \<and>
        (rest' = [] \<or> (\<forall>r\<in>set rs'. minrun \<le> length r))) \<or> r = - 1"
      "(\<forall>k. granted E k) \<longrightarrow> r = 0"
      using push_ok [OF less.prems(1) len False less.prems(4) lens] by blast
    have step: "do_ssort E (length rest) ?lo ?hi minrun ms =
      (if r < 0 then Some (- 1, ms1) else do_ssort E (length rest - n) (?lo + n) ?hi minrun ms1)"
      using height False by (subst do_ssort.simps) (simp add: run r(1))
    show ?thesis
    proof (cases "r = 0")
      case True
      then obtain rs' rest' where s: "stack_rep ms1 rs' rest'" "length rest' = length rest - n" "steep (map length rs')"
        "rest' = [] \<or> (\<forall>r\<in>set rs'. minrun \<le> length r)"
        using r(5) by auto
      have hi: "length (base ms1) = ?hi" using stable_length [OF r(2)] .
      have lo: "length (concat rs') = ?lo + n"
        using hi s(1,2) r(4) by (simp add: stack_rep_def b)
      have "\<exists>r ms'. do_ssort E (length rest') (length (concat rs')) (length (base ms1)) minrun ms1 = Some (r, ms') \<and>
        stable (base ms') (base ms1) \<and>
        (r = 0 \<and> ordered (base ms') \<and> pending ms' = [(0, length (base ms'))] \<or> r = - 1) \<and>
        ((\<forall>k. granted E k) \<longrightarrow> r = 0)"
        using r(3,4) hi less.prems(2,3,6) s(2) by (intro less.hyps s(1,3,4)) auto
      then show ?thesis using step True stable_trans [OF _ r(2)] unfolding s(2) lo hi by auto
    next
      case False
      then show ?thesis using r step by auto
    qed
  qed
qed

lemma GDKssort_ok:
  assumes "length items < 2 ^ 32" and width: "0 < hs E" "hs E \<le> 16" "ts E \<le> 16"
  shows "\<exists>r ys. GDKssort E tmp items = Some (r, ys) \<and> stable ys items \<and>
    (r = 0 \<and> ordered ys \<or> r = - 1) \<and> ((\<forall>k. granted E k) \<longrightarrow> r = 0)"
proof (cases "length items < 2")
  case True
  then have "ordered items" by (cases items; cases "tl items") auto
  then show ?thesis using True width by (simp add: GDKssort_def Let_def)
next
  case False
  let ?ms = "\<lparr>base = items, temp = tmp, allocedh = MERGESTATE_TEMP_SIZE, allocedt = MERGESTATE_TEMP_SIZE,
    mallocs = 0, min_gallop = int MIN_GALLOP, pending = []\<rparr>"
  have "\<exists>r ms'. do_ssort E (length items) (length (concat ([] :: ('h \<times> 't) list list))) (length (base ?ms))
      (merge_compute_minrun (length items)) ?ms = Some (r, ms') \<and>
    stable (base ms') (base ?ms) \<and>
    (r = 0 \<and> ordered (base ms') \<and> pending ms' = [(0, length (base ms'))] \<or> r = - 1) \<and>
    ((\<forall>k. granted E k) \<longrightarrow> r = 0)"
  proof (rule do_ssort_ok)
    show "8 \<le> merge_compute_minrun (length items) \<or> length (base ?ms) \<le> merge_compute_minrun (length items)"
      using minrun_bounds [of "length items"] minrun_small [of "length items"] by (cases "16 \<le> length items") auto
  qed (use False assms in \<open>auto simp: stack_rep_def\<close>)
  then obtain r ms' where r: "do_ssort E (length items) 0 (length items) (merge_compute_minrun (length items)) ?ms = Some (r, ms')"
    "stable (base ms') items"
    "r = 0 \<and> ordered (base ms') \<and> pending ms' = [(0, length (base ms'))] \<or> r = - 1"
    "(\<forall>k. granted E k) \<longrightarrow> r = 0"
    by auto
  have "GDKssort E tmp items =
    (if r < 0 then Some (- 1, base ms') else if pending ms' = [(0, length items)] then Some (0, base ms') else None)"
    using False width by (simp add: GDKssort_def Let_def r(1))
  then show ?thesis using r(2-4) stable_length [OF r(2)] by auto
qed

end

section \<open>The sort of the library\<close>

lemma ISLT_weak_order:
  assumes "atom_order (compare E)"
  shows "weak_order (ISLT E)"
proof (rule weak_order.intro)
  note cmp = atom_order.cmp_swap [OF assms] atom_order.cmp_trans [OF assms]
  show "\<not> ISLT E y x" if "ISLT E x y" for x y
    using that cmp(1) [of "fst x" "fst y"] cmp(1) [of "fst y" "fst x"] by (auto simp: ISLT_def split: if_splits)
  show "\<not> ISLT E x z" if "\<not> ISLT E x y" "\<not> ISLT E y z" for x y z
    using that cmp(2) [of "fst x" "fst y" "fst z"] cmp(2) [of "fst z" "fst y" "fst x"]
      atom_order.cmp_le_swap [OF assms]
    by (auto simp: ISLT_def not_less split: if_splits)
qed

lemma ISLT_eqv:
  assumes "atom_order (compare E)"
  shows "weak_order.eqv (ISLT E) x y \<longleftrightarrow> compare E (fst x) (fst y) = 0"
proof -
  have "compare E (fst x) (fst y) < 0 \<longleftrightarrow> 0 < compare E (fst y) (fst x)"
    "compare E (fst y) (fst x) < 0 \<longleftrightarrow> 0 < compare E (fst x) (fst y)"
    using atom_order.cmp_swap [OF assms] by blast+
  then show ?thesis unfolding weak_order.eqv_def [OF ISLT_weak_order [OF assms]] by (auto simp: ISLT_def)
qed

text \<open>
  Numbers with object identifiers as tails, of widths \<open>hw\<close> and \<open>tw\<close>.  In a number of 16 bytes the
  first \<open>lng\<close> is the low half.
\<close>

definition num_sortenv ::
  "bool \<Rightarrow> nat \<Rightarrow> nat \<Rightarrow> (nat \<Rightarrow> bool) \<Rightarrow> (nat \<Rightarrow> nat \<Rightarrow> int \<times> nat) \<Rightarrow> (int, nat) sortenv" where
  "num_sortenv desc hw tw g f =
     \<lparr>compare = simple_CMP, descending = desc, hs = hw, ts = tw,
      lng1h = (\<lambda>s d. d div 2 ^ 64 * 2 ^ 64 + s mod 2 ^ 64),
      lng1t = (\<lambda>s d. d div 2 ^ 64 * 2 ^ 64 + s mod 2 ^ 64), granted = g, fresh = f\<rparr>"

lemma num_sortenv_sel [simp]:
  "compare (num_sortenv desc hw tw g f) = simple_CMP" "descending (num_sortenv desc hw tw g f) = desc"
  "hs (num_sortenv desc hw tw g f) = hw" "ts (num_sortenv desc hw tw g f) = tw" "granted (num_sortenv desc hw tw g f) = g"
  by (simp_all add: num_sortenv_def)

lemma ISLT_num [simp]: "ISLT (num_sortenv desc hw tw g f) x y = (if desc then fst y < fst x else fst x < fst y)"
  by (simp add: ISLT_def simple_CMP_def)

interpretation num: weak_order "ISLT (num_sortenv desc hw tw g f)"
  by (rule ISLT_weak_order) (simp add: simple.atom_order_axioms)

interpretation lng: sort_order "num_sortenv desc 8 8 g f"
  by unfold_locales simp_all

lemma GDKssort_result:
  assumes "atom_order (compare E)" "0 < hs E" "hs E < 16" "ts E < 16" "length items < 2 ^ 32"
  shows "\<exists>r ys. GDKssort E tmp items = Some (r, ys) \<and> mset ys = mset items \<and>
    (\<forall>z. filter (\<lambda>x. compare E z (fst x) = 0) ys = filter (\<lambda>x. compare E z (fst x) = 0) items) \<and>
    (r = 0 \<and> sorted_wrt (\<lambda>x y. if descending E then compare E (fst x) (fst y) \<ge> 0
                               else compare E (fst x) (fst y) \<le> 0) ys \<or> r = - 1) \<and>
    ((\<forall>k. granted E k) \<longrightarrow> r = 0)"
proof -
  have so: "sort_order E"
    by (intro sort_order.intro sort_order_axioms.intro ISLT_weak_order) (use assms in simp_all)
  have weak: "weak_order (ISLT E)" by (rule ISLT_weak_order [OF assms(1)])
  obtain r ys where r: "GDKssort E tmp items = Some (r, ys)" "weak_order.stable (ISLT E) ys items"
    "r = 0 \<and> sorted_wrt (\<lambda>x y. \<not> ISLT E y x) ys \<or> r = - 1" "(\<forall>k. granted E k) \<longrightarrow> r = 0"
    using sort_order.GDKssort_ok [OF so assms(5,2) less_imp_le less_imp_le] assms(3,4) by blast
  have st: "mset ys = mset items" "\<And>z. filter (weak_order.eqv (ISLT E) z) ys = filter (weak_order.eqv (ISLT E) z) items"
    using r(2) unfolding weak_order.stable_def [OF weak] by blast+
  have "filter (\<lambda>x. compare E z (fst x) = 0) ys = filter (\<lambda>x. compare E z (fst x) = 0) items" for z
    using st(2) [of "(z, undefined)"] unfolding ISLT_eqv [OF assms(1)] by (simp add: ISLT_eqv [OF assms(1), abs_def])
  moreover have "(\<lambda>x y. \<not> ISLT E y x) = (\<lambda>x y. if descending E then compare E (fst x) (fst y) \<ge> 0
      else compare E (fst x) (fst y) \<le> 0)"
    using atom_order.cmp_swap [OF assms(1)] by (auto simp: ISLT_def fun_eq_iff not_less [symmetric])
  ultimately show ?thesis using r(1,3,4) st(1) by simp
qed

section \<open>Properties\<close>

text \<open>
  C3. Sorting fewer than \<open>2 ^ 32\<close> items by a total preorder, keys and tails less than 16 bytes wide, ends
  without a failed assertion, the stack of runs never overflowing, nor the counter of a copy to the
  temporary area.  It succeeds or reports that
  memory is exhausted, the latter only if a request was denied.  Either way the items are permuted
  and those with equal keys keep their order; on success the keys are in order.
\<close>

theorem GDKssort_sorts:
  assumes "atom_order (compare E)" "0 < hs E" "hs E < 16" "ts E < 16" "length items < 2 ^ 32"
  shows "\<exists>r ys. GDKssort E tmp items = Some (r, ys) \<and> mset ys = mset items \<and>
    (\<forall>z. filter (\<lambda>x. compare E z (fst x) = 0) ys = filter (\<lambda>x. compare E z (fst x) = 0) items) \<and>
    (r = 0 \<and> sorted_wrt (\<lambda>x y. if descending E then compare E (fst x) (fst y) \<ge> 0
                               else compare E (fst x) (fst y) \<le> 0) ys \<or> r = - 1) \<and>
    ((\<forall>k. granted E k) \<longrightarrow> r = 0)"
  by (rule GDKssort_result [OF assms])

text \<open>
  C16. On integer keys, fewer than \<open>2 ^ 32\<close> items with keys and tails less than 16 bytes wide, and if memory
  is never denied, both directions of the sort are the stable sort of the library of HOL.
\<close>

theorem GDKssort_sort_key:
  assumes "0 < hw" "hw < 16" "tw < 16" "\<forall>k. g k" "length items < 2 ^ 32"
  shows "GDKssort (num_sortenv desc hw tw g f) tmp items =
    Some (0, sort_key (\<lambda>x. if desc then - fst x else fst x) items)"
proof -
  let ?E = "num_sortenv desc hw tw g f" and ?key = "\<lambda>x :: int \<times> nat. if desc then - fst x else fst x"
  have weak: "weak_order (ISLT ?E)" by (rule num.weak_order_axioms)
  have "sort_order ?E" by (intro sort_order.intro sort_order_axioms.intro weak) (use assms in simp_all)
  then obtain r ys where r: "GDKssort ?E tmp items = Some (r, ys)" "num.stable desc hw tw g f ys items"
    "r = 0 \<and> num.ordered desc hw tw g f ys \<or> r = - 1" "(\<forall>k. granted ?E k) \<longrightarrow> r = 0"
    using sort_order.GDKssort_ok [OF _ assms(5), of ?E tmp] assms(1-3) by auto
  have r0: "r = 0" using r(4) assms(4) by simp
  have eqv: "num.eqv desc hw tw g f z = (\<lambda>x. ?key z = ?key x)" for z
    by (auto simp: num.eqv_def ISLT_def simple_CMP_sign fun_eq_iff)
  have "filter (\<lambda>x. ?key z = ?key x) ys = filter (\<lambda>x. ?key z = ?key x) items" for z
    using r(2) unfolding num.stable_def eqv by blast
  moreover have "mset ys = mset items" using r(2) unfolding num.stable_def by blast
  moreover have "sorted (map ?key ys)"
    using r(3) r0 by (auto simp: sorted_map ISLT_def simple_CMP_sign not_less elim!: sorted_wrt_mono_rel [rotated])
  ultimately have "sort_key ?key items = ys" by (intro properties_for_sort_key) auto
  then show ?thesis using r(1) r0 by simp
qed

text \<open>The theorem on a concrete array and its stack of runs.\<close>

theorem GDKssort_sorts_witness:
  "\<exists>r ys. GDKssort (num_sortenv True 4 8 (\<lambda>k. k < 1) (\<lambda>_ _. (0, 0))) (\<lambda>_. (0, 0)) [(3, 0), (5, 1), (3, 2), (9, 3)] = Some (r, ys) \<and>
     mset ys = mset [(3, 0), (5, 1), (3, 2), (9, 3)]"
  using GDKssort_sorts [of "num_sortenv True 4 8 (\<lambda>k. k < 1) (\<lambda>_ _. (0, 0))" "[(3, 0), (5, 1), (3, 2), (9, 3)]" "\<lambda>_. (0, 0)"]
  by (auto simp: simple.atom_order_axioms)

theorem GDKssort_sort_key_witness:
  "GDKssort (num_sortenv True 4 8 (\<lambda>_. True) (\<lambda>_ _. (0, 0))) (\<lambda>_. (0, 0)) [(3, 0), (5, 1), (3, 2), (9, 3)] =
     Some (0, [(9, 3), (5, 1), (3, 0), (3, 2)])"
  using GDKssort_sort_key [of 4 8 "\<lambda>_. True" "[(3, 0), (5, 1), (3, 2), (9, 3)]" True "\<lambda>_ _. (0, 0)" "\<lambda>_. (0, 0)"]
  by (simp add: sort_key_def)

section \<open>Keys of 16 bytes\<close>

definition wide_items :: "(int \<times> nat) list" where
  "wide_items = [(8, 0), (9, 1), (10, 2), (11, 3), (12, 4), (13, 5), (14, 6), (15, 7),
     (0, 8), (1, 9), (2, 10), (3, 11), (4, 12), (5, 13), (6, 14), (7, 15)]"

lemma wide_next_run:
  "next_run (ISLT (num_sortenv False 16 8 g f)) 16 0 16 8 wide_items = Some (8, wide_items)"
  "next_run (ISLT (num_sortenv False 16 8 g f)) 8 8 16 8 wide_items = Some (8, wide_items)"
  by (simp_all add: wide_items_def next_run_def count_run_def run_end.simps)

definition wide_ms :: "(nat \<times> nat) list \<Rightarrow> (int \<times> nat) mergestate" where
  "wide_ms p = \<lparr>base = wide_items, temp = (\<lambda>_. (0, 0)), allocedh = MERGESTATE_TEMP_SIZE,
     allocedt = MERGESTATE_TEMP_SIZE, mallocs = 0, min_gallop = int MIN_GALLOP, pending = p\<rparr>"

lemma wide_merge_at:
  "merge_at (num_sortenv False 16 8 g f) 0 (wide_ms [(0, 8), (8, 8)]) =
     merge_lo (num_sortenv False 16 8 g f) 0 8 8 8 (wide_ms [(0, 16)])"
  by (simp add: merge_at_def gallop_left_def gallop_right_def gallop_def gallop_loop.simps gallop_binary.simps
      wide_ms_def wide_items_def c_cast_def)

lemma wide_merge_lo:
  "\<exists>ms. merge_lo (num_sortenv False 16 8 g f) 0 8 8 8 (wide_ms [(0, 16)]) = Some (0, ms) \<and> pending ms = [(0, 16)] \<and>
     base ms = [(0, 8), (0, 0), (0, 1), (0, 2), (0, 3), (0, 4), (0, 5), (0, 6),
       (1, 9), (2, 10), (3, 11), (4, 12), (5, 13), (6, 14), (7, 15), (0, 7)]"
  by (simp add: merge_lo_def MERGE_GETMEMH_def MERGE_GETMEMT_def MERGESTATE_TEMP_SIZE_def MIN_GALLOP_def
      COPY_to_temp_def COPY_from_temp_def COPY_counts_def COPY_item_def COPY_width_def memmove_def write_at_def
      lo_straight_def lo_gallop_def lo_take_a_def lo_take_b_def lo_gallop_a_def lo_gallop_b_def lo_end_def
      gallop_left_def gallop_right_def gallop_def gallop_loop.simps gallop_binary.simps c_cast_def
      wide_ms_def wide_items_def upt_rec Let_def)

text \<open>
  C39. On 16-byte keys the sort reports success and loses values: of the keys 0 to 15, the last eight
  stored first, none above 7 is left, while the tails are permuted.
\<close>

theorem GDKssort_wide_loses_keys:
  "\<exists>ys. GDKssort (num_sortenv False 16 8 g f) (\<lambda>_. (0, 0)) wide_items = Some (0, ys) \<and>
     fst ` set wide_items = {0..15} \<and> fst ` set ys = {0..7} \<and> mset (map snd ys) = mset (map snd wide_items)"
proof -
  let ?E = "num_sortenv False 16 8 g f"
  obtain ms where ms: "merge_lo ?E 0 8 8 8 (wide_ms [(0, 16)]) = Some (0, ms)" "pending ms = [(0, 16)]"
    "base ms = [(0, 8), (0, 0), (0, 1), (0, 2), (0, 3), (0, 4), (0, 5), (0, 6),
       (1, 9), (2, 10), (3, 11), (4, 12), (5, 13), (6, 14), (7, 15), (0, 7)]"
    using wide_merge_lo by blast
  have upd: "wide_ms p\<lparr>base := wide_items, pending := q\<rparr> = wide_ms q" "base (wide_ms p) = wide_items"
    "pending (wide_ms p) = p" for p q
    by (simp_all add: wide_ms_def)
  have start: "do_ssort ?E 16 0 16 8 (wide_ms []) = do_ssort ?E 8 8 16 8 (wide_ms [(0, 8)])"
    by (subst do_ssort.simps) (simp add: upd wide_next_run merge_while.simps collapse_index_def MAX_MERGE_PENDING_def)
  have "collapse_index [(0, 8), (8, 8)] = Some 0" by (simp add: collapse_index_def runlen_def)
  then have "merge_while collapse_index ?E (wide_ms [(0, 8), (8, 8)]) = Some (0, ms)"
    by (subst merge_while.simps, subst merge_while.simps) (simp add: upd wide_merge_at ms collapse_index_def)
  then have "do_ssort ?E 8 8 16 8 (wide_ms [(0, 8)]) = do_ssort ?E 0 16 16 8 ms"
    by (subst do_ssort.simps) (simp add: upd wide_next_run MAX_MERGE_PENDING_def)
  also have "\<dots> = Some (0, ms)"
    by (subst do_ssort.simps) (simp add: merge_while.simps force_index_def ms)
  finally have run: "do_ssort ?E 16 0 16 8 (wide_ms []) = Some (0, ms)" using start by simp
  have "length wide_items = 16" by (simp add: wide_items_def)
  moreover have "merge_compute_minrun 16 = 8" by (simp add: merge_compute_minrun_def merge_compute_minrun_loop.simps)
  ultimately have "GDKssort ?E (\<lambda>_. (0, 0)) wide_items = Some (0, base ms)"
    using run by (simp add: GDKssort_def Let_def wide_ms_def ms(2))
  moreover have "{0..15} = {0, 1, 2, 3, 4, 5, 6, 7, 8, 9, 10, 11, 12, 13, 14, 15 :: int}"
    "{0..7} = {0, 1, 2, 3, 4, 5, 6, 7 :: int}"
    by (rule set_eqI, simp, presburger)+
  ultimately show ?thesis by (simp add: ms(3) wide_items_def insert_commute)
qed

end
