(* ===== verification/Gdk_Qsort.thy ===== *)
theory Gdk_Qsort
  imports Gdk_Atoms
begin

text \<open>
  The quicksort of GDK (gdk/gdk_qsort.c and gdk/gdk_qsort_impl.h), for sorts that need not be
  stable: Bentley and McIlroy's partition around a median of medians, insertion sort for small or
  nearly sorted parts, recursion on the smaller part.

  As in the stable sort, the arrays of keys and tails are one list of pairs, and the copies for
  the types and both directions share a comparison function and a flag.  A pointer with a number
  of items is a list; what a call does to part of the array replaces that part.
\<close>

section \<open>Comparing and swapping\<close>

record 'h qsort_t =
  qcmp :: "'h \<Rightarrow> 'h \<Rightarrow> int"
  qreverse :: bool

definition qLE :: "'h qsort_t \<Rightarrow> ('h \<times> 't) list \<Rightarrow> nat \<Rightarrow> nat \<Rightarrow> bool" where
  "qLE Q h i j \<longleftrightarrow>
     (if qreverse Q then 0 \<le> qcmp Q (fst (h ! i)) (fst (h ! j)) else qcmp Q (fst (h ! i)) (fst (h ! j)) \<le> 0)"

definition qLT :: "'h qsort_t \<Rightarrow> ('h \<times> 't) list \<Rightarrow> nat \<Rightarrow> nat \<Rightarrow> bool" where
  "qLT Q h i j \<longleftrightarrow>
     (if qreverse Q then 0 < qcmp Q (fst (h ! i)) (fst (h ! j)) else qcmp Q (fst (h ! i)) (fst (h ! j)) < 0)"

definition qEQ :: "'h qsort_t \<Rightarrow> ('h \<times> 't) list \<Rightarrow> nat \<Rightarrow> nat \<Rightarrow> bool" where
  "qEQ Q h i j \<longleftrightarrow> qcmp Q (fst (h ! i)) (fst (h ! j)) = 0"

definition MED3 :: "'h qsort_t \<Rightarrow> ('h \<times> 't) list \<Rightarrow> nat \<Rightarrow> nat \<Rightarrow> nat \<Rightarrow> nat" where
  "MED3 Q h a b c =
     (if qLT Q h a b then (if qLT Q h b c then b else if qLT Q h a c then c else a)
      else (if qLT Q h c b then b else if qLT Q h a c then a else c))"

definition SWAP :: "'a list \<Rightarrow> nat \<Rightarrow> nat \<Rightarrow> 'a list" where
  "SWAP h i j = h[i := h ! j, j := h ! i]"

fun multi_SWAP :: "'a list \<Rightarrow> nat \<Rightarrow> nat \<Rightarrow> nat \<Rightarrow> 'a list" where
  "multi_SWAP h i j 0 = h"
| "multi_SWAP h i j (Suc n) = multi_SWAP (SWAP h i j) (Suc i) (Suc j) n"

section \<open>Insertion sort\<close>

fun insert_down :: "'h qsort_t \<Rightarrow> nat \<Rightarrow> ('h \<times> 't) list \<Rightarrow> ('h \<times> 't) list" where
  "insert_down Q 0 h = h"
| "insert_down Q (Suc a) h = (if qLE Q h (Suc a) a then insert_down Q a (SWAP h (Suc a) a) else h)"

definition insertion_sort :: "'h qsort_t \<Rightarrow> ('h \<times> 't) list \<Rightarrow> ('h \<times> 't) list" where
  "insertion_sort Q h = fold (insert_down Q) [1..<length h] h"

section \<open>The partition\<close>

definition pivot_index :: "'h qsort_t \<Rightarrow> ('h \<times> 't) list \<Rightarrow> nat" where
  "pivot_index Q h =
     (let n = length h; b = n div 2 in
      if 7 < n then
        let a = 0; c = n - 1; d = n div 8;
            (a, b, c) = (if 40 < n then (MED3 Q h a (a + d) (a + 2 * d), MED3 Q h (b - d) b (b + d),
                                         MED3 Q h (c - 2 * d) (c - d) c)
                         else (a, b, c))
        in MED3 Q h a b c
      else b)"

text \<open>The variables of the partition; \<open>c\<close> can come to lie before \<open>b\<close>.\<close>

record 'a part =
  parr :: "'a list"
  pa :: nat
  pb :: nat
  pc :: int
  pd :: int
  swapped :: bool

definition low_step :: "'h qsort_t \<Rightarrow> ('h \<times> 't) part \<Rightarrow> ('h \<times> 't) part" where
  "low_step Q s =
     (let s = (if qEQ Q (parr s) (pb s) 0
               then s\<lparr>swapped := True, parr := SWAP (parr s) (pa s) (pb s), pa := pa s + 1\<rparr> else s)
      in s\<lparr>pb := pb s + 1\<rparr>)"

definition high_step :: "'h qsort_t \<Rightarrow> ('h \<times> 't) part \<Rightarrow> ('h \<times> 't) part" where
  "high_step Q s =
     (let s = (if qEQ Q (parr s) 0 (nat (pc s))
               then s\<lparr>swapped := True, parr := SWAP (parr s) (nat (pc s)) (nat (pd s)), pd := pd s - 1\<rparr> else s)
      in s\<lparr>pc := pc s - 1\<rparr>)"

lemma step_sel [simp]:
  "pb (low_step Q s) = pb s + 1" "pc (low_step Q s) = pc s" "pd (low_step Q s) = pd s"
  "pa (high_step Q s) = pa s" "pb (high_step Q s) = pb s" "pc (high_step Q s) = pc s - 1"
  by (simp_all add: low_step_def high_step_def Let_def)

function scan_low :: "'h qsort_t \<Rightarrow> ('h \<times> 't) part \<Rightarrow> ('h \<times> 't) part" where
  "scan_low Q s =
     (if int (pb s) \<le> pc s \<and> qLE Q (parr s) (pb s) 0 then scan_low Q (low_step Q s) else s)"
  by pat_completeness auto

termination by (relation "measure (\<lambda>(Q, s). nat (pc s + 1 - int (pb s)))") auto

function scan_high :: "'h qsort_t \<Rightarrow> ('h \<times> 't) part \<Rightarrow> ('h \<times> 't) part" where
  "scan_high Q s =
     (if int (pb s) \<le> pc s \<and> qLE Q (parr s) 0 (nat (pc s)) then scan_high Q (high_step Q s) else s)"
  by pat_completeness auto

termination by (relation "measure (\<lambda>(Q, s). nat (pc s + 1 - int (pb s)))") auto

declare scan_low.simps [simp del] scan_high.simps [simp del]

lemma scan_low_mono: "pb s \<le> pb (scan_low Q s) \<and> pc (scan_low Q s) = pc s"
proof (induction Q s rule: scan_low.induct)
  case (1 Q s)
  then show ?case by (subst (1 2) scan_low.simps) auto
qed

lemma scan_high_mono: "pb (scan_high Q s) = pb s \<and> pc (scan_high Q s) \<le> pc s"
proof (induction Q s rule: scan_high.induct)
  case (1 Q s)
  then show ?case by (subst (1 2) scan_high.simps) auto
qed

definition exchange :: "'a part \<Rightarrow> 'a part" where
  "exchange s = s\<lparr>parr := SWAP (parr s) (pb s) (nat (pc s)), swapped := True, pb := pb s + 1, pc := pc s - 1\<rparr>"

function partition_loop :: "'h qsort_t \<Rightarrow> ('h \<times> 't) part \<Rightarrow> ('h \<times> 't) part" where
  "partition_loop Q s =
     (let s = scan_high Q (scan_low Q s)
      in if pc s < int (pb s) then s else partition_loop Q (exchange s))"
  by pat_completeness auto

termination
proof (relation "measure (\<lambda>(Q, s). nat (pc s + 1 - int (pb s)))")
  fix Q :: "'h qsort_t" and s s' :: "('h \<times> 't) part"
  assume "s' = scan_high Q (scan_low Q s)" "\<not> pc s' < int (pb s')"
  then show "((Q, exchange s'), Q, s) \<in> measure (\<lambda>(Q, s). nat (pc s + 1 - int (pb s)))"
    using scan_low_mono [of s Q] scan_high_mono [of Q "scan_low Q s"] by (auto simp: exchange_def)
qed simp

declare partition_loop.simps [simp del]

text \<open>Where the variables may be while the partition runs over \<open>n\<close> items.\<close>

definition part_ok :: "nat \<Rightarrow> 'a part \<Rightarrow> bool" where
  "part_ok n s \<longleftrightarrow> length (parr s) = n \<and> 0 < pa s \<and> pa s \<le> pb s \<and> int (pb s) \<le> pd s + 1 \<and>
     0 \<le> pc s \<and> pc s \<le> pd s \<and> pd s < int n"

lemma length_SWAP [simp]: "length (SWAP h i j) = length h"
  by (simp add: SWAP_def)

lemma part_ok_steps:
  "part_ok n s \<Longrightarrow> int (pb s) \<le> pc s \<Longrightarrow> part_ok n (low_step Q s)"
  "part_ok n s \<Longrightarrow> int (pb s) \<le> pc s \<Longrightarrow> part_ok n (high_step Q s)"
  by (auto simp: part_ok_def low_step_def high_step_def Let_def)

lemma part_ok_scan_low: "part_ok n s \<Longrightarrow> part_ok n (scan_low Q s)"
proof (induction Q s rule: scan_low.induct)
  case (1 Q s)
  then show ?case using part_ok_steps(1) by (subst scan_low.simps) auto
qed

lemma part_ok_scan_high: "part_ok n s \<Longrightarrow> part_ok n (scan_high Q s)"
proof (induction Q s rule: scan_high.induct)
  case (1 Q s)
  then show ?case using part_ok_steps(2) by (subst scan_high.simps) auto
qed

definition partition_start :: "'a list \<Rightarrow> 'a part" where
  "partition_start h =
     \<lparr>parr = h, pa = 1, pb = 1, pc = int (length h) - 1, pd = int (length h) - 1, swapped = False\<rparr>"

lemma part_ok_loop: "part_ok n s \<Longrightarrow> part_ok n (partition_loop Q s) \<and> pc (partition_loop Q s) < int (pb (partition_loop Q s))"
proof (induction Q s rule: partition_loop.induct)
  case (1 Q s)
  let ?s = "scan_high Q (scan_low Q s)"
  have ok: "part_ok n ?s" by (intro part_ok_scan_low part_ok_scan_high 1)
  show ?case
  proof (cases "pc ?s < int (pb ?s)")
    case True
    then show ?thesis using ok by (simp add: partition_loop.simps [of Q s] Let_def)
  next
    case False
    have "part_ok n (exchange ?s)" using ok False by (auto simp: part_ok_def exchange_def)
    then show ?thesis using 1(1) [OF refl False] False by (simp add: partition_loop.simps [of Q s] Let_def)
  qed
qed


text \<open>The array after choosing the pivot, and the variables after the partition.\<close>

definition partitioned :: "'h qsort_t \<Rightarrow> ('h \<times> 't) list \<Rightarrow> ('h \<times> 't) part" where
  "partitioned Q h =
     (let b = pivot_index Q h in partition_loop Q (partition_start (if b \<noteq> 0 then SWAP h 0 b else h)))"

text \<open>The items equal to the pivot moved to the middle.\<close>

definition gather :: "'a part \<Rightarrow> 'a list" where
  "gather s =
     (let n = length (parr s);
          r = min (pa s) (pb s - pa s);
          h = multi_SWAP (parr s) 0 (pb s - r) r;
          r = min (nat (pd s - pc s)) (n - nat (pd s) - 1)
      in multi_SWAP h (pb s) (n - r) r)"

section \<open>The sort\<close>

lemma length_multi_SWAP [simp]: "length (multi_SWAP h i j r) = length h"
  by (induction h i j r rule: multi_SWAP.induct) auto

lemma partitioned_ok:
  assumes "2 \<le> length h"
  shows "part_ok (length h) (partitioned Q h) \<and> pc (partitioned Q h) < int (pb (partitioned Q h))"
  unfolding partitioned_def Let_def
  by (rule part_ok_loop) (use assms in \<open>auto simp: part_ok_def partition_start_def simp flip: length_greater_0_conv\<close>)

lemma length_gather: "part_ok n s \<Longrightarrow> length (gather s) = n"
  by (simp add: gather_def Let_def part_ok_def)

lemma part_sizes:
  assumes "\<not> length h < 7"
  shows "pb (partitioned Q h) - pa (partitioned Q h) < length h"
    "nat (pd (partitioned Q h) - pc (partitioned Q h)) < length h"
    "length (gather (partitioned Q h)) = length h"
    "length h - (length h - nat (pd (partitioned Q h) - pc (partitioned Q h))) < length h"
  using partitioned_ok [of h Q] length_gather [of "length h" "partitioned Q h"] assms by (auto simp: part_ok_def)

text \<open>
  The number of nested activations and the sorted array.  The smaller part is sorted by a
  recursive call and the larger one in the next round of the loop.
\<close>

function GDKqsort_impl :: "'h qsort_t \<Rightarrow> ('h \<times> 't) list \<Rightarrow> nat \<times> ('h \<times> 't) list" where
  "GDKqsort_impl Q h =
     (let n = length h in
      if n < 7 then (0, insertion_sort Q h)
      else
        let s = partitioned Q h in
        if \<not> swapped s \<and> n < 1024 then (0, insertion_sort Q (parr s))
        else
          let h = gather s; low = pb s - pa s; high = nat (pd s - pc s);
              (k, l) = (if 1 < low then GDKqsort_impl Q (take low h) else (0, take low h));
              (m, u) = (if 1 < high then GDKqsort_impl Q (drop (n - high) h) else (0, drop (n - high) h))
          in (if low < high then max (if 1 < low then Suc k else 0) m else max k (if 1 < high then Suc m else 0),
              l @ drop low (take (n - high) h) @ u))"
  by pat_completeness auto

termination
  by (relation "measure (\<lambda>(Q, h). length h)") (auto simp: min_less_iff_disj part_sizes)

declare GDKqsort_impl.simps [simp del]

text \<open>\<open>GDKqsort\<close> and \<open>GDKqsort_rev\<close>.\<close>

definition GDKqsort :: "'h qsort_t \<Rightarrow> ('h \<times> 't) list \<Rightarrow> ('h \<times> 't) list" where
  "GDKqsort Q h = snd (GDKqsort_impl Q h)"

end
