(* ===== verification/Gdk_Qsort_Props.thy ===== *)
theory Gdk_Qsort_Props
  imports Gdk_Qsort
begin

text \<open>
  Correctness of the quicksort: insertion sort orders, the partition separates, gathering moves
  the items equal to the pivot to the middle, and the recursion is shallow.
\<close>

section \<open>Swapping\<close>

lemma SWAP_split:
  "SWAP (xs @ x # ys @ y # zs) (length xs) (Suc (length xs + length ys)) = xs @ y # ys @ x # zs"
proof -
  have "(xs @ x # ys @ y # zs) ! Suc (length xs + length ys) = y"
    using nth_append_length [of "xs @ x # ys" y zs] by simp
  moreover have "(xs @ y # ys @ y # zs)[Suc (length xs + length ys) := x] = xs @ y # ys @ x # zs"
    using list_update_length [of "xs @ y # ys" y zs x] by simp
  ultimately show ?thesis by (simp add: SWAP_def)
qed

lemma SWAP_same [simp]: "SWAP h i i = h"
  by (simp add: SWAP_def)

lemma SWAP_sym: "SWAP h i j = SWAP h j i"
  by (cases "i = j") (simp_all add: SWAP_def list_update_swap)

lemma mset_SWAP: "i < length h \<Longrightarrow> j < length h \<Longrightarrow> mset (SWAP h i j) = mset h"
  by (simp add: SWAP_def mset_swap)

lemma multi_SWAP_split:
  "length X = length Y \<Longrightarrow>
    multi_SWAP (P @ X @ M @ Y @ S) (length P) (length P + length X + length M) (length X) = P @ Y @ M @ X @ S"
proof (induction X Y arbitrary: P M rule: list_induct2)
  case (Cons x X y Y)
  have "SWAP (P @ x # (X @ M) @ y # Y @ S) (length P) (Suc (length P + length (X @ M))) = P @ y # (X @ M) @ x # Y @ S"
    by (rule SWAP_split)
  then show ?case using Cons.IH [of "P @ [y]" "M @ [x]"] by (simp add: add.assoc)
qed simp

section \<open>The order\<close>

locale quick_order = atom_order "qcmp Q" for Q :: "'h qsort_t"
begin

definition le :: "'h \<times> 't \<Rightarrow> 'h \<times> 't \<Rightarrow> bool" where
  "le x y \<longleftrightarrow> (if qreverse Q then 0 \<le> qcmp Q (fst x) (fst y) else qcmp Q (fst x) (fst y) \<le> 0)"

lemma qLE_le: "qLE Q h i j = le (h ! i) (h ! j)"
  by (simp add: qLE_def le_def)

lemma le_total: "\<not> le x y \<Longrightarrow> le y x"
  using cmp_le_swap [of "fst x" "fst y"] cmp_le_swap [of "fst y" "fst x"] by (auto simp: le_def split: if_splits)

lemma le_refl [simp]: "le x x"
  by (simp add: le_def)

lemma le_trans: "le x y \<Longrightarrow> le y z \<Longrightarrow> le x z"
  using cmp_trans [of "fst x" "fst y" "fst z"] cmp_trans [of "fst z" "fst y" "fst x"] cmp_le_swap
  by (auto simp: le_def split: if_splits)

definition eq :: "'h \<times> 't \<Rightarrow> 'h \<times> 't \<Rightarrow> bool" where
  "eq x y \<longleftrightarrow> le x y \<and> le y x"

lemma qEQ_eq: "qEQ Q h i j = eq (h ! i) (h ! j)"
  using cmp_le_swap [of "fst (h ! i)" "fst (h ! j)"] cmp_le_swap [of "fst (h ! j)" "fst (h ! i)"]
  by (auto simp: qEQ_def eq_def le_def split: if_splits)

section \<open>Insertion sort\<close>

lemma insert_down_ok:
  "sorted_wrt le xs \<Longrightarrow>
    \<exists>ys. insert_down Q (length xs) (xs @ x # zs) = ys @ zs \<and> sorted_wrt le ys \<and> mset ys = add_mset x (mset xs)"
proof (induction xs arbitrary: zs rule: rev_induct)
  case Nil
  show ?case by (rule exI [of _ "[x]"]) simp
next
  case (snoc l xs)
  have l: "\<forall>y\<in>set xs. le y l" "sorted_wrt le xs" using snoc.prems by (auto simp: sorted_wrt_append)
  have nth: "((xs @ [l]) @ x # zs) ! Suc (length xs) = x" "((xs @ [l]) @ x # zs) ! length xs = l"
    using nth_append_length [of "xs @ [l]" x zs] nth_append_length [of xs l "x # zs"] by simp_all
  show ?case
  proof (cases "le x l")
    case True
    have sw: "SWAP ((xs @ [l]) @ x # zs) (Suc (length xs)) (length xs) = xs @ x # l # zs"
      using SWAP_split [of xs l "[]" x zs] by (simp add: SWAP_sym [of _ "Suc (length xs)"])
    obtain ys where ys: "insert_down Q (length xs) (xs @ x # l # zs) = ys @ l # zs" "sorted_wrt le ys"
      "mset ys = add_mset x (mset xs)"
      using snoc.IH [OF l(2)] by blast
    have "set ys = insert x (set xs)" using arg_cong [OF ys(3), of set_mset] by simp
    then have "sorted_wrt le (ys @ [l])" using ys(2) l(1) True by (simp add: sorted_wrt_append)
    moreover have "insert_down Q (length (xs @ [l])) ((xs @ [l]) @ x # zs) = (ys @ [l]) @ zs"
      using True nth sw ys(1) by (simp add: qLE_le)
    ultimately show ?thesis using ys(3) by (intro exI [of _ "ys @ [l]"]) simp
  next
    case False
    then have "insert_down Q (length (xs @ [l])) ((xs @ [l]) @ x # zs) = (xs @ [l] @ [x]) @ zs"
      using nth by (simp add: qLE_le)
    moreover have "sorted_wrt le (xs @ [l] @ [x])"
      using l le_total [OF False] by (auto simp: sorted_wrt_append intro: le_trans [of _ l])
    ultimately show ?thesis by (intro exI [of _ "xs @ [l] @ [x]"]) simp
  qed
qed

lemma insertion_fold:
  "sorted_wrt le xs \<Longrightarrow>
    \<exists>ys. fold (insert_down Q) [length xs..<length xs + length zs] (xs @ zs) = ys \<and> sorted_wrt le ys \<and>
      mset ys = mset xs + mset zs"
proof (induction zs arbitrary: xs)
  case (Cons z zs)
  obtain ys where ys: "insert_down Q (length xs) (xs @ z # zs) = ys @ zs" "sorted_wrt le ys"
    "mset ys = add_mset z (mset xs)"
    using insert_down_ok [OF Cons.prems] by blast
  have "length ys = Suc (length xs)" using arg_cong [OF ys(3), of size] by simp
  moreover have "[length xs..<length xs + length (z # zs)] = length xs # [Suc (length xs)..<Suc (length xs) + length zs]"
    by (subst upt_conv_Cons) simp_all
  ultimately show ?case using Cons.IH [OF ys(2)] ys(1,3) by (simp del: upt_Suc)
qed simp

lemma insertion_sort_ok: "sorted_wrt le (insertion_sort Q h) \<and> mset (insertion_sort Q h) = mset h"
proof (cases h)
  case (Cons x zs)
  then show ?thesis using insertion_fold [of "[x]" zs] by (simp add: insertion_sort_def)
qed (simp add: insertion_sort_def)

section \<open>The partition\<close>

text \<open>
  Equal, smaller, unseen, larger and again equal items; the pivot \<open>p\<close> stays in front.
\<close>

definition part_rep ::
  "'h \<times> 't \<Rightarrow> ('h \<times> 't) part \<Rightarrow> ('h \<times> 't) list \<Rightarrow> ('h \<times> 't) list \<Rightarrow> ('h \<times> 't) list \<Rightarrow> ('h \<times> 't) list \<Rightarrow>
    ('h \<times> 't) list \<Rightarrow> bool" where
  "part_rep p s E1 L U G E2 \<longleftrightarrow>
     parr s = (p # E1) @ L @ U @ G @ E2 \<and> pa s = Suc (length E1) \<and> pb s = pa s + length L \<and>
     pc s = int (pb s + length U) - 1 \<and> pd s = pc s + int (length G) \<and>
     (\<forall>x\<in>set E1 \<union> set E2. eq x p) \<and> (\<forall>x\<in>set L. \<not> le p x) \<and> (\<forall>x\<in>set G. \<not> le x p)"

lemma part_rep_nth:
  assumes "part_rep p s E1 L U G E2"
  shows "parr s ! 0 = p" "U = u # U' \<Longrightarrow> parr s ! pb s = u" "U = U' @ [u] \<Longrightarrow> parr s ! nat (pc s) = u"
    "int (pb s) \<le> pc s \<longleftrightarrow> U \<noteq> []"
proof -
  show "parr s ! 0 = p" using assms by (simp add: part_rep_def)
  show "parr s ! pb s = u" if "U = u # U'"
    using assms that nth_append_length [of "(p # E1) @ L" u "U' @ G @ E2"] by (simp add: part_rep_def)
  show "parr s ! nat (pc s) = u" if "U = U' @ [u]"
  proof -
    have "nat (pc s) = length ((p # E1) @ L @ U')" using assms that by (simp add: part_rep_def)
    then show ?thesis
      using assms that nth_append_length [of "(p # E1) @ L @ U'" u "G @ E2"] by (simp add: part_rep_def)
  qed
  show "int (pb s) \<le> pc s \<longleftrightarrow> U \<noteq> []" using assms by (cases U) (auto simp: part_rep_def)
qed

lemma eq_sym: "eq x y \<longleftrightarrow> eq y x"
  by (auto simp: eq_def)

lemma low_step_rep:
  assumes rep: "part_rep p s E1 L (u # U) G E2" and le: "le u p"
  shows "\<exists>E1' L'. part_rep p (low_step Q s) E1' L' U G E2 \<and> mset (E1' @ L') = mset (E1 @ L @ [u])"
proof (cases "eq u p")
  case False
  then have "low_step Q s = s\<lparr>pb := pb s + 1\<rparr>"
    using part_rep_nth(1) [OF rep] part_rep_nth(2) [OF rep refl] by (simp add: low_step_def qEQ_eq)
  then have "part_rep p (low_step Q s) E1 (L @ [u]) U G E2"
    using rep False le by (auto simp: part_rep_def eq_def)
  then show ?thesis by (intro exI [of _ E1] exI [of _ "L @ [u]"]) simp
next
  case True
  have eq: "low_step Q s = s\<lparr>swapped := True, parr := SWAP (parr s) (pa s) (pb s), pa := pa s + 1, pb := pb s + 1\<rparr>"
    using True part_rep_nth(1) [OF rep] part_rep_nth(2) [OF rep refl] by (simp add: low_step_def qEQ_eq)
  show ?thesis
  proof (cases L)
    case Nil
    then have "part_rep p (low_step Q s) (E1 @ [u]) [] U G E2"
      using rep True by (simp add: eq part_rep_def)
    then show ?thesis using Nil by (intro exI [of _ "E1 @ [u]"] exI [of _ "[]"]) simp
  next
    case (Cons l L')
    have "SWAP ((p # E1) @ l # L' @ u # U @ G @ E2) (length (p # E1)) (Suc (length (p # E1) + length L')) =
      (p # E1) @ u # L' @ l # U @ G @ E2"
      by (rule SWAP_split)
    then have "part_rep p (low_step Q s) (E1 @ [u]) (L' @ [l]) U G E2"
      using rep True by (simp add: eq part_rep_def Cons)
    then show ?thesis using Cons by (intro exI [of _ "E1 @ [u]"] exI [of _ "L' @ [l]"]) simp
  qed
qed

lemma high_step_rep:
  assumes rep: "part_rep p s E1 L (U @ [u]) G E2" and le: "le p u"
  shows "\<exists>G' E2'. part_rep p (high_step Q s) E1 L U G' E2' \<and> mset (G' @ E2') = mset (u # G @ E2)"
proof (cases "eq u p")
  case False
  then have "high_step Q s = s\<lparr>pc := pc s - 1\<rparr>"
    using part_rep_nth(1) [OF rep] part_rep_nth(3) [OF rep refl] by (simp add: high_step_def qEQ_eq eq_sym [of u])
  then have "part_rep p (high_step Q s) E1 L U (u # G) E2"
    using rep False le by (auto simp: part_rep_def eq_def)
  then show ?thesis by (intro exI [of _ "u # G"] exI [of _ E2]) simp
next
  case True
  have eq: "high_step Q s =
    s\<lparr>swapped := True, parr := SWAP (parr s) (nat (pc s)) (nat (pd s)), pd := pd s - 1, pc := pc s - 1\<rparr>"
    using True part_rep_nth(1) [OF rep] part_rep_nth(3) [OF rep refl] by (simp add: high_step_def qEQ_eq eq_sym [of u])
  have pc: "nat (pc s) = length ((p # E1) @ L @ U)" using rep by (simp add: part_rep_def)
  show ?thesis
  proof (cases G rule: rev_cases)
    case Nil
    then have "part_rep p (high_step Q s) E1 L U [] (u # E2)"
      using rep True by (simp add: eq part_rep_def)
    then show ?thesis using Nil by (intro exI [of _ "[]"] exI [of _ "u # E2"]) simp
  next
    case (snoc G' g)
    have "SWAP (((p # E1) @ L @ U) @ u # G' @ g # E2) (length ((p # E1) @ L @ U)) (Suc (length ((p # E1) @ L @ U) + length G')) =
      ((p # E1) @ L @ U) @ g # G' @ u # E2"
      by (rule SWAP_split)
    moreover have "nat (pd s) = Suc (length ((p # E1) @ L @ U) + length G')"
      using rep by (simp add: part_rep_def snoc)
    ultimately have "part_rep p (high_step Q s) E1 L U (g # G') (u # E2)"
      using rep True pc by (simp add: eq part_rep_def snoc)
    then show ?thesis using snoc by (intro exI [of _ "g # G'"] exI [of _ "u # E2"]) simp
  qed
qed

lemma scan_low_rep:
  "part_rep p s E1 L U G E2 \<Longrightarrow>
    \<exists>E1' L' U'. part_rep p (scan_low Q s) E1' L' U' G E2 \<and> mset (E1' @ L' @ U') = mset (E1 @ L @ U) \<and>
      length U' \<le> length U \<and> (\<forall>u V. U' = u # V \<longrightarrow> \<not> le u p)"
proof (induction U arbitrary: s E1 L)
  case Nil
  then have "scan_low Q s = s" using part_rep_nth(4) [OF Nil] by (subst scan_low.simps) simp
  then show ?case using Nil by auto
next
  case (Cons u U)
  note nth = part_rep_nth(1) [OF Cons.prems] part_rep_nth(2) [OF Cons.prems refl] part_rep_nth(4) [OF Cons.prems]
  show ?case
  proof (cases "le u p")
    case True
    then have eq: "scan_low Q s = scan_low Q (low_step Q s)"
      using nth by (subst scan_low.simps) (simp add: qLE_le)
    obtain E1' L' where 1: "part_rep p (low_step Q s) E1' L' U G E2" "mset (E1' @ L') = mset (E1 @ L @ [u])"
      using low_step_rep [OF Cons.prems True] by blast
    obtain E1'' L'' U' where "part_rep p (scan_low Q (low_step Q s)) E1'' L'' U' G E2"
      "mset (E1'' @ L'' @ U') = mset (E1' @ L' @ U)" "length U' \<le> length U" "\<forall>u V. U' = u # V \<longrightarrow> \<not> le u p"
      using Cons.IH [OF 1(1)] by blast
    then show ?thesis using 1(2) unfolding eq
      by (intro exI [of _ E1''] exI [of _ L''] exI [of _ U']) (auto simp: union_assoc [symmetric])
  next
    case False
    then have "scan_low Q s = s" using nth by (subst scan_low.simps) (simp add: qLE_le)
    then show ?thesis using Cons.prems False
      by - (rule exI [of _ E1], rule exI [of _ L], rule exI [of _ "u # U"], simp)
  qed
qed

lemma scan_high_rep:
  "part_rep p s E1 L U G E2 \<Longrightarrow>
    \<exists>U' V G' E2'. part_rep p (scan_high Q s) E1 L U' G' E2' \<and> U = U' @ V \<and> mset (G' @ E2') = mset (V @ G @ E2) \<and>
      (\<forall>W u. U' = W @ [u] \<longrightarrow> \<not> le p u)"
proof (induction U arbitrary: s G E2 rule: rev_induct)
  case Nil
  then have "scan_high Q s = s" using part_rep_nth(4) [OF Nil] by (subst scan_high.simps) simp
  then show ?case using Nil by auto
next
  case (snoc u U)
  note nth = part_rep_nth(1) [OF snoc.prems] part_rep_nth(3) [OF snoc.prems refl] part_rep_nth(4) [OF snoc.prems]
  show ?case
  proof (cases "le p u")
    case True
    then have eq: "scan_high Q s = scan_high Q (high_step Q s)"
      using nth by (subst scan_high.simps) (simp add: qLE_le)
    obtain G' E2' where 1: "part_rep p (high_step Q s) E1 L U G' E2'" "mset (G' @ E2') = mset (u # G @ E2)"
      using high_step_rep [OF snoc.prems True] by blast
    obtain U' V G'' E2'' where "part_rep p (scan_high Q (high_step Q s)) E1 L U' G'' E2''" "U = U' @ V"
      "mset (G'' @ E2'') = mset (V @ G' @ E2')" "\<forall>W u. U' = W @ [u] \<longrightarrow> \<not> le p u"
      using snoc.IH [OF 1(1)] by blast
    then show ?thesis using 1(2) unfolding eq
      by (intro exI [of _ U'] exI [of _ "V @ [u]"] exI [of _ G''] exI [of _ E2'']) simp
  next
    case False
    then have "scan_high Q s = s" using nth by (subst scan_high.simps) (simp add: qLE_le)
    then show ?thesis using snoc.prems False
      by - (rule exI [of _ "U @ [u]"], rule exI [of _ "[]"], rule exI [of _ G], rule exI [of _ E2],
        simp del: split_paired_All)
  qed
qed

lemma exchange_rep:
  assumes rep: "part_rep p s E1 L (u # M @ [v]) G E2" and "\<not> le u p" "\<not> le p v"
  shows "part_rep p (exchange s) E1 (L @ [v]) M (u # G) E2"
proof -
  have "SWAP (((p # E1) @ L) @ u # M @ v # G @ E2) (length ((p # E1) @ L)) (Suc (length ((p # E1) @ L) + length M)) =
    ((p # E1) @ L) @ v # M @ u # G @ E2"
    by (rule SWAP_split)
  moreover have "nat (pc s) = Suc (length ((p # E1) @ L) + length M)" using rep by (simp add: part_rep_def)
  ultimately show ?thesis using rep assms(2,3) by (simp add: exchange_def part_rep_def)
qed

lemma partition_loop_rep:
  "part_rep p s E1 L U G E2 \<Longrightarrow>
    \<exists>E1' L' G' E2'. part_rep p (partition_loop Q s) E1' L' [] G' E2' \<and>
      mset (E1' @ L' @ G' @ E2') = mset (E1 @ L @ U @ G @ E2)"
proof (induction "length U" arbitrary: s E1 L U G E2 rule: less_induct)
  case less
  obtain E1' L' U' where 1: "part_rep p (scan_low Q s) E1' L' U' G E2" "mset (E1' @ L' @ U') = mset (E1 @ L @ U)"
    "length U' \<le> length U" "\<forall>u V. U' = u # V \<longrightarrow> \<not> le u p"
    using scan_low_rep [OF less.prems] by blast
  let ?s = "scan_high Q (scan_low Q s)"
  obtain U'' V G' E2' where 2: "part_rep p ?s E1' L' U'' G' E2'" "U' = U'' @ V" "mset (G' @ E2') = mset (V @ G @ E2)"
    "\<forall>W u. U'' = W @ [u] \<longrightarrow> \<not> le p u"
    using scan_high_rep [OF 1(1)] by blast
  have ms: "mset (E1' @ L' @ U'' @ G' @ E2') = mset (E1 @ L @ U @ G @ E2)"
    using 1(2) 2(2,3) by (simp add: union_assoc [symmetric])
  note exit = part_rep_nth(4) [OF 2(1)]
  show ?case
  proof (cases U'')
    case Nil
    then have "partition_loop Q s = ?s" using exit by (subst partition_loop.simps) (simp add: Let_def)
    then show ?thesis using 2(1) ms Nil by auto
  next
    case (Cons u W)
    have up: "\<not> le u p" using 1(4) 2(2) Cons by simp
    moreover have "W \<noteq> []" using 2(4) [rule_format, of "[]" u] Cons le_total [OF up] by auto
    then obtain M v where W: "W = M @ [v]" by (cases W rule: rev_cases) auto
    moreover have "\<not> le p v" using 2(4) [rule_format, of "u # M" v] Cons W by simp
    ultimately have ex: "part_rep p (exchange ?s) E1' (L' @ [v]) M (u # G') E2'"
      using exchange_rep 2(1) Cons by blast
    have "length M < length U" using 1(3) 2(2) Cons W by simp
    moreover have "partition_loop Q s = partition_loop Q (exchange ?s)"
      using exit Cons by (subst partition_loop.simps) (simp add: Let_def)
    moreover have "mset (E1' @ (L' @ [v]) @ M @ (u # G') @ E2') = mset (E1 @ L @ U @ G @ E2)"
      using ms Cons W by (simp add: add_mset_commute)
    ultimately show ?thesis using less.hyps [OF _ ex] by metis
  qed
qed

section \<open>Gathering\<close>

lemma block_exchange:
  assumes "r = min (length X) (length Y)"
  shows "\<exists>X' Y'. multi_SWAP (P @ X @ Y @ S) (length P) (length P + length X + length Y - r) r = P @ Y' @ X' @ S \<and>
    mset X' = mset X \<and> mset Y' = mset Y"
proof (cases "length X \<le> length Y")
  case True
  define A B where "A = take (length Y - length X) Y" and "B = drop (length Y - length X) Y"
  have Y: "Y = A @ B" "length B = length X" using True by (auto simp: A_def B_def)
  have "multi_SWAP (P @ X @ A @ B @ S) (length P) (length P + length X + length A) (length X) = P @ B @ A @ X @ S"
    by (rule multi_SWAP_split) (simp add: Y(2))
  then show ?thesis using True assms Y 
    by - (rule exI [of _ X], rule exI [of _ "B @ A"], simp add: add.assoc add.commute [of "length A"])
next
  case False
  define A B where "A = take (length Y) X" and "B = drop (length Y) X"
  have X: "X = A @ B" "length A = length Y" using False by (auto simp: A_def B_def)
  have "multi_SWAP (P @ A @ B @ Y @ S) (length P) (length P + length A + length B) (length A) = P @ Y @ B @ A @ S"
    by (rule multi_SWAP_split) (simp add: X(2))
  then show ?thesis using False assms X 

    by - (rule exI [of _ "B @ A"], rule exI [of _ Y], simp add: add.assoc add.commute [of "length B"])
qed

lemma gather_rep:
  assumes rep: "part_rep p s E1 L [] G E2"
  shows "\<exists>L' M G'. gather s = L' @ M @ G' \<and> mset L' = mset L \<and> mset M = mset (p # E1 @ E2) \<and> mset G' = mset G"
proof -
  define r1 r2 where "r1 = min (pa s) (pb s - pa s)" and "r2 = min (nat (pd s - pc s)) (length (parr s) - nat (pd s) - 1)"
  have pos: "parr s = [] @ (p # E1) @ L @ (G @ E2)" "pb s = Suc (length E1) + length L"
    and r1: "r1 = min (length (p # E1)) (length L)" and r2: "r2 = min (length G) (length E2)"
    using rep by (auto simp: part_rep_def r1_def r2_def)
  obtain E L' where 1: "multi_SWAP (parr s) 0 (pb s - r1) r1 = L' @ E @ (G @ E2)" "mset E = mset (p # E1)" "mset L' = mset L"
    using block_exchange [OF r1, of "[]" "G @ E2"] by (auto simp: pos)
  have len: "length L' = length L" "length E = length (p # E1)" using 1(2,3) mset_eq_length by blast+
  then have n: "length (parr s) = length (L' @ E) + length G + length E2" "pb s = length (L' @ E)"
    unfolding pos by simp_all
  obtain G' E' where 2: "multi_SWAP ((L' @ E) @ G @ E2 @ []) (pb s) (length (parr s) - r2) r2 = (L' @ E) @ E' @ G' @ []"
    "mset G' = mset G" "mset E' = mset E2"
    using block_exchange [OF r2, of "L' @ E" "[]"] unfolding n by auto
  have "gather s = L' @ (E @ E') @ G'"
    using 1(1) 2(1) unfolding gather_def Let_def r1_def [symmetric] r2_def [symmetric] by simp
  moreover have "mset (E @ E') = mset (p # E1 @ E2)" using 1(2) 2(3) by simp
  ultimately show ?thesis using 1(3) 2(2) by blast
qed

section \<open>The sort\<close>

lemma MED3_less: "a < n \<Longrightarrow> b < n \<Longrightarrow> c < n \<Longrightarrow> MED3 Q h a b c < n"
  by (simp add: MED3_def)

lemma pivot_index_less: "7 \<le> length h \<Longrightarrow> pivot_index Q h < length h"
  by (auto simp: pivot_index_def Let_def intro!: MED3_less)

lemma partitioned_rep:
  assumes "7 \<le> length h"
  shows "\<exists>p E1 L G E2. part_rep p (partitioned Q h) E1 L [] G E2 \<and> mset (p # E1 @ L @ G @ E2) = mset h"
proof -
  define h' where "h' = (if pivot_index Q h \<noteq> 0 then SWAP h 0 (pivot_index Q h) else h)"
  have ms: "mset h' = mset h" using assms pivot_index_less [OF assms] by (auto simp: h'_def intro!: mset_SWAP)
  then have "length h' = length h" using mset_eq_length by blast
  then obtain p U where h': "h' = p # U" using assms by (cases h') auto
  then have "part_rep p (partition_start h') [] [] U [] []" by (simp add: part_rep_def partition_start_def)
  then obtain E1 L G E2 where "part_rep p (partition_loop Q (partition_start h')) E1 L [] G E2"
    "mset (E1 @ L @ G @ E2) = mset ([] @ [] @ U @ [] @ [])"
    using partition_loop_rep by blast
  then have "part_rep p (partitioned Q h) E1 L [] G E2" "mset (p # E1 @ L @ G @ E2) = mset h"
    using ms unfolding partitioned_def Let_def h'_def [symmetric] h' by simp_all
  then show ?thesis by blast
qed

lemma separated_ok:
  assumes "sorted_wrt le ls" "sorted_wrt le us" "\<forall>x\<in>set ls. \<not> le p x" "\<forall>x\<in>set M. eq x p" "\<forall>x\<in>set us. \<not> le x p"
  shows "sorted_wrt le (ls @ M @ us)"
proof -
  have "le x y" if "x \<in> set ls" "y \<in> set M" for x y
    using assms(4) that le_total [OF assms(3) [rule_format, OF that(1)]] le_trans [of x p y] by (auto simp: eq_def)
  moreover have "le x y" if "x \<in> set M" "y \<in> set us" for x y
    using assms(4) that le_total [OF assms(5) [rule_format, OF that(2)]] le_trans [of x p y] by (auto simp: eq_def)
  moreover have "le x y" if "x \<in> set ls" "y \<in> set us" for x y
    using le_total [OF assms(3) [rule_format, OF that(1)]] le_total [OF assms(5) [rule_format, OF that(2)]]
    by (rule le_trans)
  moreover have "le x y" if "x \<in> set M" "y \<in> set M" for x y
    using assms(4) that le_trans [of x p y] by (simp add: eq_def)
  then have "sorted_wrt le M" by (simp add: sorted_wrt_iff_nth_less)
  ultimately show ?thesis using assms(1,2) by (simp add: sorted_wrt_append ball_Un)
qed

lemma halves: "a + b < n \<Longrightarrow> a \<le> (b :: nat) \<Longrightarrow> 2 ^ k \<le> a \<Longrightarrow> 2 ^ Suc k \<le> n"
  by simp

lemma GDKqsort_impl_ok:
  "\<exists>k h'. GDKqsort_impl Q h = (k, h') \<and> sorted_wrt le h' \<and> mset h' = mset h \<and> (k = 0 \<or> 2 ^ k \<le> length h)"
proof (induction "length h" arbitrary: h rule: less_induct)
  case less
  show ?case
  proof (cases "length h < 7")
    case True
    then show ?thesis using insertion_sort_ok by (simp add: GDKqsort_impl.simps [of Q h])
  next
    case False
    define s where "s = partitioned Q h"
    obtain p E1 L G E2 where rep: "part_rep p s E1 L [] G E2" and ms: "mset (p # E1 @ L @ G @ E2) = mset h"
      using partitioned_rep [of h] False unfolding s_def by auto
    show ?thesis
    proof (cases "\<not> swapped s \<and> length h < 1024")
      case True
      have "mset (parr s) = mset h" using rep ms by (simp add: part_rep_def)
      moreover have "GDKqsort_impl Q h = (0, insertion_sort Q (parr s))"
        using True False by (simp add: GDKqsort_impl.simps [of Q h] Let_def s_def)
      ultimately show ?thesis using insertion_sort_ok [of "parr s"] by simp
    next
      case big: False
      obtain L' M G' where g: "gather s = L' @ M @ G'" "mset L' = mset L" "mset M = mset (p # E1 @ E2)" "mset G' = mset G"
        using gather_rep [OF rep] by blast
      have sets: "set L' = set L" "set M = set (p # E1 @ E2)" "set G' = set G"
        using g(2-4) mset_eq_setD by blast+
      have len: "pb s - pa s = length L'" "nat (pd s - pc s) = length G'" "length h = length L' + length M + length G'" "M \<noteq> []"
        using rep g(2-4) [THEN mset_eq_length] arg_cong [OF ms, of size] by (auto simp: part_rep_def)
      define low where "low = (if 1 < length L' then GDKqsort_impl Q L' else (0, L'))"
      define high where "high = (if 1 < length G' then GDKqsort_impl Q G' else (0, G'))"
      have short: "sorted_wrt le xs" if "\<not> 1 < length xs" for xs
        using that by (cases xs; cases "tl xs") auto
      obtain k l where l: "low = (k, l)" "sorted_wrt le l" "mset l = mset L'" "k = 0 \<or> 2 ^ k \<le> length L'"
        using less.hyps [of L'] short len by (cases "1 < length L'") (auto simp: low_def)
      obtain m u where u: "high = (m, u)" "sorted_wrt le u" "mset u = mset G'" "m = 0 \<or> 2 ^ m \<le> length G'"
        using less.hyps [of G'] short len by (cases "1 < length G'") (auto simp: high_def)
      define d where "d = (if length L' < length G' then max (if 1 < length L' then Suc k else 0) m
        else max k (if 1 < length G' then Suc m else 0))"
      have parts: "take (length L') (gather s) = L'" "drop (length h - length G') (gather s) = G'"
        "drop (length L') (take (length h - length G') (gather s)) = M"
        using len(3) by (simp_all add: g(1))
      have "GDKqsort_impl Q h = (d, l @ M @ u)"
        using False big unfolding GDKqsort_impl.simps [of Q h] Let_def s_def [symmetric] len(1,2) parts
          low_def [symmetric] high_def [symmetric] l(1) u(1) d_def prod.case by auto
      moreover have "set l = set L'" "set u = set G'" using l(3) u(3) mset_eq_setD by blast+
      then have "sorted_wrt le (l @ M @ u)"
        using rep sets by (intro separated_ok [where p = p] l(2) u(2)) (auto simp: part_rep_def eq_def)
      moreover have "mset (l @ M @ u) = mset h" using l(3) u(3) g(2-4) ms by (simp add: ac_simps)
      moreover have "d = 0 \<or> 2 ^ d \<le> length h"
      proof (cases "length L' < length G'")
        case True
        have "Suc k = d' \<Longrightarrow> 1 < length L' \<Longrightarrow> 2 ^ d' \<le> length h" for d'
          using halves [of "length L'" "length G'" "length h" k] True len(3,4) l(4) by auto
        then show ?thesis using True u(4) len(3) unfolding d_def by (auto simp: max_def)
      next
        case ge: False
        have "Suc m = d' \<Longrightarrow> 1 < length G' \<Longrightarrow> 2 ^ d' \<le> length h" for d'
          using halves [of "length G'" "length L'" "length h" m] ge len(3,4) u(4) by auto
        then show ?thesis using ge l(4) len(3) unfolding d_def by (auto simp: max_def)
      qed
      ultimately show ?thesis by blast
    qed
  qed
qed

end

text \<open>Numbers in both directions.\<close>

definition num_qsort :: "bool \<Rightarrow> int qsort_t" where
  "num_qsort desc = \<lparr>qcmp = simple_CMP, qreverse = desc\<rparr>"

interpretation numq: quick_order "num_qsort desc"
  by (rule quick_order.intro) (simp add: num_qsort_def simple.atom_order_axioms)

lemma GDKqsort_result:
  assumes "atom_order (qcmp Q)"
  shows "mset (GDKqsort Q h) = mset h \<and>
    sorted_wrt (\<lambda>x y. if qreverse Q then 0 \<le> qcmp Q (fst x) (fst y) else qcmp Q (fst x) (fst y) \<le> 0) (GDKqsort Q h) \<and>
    (fst (GDKqsort_impl Q h) = 0 \<or> 2 ^ fst (GDKqsort_impl Q h) \<le> length h)"
proof -
  have q: "quick_order Q" by (rule quick_order.intro [OF assms])
  obtain k h' where "GDKqsort_impl Q h = (k, h')" "sorted_wrt (quick_order.le Q) h'" "mset h' = mset h"
    "k = 0 \<or> 2 ^ k \<le> length h"
    using quick_order.GDKqsort_impl_ok [OF q] by blast
  then show ?thesis unfolding quick_order.le_def [OF q, abs_def] GDKqsort_def by simp
qed

section \<open>Properties\<close>

text \<open>
  C9. Quicksort by a total preorder permutes the items and puts them in order, in the direction asked
  for, and \<open>n\<close> items never take more than \<open>log2 n\<close> nested activations, since the recursion is on the
  smaller part.
\<close>

theorem GDKqsort_sorts:
  assumes "atom_order (qcmp Q)"
  shows "mset (GDKqsort Q h) = mset h \<and>
    sorted_wrt (\<lambda>x y. if qreverse Q then 0 \<le> qcmp Q (fst x) (fst y) else qcmp Q (fst x) (fst y) \<le> 0) (GDKqsort Q h) \<and>
    (fst (GDKqsort_impl Q h) = 0 \<or> 2 ^ fst (GDKqsort_impl Q h) \<le> length h)"
  by (rule GDKqsort_result [OF assms])

theorem GDKqsort_sorts_witness:
  "mset (GDKqsort (num_qsort True) [(3, 0 :: nat), (5, 1), (3, 2), (9, 3), (1, 4), (4, 5), (7, 6), (2, 7)]) =
     mset [(3, 0), (5, 1), (3, 2), (9, 3), (1, 4), (4, 5), (7, 6), (2, 7)] \<and>
   sorted_wrt (\<lambda>x y. fst x \<ge> fst y)
     (GDKqsort (num_qsort True) [(3, 0 :: nat), (5, 1), (3, 2), (9, 3), (1, 4), (4, 5), (7, 6), (2, 7)])"
  using GDKqsort_sorts [of "num_qsort True" "[(3, 0 :: nat), (5, 1), (3, 2), (9, 3), (1, 4), (4, 5), (7, 6), (2, 7)]"]
  by (simp add: num_qsort_def simple.atom_order_axioms simple_CMP_sign)

end
