(* ===== verification/Gdk_Project.thy ===== *)
theory Gdk_Project
  imports Gdk_Search
begin

text \<open>
  Fetching the values of a column at the positions another column holds (gdk/gdk_project.c), with
  the functions of gdk/gdk_batop.c it uses.

  A column is extended by the head sequence and the nil properties of its descriptor.  The
  parameters \<open>cmp\<close> and \<open>nl\<close> are the comparison function and the nil of the type of the values,
  \<open>of_oid\<close> turns an \<open>oid\<close> of a virtual column into a value.  A column with the property
  \<open>tdense\<close> is virtual in the model.  \<open>None\<close> is the error "does not match always".  Strings, whose
  heap may be shared instead, and failing allocations are not modelled.
\<close>

section \<open>Columns\<close>

record 'a bat = "'a column" +
  hseqbase :: nat
  tnonil :: bool
  tnil :: bool

text \<open>The values of a column, virtual ones included.\<close>

definition BATvals :: "(nat \<Rightarrow> 'a) \<Rightarrow> 'a \<Rightarrow> ('a, 'b) bat_scheme \<Rightarrow> 'a list" where
  "BATvals of_oid nl b =
     (case ttail b of
        TVals vs \<Rightarrow> vs
      | TVoid seq \<Rightarrow> if seq = oid_nil then replicate (batCount b) nl else map of_oid [seq..<seq + batCount b])"

text \<open>What the descriptor of a column promises.\<close>

definition flags_ok :: "('a \<Rightarrow> 'a \<Rightarrow> int) \<Rightarrow> (nat \<Rightarrow> 'a) \<Rightarrow> 'a \<Rightarrow> ('a, 'b) bat_scheme \<Rightarrow> bool" where
  "flags_ok cmp of_oid nl b \<longleftrightarrow>
     length (BATvals of_oid nl b) = batCount b \<and>
     (tsorted b \<longrightarrow> sorted_wrt (\<lambda>x y. cmp x y \<le> 0) (BATvals of_oid nl b)) \<and>
     (trevsorted b \<longrightarrow> sorted_wrt (\<lambda>x y. 0 \<le> cmp x y) (BATvals of_oid nl b)) \<and>
     (tkey b \<longrightarrow> sorted_wrt (\<lambda>x y. cmp x y \<noteq> 0) (BATvals of_oid nl b)) \<and>
     (tnonil b \<longrightarrow> (\<forall>v\<in>set (BATvals of_oid nl b). cmp v nl \<noteq> 0)) \<and>
     (tnil b \<longrightarrow> (\<exists>v\<in>set (BATvals of_oid nl b). cmp v nl = 0))"

definition column_sound :: "('a \<Rightarrow> 'a \<Rightarrow> int) \<Rightarrow> (nat \<Rightarrow> 'a) \<Rightarrow> 'a \<Rightarrow> 'a bat \<Rightarrow> bool" where
  "column_sound cmp of_oid nl b \<longleftrightarrow>
     batFirst b + batCount b < BUN_NONE \<and> hseqbase b + batCount b \<le> oid_nil \<and> flags_ok cmp of_oid nl b \<and>
     (case ttail b of TVoid seq \<Rightarrow> seq = oid_nil \<or> seq + batCount b \<le> oid_nil | TVals _ \<Rightarrow> True)"

text \<open>Object identifiers are compared as \<open>lng\<close>, where their nil is the smallest value.\<close>

definition oid_cmp :: "nat \<Rightarrow> nat \<Rightarrow> int" where
  "oid_cmp x y = simple_CMP (if x = oid_nil then - (2 ^ 63) else int x) (if y = oid_nil then - (2 ^ 63) else int y)"

definition BATtkey :: "('a, 'b) bat_scheme \<Rightarrow> bool" where
  "BATtkey b \<longleftrightarrow> tkey b \<or> (case ttail b of TVoid seq \<Rightarrow> seq \<noteq> oid_nil | TVals _ \<Rightarrow> False)"

section \<open>Slices and constant columns\<close>

text \<open>
  \<open>BATslice\<close>, where it copies.  A column of type \<open>oid\<close> whose slice happens to be consecutive, which
  the code then makes virtual, stays a list of values.
\<close>

definition BATslice :: "'a bat \<Rightarrow> nat \<Rightarrow> nat \<Rightarrow> 'a bat option" where
  "BATslice b l h =
     (let low = l;
          h = (if batCount b < h then batCount b else h);
          h = (if h < l then l else h)
      in if BUN_NONE - 1 < l + batFirst b \<or> BUN_NONE - 1 < h + batFirst b then None
         else
           let bn = \<lparr>batFirst = 0, batCount = h - l,
                     ttail = (case ttail b of
                         TVals vs \<Rightarrow> TVals (take (h - l) (drop l vs))
                       | TVoid seq \<Rightarrow> TVoid (if seq = oid_nil then oid_nil else seq + low)),
                     tsorted = tsorted b, trevsorted = trevsorted b, tkey = BATtkey b,
                     hseqbase = hseqbase b + low, tnonil = tnonil b \<or> h - l = 0, tnil = False\<rparr>
           in Some (if batCount bn \<le> 1 then bn\<lparr>tsorted := True, trevsorted := True, tkey := True\<rparr> else bn))"

text \<open>\<open>BATconstant\<close> for the nil; the code makes a column of type \<open>oid\<close> virtual, too.\<close>

definition BATconstant_nil :: "nat \<Rightarrow> 'a \<Rightarrow> 'a tail \<Rightarrow> nat \<Rightarrow> 'a bat" where
  "BATconstant_nil hseq nl t n =
     \<lparr>batFirst = 0, batCount = n,
      ttail = (case t of TVals _ \<Rightarrow> TVals (replicate n nl) | TVoid _ \<Rightarrow> TVoid (if n = 0 then 0 else oid_nil)),
      tsorted = True, trevsorted = True, tkey = (n \<le> 1), hseqbase = hseq, tnonil = \<not> 1 \<le> n, tnil = (1 \<le> n)\<rparr>"

section \<open>The fetch\<close>

text \<open>
  The loops of \<open>project_TYPE\<close>, \<open>project_any\<close> and \<open>project_void\<close> over the positions, where \<open>rt\<close>
  reads a value of the other column.  The first loop of \<open>project_TYPE\<close> ends at the first nil; in
  the second \<open>nonil\<close> is no longer set, which the loop tests here.
\<close>

fun project_loop ::
  "('a \<Rightarrow> 'a \<Rightarrow> int) \<Rightarrow> 'a \<Rightarrow> nat \<Rightarrow> nat \<Rightarrow> (nat \<Rightarrow> 'a) \<Rightarrow> bool \<Rightarrow> nat list \<Rightarrow> 'a bat \<Rightarrow> ('a list \<times> 'a bat) option" where
  "project_loop cmp nl rseq rend rt nilcheck [] bn = Some ([], bn)"
| "project_loop cmp nl rseq rend rt nilcheck (p # ps) bn =
     (if p < rseq \<or> rend \<le> p then
        if p = oid_nil
        then map_option (apfst ((#) nl)) (project_loop cmp nl rseq rend rt nilcheck ps
               (bn\<lparr>tnonil := False, tnil := True, tsorted := False, trevsorted := False, tkey := False\<rparr>))
        else None
      else
        let v = rt (p - rseq) in
        map_option (apfst ((#) v)) (project_loop cmp nl rseq rend rt nilcheck ps
          (if nilcheck \<and> tnonil bn \<and> cmp v nl = 0 then bn\<lparr>tnonil := False, tnil := True\<rparr> else bn)))"

definition BATproject ::
  "('a \<Rightarrow> 'a \<Rightarrow> int) \<Rightarrow> (nat \<Rightarrow> 'a) \<Rightarrow> 'a \<Rightarrow> nat bat \<Rightarrow> 'a bat \<Rightarrow> 'a bat option" where
  "BATproject cmp of_oid nl l r =
     (case ttail l of
        TVoid lo \<Rightarrow>
          if lo \<noteq> oid_nil \<and> 0 < batCount l then
            let hi = lo + batCount l in
            if lo < hseqbase r \<or> hseqbase r + batCount r < hi then None
            else map_option (\<lambda>bn. bn\<lparr>hseqbase := hseqbase l\<rparr>) (BATslice r (lo - hseqbase r) (hi - hseqbase r))
          else Some (BATconstant_nil (hseqbase l) nl (ttail r) (batCount l))
      | TVals ps \<Rightarrow>
          if batCount l = 0 \<or> ttail r = TVoid oid_nil
          then Some (BATconstant_nil (hseqbase l) nl (ttail r) (batCount l))
          else
            let bn = \<lparr>batFirst = 0, batCount = batCount l, ttail = TVals [], tsorted = True, trevsorted = True,
                      tkey = True, hseqbase = hseqbase l, tnonil = True, tnil = False\<rparr>
            in map_option
                 (\<lambda>(vs, bn).
                    let bn = (if batCount l \<le> 1
                              then bn\<lparr>tkey := True, tsorted := True, trevsorted := True\<rparr>
                              else bn\<lparr>tkey := tkey l \<and> tkey r,
                                      tsorted := (tsorted l \<and> tsorted r) \<or> (trevsorted l \<and> trevsorted r),
                                      trevsorted := (tsorted l \<and> trevsorted r) \<or> (trevsorted l \<and> tsorted r)\<rparr>)
                    in bn\<lparr>ttail := TVals vs, tnonil := tnonil bn \<or> (tnonil l \<and> tnonil r)\<rparr>)
                 (case ttail r of
                    TVals vs \<Rightarrow>
                      project_loop cmp nl (hseqbase r) (hseqbase r + batCount r) ((!) vs)
                        (\<not> (tnonil l \<and> tnonil r)) ps bn
                  | TVoid seq \<Rightarrow>
                      project_loop cmp nl (hseqbase r) (hseqbase r + batCount r) (\<lambda>i. of_oid (i + seq)) False ps
                        (bn\<lparr>tsorted := tsorted l, trevsorted := trevsorted l, tkey := tkey l\<rparr>)))"

section \<open>Types of values\<close>

text \<open>A type with its comparison, its nil, and the reading of object identifiers.\<close>

locale value_type = atom_order cmp for cmp :: "'a \<Rightarrow> 'a \<Rightarrow> int" +
  fixes of_oid :: "nat \<Rightarrow> 'a" and nl :: 'a
  assumes of_oid_less: "i < j \<Longrightarrow> j < oid_nil \<Longrightarrow> cmp (of_oid i) (of_oid j) < 0"
    and of_oid_not_nil: "i < oid_nil \<Longrightarrow> cmp (of_oid i) nl \<noteq> 0"
begin

lemma sorted_short: "length xs \<le> 1 \<Longrightarrow> sorted_wrt P xs"
  by (cases xs; cases "tl xs") auto

lemma sorted_wrt_slice: "sorted_wrt P xs \<Longrightarrow> sorted_wrt P (take k (drop l xs))"
  by (intro sorted_wrt_take sorted_wrt_drop)

lemma BATvals_void_key:
  assumes "ttail b = TVoid seq" "seq \<noteq> oid_nil" "seq + batCount b \<le> oid_nil"
  shows "sorted_wrt (\<lambda>x y. cmp x y \<noteq> 0) (BATvals of_oid nl b)"
proof -
  have "cmp (of_oid (seq + i)) (of_oid (seq + j)) \<noteq> 0" if "i < j" "j < batCount b" for i j
    using of_oid_less [of "seq + i" "seq + j"] that assms(3) by linarith
  then show ?thesis using assms(1,2) by (simp add: BATvals_def sorted_wrt_iff_nth_less)
qed

lemma BATtkey_sound:
  "column_sound cmp of_oid nl b \<Longrightarrow> BATtkey b \<Longrightarrow> sorted_wrt (\<lambda>x y. cmp x y \<noteq> 0) (BATvals of_oid nl b)"
  using BATvals_void_key [of b] by (auto simp: column_sound_def flags_ok_def BATtkey_def split: tail.splits)

text \<open>What fetching gives at a position.\<close>

definition fetch :: "'a bat \<Rightarrow> nat \<Rightarrow> 'a" where
  "fetch r p = (if hseqbase r \<le> p \<and> p < hseqbase r + batCount r
                then BATvals of_oid nl r ! (p - hseqbase r) else nl)"

lemma slice_vals:
  assumes "column_sound cmp of_oid nl b" "l < h" "h \<le> batCount b" and bn: "BATslice b l h = Some bn"
  shows "BATvals of_oid nl bn = take (h - l) (drop l (BATvals of_oid nl b))" "batCount bn = h - l"
proof -
  show "batCount bn = h - l" using bn assms(2,3) by (auto simp: BATslice_def Let_def split: if_splits)
  have t: "ttail bn = (case ttail b of TVals vs \<Rightarrow> TVals (take (h - l) (drop l vs))
    | TVoid seq \<Rightarrow> TVoid (if seq = oid_nil then oid_nil else seq + l))"
    using bn assms(2,3) by (auto simp: BATslice_def Let_def split: if_splits)
  show "BATvals of_oid nl bn = take (h - l) (drop l (BATvals of_oid nl b))"
  proof (cases "ttail b")
    case (TVals vs)
    then show ?thesis using t by (simp add: BATvals_def)
  next
    case (TVoid seq)
    then have "seq = oid_nil \<or> seq + l \<noteq> oid_nil" "seq = oid_nil \<or> seq + h \<le> seq + batCount b"
      using assms(1-3) by (auto simp: column_sound_def)
    then show ?thesis using t TVoid assms(2,3) \<open>batCount bn = h - l\<close>
      by (auto simp: BATvals_def take_map drop_map min_def)
  qed
qed

lemma slice_some:
  "column_sound cmp of_oid nl b \<Longrightarrow> l < h \<Longrightarrow> h \<le> batCount b \<Longrightarrow> \<exists>bn. BATslice b l h = Some bn"
  by (auto simp: BATslice_def Let_def column_sound_def)

lemma slice_flags:
  assumes "column_sound cmp of_oid nl b" "l < h" "h \<le> batCount b" "BATslice b l h = Some bn"
  shows "flags_ok cmp of_oid nl bn"
proof -
  note vals = slice_vals [OF assms]
  have ok: "flags_ok cmp of_oid nl b" using assms(1) by (simp add: column_sound_def)
  have len: "length (BATvals of_oid nl bn) = batCount bn"
    using vals ok assms(3) by (simp add: flags_ok_def)
  have fl: "(tsorted bn \<longrightarrow> h - l \<le> 1 \<or> tsorted b) \<and> (trevsorted bn \<longrightarrow> h - l \<le> 1 \<or> trevsorted b) \<and>
    (tkey bn \<longrightarrow> h - l \<le> 1 \<or> BATtkey b) \<and> (tnonil bn \<longrightarrow> tnonil b) \<and> \<not> tnil bn"
    using assms(2-4) by (auto simp: BATslice_def Let_def split: if_splits)
  have "sorted_wrt P (BATvals of_oid nl bn)" if "h - l \<le> 1" for P
    by (rule sorted_short) (use that len vals(2) in simp)
  moreover have "sorted_wrt P (BATvals of_oid nl bn)" if "sorted_wrt P (BATvals of_oid nl b)" for P
    using sorted_wrt_slice that vals(1) by simp
  moreover have "set (BATvals of_oid nl bn) \<subseteq> set (BATvals of_oid nl b)"
    using vals(1) by (auto dest: in_set_takeD in_set_dropD)
  ultimately show ?thesis
    using ok len fl BATtkey_sound [OF assms(1)] unfolding flags_ok_def by blast
qed

section \<open>The loop\<close>

lemma project_loop_ok:
  "case project_loop cmp nl rseq rend rt nilcheck ps bn of
     None \<Rightarrow> \<exists>p\<in>set ps. p \<noteq> oid_nil \<and> (p < rseq \<or> rend \<le> p)
   | Some (vs, bn') \<Rightarrow>
       vs = map (\<lambda>p. if rseq \<le> p \<and> p < rend then rt (p - rseq) else nl) ps \<and>
       batFirst bn' = batFirst bn \<and> batCount bn' = batCount bn \<and> hseqbase bn' = hseqbase bn \<and>
       (\<forall>p\<in>set ps. p = oid_nil \<or> (rseq \<le> p \<and> p < rend)) \<and>
       (tnonil bn' \<longrightarrow> tnonil bn \<and> (\<forall>p\<in>set ps. rseq \<le> p \<and> p < rend \<and> (nilcheck \<longrightarrow> cmp (rt (p - rseq)) nl \<noteq> 0))) \<and>
       (tnil bn' \<longrightarrow> tnil bn \<or> (\<exists>v\<in>set vs. cmp v nl = 0))"
proof (induction ps arbitrary: bn)
  case (Cons p ps)
  show ?case
  proof (cases "p < rseq \<or> rend \<le> p")
    case True
    then show ?thesis
      using Cons.IH [of "bn\<lparr>tnonil := False, tnil := True, tsorted := False, trevsorted := False, tkey := False\<rparr>"]
      by (auto simp: split: option.splits)
  next
    case False
    show ?thesis
      using Cons.IH [of "if nilcheck \<and> tnonil bn \<and> cmp (rt (p - rseq)) nl = 0 then bn\<lparr>tnonil := False, tnil := True\<rparr> else bn"] False
      by (auto simp: Let_def split: option.splits if_splits)
  qed
qed simp

end

section \<open>The result\<close>

lemma oid_cmp_less: "x \<noteq> oid_nil \<Longrightarrow> y \<noteq> oid_nil \<Longrightarrow> oid_cmp x y = simple_CMP x y"
  by (simp add: oid_cmp_def simple_CMP_def)

lemma constant_sel:
  "hseqbase (BATconstant_nil hseq nl t n) = hseq" "batCount (BATconstant_nil hseq nl t n) = n"
  by (simp_all add: BATconstant_nil_def)

context value_type
begin

lemma constant_ok:
  shows "BATvals of_oid nl (BATconstant_nil hseq nl t n) = replicate n nl"
    "flags_ok cmp of_oid nl (BATconstant_nil hseq nl t n)"
proof -
  show v: "BATvals of_oid nl (BATconstant_nil hseq nl t n) = replicate n nl"
    by (simp add: BATvals_def BATconstant_nil_def split: tail.splits)
  have "sorted_wrt P (replicate n nl)" if "P nl nl" for P
    using that by (simp add: sorted_wrt_iff_nth_less)
  moreover have "sorted_wrt P (replicate n nl)" if "n \<le> 1" for P
    by (rule sorted_short) (use that in simp)
  ultimately show "flags_ok cmp of_oid nl (BATconstant_nil hseq nl t n)"
    unfolding flags_ok_def v by (auto simp: BATconstant_nil_def)
qed

text \<open>Fetching along ordered positions from ordered values.\<close>

lemma fetch_sorted:
  assumes "\<forall>p\<in>set ps. s \<le> p \<and> p < s + length vs"
    and mono: "\<And>i j. i < length vs \<Longrightarrow> j < length vs \<Longrightarrow> R (s + i) (s + j) \<Longrightarrow> P (vs ! i) (vs ! j)"
    and "sorted_wrt R ps"
  shows "sorted_wrt P (map (\<lambda>p. vs ! (p - s)) ps)"
  using assms(1,3)
proof (induction ps)
  case (Cons p ps)
  have "P (vs ! (p - s)) (vs ! (q - s))" if "q \<in> set ps" for q
    using mono [of "p - s" "q - s"] Cons.prems that by auto
  then show ?case using Cons by auto
qed simp

lemma nth_le: "sorted_wrt (\<lambda>x y. cmp x y \<le> 0) vs \<Longrightarrow> i \<le> j \<Longrightarrow> j < length vs \<Longrightarrow> cmp (vs ! i) (vs ! j) \<le> 0"
  by (cases "i = j") (auto dest: sorted_wrt_nth_less [of _ vs i j])

lemma nth_ge: "sorted_wrt (\<lambda>x y. 0 \<le> cmp x y) vs \<Longrightarrow> i \<le> j \<Longrightarrow> j < length vs \<Longrightarrow> 0 \<le> cmp (vs ! i) (vs ! j)"
  by (cases "i = j") (auto dest: sorted_wrt_nth_less [of _ vs i j])

lemma nth_distinct:
  assumes "sorted_wrt (\<lambda>x y. cmp x y \<noteq> 0) vs" "i \<noteq> j" "i < length vs" "j < length vs"
  shows "cmp (vs ! i) (vs ! j) \<noteq> 0"
  using assms sorted_wrt_nth_less [of "\<lambda>x y. cmp x y \<noteq> 0" vs i j] sorted_wrt_nth_less [of "\<lambda>x y. cmp x y \<noteq> 0" vs j i]
    cmp_eq_swap [of "vs ! i" "vs ! j"] by (cases "i < j") auto

lemma fetch_flags:
  assumes ps: "\<forall>p\<in>set ps. p \<noteq> oid_nil \<and> s \<le> p \<and> p < s + length vs"
    and f: "f = (\<lambda>p. vs ! (p - s))"
  shows "sorted_wrt (\<lambda>x y. oid_cmp x y \<le> 0) ps \<Longrightarrow> sorted_wrt (\<lambda>x y. cmp x y \<le> 0) vs \<Longrightarrow> sorted_wrt (\<lambda>x y. cmp x y \<le> 0) (map f ps)"
    "sorted_wrt (\<lambda>x y. 0 \<le> oid_cmp x y) ps \<Longrightarrow> sorted_wrt (\<lambda>x y. 0 \<le> cmp x y) vs \<Longrightarrow> sorted_wrt (\<lambda>x y. cmp x y \<le> 0) (map f ps)"
    "sorted_wrt (\<lambda>x y. oid_cmp x y \<le> 0) ps \<Longrightarrow> sorted_wrt (\<lambda>x y. 0 \<le> cmp x y) vs \<Longrightarrow> sorted_wrt (\<lambda>x y. 0 \<le> cmp x y) (map f ps)"
    "sorted_wrt (\<lambda>x y. 0 \<le> oid_cmp x y) ps \<Longrightarrow> sorted_wrt (\<lambda>x y. cmp x y \<le> 0) vs \<Longrightarrow> sorted_wrt (\<lambda>x y. 0 \<le> cmp x y) (map f ps)"
    "sorted_wrt (\<lambda>x y. oid_cmp x y \<noteq> 0) ps \<Longrightarrow> sorted_wrt (\<lambda>x y. cmp x y \<noteq> 0) vs \<Longrightarrow> sorted_wrt (\<lambda>x y. cmp x y \<noteq> 0) (map f ps)"
proof -
  have nat: "sorted_wrt (\<lambda>x y. R (simple_CMP x y)) ps" if "sorted_wrt (\<lambda>x y. R (oid_cmp x y)) ps" for R
    by (rule sorted_wrt_mono_rel [OF _ that]) (use ps in \<open>auto simp: oid_cmp_less\<close>)
  have rng: "\<forall>p\<in>set ps. s \<le> p \<and> p < s + length vs" using ps by blast
  note fs = fetch_sorted [OF rng, folded f]
  show "sorted_wrt (\<lambda>x y. oid_cmp x y \<le> 0) ps \<Longrightarrow> sorted_wrt (\<lambda>x y. cmp x y \<le> 0) vs \<Longrightarrow> sorted_wrt (\<lambda>x y. cmp x y \<le> 0) (map f ps)"
    by (rule fs [OF _ nat]) (auto simp: simple_CMP_sign nth_le)
  show "sorted_wrt (\<lambda>x y. 0 \<le> oid_cmp x y) ps \<Longrightarrow> sorted_wrt (\<lambda>x y. 0 \<le> cmp x y) vs \<Longrightarrow> sorted_wrt (\<lambda>x y. cmp x y \<le> 0) (map f ps)"
    by (rule fs [OF _ nat]) (auto simp: simple_CMP_sign cmp_le_swap nth_ge)
  show "sorted_wrt (\<lambda>x y. oid_cmp x y \<le> 0) ps \<Longrightarrow> sorted_wrt (\<lambda>x y. 0 \<le> cmp x y) vs \<Longrightarrow> sorted_wrt (\<lambda>x y. 0 \<le> cmp x y) (map f ps)"
    by (rule fs [OF _ nat]) (auto simp: simple_CMP_sign nth_ge)
  show "sorted_wrt (\<lambda>x y. 0 \<le> oid_cmp x y) ps \<Longrightarrow> sorted_wrt (\<lambda>x y. cmp x y \<le> 0) vs \<Longrightarrow> sorted_wrt (\<lambda>x y. 0 \<le> cmp x y) (map f ps)"
    by (rule fs [OF _ nat]) (auto simp: simple_CMP_sign cmp_le_swap [symmetric] nth_le)
  show "sorted_wrt (\<lambda>x y. oid_cmp x y \<noteq> 0) ps \<Longrightarrow> sorted_wrt (\<lambda>x y. cmp x y \<noteq> 0) vs \<Longrightarrow> sorted_wrt (\<lambda>x y. cmp x y \<noteq> 0) (map f ps)"
    by (rule fs [OF _ nat]) (auto simp: simple_CMP_sign nth_distinct)
qed

end

context value_type
begin

lemma column_length: "column_sound cmp of_oid nl b \<Longrightarrow> length (BATvals of_oid nl b) = batCount b"
  by (simp add: column_sound_def flags_ok_def)

abbreviation bad_position :: "'a bat \<Rightarrow> nat \<Rightarrow> bool" where
  "bad_position r p \<equiv> p \<noteq> oid_nil \<and> \<not> (hseqbase r \<le> p \<and> p < hseqbase r + batCount r)"

text \<open>The three ways of the function.\<close>

lemma project_dense:
  assumes l: "ttail l = TVoid lo" "lo \<noteq> oid_nil" "0 < batCount l" "lo + batCount l \<le> oid_nil"
    and r: "column_sound cmp of_oid nl r"
  shows "case BATproject cmp of_oid nl l r of
     None \<Rightarrow> \<exists>p\<in>set (BATvals id oid_nil l). bad_position r p
   | Some bn \<Rightarrow> BATvals of_oid nl bn = map (fetch r) (BATvals id oid_nil l) \<and> hseqbase bn = hseqbase l \<and>
       batCount bn = batCount l \<and> flags_ok cmp of_oid nl bn"
proof -
  have ps: "BATvals id oid_nil l = [lo..<lo + batCount l]" using l by (simp add: BATvals_def)
  show ?thesis
  proof (cases "lo < hseqbase r \<or> hseqbase r + batCount r < lo + batCount l")
    case True
    then have "bad_position r lo \<or> bad_position r (lo + batCount l - 1)" using l by auto
    then have "\<exists>p\<in>set [lo..<lo + batCount l]. bad_position r p" using l(3) by fastforce
    moreover have "BATproject cmp of_oid nl l r = None" using True l by (auto simp: BATproject_def Let_def)
    ultimately show ?thesis using ps by simp
  next
    case False
    let ?l = "lo - hseqbase r" and ?h = "lo + batCount l - hseqbase r"
    have lh: "?l < ?h" "?h \<le> batCount r" "?h - ?l = batCount l" using False l by auto
    obtain bn where bn: "BATslice r ?l ?h = Some bn" using slice_some [OF r lh(1,2)] by blast
    have "BATproject cmp of_oid nl l r = Some (bn\<lparr>hseqbase := hseqbase l\<rparr>)"
      using False l bn by (simp add: BATproject_def Let_def)
    moreover have "BATvals of_oid nl bn = map (fetch r) [lo..<lo + batCount l]"
      unfolding slice_vals(1) [OF r lh(1,2) bn] lh(3)
      using column_length [OF r] False lh by (intro nth_equalityI) (auto simp: fetch_def add.commute)
    moreover have "BATvals of_oid nl (bn\<lparr>hseqbase := hseqbase l\<rparr>) = BATvals of_oid nl bn"
      "flags_ok cmp of_oid nl (bn\<lparr>hseqbase := hseqbase l\<rparr>) = flags_ok cmp of_oid nl bn"
      by (cases "ttail bn"; simp add: BATvals_def flags_ok_def)+
    ultimately show ?thesis
      using ps slice_flags [OF r lh(1,2) bn] slice_vals(2) [OF r lh(1,2) bn] lh(3) by simp
  qed
qed

lemma project_nil:
  assumes res: "BATproject cmp of_oid nl l r = Some (BATconstant_nil (hseqbase l) nl (ttail r) (batCount l))"
    and why: "batCount l = 0 \<or> ttail l = TVoid oid_nil \<or> ttail r = TVoid oid_nil"
    and l: "column_sound oid_cmp id oid_nil l" and r: "column_sound cmp of_oid nl r"
  shows "case BATproject cmp of_oid nl l r of
     None \<Rightarrow> \<exists>p\<in>set (BATvals id oid_nil l). bad_position r p
   | Some bn \<Rightarrow> BATvals of_oid nl bn = map (fetch r) (BATvals id oid_nil l) \<and> hseqbase bn = hseqbase l \<and>
       batCount bn = batCount l \<and> flags_ok cmp of_oid nl bn"
proof -
  have len: "length (BATvals id oid_nil l) = batCount l" using l by (simp add: column_sound_def flags_ok_def)
  have "fetch r p = nl" if "p \<in> set (BATvals id oid_nil l)" for p
    using that why r len by (auto simp: fetch_def BATvals_def column_sound_def)
  then have "map (fetch r) (BATvals id oid_nil l) = replicate (batCount l) nl"
    using len by (metis map_replicate_const map_eq_conv)
  then show ?thesis
    unfolding res using constant_ok [where hseq = "hseqbase l" and t = "ttail r" and n = "batCount l"]
    by (simp add: constant_sel)
qed

lemma project_fetch:
  assumes ps: "ttail l = TVals ps" and n: "batCount l \<noteq> 0" and rn: "ttail r \<noteq> TVoid oid_nil"
    and l: "column_sound oid_cmp id oid_nil l" and r: "column_sound cmp of_oid nl r"
  shows "case BATproject cmp of_oid nl l r of
     None \<Rightarrow> \<exists>p\<in>set ps. bad_position r p
   | Some bn \<Rightarrow> BATvals of_oid nl bn = map (fetch r) ps \<and> hseqbase bn = hseqbase l \<and>
       batCount bn = batCount l \<and> (oid_nil \<notin> set ps \<longrightarrow> flags_ok cmp of_oid nl bn)"
proof -
  define rt where "rt = (case ttail r of TVals vs \<Rightarrow> (!) vs | TVoid seq \<Rightarrow> (\<lambda>i. of_oid (i + seq)))"
  define nilcheck where "nilcheck = (case ttail r of TVals vs \<Rightarrow> \<not> (tnonil l \<and> tnonil r) | TVoid seq \<Rightarrow> False)"
  define bn0 :: "'a bat" where "bn0 = (let bn = \<lparr>batFirst = 0, batCount = batCount l, ttail = TVals [], tsorted = True,
      trevsorted = True, tkey = True, hseqbase = hseqbase l, tnonil = True, tnil = False\<rparr>
    in case ttail r of TVals vs \<Rightarrow> bn | TVoid seq \<Rightarrow> bn\<lparr>tsorted := tsorted l, trevsorted := trevsorted l, tkey := tkey l\<rparr>)"
  let ?loop = "project_loop cmp nl (hseqbase r) (hseqbase r + batCount r) rt nilcheck ps bn0"
  let ?fin = "\<lambda>(vs, bn). let bn = (if batCount l \<le> 1 then bn\<lparr>tkey := True, tsorted := True, trevsorted := True\<rparr>
      else bn\<lparr>tkey := tkey l \<and> tkey r, tsorted := (tsorted l \<and> tsorted r) \<or> (trevsorted l \<and> trevsorted r),
              trevsorted := (tsorted l \<and> trevsorted r) \<or> (trevsorted l \<and> tsorted r)\<rparr>)
    in bn\<lparr>ttail := TVals vs, tnonil := tnonil bn \<or> (tnonil l \<and> tnonil r)\<rparr>"
  have run: "BATproject cmp of_oid nl l r = map_option ?fin ?loop"
    using n rn by (simp add: BATproject_def ps rt_def nilcheck_def bn0_def Let_def split: tail.splits)
  have bn0: "batCount bn0 = batCount l" "hseqbase bn0 = hseqbase l" "tnonil bn0" "\<not> tnil bn0"
    by (auto simp: bn0_def Let_def split: tail.splits)
  have lenr: "length (BATvals of_oid nl r) = batCount r" by (rule column_length [OF r])
  have rt: "rt i = BATvals of_oid nl r ! i" if "i < batCount r" for i
    using that rn by (auto simp: rt_def BATvals_def add.commute split: tail.splits)
  show ?thesis
  proof (cases ?loop)
    case None
    then have "\<exists>p\<in>set ps. bad_position r p"
      using project_loop_ok [where rseq = "hseqbase r" and rend = "hseqbase r + batCount r" and rt = rt and
          nilcheck = nilcheck and ps = ps and bn = bn0] by auto
    then show ?thesis using None run by simp
  next
    case (Some res)
    then obtain vs bn where res: "?loop = Some (vs, bn)" by (cases res) auto
    note raw = project_loop_ok [where rseq = "hseqbase r" and rend = "hseqbase r + batCount r" and rt = rt and
        nilcheck = nilcheck and ps = ps and bn = bn0, unfolded res option.case prod.case bn0]
    have loop: "vs = map (\<lambda>p. if hseqbase r \<le> p \<and> p < hseqbase r + batCount r then rt (p - hseqbase r) else nl) ps"
      "batCount bn = batCount l" "hseqbase bn = hseqbase l"
      "\<forall>p\<in>set ps. p = oid_nil \<or> (hseqbase r \<le> p \<and> p < hseqbase r + batCount r)"
      "tnonil bn \<longrightarrow> nilcheck \<longrightarrow> (\<forall>p\<in>set ps. cmp (rt (p - hseqbase r)) nl \<noteq> 0)"
      "tnil bn \<longrightarrow> (\<exists>v\<in>set vs. cmp v nl = 0)"
      using raw bn0(4) by blast+
    have vs: "vs = map (fetch r) ps" unfolding loop(1) using rt by (auto simp: fetch_def)
    have lenp: "length ps = batCount l" using l by (simp add: column_sound_def flags_ok_def BATvals_def ps)
    define fin where "fin = ?fin (vs, bn)"
    have result: "BATproject cmp of_oid nl l r = Some fin" unfolding run res fin_def by simp
    have fin: "BATvals of_oid nl fin = vs" "hseqbase fin = hseqbase l" "batCount fin = batCount l" "tnil fin = tnil bn"
      "tsorted fin \<longrightarrow> batCount l \<le> 1 \<or> tsorted l \<and> tsorted r \<or> trevsorted l \<and> trevsorted r"
      "trevsorted fin \<longrightarrow> batCount l \<le> 1 \<or> tsorted l \<and> trevsorted r \<or> trevsorted l \<and> tsorted r"
      "tkey fin \<longrightarrow> batCount l \<le> 1 \<or> tkey l \<and> tkey r" "tnonil fin \<longrightarrow> tnonil bn \<or> tnonil l \<and> tnonil r"
      by (auto simp: fin_def BATvals_def Let_def loop(2,3))
    have "flags_ok cmp of_oid nl fin" if nn: "oid_nil \<notin> set ps"
    proof -
      have rng: "\<forall>p\<in>set ps. p \<noteq> oid_nil \<and> hseqbase r \<le> p \<and> p < hseqbase r + length (BATvals of_oid nl r)"
        using loop(4) nn lenr by auto
      then have vsf: "vs = map (\<lambda>p. BATvals of_oid nl r ! (p - hseqbase r)) ps"
        unfolding vs by (auto simp: fetch_def lenr)
      note flags = fetch_flags [OF rng refl, folded vsf]
      have lv: "BATvals id oid_nil l = ps" by (simp add: BATvals_def ps)
      have lf: "flags_ok oid_cmp id oid_nil l" and rf: "flags_ok cmp of_oid nl r" using l r by (simp_all add: column_sound_def)
      have short: "sorted_wrt P vs" if "batCount l \<le> 1" for P
        by (rule sorted_short) (use that lenp vs in simp)
      have nonil: "cmp v nl \<noteq> 0" if "tnonil fin" "v \<in> set vs" for v
      proof -
        from \<open>v \<in> set vs\<close> obtain p where p: "p \<in> set ps" "v = BATvals of_oid nl r ! (p - hseqbase r)" using vsf by auto
        have i: "p - hseqbase r < batCount r" using rng p(1) lenr by auto
        show ?thesis
        proof (cases "ttail r")
          case (TVoid seq)
          then have "seq + (p - hseqbase r) < oid_nil" using r rn i by (auto simp: column_sound_def)
          then show ?thesis using TVoid rn i p(2) of_oid_not_nil by (simp add: BATvals_def)
        next
          case (TVals us)
          show ?thesis
          proof (cases "tnonil r")
            case True
            then have "\<forall>v\<in>set (BATvals of_oid nl r). cmp v nl \<noteq> 0" using rf by (simp add: flags_ok_def)
            then show ?thesis using p(2) i lenr by auto
          next
            case False
            then have "tnonil bn" "nilcheck" using that(1) fin(8) TVals by (auto simp: nilcheck_def)
            then show ?thesis using loop(5) p rt [OF i] by auto
          qed
        qed
      qed
      have sorted: "sorted_wrt (\<lambda>x y. cmp x y \<le> 0) vs" if "tsorted fin"
        using fin(5) that short flags(1,2) lf rf unfolding flags_ok_def lv by blast
      have rsorted: "sorted_wrt (\<lambda>x y. 0 \<le> cmp x y) vs" if "trevsorted fin"
        using fin(6) that short flags(3,4) lf rf unfolding flags_ok_def lv by blast
      have key: "sorted_wrt (\<lambda>x y. cmp x y \<noteq> 0) vs" if "tkey fin"
        using fin(7) that short flags(5) lf rf unfolding flags_ok_def lv by blast
      have "length vs = batCount fin" using vs lenp fin(3) by simp
      then show ?thesis
        unfolding flags_ok_def fin(1,4) using sorted rsorted key nonil loop(6) by blast
    qed
    then show ?thesis unfolding result using fin(1-3) vs by simp
  qed
qed

lemma BATproject_ok:
  assumes l: "column_sound oid_cmp id oid_nil l" and r: "column_sound cmp of_oid nl r"
  shows "case BATproject cmp of_oid nl l r of
     None \<Rightarrow> \<exists>p\<in>set (BATvals id oid_nil l). bad_position r p
   | Some bn \<Rightarrow> BATvals of_oid nl bn = map (fetch r) (BATvals id oid_nil l) \<and> hseqbase bn = hseqbase l \<and>
       batCount bn = batCount l \<and> (oid_nil \<notin> set (BATvals id oid_nil l) \<longrightarrow> flags_ok cmp of_oid nl bn)"
proof -
  consider (dense) lo where "ttail l = TVoid lo" "lo \<noteq> oid_nil" "0 < batCount l"
    | (nil) "batCount l = 0 \<or> ttail l = TVoid oid_nil \<or> ttail r = TVoid oid_nil" "\<forall>lo. ttail l = TVoid lo \<longrightarrow> lo = oid_nil \<or> batCount l = 0"
    | (fetch) ps where "ttail l = TVals ps" "batCount l \<noteq> 0" "ttail r \<noteq> TVoid oid_nil"
    by (cases "ttail l") auto
  then show ?thesis
  proof cases
    case dense
    then show ?thesis using project_dense [OF dense _ r] l by (auto simp: column_sound_def split: option.splits)
  next
    case nil
    then have "BATproject cmp of_oid nl l r = Some (BATconstant_nil (hseqbase l) nl (ttail r) (batCount l))"
      by (auto simp: BATproject_def split: tail.splits)
    then show ?thesis using project_nil [OF _ nil(1) l r] by auto
  next
    case fetch
    then have "BATvals id oid_nil l = ps" by (simp add: BATvals_def)
    then show ?thesis using project_fetch [OF fetch l r] by (simp only:)
  qed
qed

end

interpretation oid: value_type oid_cmp id oid_nil
  by unfold_locales (auto simp: oid_cmp_def simple_CMP_sign oid_nil_def split: if_splits)

section \<open>Properties\<close>

text \<open>
  C10. Fetching fails only if a position is neither nil nor in the other column.  Otherwise the result
  has, for each position, the value there, nil for the nil position; if no position is nil, its
  flags are true: ordered, reverse ordered, without duplicates, without nil, with a nil.
\<close>

theorem BATproject_correct:
  assumes "value_type cmp of_oid nl" "column_sound oid_cmp id oid_nil l" "column_sound cmp of_oid nl r"
    and ps: "ps = BATvals id oid_nil l" and vs: "vs = BATvals of_oid nl r"
  shows "case BATproject cmp of_oid nl l r of
     None \<Rightarrow> \<exists>p\<in>set ps. p \<noteq> oid_nil \<and> (p < hseqbase r \<or> hseqbase r + length vs \<le> p)
   | Some bn \<Rightarrow>
       BATvals of_oid nl bn =
         map (\<lambda>p. if hseqbase r \<le> p \<and> p < hseqbase r + length vs then vs ! (p - hseqbase r) else nl) ps \<and>
       hseqbase bn = hseqbase l \<and> (oid_nil \<notin> set ps \<longrightarrow> flags_ok cmp of_oid nl bn)"
proof -
  have len: "batCount r = length vs" using assms(3) vs by (simp add: column_sound_def flags_ok_def)
  show ?thesis
    using value_type.BATproject_ok [OF assms(1-3)]
    unfolding value_type.fetch_def [OF assms(1), abs_def] ps [symmetric] vs [symmetric] len
    by (auto split: option.splits simp: not_le not_less)
qed

definition some_positions :: "nat bat" where
  "some_positions = \<lparr>batFirst = 0, batCount = 2, ttail = TVals [12, 10], tsorted = False, trevsorted = True,
     tkey = True, hseqbase = 3, tnonil = True, tnil = False\<rparr>"

definition some_values :: "nat bat" where
  "some_values = \<lparr>batFirst = 0, batCount = 3, ttail = TVals [20, 20, 7], tsorted = False, trevsorted = True,
     tkey = False, hseqbase = 10, tnonil = True, tnil = False\<rparr>"

theorem BATproject_correct_witness:
  "\<exists>bn. BATproject oid_cmp id oid_nil some_positions some_values = Some bn \<and> BATvals id oid_nil bn = [7, 20] \<and>
     flags_ok oid_cmp id oid_nil bn"
proof -
  have "column_sound oid_cmp id oid_nil some_positions" "column_sound oid_cmp id oid_nil some_values"
    by (simp_all add: column_sound_def flags_ok_def BATvals_def some_positions_def some_values_def oid_cmp_def
        oid_nil_def BUN_NONE_def simple_CMP_sign)
  from BATproject_correct [OF oid.value_type_axioms this refl refl]
  show ?thesis
    by (auto simp: BATvals_def some_positions_def some_values_def oid_nil_def split: option.splits)
qed

text \<open>Positions with a nil, as an outer join leaves them, and values with a nil.\<close>

definition nil_positions :: "nat bat" where
  "nil_positions = \<lparr>batFirst = 0, batCount = 3, ttail = TVals [oid_nil, 0, 1], tsorted = True, trevsorted = False,
     tkey = True, hseqbase = 0, tnonil = False, tnil = True\<rparr>"

definition nil_values :: "nat bat" where
  "nil_values = \<lparr>batFirst = 0, batCount = 2, ttail = TVals [5, oid_nil], tsorted = False, trevsorted = True,
     tkey = True, hseqbase = 0, tnonil = False, tnil = True\<rparr>"

lemma BATproject_nil_flags_wrong:
  "column_sound oid_cmp id oid_nil nil_positions \<and> column_sound oid_cmp id oid_nil nil_values \<and>
   (\<exists>bn. BATproject oid_cmp id oid_nil nil_positions nil_values = Some bn \<and>
      BATvals id oid_nil bn = [oid_nil, 5, oid_nil] \<and> trevsorted bn \<and> tkey bn \<and> \<not> flags_ok oid_cmp id oid_nil bn)"
proof -
  have "column_sound oid_cmp id oid_nil nil_positions" "column_sound oid_cmp id oid_nil nil_values"
    by (simp_all add: column_sound_def flags_ok_def BATvals_def nil_positions_def nil_values_def oid_cmp_def
        oid_nil_def BUN_NONE_def simple_CMP_sign)
  then show ?thesis
    by (simp add: BATproject_def nil_positions_def nil_values_def BATvals_def flags_ok_def oid_cmp_def oid_nil_def
        simple_CMP_sign Let_def)
qed

end
