(* ===== verification/Gdk_BatSort.thy ===== *)
theory Gdk_BatSort
  imports Gdk_Ssort_Props Gdk_Qsort_Props Gdk_Project
begin

text \<open>
  Sorting a column by groups (\<open>do_sort\<close> and \<open>BATsort\<close> of gdk/gdk_batop.c): the order of an
  earlier sort is applied with \<open>BATproject\<close>, then every group of rows with equal group numbers is
  sorted on its own, the order column moving along.

  \<open>Crash\<close> is a failed assertion or a null pointer.  The output
  \<open>groups\<close>, computed by \<open>BATgroup_internal\<close>, is not modelled; the outputs \<open>sorted\<close> and \<open>order\<close>
  are always produced.  Copying a column keeps its values and its flags.
\<close>

section \<open>The operations\<close>

definition do_sort ::
  "('a, 't) sortenv \<Rightarrow> (nat \<Rightarrow> 'a \<times> 't) \<Rightarrow> bool \<Rightarrow> bool \<Rightarrow> ('a \<times> 't) list \<Rightarrow> ('a \<times> 't) list outcome" where
  "do_sort E tmp reverse stbl h =
     (if length h \<le> 1 then Done h
      else if stbl then
        (case GDKssort (E\<lparr>descending := reverse\<rparr>) tmp h of
           None \<Rightarrow> Crash
         | Some (r, h) \<Rightarrow> if r < 0 then Failed else Done h)
      else Done (GDKqsort \<lparr>qcmp = compare E, qreverse = reverse\<rparr> h))"

text \<open>Sorting the part from \<open>r\<close> to \<open>p\<close>; \<open>alloc r\<close> says which allocations succeed there.\<close>

definition sort_part ::
  "('a, nat) sortenv \<Rightarrow> (nat \<Rightarrow> nat \<Rightarrow> bool) \<Rightarrow> (nat \<Rightarrow> 'a \<times> nat) \<Rightarrow> bool \<Rightarrow> bool \<Rightarrow> nat \<Rightarrow> nat \<Rightarrow>
    ('a \<times> nat) list \<Rightarrow> ('a \<times> nat) list outcome" where
  "sort_part E alloc tmp reverse stbl r p h =
     andthen (do_sort (E\<lparr>granted := alloc r\<rparr>) tmp reverse stbl (take (p - r) (drop r h)))
       (\<lambda>part. Done (take r h @ part @ drop p h))"

text \<open>
  The loop over the group numbers; the result holds the start of the last group and the rows.
\<close>

fun group_loop ::
  "('a, nat) sortenv \<Rightarrow> (nat \<Rightarrow> nat \<Rightarrow> bool) \<Rightarrow> (nat \<Rightarrow> 'a \<times> nat) \<Rightarrow> bool \<Rightarrow> bool \<Rightarrow> nat list \<Rightarrow> nat \<Rightarrow> nat \<Rightarrow> nat \<Rightarrow>
    ('a \<times> nat) list \<Rightarrow> (nat \<times> ('a \<times> nat) list) outcome" where
  "group_loop E alloc tmp reverse stbl [] r prev p h =
     andthen (sort_part E alloc tmp reverse stbl r p h) (\<lambda>h. Done (r, h))"
| "group_loop E alloc tmp reverse stbl (x # grps) r prev p h =
     (if x \<noteq> prev
      then andthen (sort_part E alloc tmp reverse stbl r p h)
             (\<lambda>h. group_loop E alloc tmp reverse stbl grps p x (Suc p) h)
      else group_loop E alloc tmp reverse stbl grps r prev (Suc p) h)"

text \<open>The checks of the arguments, then the column and the order to work on.\<close>

definition sort_args :: "'a bat \<Rightarrow> nat bat option \<Rightarrow> nat bat option \<Rightarrow> unit outcome" where
  "sort_args b ord grp =
     (if \<exists>o'. ord = Some o' \<and> (batCount o' \<noteq> batCount b \<or> (ttail o' = TVoid oid_nil \<and> batCount o' \<noteq> 0))
      then Failed
      else
        case grp of
          None \<Rightarrow> Done ()
        | Some g \<Rightarrow>
            if \<not> tsorted g then Failed
            else
              case ord of
                None \<Rightarrow> Crash
              | Some o' \<Rightarrow>
                  if batCount o' \<noteq> batCount b \<or> (ttail g = TVoid oid_nil \<and> batCount g \<noteq> 0) then Failed else Done ())"

definition BATtordered :: "'a bat \<Rightarrow> bool" where
  "BATtordered b \<longleftrightarrow> (case ttail b of TVoid _ \<Rightarrow> True | TVals _ \<Rightarrow> tsorted b)"

definition BATtrevordered :: "'a bat \<Rightarrow> bool" where
  "BATtrevordered b \<longleftrightarrow> ttail b = TVoid oid_nil \<or> trevsorted b"

definition COLcopy :: "'a bat \<Rightarrow> 'a bat" where
  "COLcopy b = (if batCount b \<le> 1 then b\<lparr>tsorted := True, trevsorted := True, tkey := True\<rparr> else b)"

text \<open>The second half of \<open>BATsort\<close>, where \<open>bn\<close> and \<open>on\<close> are the columns that are sorted.\<close>

definition sort_rows ::
  "('a, nat) sortenv \<Rightarrow> (nat \<Rightarrow> nat \<Rightarrow> bool) \<Rightarrow> (nat \<Rightarrow> 'a \<times> nat) \<Rightarrow> nat bat option \<Rightarrow> bool \<Rightarrow> bool \<Rightarrow>
    'a bat \<Rightarrow> nat list \<Rightarrow> ('a bat \<times> nat list) outcome" where
  "sort_rows E alloc tmp grp reverse stbl bn on =
     (case ttail bn of
        TVoid _ \<Rightarrow> Crash
      | TVals vs \<Rightarrow>
          (case grp of
             Some g \<Rightarrow>
               (case ttail g of
                  TVoid _ \<Rightarrow> Done (bn, on)
                | TVals grps \<Rightarrow>
                    if tkey g then Done (bn, on)
                    else
                      andthen (group_loop E alloc tmp reverse stbl (tl grps) 0 (grps ! 0) 1 (zip vs on))
                        (\<lambda>(r, h). Done (bn\<lparr>ttail := TVals (map fst h), tsorted := (r = 0 \<and> \<not> reverse),
                                           trevsorted := (r = 0 \<and> reverse)\<rparr>, map snd h)))
           | None \<Rightarrow>
               andthen (if (if reverse then trevsorted bn else tsorted bn) then Done (zip vs on)
                     else sort_part E alloc tmp reverse stbl 0 (batCount bn) (zip vs on))
                 (\<lambda>h. Done (bn\<lparr>ttail := TVals (map fst h), tsorted := \<not> reverse, trevsorted := reverse\<rparr>,
                            map snd h))))"

definition BATsort ::
  "('a, nat) sortenv \<Rightarrow> (nat \<Rightarrow> nat \<Rightarrow> bool) \<Rightarrow> (nat \<Rightarrow> 'a \<times> nat) \<Rightarrow> (nat \<Rightarrow> 'a) \<Rightarrow> 'a \<Rightarrow>
    'a bat \<Rightarrow> nat bat option \<Rightarrow> nat bat option \<Rightarrow> bool \<Rightarrow> bool \<Rightarrow> ('a bat \<times> nat list) outcome" where
  "BATsort E alloc tmp of_oid nl b ord grp reverse stbl =
     andthen (sort_args b ord grp) (\<lambda>_.
       if batCount b \<le> 1 \<or> ((if reverse then BATtrevordered b else BATtordered b) \<and> ord = None \<and> grp = None)
       then Done (COLcopy b, [hseqbase b..<hseqbase b + batCount b])
       else
         case ord of
           None \<Rightarrow> sort_rows E alloc tmp grp reverse stbl (COLcopy b) (map (\<lambda>p. p + hseqbase b) [0..<batCount b])
         | Some o' \<Rightarrow>
             (case BATproject (compare E) of_oid nl o' b of
                None \<Rightarrow> Failed
              | Some bn \<Rightarrow>
                  sort_rows E alloc tmp grp reverse stbl (bn\<lparr>ttail := TVals (BATvals of_oid nl bn)\<rparr>)
                    (BATvals id oid_nil o')))"

section \<open>What the arguments have to be\<close>

text \<open>\<open>os\<close> are the positions in the column \<open>b\<close> in the order to start from, \<open>gs\<close> the group numbers.\<close>

definition order_ok :: "'a bat \<Rightarrow> nat bat option \<Rightarrow> nat list \<Rightarrow> bool" where
  "order_ok b ord os \<longleftrightarrow>
     (case ord of
        None \<Rightarrow> os = [hseqbase b..<hseqbase b + batCount b]
      | Some o' \<Rightarrow> column_sound oid_cmp id oid_nil o' \<and> batCount o' = batCount b \<and> os = BATvals id oid_nil o' \<and>
          (\<forall>p\<in>set os. hseqbase b \<le> p \<and> p < hseqbase b + batCount b))"

definition groups_ok :: "nat bat option \<Rightarrow> nat \<Rightarrow> nat list \<Rightarrow> bool" where
  "groups_ok grp n gs \<longleftrightarrow>
     (case grp of
        None \<Rightarrow> gs = replicate n 0
      | Some g \<Rightarrow> column_sound oid_cmp id oid_nil g \<and> tsorted g \<and> batCount g = n \<and> gs = BATvals id oid_nil g \<and>
          oid_nil \<notin> set gs)"

lemma groups_length: "groups_ok grp n gs \<Longrightarrow> length gs = n"
  by (auto simp: groups_ok_def column_sound_def flags_ok_def split: option.splits)

lemma groups_sorted:
  assumes "groups_ok (Some g) n gs"
  shows "sorted gs"
proof -
  have "sorted_wrt (\<lambda>x y. oid_cmp x y \<le> 0) gs" "oid_nil \<notin> set gs"
    using assms by (auto simp: groups_ok_def column_sound_def flags_ok_def)
  moreover have "x \<le> y" if "oid_cmp x y \<le> 0" "x \<noteq> oid_nil" "y \<noteq> oid_nil" for x y
    using that by (simp add: oid_cmp_less simple_CMP_sign)
  ultimately show ?thesis
    by (intro sorted_wrt_mono_rel [of gs "\<lambda>x y. oid_cmp x y \<le> 0" "(\<le>)"]) metis+
qed

lemma groups_key:
  assumes "groups_ok (Some g) n gs" "0 < n" "tkey g \<or> ttail g = TVoid lo"
  shows "sorted_wrt (<) gs"
proof (cases "ttail g")
  case (TVoid seq)
  then have "gs = [seq..<seq + n]"
    using assms(1,2) by (auto simp: groups_ok_def BATvals_def split: if_splits)
  then show ?thesis by (simp add: sorted_wrt_upt)
next
  case TVals
  then have "sorted_wrt (\<lambda>x y. oid_cmp x y \<noteq> 0) gs"
    using assms by (auto simp: groups_ok_def column_sound_def flags_ok_def)
  then have "distinct gs" by (induction gs) (auto simp: oid_cmp_def simple_CMP_sign)
  then show ?thesis using groups_sorted [OF assms(1)] by (simp add: strict_sorted_iff)
qed

lemma order_length: "order_ok b ord os \<Longrightarrow> length os = batCount b"
  by (auto simp: order_ok_def column_sound_def flags_ok_def split: option.splits)

lemma order_range: "order_ok b ord os \<Longrightarrow> p \<in> set os \<Longrightarrow> hseqbase b \<le> p \<and> p < hseqbase b + batCount b"
  by (auto simp: order_ok_def split: option.splits)

lemma sort_args_ok:
  assumes "order_ok b ord os" "groups_ok grp (batCount b) gs" "grp \<noteq> None \<longrightarrow> ord \<noteq> None"
    "hseqbase b + batCount b \<le> oid_nil"
  shows "sort_args b ord grp = Done ()"
proof -
  have "\<not> (ttail o' = TVoid oid_nil \<and> batCount o' \<noteq> 0)" if "ord = Some o'" for o'
    using assms(1,4) that by (auto simp: order_ok_def BATvals_def)
  moreover have "\<not> (ttail g = TVoid oid_nil \<and> batCount g \<noteq> 0)" if "grp = Some g" for g
    using assms(2) that by (auto simp: groups_ok_def BATvals_def)
  ultimately show ?thesis
    using assms(1-3) by (auto simp: sort_args_def order_ok_def groups_ok_def split: option.splits)
qed

section \<open>Sorting by groups\<close>

locale column_sort = value_type "compare E" of_oid nl
  for E :: "('a, nat) sortenv" and of_oid :: "nat \<Rightarrow> 'a" and nl :: 'a
begin

text \<open>What a stable sort of \<open>n\<close> rows asks for.\<close>

definition fits :: "bool \<Rightarrow> nat \<Rightarrow> bool" where
  "fits stbl n \<longleftrightarrow> (stbl \<longrightarrow> 0 < hs E \<and> hs E < 16 \<and> ts E < 16 \<and> n < 2 ^ 32)"

lemma fits_le: "fits stbl n \<Longrightarrow> m \<le> n \<Longrightarrow> fits stbl m"
  by (auto simp: fits_def)

definition dle :: "bool \<Rightarrow> 'a \<Rightarrow> 'a \<Rightarrow> bool" where
  "dle reverse x y \<longleftrightarrow> (if reverse then 0 \<le> compare E x y else compare E x y \<le> 0)"

lemma do_sort_ok:
  assumes "fits stbl (length xs)"
  shows "do_sort (E\<lparr>granted := a\<rparr>) tmp reverse stbl xs = Failed \<and> stbl \<and> (\<exists>k. \<not> a k) \<or>
    (\<exists>ys. do_sort (E\<lparr>granted := a\<rparr>) tmp reverse stbl xs = Done ys \<and> mset ys = mset xs \<and>
      sorted_wrt (\<lambda>x y. dle reverse (fst x) (fst y)) ys \<and>
      (stbl \<longrightarrow> (\<forall>z. filter (\<lambda>x. compare E z (fst x) = 0) ys = filter (\<lambda>x. compare E z (fst x) = 0) xs)))"
proof (cases "length xs \<le> 1")
  case True
  then show ?thesis using sorted_short by (cases xs; cases "tl xs") (auto simp: do_sort_def)
next
  case big: False
  show ?thesis
  proof (cases stbl)
    case True
    let ?E = "E\<lparr>granted := a, descending := reverse\<rparr>"
    obtain r ys where r: "GDKssort ?E tmp xs = Some (r, ys)" "mset ys = mset xs"
      "\<forall>z. filter (\<lambda>x. compare ?E z (fst x) = 0) ys = filter (\<lambda>x. compare ?E z (fst x) = 0) xs"
      "r = 0 \<and> sorted_wrt (\<lambda>x y. if descending ?E then compare ?E (fst x) (fst y) \<ge> 0
                               else compare ?E (fst x) (fst y) \<le> 0) ys \<or> r = - 1" "(\<forall>k. granted ?E k) \<longrightarrow> r = 0"
      using GDKssort_result [of ?E xs tmp] assms True atom_order_axioms by (auto simp: fits_def)
    then show ?thesis using big True by (cases "r = 0"; cases reverse) (auto simp: do_sort_def dle_def)
  next
    case False
    let ?Q = "\<lparr>qcmp = compare E, qreverse = reverse\<rparr>"
    have "mset (GDKqsort ?Q xs) = mset xs \<and>
      sorted_wrt (\<lambda>x y. if qreverse ?Q then 0 \<le> qcmp ?Q (fst x) (fst y) else qcmp ?Q (fst x) (fst y) \<le> 0) (GDKqsort ?Q xs)"
      using GDKqsort_result [of ?Q xs] atom_order_axioms by simp
    then show ?thesis using big False by (cases reverse) (simp_all add: do_sort_def dle_def)
  qed
qed

text \<open>Rows with a group number, ordered by group and, in the group, by value.\<close>

definition lex :: "bool \<Rightarrow> nat \<times> 'a \<times> nat \<Rightarrow> nat \<times> 'a \<times> nat \<Rightarrow> bool" where
  "lex reverse r s \<longleftrightarrow> fst r < fst s \<or> fst r = fst s \<and> dle reverse (fst (snd r)) (fst (snd s))"

definition subsorted :: "bool \<Rightarrow> bool \<Rightarrow> nat list \<Rightarrow> ('a \<times> nat) list \<Rightarrow> ('a \<times> nat) list \<Rightarrow> bool" where
  "subsorted reverse stbl gs xs ys \<longleftrightarrow>
     length xs = length gs \<and> length ys = length gs \<and> mset (zip gs ys) = mset (zip gs xs) \<and>
     sorted_wrt (lex reverse) (zip gs ys) \<and>
     (stbl \<longrightarrow> (\<forall>k z. filter (\<lambda>r. fst r = k \<and> compare E z (fst (snd r)) = 0) (zip gs ys) =
                     filter (\<lambda>r. fst r = k \<and> compare E z (fst (snd r)) = 0) (zip gs xs)))"

lemma subsorted_append:
  assumes "subsorted reverse stbl gs xs ys" "subsorted reverse stbl gs' xs' ys'" "\<forall>g\<in>set gs. \<forall>g'\<in>set gs'. g < g'"
  shows "subsorted reverse stbl (gs @ gs') (xs @ xs') (ys @ ys')"
proof -
  have "lex reverse r s" if "r \<in> set (zip gs ys)" "s \<in> set (zip gs' ys')" for r s
  proof -
    have "fst r \<in> set gs" "fst s \<in> set gs'" using that by (metis prod.collapse set_zip_leftD)+
    then show ?thesis using assms(3) by (simp add: lex_def)
  qed
  then show ?thesis using assms(1,2) unfolding subsorted_def by (simp add: sorted_wrt_append)
qed

lemma subsorted_one:
  assumes "mset ys = mset xs" "sorted_wrt (\<lambda>x y. dle reverse (fst x) (fst y)) ys"
    "stbl \<longrightarrow> (\<forall>z. filter (\<lambda>x. compare E z (fst x) = 0) ys = filter (\<lambda>x. compare E z (fst x) = 0) xs)"
  shows "subsorted reverse stbl (replicate (length xs) k) xs ys"
proof -
  have len: "length ys = length xs" using assms(1) mset_eq_length by blast
  have z: "zip (replicate (length zs) k) zs = map (Pair k) zs" for zs :: "('a \<times> nat) list"
    by (induction zs) auto
  have zx: "zip (replicate (length xs) k) xs = map (Pair k) xs" "zip (replicate (length xs) k) ys = map (Pair k) ys"
    using z [of xs] z [of ys] len by simp_all
  have "filter (\<lambda>r. fst r = k' \<and> compare E z (fst (snd r)) = 0) (map (Pair k) zs) =
    (if k' = k then map (Pair k) (filter (\<lambda>x. compare E z (fst x) = 0) zs) else [])" for k' z and zs :: "('a \<times> nat) list"
    by (auto simp: filter_map o_def)
  then show ?thesis using assms len by (simp add: subsorted_def zx sorted_wrt_map lex_def)
qed

lemma sort_part_ok:
  assumes "r = length D" "p = r + length C" "fits stbl (length C)"
  shows "sort_part E alloc tmp reverse stbl r p (D @ C @ R) = Failed \<and> stbl \<and> (\<exists>r k. \<not> alloc r k) \<or>
    (\<exists>C'. sort_part E alloc tmp reverse stbl r p (D @ C @ R) = Done (D @ C' @ R) \<and>
      subsorted reverse stbl (replicate (length C) k) C C')"
  using do_sort_ok [OF assms(3), of "alloc r" tmp reverse] assms(1,2)
  by (auto simp: sort_part_def intro: subsorted_one)

lemma group_loop_ok:
  assumes "r = length D" "p = r + length C" "C \<noteq> []" "length R = length grps" "sorted (prev # grps)"
    "fits stbl (length C + length R)"
  shows "group_loop E alloc tmp reverse stbl grps r prev p (D @ C @ R) = Failed \<and> stbl \<and> (\<exists>r k. \<not> alloc r k) \<or>
    (\<exists>r' ys. group_loop E alloc tmp reverse stbl grps r prev p (D @ C @ R) = Done (r', D @ ys) \<and>
      subsorted reverse stbl (replicate (length C) prev @ grps) (C @ R) ys \<and> r \<le> r' \<and> (r' = r \<longrightarrow> set grps \<subseteq> {prev}))"
  using assms
proof (induction grps arbitrary: r prev p D C R)
  case Nil
  then show ?case using sort_part_ok [of r D p C stbl alloc tmp reverse "[]" prev] by auto
next
  case (Cons x grps)
  obtain y R' where R: "R = y # R'" using Cons.prems(4) by (cases R) auto
  show ?case
  proof (cases "x = prev")
    case True
    have "group_loop E alloc tmp reverse stbl grps r prev (Suc p) (D @ (C @ [y]) @ R') = Failed \<and> stbl \<and> (\<exists>r k. \<not> alloc r k) \<or>
      (\<exists>r' ys. group_loop E alloc tmp reverse stbl grps r prev (Suc p) (D @ (C @ [y]) @ R') = Done (r', D @ ys) \<and>
        subsorted reverse stbl (replicate (length (C @ [y])) prev @ grps) ((C @ [y]) @ R') ys \<and> r \<le> r' \<and>
        (r' = r \<longrightarrow> set grps \<subseteq> {prev}))"
      using Cons.prems R True by (intro Cons.IH) auto
    moreover have "replicate (length (C @ [y])) prev @ grps = replicate (length C) prev @ x # grps"
      using True by (simp add: replicate_app_Cons_same)
    moreover have "(C @ [y]) @ R' = C @ R" "set (x # grps) \<subseteq> {prev} \<longleftrightarrow> set grps \<subseteq> {prev}" using R True by simp_all
    moreover have "group_loop E alloc tmp reverse stbl (x # grps) r prev p (D @ C @ R) =
      group_loop E alloc tmp reverse stbl grps r prev (Suc p) (D @ C @ R)"
      using True by simp
    ultimately show ?thesis by metis
  next
    case False
    have less: "prev < x" "\<forall>g\<in>set grps. x \<le> g" using False Cons.prems(5) by auto
    consider "sort_part E alloc tmp reverse stbl r p (D @ C @ R) = Failed \<and> stbl \<and> (\<exists>r k. \<not> alloc r k)"
      | C' where "sort_part E alloc tmp reverse stbl r p (D @ C @ R) = Done (D @ C' @ R)"
          "subsorted reverse stbl (replicate (length C) prev) C C'"
      using sort_part_ok [of r D p C stbl alloc tmp reverse R prev] Cons.prems(1,2) fits_le [OF Cons.prems(6)] by auto
    then show ?thesis
    proof cases
      case 1
      have "group_loop E alloc tmp reverse stbl (x # grps) r prev p (D @ C @ R) = Failed"
        using False by (simp add: 1 [THEN conjunct1])
      then show ?thesis using 1 by blast
    next
      case 2
      have len: "length C' = length C" using 2(2) by (simp add: subsorted_def)
      have eq: "group_loop E alloc tmp reverse stbl (x # grps) r prev p (D @ C @ R) =
        group_loop E alloc tmp reverse stbl grps p x (Suc p) ((D @ C') @ [y] @ R')"
        using False 2(1) R by simp
      have IH: "group_loop E alloc tmp reverse stbl grps p x (Suc p) ((D @ C') @ [y] @ R') = Failed \<and> stbl \<and> (\<exists>r k. \<not> alloc r k) \<or>
        (\<exists>r' ys. group_loop E alloc tmp reverse stbl grps p x (Suc p) ((D @ C') @ [y] @ R') = Done (r', (D @ C') @ ys) \<and>
          subsorted reverse stbl (replicate (length [y]) x @ grps) ([y] @ R') ys \<and> p \<le> r' \<and> (r' = p \<longrightarrow> set grps \<subseteq> {x}))"
        using Cons.prems R len by (intro Cons.IH) (auto elim: fits_le)
      have app: "subsorted reverse stbl (replicate (length C) prev @ x # grps) (C @ R) (C' @ ys)"
        if "subsorted reverse stbl (replicate (length [y]) x @ grps) ([y] @ R') ys" for ys
        using subsorted_append [OF 2(2) that] less R by fastforce
      have "r < p" using Cons.prems(2,3) by simp
      show ?thesis
        using IH
      proof
        assume "\<exists>r' ys. group_loop E alloc tmp reverse stbl grps p x (Suc p) ((D @ C') @ [y] @ R') = Done (r', (D @ C') @ ys) \<and>
          subsorted reverse stbl (replicate (length [y]) x @ grps) ([y] @ R') ys \<and> p \<le> r' \<and> (r' = p \<longrightarrow> set grps \<subseteq> {x})"
        then obtain r' ys where "group_loop E alloc tmp reverse stbl grps p x (Suc p) ((D @ C') @ [y] @ R') = Done (r', D @ C' @ ys)"
          "subsorted reverse stbl (replicate (length [y]) x @ grps) ([y] @ R') ys" "p \<le> r'"
          by auto
        then show ?thesis unfolding eq using app \<open>r < p\<close>
          by (intro disjI2 exI [of _ r'] exI [of _ "C' @ ys"]) auto
      next
        assume "group_loop E alloc tmp reverse stbl grps p x (Suc p) ((D @ C') @ [y] @ R') = Failed \<and> stbl \<and>
          (\<exists>r k. \<not> alloc r k)"
        then show ?thesis unfolding eq by blast
      qed
    qed
  qed
qed

lemma subsorted_same_groups:
  assumes "sorted_wrt (<) gs" "length xs = length gs"
  shows "subsorted reverse stbl gs xs xs"
proof -
  have "lex reverse (zip gs xs ! i) (zip gs xs ! j)" if "i < j" "j < length gs" for i j
    using assms that by (simp add: lex_def sorted_wrt_iff_nth_less)
  then show ?thesis using assms(2) by (simp add: subsorted_def sorted_wrt_iff_nth_less)
qed

lemma subsorted_single:
  assumes "subsorted reverse stbl (replicate n k) xs ys"
  shows "sorted_wrt (dle reverse) (map fst ys)"
  using assms by (simp add: subsorted_def sorted_wrt_iff_nth_less lex_def)

lemma subsorted_perm:
  assumes "subsorted reverse stbl gs xs ys"
  shows "mset ys = mset xs"
proof -
  have len: "length xs = length gs" "length ys = length gs" and eq: "mset (zip gs ys) = mset (zip gs xs)"
    using assms by (simp_all add: subsorted_def)
  have "mset (map snd (zip gs ys)) = mset (map snd (zip gs xs))" unfolding mset_map eq ..
  then show ?thesis using len by simp
qed

section \<open>The descriptor of the result\<close>

lemma sorted_wrt_sym:
  assumes "symp P"
  shows "sorted_wrt P xs \<longleftrightarrow> (\<forall>x\<in>set xs. \<forall>y\<in>#mset xs - {#x#}. P x y)"
proof (induction xs)
  case Nil
  show ?case by simp
next
  case (Cons a xs)
  have diff: "set_mset (mset (a # xs) - {#x#}) = insert a (set_mset (mset xs - {#x#}))" if "x \<in> set xs" for x
  proof -
    have "mset (a # xs) - {#x#} = add_mset a (mset xs - {#x#})"
      using that by (cases "x = a") (simp_all add: diff_add_mset_swap)
    then show ?thesis by (simp only: set_mset_add_mset_insert)
  qed
  have inner: "(\<forall>y\<in>#mset (a # xs) - {#x#}. P x y) \<longleftrightarrow> P x a \<and> (\<forall>y\<in>#mset xs - {#x#}. P x y)"
    if "x \<in> set xs" for x
    unfolding diff [OF that] by simp
  have first: "mset (a # xs) - {#a#} = mset xs" by simp
  have "(\<forall>x\<in>set (a # xs). \<forall>y\<in>#mset (a # xs) - {#x#}. P x y) \<longleftrightarrow>
    (\<forall>y\<in>#mset (a # xs) - {#a#}. P a y) \<and> (\<forall>x\<in>set xs. \<forall>y\<in>#mset (a # xs) - {#x#}. P x y)"
    by (simp only: list.set ball_simps)
  also have "\<dots> \<longleftrightarrow> (\<forall>y\<in>set xs. P a y) \<and> (\<forall>x\<in>set xs. P x a \<and> (\<forall>y\<in>#mset xs - {#x#}. P x y))"
    unfolding first using inner by simp
  also have "\<dots> \<longleftrightarrow> sorted_wrt P (a # xs)"
    unfolding sorted_wrt.simps Cons.IH using assms by (blast dest: sympD)
  finally show ?case by (rule sym)
qed

lemma result_flags:
  assumes "flags_ok (compare E) of_oid nl bn" "mset vs = mset (BATvals of_oid nl bn)"
    "s \<longrightarrow> sorted_wrt (dle False) vs" "t \<longrightarrow> sorted_wrt (dle True) vs"
  shows "flags_ok (compare E) of_oid nl (bn\<lparr>ttail := TVals vs, tsorted := s, trevsorted := t\<rparr>)"
proof -
  have "length vs = length (BATvals of_oid nl bn)" "set vs = set (BATvals of_oid nl bn)"
    using assms(2) by (auto dest: mset_eq_length mset_eq_setD)
  moreover have "symp (\<lambda>x y. compare E x y \<noteq> 0)"
    by (rule sympI) (metis cmp_swap linorder_neqE not_less_iff_gr_or_eq)
  from sorted_wrt_sym [OF this] have "sorted_wrt (\<lambda>x y. compare E x y \<noteq> 0) vs \<longleftrightarrow>
    sorted_wrt (\<lambda>x y. compare E x y \<noteq> 0) (BATvals of_oid nl bn)"
    using assms(2) \<open>set vs = set (BATvals of_oid nl bn)\<close> by simp
  moreover have "dle False = (\<lambda>x y. compare E x y \<le> 0)" "dle True = (\<lambda>x y. 0 \<le> compare E x y)"
    by (auto simp: dle_def fun_eq_iff)
  ultimately show ?thesis using assms(1,3,4) by (simp add: flags_ok_def BATvals_def)
qed

section \<open>The result\<close>

definition sort_result ::
  "bool \<Rightarrow> bool \<Rightarrow> nat list \<Rightarrow> 'a list \<Rightarrow> nat list \<Rightarrow> 'a bat \<Rightarrow> nat list \<Rightarrow> bool" where
  "sort_result reverse stbl gs vs os bn on \<longleftrightarrow>
     flags_ok (compare E) of_oid nl bn \<and> length (BATvals of_oid nl bn) = length gs \<and> length on = length gs \<and>
     subsorted reverse stbl gs (zip vs os) (zip (BATvals of_oid nl bn) on)"

lemma sort_result_rows:
  assumes "flags_ok (compare E) of_oid nl bn" "vs = BATvals of_oid nl bn" "length os = length vs"
    "subsorted reverse stbl gs (zip vs os) ys" "s \<longrightarrow> sorted_wrt (dle False) (map fst ys)"
    "t \<longrightarrow> sorted_wrt (dle True) (map fst ys)"
  shows "sort_result reverse stbl gs vs os (bn\<lparr>ttail := TVals (map fst ys), tsorted := s, trevsorted := t\<rparr>) (map snd ys)"
proof -
  have "mset (map fst ys) = mset (map fst (zip vs os))"
    using subsorted_perm [OF assms(4)] by (simp only: mset_map)
  then have "mset (map fst ys) = mset vs" using assms(3) by simp
  then show ?thesis
    using result_flags [OF assms(1) _ assms(5,6)] assms(2,4)
    by (simp add: sort_result_def BATvals_def zip_map_fst_snd subsorted_def)
qed

lemma sort_result_same:
  assumes "flags_ok (compare E) of_oid nl bn" "length os = length gs" "length (BATvals of_oid nl bn) = length gs"
    "sorted_wrt (<) gs \<or> gs = replicate (length gs) k \<and> sorted_wrt (dle reverse) (BATvals of_oid nl bn)"
  shows "sort_result reverse stbl gs (BATvals of_oid nl bn) os bn os"
proof -
  let ?z = "zip (BATvals of_oid nl bn) os"
  have len: "length ?z = length gs" using assms(2,3) by simp
  have "subsorted reverse stbl gs ?z ?z" if "gs = replicate (length gs) k" "sorted_wrt (dle reverse) (BATvals of_oid nl bn)"
  proof -
    have "sorted_wrt (\<lambda>x y. dle reverse (fst x) (fst y)) ?z"
      using that(2) by (simp add: sorted_wrt_iff_nth_less)
    from subsorted_one [OF refl this, of stbl k] show ?thesis
      by (simp only: len that(1) [symmetric] simp_thms)
  qed
  then show ?thesis using assms subsorted_same_groups [OF _ len] by (auto simp: sort_result_def)
qed

lemma flag_sorted:
  assumes "flags_ok (compare E) of_oid nl bn" "if reverse then trevsorted bn else tsorted bn"
  shows "sorted_wrt (dle reverse) (BATvals of_oid nl bn)"
proof -
  have "dle False = (\<lambda>x y. compare E x y \<le> 0)" "dle True = (\<lambda>x y. 0 \<le> compare E x y)"
    by (auto simp: dle_def fun_eq_iff)
  then show ?thesis using assms by (cases reverse) (simp_all add: flags_ok_def)
qed

lemma groups_loop_result:
  assumes "flags_ok (compare E) of_oid nl bn" "ttail bn = TVals vs" "length vs = n" "length os = n" "0 < n"
    "fits stbl n" "groups_ok (Some g) n gs"
  shows "group_loop E alloc tmp reverse stbl (tl gs) 0 (gs ! 0) 1 (zip vs os) = Failed \<and> stbl \<and> (\<exists>r k. \<not> alloc r k) \<or>
    (\<exists>r ys. group_loop E alloc tmp reverse stbl (tl gs) 0 (gs ! 0) 1 (zip vs os) = Done (r, ys) \<and>
       sort_result reverse stbl gs vs os (bn\<lparr>ttail := TVals (map fst ys), tsorted := (r = 0 \<and> \<not> reverse),
         trevsorted := (r = 0 \<and> reverse)\<rparr>) (map snd ys))"
proof -
  have len: "length gs = n" using groups_length [OF assms(7)] .
  obtain k grps where gs: "gs = k # grps" using len assms(5) by (cases gs) auto
  obtain h R where zip: "zip vs os = h # R" using assms(3-5) by (cases vs; cases os) auto
  have R: "length R = length grps"
    using arg_cong [OF zip, of length] assms(3,4) len gs by simp
  have "group_loop E alloc tmp reverse stbl grps 0 k 1 ([] @ [h] @ R) = Failed \<and> stbl \<and> (\<exists>r k. \<not> alloc r k) \<or>
    (\<exists>r' ys. group_loop E alloc tmp reverse stbl grps 0 k 1 ([] @ [h] @ R) = Done (r', [] @ ys) \<and>
      subsorted reverse stbl (replicate (length [h]) k @ grps) ([h] @ R) ys \<and> 0 \<le> r' \<and> (r' = 0 \<longrightarrow> set grps \<subseteq> {k}))"
    using R assms(6) len groups_sorted [OF assms(7)] gs by (intro group_loop_ok) auto
  then consider "group_loop E alloc tmp reverse stbl grps 0 k 1 (zip vs os) = Failed \<and> stbl \<and> (\<exists>r k. \<not> alloc r k)"
    | r ys where "group_loop E alloc tmp reverse stbl grps 0 k 1 (zip vs os) = Done (r, ys)"
      "subsorted reverse stbl gs (zip vs os) ys" "r = 0 \<longrightarrow> set grps \<subseteq> {k}"
    unfolding zip gs by auto
  then show ?thesis
  proof cases
    case 1
    then show ?thesis unfolding gs list.sel nth_Cons_0 by (rule disjI1)
  next
    case 2
    have "sorted_wrt (dle reverse) (map fst ys)" if "r = 0"
    proof -
      have "gs = replicate n k"
        using 2(3) that gs len by (auto intro!: replicate_eqI)
      then show ?thesis using 2(2) subsorted_single by blast
    qed
    then have "sort_result reverse stbl gs vs os (bn\<lparr>ttail := TVals (map fst ys), tsorted := (r = 0 \<and> \<not> reverse),
        trevsorted := (r = 0 \<and> reverse)\<rparr>) (map snd ys)"
      using assms(1-4) 2(2) by (intro sort_result_rows) (auto simp: BATvals_def)
    then show ?thesis using 2(1) by (auto simp: gs)
  qed
qed

lemma sort_rows_ok:
  assumes bn: "flags_ok (compare E) of_oid nl bn" "ttail bn = TVals vs" "batCount bn = n"
    and os: "length os = n" and n: "0 < n" "fits stbl n" and grp: "groups_ok grp n gs"
  shows "sort_rows E alloc tmp grp reverse stbl bn os = Failed \<and> stbl \<and> (\<exists>r k. \<not> alloc r k) \<or>
    (\<exists>bn' on. sort_rows E alloc tmp grp reverse stbl bn os = Done (bn', on) \<and> sort_result reverse stbl gs vs os bn' on)"
proof (cases grp)
  case (Some g)
  have vs: "BATvals of_oid nl bn = vs" "length vs = n" using bn by (simp_all add: BATvals_def flags_ok_def)
  have len: "length gs = n" using groups_length [OF grp] .
  have grp': "groups_ok (Some g) n gs" using grp Some by simp
  show ?thesis
  proof (cases "tkey g \<or> (\<exists>lo. ttail g = TVoid lo)")
    case True
    then have "sorted_wrt (<) gs" using groups_key [OF grp' n(1)] by blast
    then have "sort_result reverse stbl gs vs os bn os"
      using sort_result_same [OF bn(1), of os gs] vs os len by simp
    then show ?thesis using True Some bn(2) by (auto simp: sort_rows_def split: tail.splits)
  next
    case False
    then obtain grps where g: "ttail g = TVals grps" "grps = gs"
      using grp' by (cases "ttail g") (auto simp: groups_ok_def BATvals_def)
    have "sort_rows E alloc tmp grp reverse stbl bn os =
      andthen (group_loop E alloc tmp reverse stbl (tl gs) 0 (gs ! 0) 1 (zip vs os))
        (\<lambda>(r, h). Done (bn\<lparr>ttail := TVals (map fst h), tsorted := (r = 0 \<and> \<not> reverse),
                           trevsorted := (r = 0 \<and> reverse)\<rparr>, map snd h))"
      using False g Some bn(2) by (simp add: sort_rows_def)
    then show ?thesis
      using groups_loop_result [OF bn(1,2) vs(2) os n grp', of alloc tmp reverse] by fastforce
  qed
next
  case None
  have vs: "BATvals of_oid nl bn = vs" "length vs = n" using bn by (simp_all add: BATvals_def flags_ok_def)
  have gs: "gs = replicate n 0" using grp None by (simp add: groups_ok_def)
  let ?D = "\<lambda>h. (bn\<lparr>ttail := TVals (map fst h), tsorted := \<not> reverse, trevsorted := reverse\<rparr>, map snd h)"
  have D: "sort_result reverse stbl gs vs os (fst (?D ys)) (snd (?D ys))"
    if "subsorted reverse stbl gs (zip vs os) ys" for ys
  proof -
    have "sorted_wrt (dle reverse) (map fst ys)" using that gs subsorted_single by blast
    then show ?thesis using bn that vs os by (simp only: fst_conv snd_conv) (intro sort_result_rows, auto)
  qed
  show ?thesis
  proof (cases "if reverse then trevsorted bn else tsorted bn")
    case True
    have "sort_rows E alloc tmp grp reverse stbl bn os = Done (?D (zip vs os))"
      using True None bn(2) by (simp add: sort_rows_def)
    moreover have "subsorted reverse stbl gs (zip vs os) (zip vs os)"
      using sort_result_same [OF bn(1), of os gs 0 reverse stbl] flag_sorted [OF bn(1) True] vs os gs
      by (simp add: sort_result_def)
    ultimately show ?thesis using D by fastforce
  next
    case False
    have "sort_rows E alloc tmp grp reverse stbl bn os =
      andthen (sort_part E alloc tmp reverse stbl 0 n (zip vs os)) (\<lambda>h. Done (?D h))"
      using False None bn(2,3) by (simp add: sort_rows_def)
    moreover have "sort_part E alloc tmp reverse stbl 0 n ([] @ zip vs os @ []) = Failed \<and> stbl \<and> (\<exists>r k. \<not> alloc r k) \<or>
      (\<exists>ys. sort_part E alloc tmp reverse stbl 0 n ([] @ zip vs os @ []) = Done ([] @ ys @ []) \<and>
        subsorted reverse stbl (replicate (length (zip vs os)) 0) (zip vs os) ys)"
      using vs os n by (intro sort_part_ok) auto
    ultimately show ?thesis using D vs os gs by fastforce
  qed
qed

lemma copy_ok:
  assumes "flags_ok (compare E) of_oid nl b"
  shows "flags_ok (compare E) of_oid nl (COLcopy b)" "BATvals of_oid nl (COLcopy b) = BATvals of_oid nl b"
    "ttail (COLcopy b) = ttail b" "batCount (COLcopy b) = batCount b"
proof -
  show vals: "BATvals of_oid nl (COLcopy b) = BATvals of_oid nl b" by (simp add: COLcopy_def BATvals_def split: tail.splits)
  show "ttail (COLcopy b) = ttail b" "batCount (COLcopy b) = batCount b" by (simp_all add: COLcopy_def)
  show "flags_ok (compare E) of_oid nl (COLcopy b)"
    using assms vals sorted_short [of "BATvals of_oid nl b"] by (auto simp: flags_ok_def COLcopy_def)
qed

lemma ordered_sound:
  assumes "column_sound (compare E) of_oid nl b" "if reverse then BATtrevordered b else BATtordered b"
  shows "sorted_wrt (dle reverse) (BATvals of_oid nl b)"
proof (cases "ttail b")
  case (TVoid seq)
  show ?thesis
  proof (cases "seq = oid_nil")
    case True
    then show ?thesis using TVoid by (simp add: BATvals_def sorted_wrt_iff_nth_less dle_def)
  next
    case False
    then have seq: "seq + batCount b \<le> oid_nil" using assms(1) TVoid by (auto simp: column_sound_def)
    have "dle False (of_oid (seq + i)) (of_oid (seq + j))" if "i < j" "j < batCount b" for i j
      using of_oid_less [of "seq + i" "seq + j"] seq that by (simp add: dle_def)
    then have "sorted_wrt (dle False) (BATvals of_oid nl b)"
      using TVoid False by (simp add: BATvals_def sorted_wrt_iff_nth_less)
    then show ?thesis
      using flag_sorted [of b reverse] assms TVoid False
      by (cases reverse) (auto simp: BATtrevordered_def column_sound_def)
  qed
next
  case TVals
  then show ?thesis
    using flag_sorted [of b reverse] assms
    by (cases reverse) (auto simp: BATtrevordered_def BATtordered_def column_sound_def)
qed

text \<open>The values in the order to start from.\<close>

definition start_vals :: "'a bat \<Rightarrow> nat list \<Rightarrow> 'a list" where
  "start_vals b os = map (\<lambda>p. BATvals of_oid nl b ! (p - hseqbase b)) os"

lemma start_vals_id:
  assumes "length (BATvals of_oid nl b) = batCount b"
  shows "start_vals b [hseqbase b..<hseqbase b + batCount b] = BATvals of_oid nl b"
  using assms by (intro nth_equalityI) (simp_all add: start_vals_def)

lemma order_projects:
  assumes b: "column_sound (compare E) of_oid nl b" and ord: "order_ok b (Some o') os"
  shows "\<exists>bn. BATproject (compare E) of_oid nl o' b = Some bn \<and> BATvals of_oid nl bn = start_vals b os \<and>
    batCount bn = batCount b \<and> flags_ok (compare E) of_oid nl bn"
proof -
  have o': "column_sound oid_cmp id oid_nil o'" "os = BATvals id oid_nil o'" "batCount o' = batCount b"
    using ord by (simp_all add: order_ok_def)
  have "oid_nil \<notin> set os" using order_range [OF ord, of oid_nil] b by (auto simp: column_sound_def)
  moreover have "map (fetch b) os = start_vals b os"
    using order_range [OF ord] by (auto simp: fetch_def start_vals_def)
  ultimately show ?thesis
    using BATproject_ok [OF o'(1) b] order_range [OF ord] o' by (auto split: option.splits)
qed

lemma BATsort_early:
  assumes b: "column_sound (compare E) of_oid nl b" and ord: "order_ok b ord os" and grp: "groups_ok grp (batCount b) gs"
    and early: "batCount b \<le> 1 \<or> ((if reverse then BATtrevordered b else BATtordered b) \<and> ord = None \<and> grp = None)"
  shows "os = [hseqbase b..<hseqbase b + batCount b]" "sort_result reverse stbl gs (start_vals b os) os (COLcopy b) os"
proof -
  have fl: "flags_ok (compare E) of_oid nl b" using b by (simp add: column_sound_def)
  have len: "length gs = batCount b" "length os = batCount b" "length (BATvals of_oid nl b) = batCount b"
    using groups_length [OF grp] order_length [OF ord] fl by (simp_all add: flags_ok_def)
  show os: "os = [hseqbase b..<hseqbase b + batCount b]"
  proof (cases ord)
    case None
    then show ?thesis using ord by (simp add: order_ok_def)
  next
    case Some
    then have "batCount b \<le> 1" using early by simp
    then show ?thesis
      using len(2) order_range [OF ord] by (cases os) (auto simp: le_Suc_eq intro!: antisym)
  qed
  have "sorted_wrt (<) gs \<or> gs = replicate (length gs) 0 \<and> sorted_wrt (dle reverse) (BATvals of_oid nl b)"
    using early sorted_short [of gs "(<)"] len(1) grp ordered_sound [OF b] by (auto simp: groups_ok_def)
  then show "sort_result reverse stbl gs (start_vals b os) os (COLcopy b) os"
    using sort_result_same [OF copy_ok(1) [OF fl], of os gs 0 reverse stbl] len copy_ok [OF fl]
      start_vals_id [OF len(3)] os by simp
qed

lemma BATsort_ok:
  assumes b: "column_sound (compare E) of_oid nl b" "fits stbl (batCount b)"
    and ord: "order_ok b ord os" and grp: "groups_ok grp (batCount b) gs" "grp \<noteq> None \<longrightarrow> ord \<noteq> None"
    and void: "\<not> (ord = None \<and> reverse \<and> 1 < batCount b \<and> \<not> trevsorted b \<and>
      (\<exists>seq. ttail b = TVoid seq \<and> seq \<noteq> oid_nil))"
  shows "BATsort E alloc tmp of_oid nl b ord grp reverse stbl = Failed \<and> stbl \<and> (\<exists>r k. \<not> alloc r k) \<or>
    (\<exists>bn on. BATsort E alloc tmp of_oid nl b ord grp reverse stbl = Done (bn, on) \<and>
       sort_result reverse stbl gs (start_vals b os) os bn on)"
proof -
  have fl: "flags_ok (compare E) of_oid nl b" and hs: "hseqbase b + batCount b \<le> oid_nil"
    using b(1) by (simp_all add: column_sound_def)
  have args: "sort_args b ord grp = Done ()" by (rule sort_args_ok [OF ord grp hs])
  have len: "length os = batCount b" "length (BATvals of_oid nl b) = batCount b"
    using order_length [OF ord] fl by (simp_all add: flags_ok_def)
  note copy = copy_ok [OF fl]
  show ?thesis
  proof (cases "batCount b \<le> 1 \<or> ((if reverse then BATtrevordered b else BATtordered b) \<and> ord = None \<and> grp = None)")
    case True
    then show ?thesis using BATsort_early [OF b(1) ord grp(1) True] args by (auto simp: BATsort_def)
  next
    case False
    then have n: "0 < batCount b" by linarith
    show ?thesis
    proof (cases ord)
      case None
      then have g: "grp = None" using grp(2) by blast
      obtain vs where vs: "ttail b = TVals vs"
        using False None g void by (cases "ttail b") (auto simp: BATtordered_def BATtrevordered_def split: if_splits)
      have os: "os = [hseqbase b..<hseqbase b + batCount b]" using ord None by (simp add: order_ok_def)
      have "map (\<lambda>p. p + hseqbase b) [0..<batCount b] = os"
        by (simp add: os map_add_upt add.commute)
      then have "BATsort E alloc tmp of_oid nl b ord grp reverse stbl = sort_rows E alloc tmp grp reverse stbl (COLcopy b) os"
        using False None args g by (simp add: BATsort_def split del: if_split)
      moreover have "start_vals b os = vs" using start_vals_id [OF len(2)] vs os by (simp add: BATvals_def)
      ultimately show ?thesis
        using sort_rows_ok [OF copy(1) _ _ len(1) n b(2) grp(1), of vs alloc tmp reverse] copy vs by simp
    next
      case (Some o')
      obtain bn where bn: "BATproject (compare E) of_oid nl o' b = Some bn" "BATvals of_oid nl bn = start_vals b os"
        "batCount bn = batCount b" "flags_ok (compare E) of_oid nl bn"
        using order_projects [OF b(1)] ord Some by blast
      let ?bn = "bn\<lparr>ttail := TVals (BATvals of_oid nl bn)\<rparr>"
      have "flags_ok (compare E) of_oid nl ?bn" using bn(4) by (simp add: flags_ok_def BATvals_def)
      from sort_rows_ok [OF this _ _ len(1) n b(2) grp(1), of "BATvals of_oid nl bn" alloc tmp reverse]
      show ?thesis using False args ord Some bn(1-3) by (simp add: BATsort_def order_ok_def)
    qed
  qed
qed

end

section \<open>Columns of object identifiers\<close>

definition oid_env :: "(nat, nat) sortenv" where
  "oid_env = \<lparr>compare = oid_cmp, descending = False, hs = 8, ts = 8, lng1h = \<lambda>x y. x, lng1t = \<lambda>x y. x,
     granted = \<lambda>_. True, fresh = \<lambda>_ _. (0, 0)\<rparr>"

lemma oid_env_order: "value_type (compare oid_env) id oid_nil"
  using oid.value_type_axioms by (simp add: oid_env_def)

interpretation oid_sort: column_sort oid_env id oid_nil
  by (intro column_sort.intro oid_env_order)

section \<open>Properties\<close>

text \<open>A virtual column cannot be sorted in descending order unless an order is given.\<close>

lemma BATsort_dense_descending_crashes:
  assumes "ttail b = TVoid seq" "seq \<noteq> oid_nil" "1 < batCount b" "\<not> trevsorted b"
  shows "BATsort E alloc tmp of_oid nl b None None True stbl = Crash"
  using assms by (simp add: BATsort_def sort_args_def BATtrevordered_def sort_rows_def COLcopy_def)

text \<open>Groups without an order are not refused.\<close>

lemma BATsort_groups_without_order_crash:
  assumes "tsorted g"
  shows "BATsort E alloc tmp of_oid nl b None (Some g) reverse stbl = Crash"
  using assms by (simp add: BATsort_def sort_args_def)

text \<open>
  C2. \<open>BATsort\<close> with any type of values, any earlier order of the rows and groups of such an order: it
  crashes if groups are given without an order, or to sort a virtual column of several rows descending
  without an order, the column not being flagged as descending.  It fails only in a stable sort that was
  denied memory.  Otherwise the rows (group, value, position) of the result are a permutation of those
  of the input in the order it starts from, they are ordered by group and in each group by value,
  ascending or descending, equal values keep their order when the sort is stable, and the flags of the
  sorted column are true.  For a stable sort there are fewer than \<open>2 ^ 32\<close> rows, and values and positions
  are less than 16 bytes wide.
\<close>

theorem BATsort_correct:
  assumes "value_type (compare E) of_oid nl" "stbl \<longrightarrow> 0 < hs E \<and> hs E < 16 \<and> ts E < 16 \<and> batCount b < 2 ^ 32"
    and "column_sound (compare E) of_oid nl b" "order_ok b ord os" "groups_ok grp (batCount b) gs"
    and xs: "xs = zip gs (zip (map (\<lambda>p. BATvals of_oid nl b ! (p - hseqbase b)) os) os)"
  shows "if ord = None \<and> (grp \<noteq> None \<or> reverse \<and> 1 < batCount b \<and> \<not> trevsorted b \<and>
           (\<exists>seq. ttail b = TVoid seq \<and> seq \<noteq> oid_nil))
   then BATsort E alloc tmp of_oid nl b ord grp reverse stbl = Crash
   else case BATsort E alloc tmp of_oid nl b ord grp reverse stbl of
     Crash \<Rightarrow> False
   | Failed \<Rightarrow> stbl \<and> (\<exists>r k. \<not> alloc r k)
   | Done (bn, on) \<Rightarrow>
       let ys = zip gs (zip (BATvals of_oid nl bn) on) in
       flags_ok (compare E) of_oid nl bn \<and> length (BATvals of_oid nl bn) = batCount b \<and> length on = batCount b \<and>
       mset ys = mset xs \<and>
       sorted_wrt (\<lambda>x y. fst x < fst y \<or> fst x = fst y \<and>
         (if reverse then 0 \<le> compare E (fst (snd x)) (fst (snd y)) else compare E (fst (snd x)) (fst (snd y)) \<le> 0)) ys \<and>
       (stbl \<longrightarrow> (\<forall>k z. filter (\<lambda>r. fst r = k \<and> compare E z (fst (snd r)) = 0) ys =
                       filter (\<lambda>r. fst r = k \<and> compare E z (fst (snd r)) = 0) xs))"
proof (rule if_split [THEN iffD2], intro conjI impI)
  assume "ord = None \<and> (grp \<noteq> None \<or> reverse \<and> 1 < batCount b \<and> \<not> trevsorted b \<and>
    (\<exists>seq. ttail b = TVoid seq \<and> seq \<noteq> oid_nil))"
  then show "BATsort E alloc tmp of_oid nl b ord grp reverse stbl = Crash"
    using assms(5) BATsort_groups_without_order_crash BATsort_dense_descending_crashes
    by (cases grp) (auto simp: groups_ok_def)
next
  assume no: "\<not> (ord = None \<and> (grp \<noteq> None \<or> reverse \<and> 1 < batCount b \<and> \<not> trevsorted b \<and>
    (\<exists>seq. ttail b = TVoid seq \<and> seq \<noteq> oid_nil)))"
  have sort: "column_sort E of_oid nl" by (intro column_sort.intro assms(1))
  have lex: "column_sort.lex E reverse = (\<lambda>x y. fst x < fst y \<or> fst x = fst y \<and>
    (if reverse then 0 \<le> compare E (fst (snd x)) (fst (snd y)) else compare E (fst (snd x)) (fst (snd y)) \<le> 0))"
    by (simp add: column_sort.lex_def [OF sort] column_sort.dle_def [OF sort] fun_eq_iff)
  have fits: "column_sort.fits E stbl (batCount b)" using assms(2) by (simp add: column_sort.fits_def [OF sort])
  have len: "length gs = batCount b" by (rule groups_length [OF assms(5)])
  have "BATsort E alloc tmp of_oid nl b ord grp reverse stbl = Failed \<and> stbl \<and> (\<exists>r k. \<not> alloc r k) \<or>
    (\<exists>bn on. BATsort E alloc tmp of_oid nl b ord grp reverse stbl = Done (bn, on) \<and>
       column_sort.sort_result E of_oid nl reverse stbl gs (column_sort.start_vals of_oid nl b os) os bn on)"
    by (rule column_sort.BATsort_ok [OF sort assms(3) fits assms(4,5)]) (use no in auto)
  then show "case BATsort E alloc tmp of_oid nl b ord grp reverse stbl of
     Crash \<Rightarrow> False
   | Failed \<Rightarrow> stbl \<and> (\<exists>r k. \<not> alloc r k)
   | Done (bn, on) \<Rightarrow>
       let ys = zip gs (zip (BATvals of_oid nl bn) on) in
       flags_ok (compare E) of_oid nl bn \<and> length (BATvals of_oid nl bn) = batCount b \<and> length on = batCount b \<and>
       mset ys = mset xs \<and>
       sorted_wrt (\<lambda>x y. fst x < fst y \<or> fst x = fst y \<and>
         (if reverse then 0 \<le> compare E (fst (snd x)) (fst (snd y)) else compare E (fst (snd x)) (fst (snd y)) \<le> 0)) ys \<and>
       (stbl \<longrightarrow> (\<forall>k z. filter (\<lambda>r. fst r = k \<and> compare E z (fst (snd r)) = 0) ys =
                       filter (\<lambda>r. fst r = k \<and> compare E z (fst (snd r)) = 0) xs))"
    using len
    unfolding column_sort.sort_result_def [OF sort] column_sort.subsorted_def [OF sort]
      column_sort.start_vals_def [OF sort] lex xs [symmetric]
    by (elim disjE exE conjE) (auto simp: Let_def)
qed

definition some_column :: "nat bat" where
  "some_column = \<lparr>batFirst = 0, batCount = 4, ttail = TVals [30, 10, 20, 10], tsorted = False, trevsorted = False,
     tkey = False, hseqbase = 100, tnonil = True, tnil = False\<rparr>"

definition some_order :: "nat bat" where
  "some_order = \<lparr>batFirst = 0, batCount = 4, ttail = TVals [103, 102, 101, 100], tsorted = False, trevsorted = True,
     tkey = True, hseqbase = 100, tnonil = True, tnil = False\<rparr>"

definition some_groups :: "nat bat" where
  "some_groups = \<lparr>batFirst = 0, batCount = 4, ttail = TVals [0, 0, 1, 1], tsorted = True, trevsorted = False,
     tkey = False, hseqbase = 100, tnonil = True, tnil = False\<rparr>"

theorem BATsort_correct_witness:
  "\<exists>bn on. BATsort oid_env (\<lambda>_ _. True) (\<lambda>_. (0, 0)) id oid_nil some_column (Some some_order) (Some some_groups) True True =
       Done (bn, on) \<and>
     mset (zip [0, 0, 1, 1 :: nat] (zip (BATvals id oid_nil bn) on)) =
       {#(0, 10, 103), (0, 20, 102), (1, 10, 101), (1, 30, 100)#} \<and>
     flags_ok (compare oid_env) id oid_nil bn"
proof -
  have sound: "column_sound (compare oid_env) id oid_nil some_column" "column_sound oid_cmp id oid_nil some_order"
    "column_sound oid_cmp id oid_nil some_groups"
    by (simp_all add: column_sound_def flags_ok_def BATvals_def some_column_def some_order_def some_groups_def
        oid_cmp_def oid_nil_def BUN_NONE_def simple_CMP_sign oid_env_def)
  have args: "order_ok some_column (Some some_order) [103, 102, 101, 100]"
    "groups_ok (Some some_groups) (batCount some_column) [0, 0, 1, 1]"
    using sound by (simp_all add: order_ok_def groups_ok_def BATvals_def some_column_def some_order_def some_groups_def
        oid_nil_def)
  have env: "True \<longrightarrow> 0 < hs oid_env \<and> hs oid_env < 16 \<and> ts oid_env < 16 \<and> batCount some_column < 2 ^ 32"
    by (simp add: oid_env_def some_column_def)
  have vals: "zip [0, 0, 1, 1] (zip (map (\<lambda>p. BATvals id oid_nil some_column ! (p - hseqbase some_column))
    [103, 102, 101, 100]) [103, 102, 101, 100]) = [(0, 10, 103), (0, 20, 102), (1, 10, 101), (1, 30, 100)]"
    by (simp add: BATvals_def some_column_def)
  show ?thesis
    using BATsort_correct [where reverse = True and stbl = True and alloc = "\<lambda>_ _. True" and tmp = "\<lambda>_. (0, 0)",
        OF oid_env_order env sound(1) args vals [symmetric]]
    by (auto simp: Let_def split: outcome.splits)
qed

end
