(* ===== verification/Gdk_Select.thy ===== *)
theory Gdk_Select
  imports Gdk_Cand Gdk_Project
begin

text \<open>
  Selection (gdk/gdk_select.c, with the detection of order of gdk/gdk_batop.c): \<open>BATselect\<close> finds
  the rows of a column whose values lie in a range, among the rows of a candidate list.

  The arguments are normalised first; then an ordered column is searched, any other is scanned.
  The model is of a column that is neither persistent nor has a hash, so that hash tables and
  imprints are not used, and not of strings; allocations succeed and assertions are not
  compiled in.  \<open>Crash\<close> is a write beyond the allocated
  result, or a result whose size wraps around.  The result is a candidate list.
\<close>

section \<open>Columns with evidence of their order\<close>

text \<open>\<open>T->nosorted\<close> and \<open>T->norevsorted\<close>: zero or a position that shows that the column is not ordered.\<close>

record 'a obat = "'a bat" +
  nosorted :: nat
  norevsorted :: nat

fun order_scan :: "('a \<Rightarrow> 'a \<Rightarrow> int) \<Rightarrow> bool \<Rightarrow> nat \<Rightarrow> 'a \<Rightarrow> 'a list \<Rightarrow> nat \<Rightarrow> nat \<times> nat" where
  "order_scan cmp rv p x [] norev = (0, norev)"
| "order_scan cmp rv p x (y # ys) norev =
     (if 0 < cmp x y then (p, norev)
      else order_scan cmp rv (Suc p) y ys (if \<not> rv \<and> norev = 0 \<and> cmp x y < 0 then p else norev))"

definition BATordered :: "('a \<Rightarrow> 'a \<Rightarrow> int) \<Rightarrow> 'a obat \<Rightarrow> bool \<times> 'a obat" where
  "BATordered cmp b =
     (case ttail b of
        TVoid _ \<Rightarrow> (True, b)
      | TVals vs \<Rightarrow>
          let b = (if \<not> tsorted b \<and> nosorted b = 0
                   then
                     let (ns, nr) = (case vs of
                             [] \<Rightarrow> (0, norevsorted b)
                           | x # xs \<Rightarrow> order_scan cmp (trevsorted b) (batFirst b + 1) x xs (norevsorted b))
                     in if ns \<noteq> 0 then b\<lparr>nosorted := ns, norevsorted := nr\<rparr>
                        else b\<lparr>norevsorted := nr, tsorted := True,
                               trevsorted := trevsorted b \<or> nr = 0\<rparr>
                   else b)
          in (tsorted b, b))"

fun rev_scan :: "('a \<Rightarrow> 'a \<Rightarrow> int) \<Rightarrow> nat \<Rightarrow> 'a \<Rightarrow> 'a list \<Rightarrow> nat" where
  "rev_scan cmp p x [] = 0"
| "rev_scan cmp p x (y # ys) = (if cmp x y < 0 then p else rev_scan cmp (Suc p) y ys)"

definition BATordered_rev :: "('a \<Rightarrow> 'a \<Rightarrow> int) \<Rightarrow> 'a obat \<Rightarrow> bool \<times> 'a obat" where
  "BATordered_rev cmp b =
     (case ttail b of
        TVoid seq \<Rightarrow> (seq = oid_nil, b)
      | TVals vs \<Rightarrow>
          let b = (if \<not> trevsorted b \<and> norevsorted b = 0
                   then
                     let nr = (case vs of [] \<Rightarrow> 0 | x # xs \<Rightarrow> rev_scan cmp (batFirst b + 1) x xs)
                     in if nr \<noteq> 0 then b\<lparr>norevsorted := nr\<rparr> else b\<lparr>trevsorted := True\<rparr>
                   else b)
          in (trevsorted b, b))"

section \<open>Types\<close>

text \<open>
  The comparison and the nil of a type.  \<open>normal\<close>: the type has the macro \<open>NORMALIZE\<close>, with the least and
  greatest value and the next smaller and next greater ones; \<open>typed\<close>: there is a scan function of
  its own for its base type, with the tests for the least and greatest value of that type;
  \<open>width\<close> is the difference of two values as a \<open>BUN\<close>, for integer types.  The type \<open>oid\<close>, and only
  it, has virtual columns.
\<close>

record 'a seltype =
  scmp :: "'a \<Rightarrow> 'a \<Rightarrow> int"
  snil :: 'a
  normal :: bool
  minval :: 'a
  maxval :: 'a
  prevval :: "'a \<Rightarrow> 'a"
  nextval :: "'a \<Rightarrow> 'a"
  typed :: bool
  scan_min :: "'a \<Rightarrow> bool"
  scan_max :: "'a \<Rightarrow> bool"
  width :: "('a \<Rightarrow> 'a \<Rightarrow> nat) option"
  is_oid :: bool
  val_oid :: "'a \<Rightarrow> nat"
  oid_val :: "nat \<Rightarrow> 'a"

section \<open>Candidate lists as results\<close>

definition BATdense :: "nat \<Rightarrow> nat \<Rightarrow> nat column" where
  "BATdense tseq cnt = \<lparr>batFirst = 0, batCount = cnt, ttail = TVoid tseq, tsorted = True, trevsorted = (cnt \<le> 1), tkey = True\<rparr>"

definition newempty :: "nat column" where
  "newempty = BATdense 0 0"

definition oid_list :: "nat list \<Rightarrow> nat column" where
  "oid_list os = \<lparr>batFirst = 0, batCount = length os, ttail = TVals os, tsorted = True, trevsorted = (length os \<le> 1), tkey = True\<rparr>"

definition virtualize :: "nat column \<Rightarrow> nat column" where
  "virtualize bn =
     (case ttail bn of
        TVoid _ \<Rightarrow> bn
      | TVals os \<Rightarrow>
          if batCount bn \<le> 1 \<or> hd os + batCount bn - 1 = last os
          then bn\<lparr>ttail := TVoid (if batCount bn = 0 then 0 else hd os)\<rparr>
          else bn)"

definition doublerange :: "nat \<Rightarrow> nat \<Rightarrow> nat \<Rightarrow> nat \<Rightarrow> nat column" where
  "doublerange l1 h1 l2 h2 =
     (if l1 = h1 \<or> l2 = h2 then BATdense (if l1 = h1 then l2 else l1) (h1 - l1 + h2 - l2)
      else oid_list ([l1..<h1] @ [l2..<h2]))"

definition doubleslice :: "nat column \<Rightarrow> nat \<Rightarrow> nat \<Rightarrow> nat \<Rightarrow> nat \<Rightarrow> nat column" where
  "doubleslice s l1 h1 l2 h2 =
     (case ttail s of
        TVoid seq \<Rightarrow> doublerange (l1 + seq) (h1 + seq) (l2 + seq) (h2 + seq)
      | TVals os \<Rightarrow> virtualize (oid_list (take (h1 - l1) (drop l1 os) @ take (h2 - l2) (drop l2 os))))"

section \<open>Normalising the range\<close>

text \<open>
  The bounds are pointers: to an argument or to one of the local variables \<open>vl\<close> and \<open>vh\<close>.
\<close>

datatype 'a ref = Arg 'a | VL | VH

record 'a selstate =
  s_tl :: "'a ref"
  s_th :: "'a ref"
  s_li :: bool
  s_hi :: bool
  s_anti :: bool
  s_lval :: bool
  s_hval :: bool
  s_equi :: bool
  s_lnil :: bool
  s_vl :: 'a
  s_vh :: 'a

definition deref :: "'a selstate \<Rightarrow> 'a ref \<Rightarrow> 'a" where
  "deref s r = (case r of Arg x \<Rightarrow> x | VL \<Rightarrow> s_vl s | VH \<Rightarrow> s_vh s)"

abbreviation lo :: "'a selstate \<Rightarrow> 'a" where
  "lo s \<equiv> deref s (s_tl s)"

abbreviation up :: "'a selstate \<Rightarrow> 'a" where
  "up s \<equiv> deref s (s_th s)"

text \<open>The variables of \<open>BATselect\<close> to begin with; \<open>vl\<close> and \<open>vh\<close> are not read before they are set.\<close>

definition select_start :: "'a seltype \<Rightarrow> 'a \<Rightarrow> 'a option \<Rightarrow> bool \<Rightarrow> bool \<Rightarrow> bool \<Rightarrow> 'a selstate" where
  "select_start T lv hv li hi anti =
     (let lnil = (scmp T lv (snil T) = 0);
          lval = (\<not> lnil \<or> hv = None);
          equi = (case hv of None \<Rightarrow> True | Some h \<Rightarrow> lval \<and> scmp T lv h = 0);
          hval = (case hv of None \<Rightarrow> True | Some h \<Rightarrow> equi \<or> scmp T h (snil T) \<noteq> 0)
      in \<lparr>s_tl = Arg lv, s_th = (if equi then Arg lv else Arg (the hv)), s_li = li, s_hi = (if equi then li else hi),
          s_anti = (if \<not> equi \<and> \<not> lval \<and> \<not> hval \<and> lnil then \<not> anti else anti), s_lval = lval, s_hval = hval,
          s_equi = equi, s_lnil = lnil, s_vl = snil T, s_vh = snil T\<rparr>)"

text \<open>The complement of a range; \<open>None\<close> is an empty result.\<close>

definition select_anti :: "'a seltype \<Rightarrow> 'a selstate \<Rightarrow> 'a selstate option" where
  "select_anti T s =
     (if \<not> s_anti s then Some s
      else if s_lval s \<noteq> s_hval s
      then Some (s\<lparr>s_li := \<not> s_hi s, s_hi := \<not> s_li s, s_tl := s_th s, s_th := s_tl s, s_lval := s_hval s,
                   s_hval := s_lval s, s_lnil := (scmp T (up s) (snil T) = 0), s_anti := False\<rparr>)
      else if \<not> s_lval s \<and> \<not> s_hval s then None
      else if s_equi s \<and> s_lnil s
      then Some (s\<lparr>s_equi := False, s_anti := False, s_lval := False, s_hval := False\<rparr>)
      else if s_equi s
      then Some (if \<not> (s_li s \<and> s_hi s) then s\<lparr>s_equi := False, s_anti := False, s_lval := False, s_hval := False\<rparr>
                 else s\<lparr>s_equi := False\<rparr>)
      else Some s)"

text \<open>The macro \<open>NORMALIZE\<close>, in its parts.\<close>

definition normalize_anti_lo :: "'a seltype \<Rightarrow> 'a selstate \<Rightarrow> 'a selstate" where
  "normalize_anti_lo T s =
     (if s_anti s \<and> s_li s
      then if scmp T (lo s) (minval T) = 0
           then s\<lparr>s_anti := False, s_tl := s_th s, s_li := \<not> s_hi s, s_hval := False\<rparr>
           else s\<lparr>s_vl := prevval T (lo s), s_tl := VL, s_li := False\<rparr>
      else s)"

definition normalize_anti_hi :: "'a seltype \<Rightarrow> 'a selstate \<Rightarrow> 'a selstate" where
  "normalize_anti_hi T s =
     (if s_anti s \<and> s_hi s
      then if scmp T (up s) (maxval T) = 0
           then s\<lparr>s_anti := False, s_th := s_tl s, s_hi := \<not> s_li s, s_lval := False\<rparr>
           else s\<lparr>s_vh := nextval T (up s), s_th := VH, s_hi := False\<rparr>
      else s)"

definition normalize_lo :: "'a seltype \<Rightarrow> 'a selstate \<Rightarrow> 'a selstate option" where
  "normalize_lo T s =
     (if s_lval s
      then if s_li s then Some s
           else if scmp T (lo s) (maxval T) = 0 then None
           else Some (s\<lparr>s_vl := nextval T (lo s), s_li := True, s_tl := VL\<rparr>)
      else Some (s\<lparr>s_vl := minval T, s_li := True, s_tl := VL, s_lval := True\<rparr>))"

definition normalize_hi :: "'a seltype \<Rightarrow> 'a selstate \<Rightarrow> 'a selstate option" where
  "normalize_hi T s =
     (if s_hval s
      then if s_hi s then Some s
           else if scmp T (up s) (minval T) = 0 then None
           else Some (s\<lparr>s_vh := prevval T (up s), s_hi := True, s_th := VH\<rparr>)
      else Some (s\<lparr>s_vh := maxval T, s_hi := True, s_th := VH, s_hval := True\<rparr>))"

definition NORMALIZE :: "'a seltype \<Rightarrow> 'a selstate \<Rightarrow> 'a selstate option" where
  "NORMALIZE T s =
     (let s = normalize_anti_hi T (normalize_anti_lo T s)
      in if s_anti s then Some s
         else case normalize_lo T s of None \<Rightarrow> None | Some s \<Rightarrow> normalize_hi T s)"

section \<open>Ordered columns\<close>

text \<open>Positions in the column, from its first row.\<close>

definition fndfirst :: "'a seltype \<Rightarrow> 'a obat \<Rightarrow> 'a \<Rightarrow> nat" where
  "fndfirst T b v = SORTfndfirst (val_oid T) (scmp T) (Some (column.truncate b)) v - batFirst b"

definition fndlast :: "'a seltype \<Rightarrow> 'a obat \<Rightarrow> 'a \<Rightarrow> nat" where
  "fndlast T b v = SORTfndlast (val_oid T) (scmp T) (Some (column.truncate b)) v - batFirst b"

definition dense_bounds :: "'a seltype \<Rightarrow> 'a obat \<Rightarrow> nat \<Rightarrow> 'a selstate \<Rightarrow> nat \<times> nat" where
  "dense_bounds T b seq s =
     (let h = val_oid T (up s) + (if s_hi s then 1 else 0);
          h = (if seq < h then h - seq else 0);
          high = (if h < batCount b then h else batCount b);
          l = val_oid T (lo s) + (if s_li s then 0 else 1);
          l = (if seq < l then l - seq else 0);
          low = (if high < l then high else l)
      in (low, high))"

definition sorted_bounds :: "'a seltype \<Rightarrow> 'a obat \<Rightarrow> 'a selstate \<Rightarrow> nat \<times> nat" where
  "sorted_bounds T b s =
     (if tsorted b
      then (if s_lval s then (if s_li s then fndfirst T b (lo s) else fndlast T b (lo s)) else fndlast T b (snil T),
            if s_hval s then (if s_hi s then fndlast T b (up s) else fndfirst T b (up s)) else batCount b)
      else (if s_hval s then (if s_hi s then fndfirst T b (up s) else fndlast T b (up s)) else 0,
            if s_lval s then (if s_li s then fndlast T b (lo s) else fndfirst T b (lo s)) else fndfirst T b (snil T)))"

text \<open>The position in a candidate list of the first candidate from a row on.\<close>

definition cand_pos :: "nat column \<Rightarrow> nat \<Rightarrow> nat" where
  "cand_pos s v = SORTfndfirst id simple_CMP (Some s) v - batFirst s"

definition select_ordered ::
  "'a seltype \<Rightarrow> 'a obat \<Rightarrow> nat column option \<Rightarrow> 'a selstate \<Rightarrow> nat column outcome" where
  "select_ordered T b so s =
     (let (low, high) = (case ttail b of
              TVoid seq \<Rightarrow> if seq \<noteq> oid_nil then dense_bounds T b seq s else sorted_bounds T b s
            | TVals _ \<Rightarrow> sorted_bounds T b s);
          hseq = hseqbase b
      in if s_anti s
         then
           let first = (if tsorted b then fndlast T b (snil T) else 0);
               last = (if tsorted b then batCount b else fndfirst T b (snil T))
           in if low < first \<or> high < low \<or> last < high then Crash
              else Done (virtualize
                (case so of
                   Some c \<Rightarrow> doubleslice c (cand_pos c (first + hseq)) (cand_pos c (low + hseq))
                               (cand_pos c (high + hseq)) (cand_pos c (last + hseq))
                 | None \<Rightarrow> doublerange (first + hseq) (low + hseq) (high + hseq) (last + hseq)))
         else if high < low then Crash
         else Done (virtualize
                (case so of
                   Some c \<Rightarrow> doubleslice c 0 0 (cand_pos c (low + hseq)) (cand_pos c (high + hseq))
                 | None \<Rightarrow> BATdense (low + hseq) (high - low))))"

section \<open>Scans\<close>

text \<open>
  The test of the scan functions of the types, and that of \<open>candscan_any\<close> and \<open>fullscan_any\<close>.
\<close>

definition typed_test :: "'a seltype \<Rightarrow> bool \<Rightarrow> 'a selstate \<Rightarrow> 'a \<Rightarrow> bool" where
  "typed_test T nonil s v =
     (if s_equi s then scmp T v (lo s) = 0
      else if s_anti s then (scmp T v (lo s) \<le> 0 \<or> 0 \<le> scmp T v (up s)) \<and> (nonil \<or> scmp T v (snil T) \<noteq> 0)
      else if nonil \<and> scan_min T (lo s) then scmp T v (up s) \<le> 0
      else if scan_max T (up s) then 0 \<le> scmp T v (lo s)
      else 0 \<le> scmp T v (lo s) \<and> scmp T v (up s) \<le> 0)"

definition any_test :: "'a seltype \<Rightarrow> 'a selstate \<Rightarrow> 'a \<Rightarrow> bool" where
  "any_test T s v =
     (if s_equi s then scmp T (lo s) v = 0
      else if s_anti s
      then scmp T v (snil T) \<noteq> 0 \<and>
        (s_lval s \<and> (0 < scmp T (lo s) v \<or> \<not> s_li s \<and> scmp T (lo s) v = 0) \<or>
         s_hval s \<and> (scmp T (up s) v < 0 \<or> \<not> s_hi s \<and> scmp T (up s) v = 0))
      else scmp T v (snil T) \<noteq> 0 \<and>
        (\<not> s_lval s \<or> scmp T (lo s) v < 0 \<or> s_li s \<and> scmp T (lo s) v = 0) \<and>
        (\<not> s_hval s \<or> 0 < scmp T (up s) v \<or> s_hi s \<and> scmp T (up s) v = 0))"

text \<open>
  The two loops of \<open>scanloop\<close>: the first extends the result when it is full, the second, taken when
  the result has room for \<open>maximum\<close> rows, writes every row and counts the matching ones.  \<open>dst\<close> is
  what has been counted.
\<close>

fun scan_grow :: "(nat \<Rightarrow> bool) \<Rightarrow> nat list \<Rightarrow> nat list \<Rightarrow> nat list" where
  "scan_grow match [] dst = dst"
| "scan_grow match (ro # os) dst = scan_grow match os (if match ro then dst @ [ro] else dst)"

fun scan_fast :: "nat \<Rightarrow> (nat \<Rightarrow> bool) \<Rightarrow> nat list \<Rightarrow> nat list \<Rightarrow> nat list outcome" where
  "scan_fast cap match [] dst = Done dst"
| "scan_fast cap match (ro # os) dst =
     (if length dst < cap then scan_fast cap match os (if match ro then dst @ [ro] else dst) else Crash)"

text \<open>The rows that are scanned.\<close>

definition scan_rows :: "nat \<Rightarrow> nat \<Rightarrow> nat column option \<Rightarrow> nat list" where
  "scan_rows hseq cnt so =
     (case so of
        None \<Rightarrow> [hseq..<hseq + cnt]
      | Some c \<Rightarrow>
          (case ttail c of
             TVoid seq \<Rightarrow> [max seq hseq..<min (seq + batCount c) (hseq + cnt)]
           | TVals os \<Rightarrow> take (cand_pos c (hseq + cnt) - cand_pos c hseq) (drop (cand_pos c hseq) os)))"

definition BAT_scanselect ::
  "'a seltype \<Rightarrow> 'a obat \<Rightarrow> nat column option \<Rightarrow> 'a selstate \<Rightarrow> nat \<Rightarrow> nat \<Rightarrow> nat column outcome" where
  "BAT_scanselect T b so s cap maximum =
     (let rows = scan_rows (hseqbase b) (batCount b) so;
          val = (\<lambda>ro. BATvals (oid_val T) (snil T) b ! (ro - hseqbase b))
      in andthen (if typed T
                  then if cap < maximum then Done (scan_grow (\<lambda>ro. typed_test T (tnonil b) s (val ro)) rows [])
                       else scan_fast cap (\<lambda>ro. typed_test T (tnonil b) s (val ro)) rows []
                  else Done (scan_grow (\<lambda>ro. any_test T s (val ro)) rows []))
           (\<lambda>os. Done (oid_list os)))"

section \<open>The selection\<close>

text \<open>The size the result is allocated with, and the bound \<open>maximum\<close> for its size.\<close>

definition max_result :: "nat \<Rightarrow> nat \<Rightarrow> nat column option \<Rightarrow> nat" where
  "max_result hseq cnt so =
     (case so of
        None \<Rightarrow> cnt
      | Some c \<Rightarrow>
          (case ttail c of
             TVoid seq \<Rightarrow> min cnt (min (hseq + cnt) (seq + batCount c) - max hseq seq)
           | TVals os \<Rightarrow> min cnt (cand_pos c (hseq + cnt) - cand_pos c hseq)))"

definition key_estimate :: "'a seltype \<Rightarrow> 'a obat \<Rightarrow> 'a selstate \<Rightarrow> nat" where
  "key_estimate T b s =
     (if \<not> tkey b then BUN_NONE
      else if s_equi s then 1
      else if \<not> s_anti s \<and> s_lval s \<and> s_hval s
      then case width T of
             None \<Rightarrow> BUN_NONE
           | Some w \<Rightarrow>
               let estimate = w (up s) (lo s)
               in if estimate = BUN_NONE then estimate
                  else (estimate + (if s_li s then 1 else 0) + (if s_hi s then 1 else 0) + (2 ^ 64 - 1)) mod 2 ^ 64
      else BUN_NONE)"

text \<open>\<open>BATnew\<close> rounds the capacity up.\<close>

definition BATTINY :: nat where
  "BATTINY = 256"

definition BATnew_capacity :: "nat \<Rightarrow> nat" where
  "BATnew_capacity cap =
     (let cap = (if cap < BUN_NONE - 1 - BATTINY then (cap + BATTINY - 1) div BATTINY * BATTINY else cap)
      in min (if cap < BATTINY then BATTINY else cap) (BUN_NONE - 1))"

definition select_scan :: "'a seltype \<Rightarrow> 'a obat \<Rightarrow> nat column option \<Rightarrow> 'a selstate \<Rightarrow> nat column outcome" where
  "select_scan T b so s =
     (let estimate = key_estimate T b s;
          maximum = min (max_result (hseqbase b) (batCount b) so) estimate;
          estimate = min (if estimate = BUN_NONE then 1000000 else estimate) maximum
      in andthen (BAT_scanselect T b so s (BATnew_capacity estimate) maximum) (\<lambda>bn. Done (virtualize bn)))"

text \<open>\<open>b\<close> is an argument and a result: the descriptor may learn that the column is ordered.\<close>

definition BATselect ::
  "'a seltype \<Rightarrow> 'a obat \<Rightarrow> nat column option \<Rightarrow> 'a \<Rightarrow> 'a option \<Rightarrow> bool \<Rightarrow> bool \<Rightarrow> bool \<Rightarrow>
    (nat column \<times> 'a obat) outcome" where
  "BATselect T b so lv hv li hi anti =
     (if case so of None \<Rightarrow> False | Some c \<Rightarrow> (case ttail c of TVoid _ \<Rightarrow> False | TVals _ \<Rightarrow> \<not> tsorted c)
      then Failed
      else if batCount b = 0 \<or>
        (case so of
           None \<Rightarrow> False
         | Some c \<Rightarrow> batCount c = 0 \<or>
             (case ttail c of
                TVals _ \<Rightarrow> False
              | TVoid seq \<Rightarrow> seq \<noteq> oid_nil \<and> (hseqbase b + batCount b \<le> seq \<or> seq + batCount c \<le> hseqbase b)))
      then Done (newempty, b)
      else
        case select_anti T (select_start T lv hv li hi anti) of
          None \<Rightarrow> Done (newempty, b)
        | Some s \<Rightarrow>
            if s_hval s \<and> (s_equi s \<and> \<not> (s_li s \<and> s_hi s) \<or> 0 < scmp T (lo s) (up s)) then Done (newempty, b)
            else if s_equi s \<and> s_lnil s \<and> tnonil b then Done (newempty, b)
            else if \<not> s_equi s \<and> \<not> s_lval s \<and> \<not> s_hval s \<and> s_lnil s \<and> tnonil b
            then Done (case so of Some c \<Rightarrow> c | None \<Rightarrow> BATdense (hseqbase b) (batCount b), b)
            else
              case (if normal T then NORMALIZE T s else Some s) of
                None \<Rightarrow> Done (newempty, b)
              | Some s \<Rightarrow>
                  let (ordered, b) = BATordered (scmp T) b;
                      (ordered, b) = (if ordered then (True, b) else BATordered_rev (scmp T) b)
                  in andthen (if ordered then select_ordered T b so s else select_scan T b so s) (\<lambda>bn. Done (bn, b)))"

text \<open>
  Comparing with one value.  The operator is the memory from its first character on; it ends
  with the character 0.
\<close>

definition BATthetaselect ::
  "'a seltype \<Rightarrow> 'a obat \<Rightarrow> nat column option \<Rightarrow> 'a \<Rightarrow> (nat \<Rightarrow> char) \<Rightarrow> (nat column \<times> 'a obat) outcome" where
  "BATthetaselect T b so v opr =
     (let nl = snil T
      in if scmp T v nl = 0 then Done (newempty, b)
         else if opr 0 = CHR ''='' \<and> (opr 1 = CHR ''='' \<and> opr 2 = CHR 0x00 \<or> opr 2 = CHR 0x00)
         then BATselect T b so v None True True False
         else if opr 0 = CHR ''!'' \<and> opr 1 = CHR ''='' \<and> opr 2 = CHR 0x00
         then BATselect T b so v None True True True
         else if opr 0 = CHR ''<'' \<and> opr 1 = CHR 0x00
         then BATselect T b so nl (Some v) False False False
         else if opr 0 = CHR ''<'' \<and> opr 1 = CHR ''='' \<and> opr 2 = CHR 0x00
         then BATselect T b so nl (Some v) False True False
         else if opr 0 = CHR ''<'' \<and> opr 1 = CHR ''>'' \<and> opr 2 = CHR 0x00
         then BATselect T b so v None True True True
         else if opr 0 = CHR ''>'' \<and> opr 1 = CHR 0x00
         then BATselect T b so v (Some nl) False False False
         else if opr 0 = CHR ''>'' \<and> opr 1 = CHR ''='' \<and> opr 2 = CHR 0x00
         then BATselect T b so v (Some nl) True False False
         else Failed)"

end
