(* ===== verification/Gdk_Select_Props.thy ===== *)
theory Gdk_Select_Props
  imports Gdk_Select
begin

text \<open>
  What a selection is to give, the contract of the types that can be selected from, and the
  normalisation of a range, which keeps the values in it except for one case of aliasing.
\<close>

section \<open>What is to be selected\<close>

text \<open>The table in the comment before \<open>BATselect\<close>.\<close>

definition selects :: "'a seltype \<Rightarrow> 'a \<Rightarrow> 'a option \<Rightarrow> bool \<Rightarrow> bool \<Rightarrow> bool \<Rightarrow> 'a \<Rightarrow> bool" where
  "selects T lv hv li hi anti x =
     (let isnil = (\<lambda>y. scmp T y (snil T) = 0) in
      case hv of
        None \<Rightarrow>
          if isnil lv then isnil x \<noteq> anti
          else if anti then \<not> isnil x \<and> \<not> (li \<and> scmp T lv x = 0) else li \<and> scmp T lv x = 0
      | Some h \<Rightarrow>
          \<not> isnil x \<and> (isnil lv \<or> isnil h \<or> scmp T lv h \<le> 0) \<and>
          anti \<noteq> ((isnil lv \<or> scmp T lv x < 0 \<or> li \<and> scmp T lv x = 0) \<and>
                  (isnil h \<or> 0 < scmp T h x \<or> hi \<and> scmp T h x = 0)))"

text \<open>Reading through the pointers.\<close>

lemma deref_simps [simp]:
  "deref (s\<lparr>s_tl := p\<rparr>) r = deref s r"
  "deref (s\<lparr>s_th := p\<rparr>) r = deref s r"
  "deref (s\<lparr>s_li := c\<rparr>) r = deref s r"
  "deref (s\<lparr>s_hi := c\<rparr>) r = deref s r"
  "deref (s\<lparr>s_anti := c\<rparr>) r = deref s r"
  "deref (s\<lparr>s_lval := c\<rparr>) r = deref s r"
  "deref (s\<lparr>s_hval := c\<rparr>) r = deref s r"
  "deref (s\<lparr>s_equi := c\<rparr>) r = deref s r"
  "deref (s\<lparr>s_lnil := c\<rparr>) r = deref s r"
  "deref s (Arg x) = x"
  "deref (s\<lparr>s_vl := x\<rparr>) VL = x" "r \<noteq> VL \<Longrightarrow> deref (s\<lparr>s_vl := x\<rparr>) r = deref s r"
  "deref (s\<lparr>s_vh := x\<rparr>) VH = x" "r \<noteq> VH \<Longrightarrow> deref (s\<lparr>s_vh := x\<rparr>) r = deref s r"
  by (auto simp: deref_def split: ref.splits)

section \<open>The types that can be selected from\<close>

locale seltype_ok = atom_order "scmp T" for T :: "'a seltype" +
  fixes dom :: "'a \<Rightarrow> bool"
  assumes dom_nil: "dom (snil T)"
    and nil_least: "dom x \<Longrightarrow> scmp T (snil T) x \<le> 0"
    and min_dom: "normal T \<Longrightarrow> dom (minval T) \<and> scmp T (minval T) (snil T) \<noteq> 0"
    and min_least: "normal T \<Longrightarrow> dom x \<Longrightarrow> scmp T x (snil T) \<noteq> 0 \<Longrightarrow> scmp T (minval T) x \<le> 0"
    and max_dom: "normal T \<Longrightarrow> dom (maxval T) \<and> scmp T (maxval T) (snil T) \<noteq> 0"
    and max_greatest: "normal T \<Longrightarrow> dom x \<Longrightarrow> scmp T x (maxval T) \<le> 0"
    and prev_dom: "normal T \<Longrightarrow> dom x \<Longrightarrow> scmp T x (snil T) \<noteq> 0 \<Longrightarrow> scmp T x (minval T) \<noteq> 0 \<Longrightarrow>
      dom (prevval T x) \<and> scmp T (prevval T x) (snil T) \<noteq> 0"
    and prev_iff: "normal T \<Longrightarrow> dom x \<Longrightarrow> scmp T x (snil T) \<noteq> 0 \<Longrightarrow> scmp T x (minval T) \<noteq> 0 \<Longrightarrow> dom y \<Longrightarrow>
      0 \<le> scmp T (prevval T x) y \<longleftrightarrow> 0 < scmp T x y"
    and next_dom: "normal T \<Longrightarrow> dom x \<Longrightarrow> scmp T x (snil T) \<noteq> 0 \<Longrightarrow> scmp T x (maxval T) \<noteq> 0 \<Longrightarrow>
      dom (nextval T x) \<and> scmp T (nextval T x) (snil T) \<noteq> 0"
    and next_iff: "normal T \<Longrightarrow> dom x \<Longrightarrow> scmp T x (snil T) \<noteq> 0 \<Longrightarrow> scmp T x (maxval T) \<noteq> 0 \<Longrightarrow> dom y \<Longrightarrow>
      scmp T (nextval T x) y \<le> 0 \<longleftrightarrow> scmp T x y < 0"
    and typed_normal: "typed T \<Longrightarrow> normal T"
    and scan_min_least: "scan_min T x \<Longrightarrow> dom y \<Longrightarrow> scmp T y (snil T) \<noteq> 0 \<Longrightarrow> scmp T x y \<le> 0"
    and scan_max_greatest: "scan_max T x \<Longrightarrow> dom y \<Longrightarrow> scmp T y x \<le> 0"
    and oid_normal: "is_oid T \<Longrightarrow> normal T"
    and oid_dom: "is_oid T \<Longrightarrow> i < oid_nil \<Longrightarrow> dom (oid_val T i) \<and> scmp T (oid_val T i) (snil T) \<noteq> 0"
    and oid_range: "is_oid T \<Longrightarrow> dom v \<Longrightarrow> scmp T v (snil T) \<noteq> 0 \<Longrightarrow> val_oid T v < oid_nil"
    and oid_cmp: "is_oid T \<Longrightarrow> dom v \<Longrightarrow> scmp T v (snil T) \<noteq> 0 \<Longrightarrow> i < oid_nil \<Longrightarrow>
      sgn (scmp T (oid_val T i) v) = simple_CMP i (val_oid T v)"
    and oid_of_nil: "is_oid T \<Longrightarrow> dom v \<Longrightarrow> scmp T v (snil T) = 0 \<Longrightarrow> val_oid T v = oid_nil"
begin

abbreviation isnil :: "'a \<Rightarrow> bool" where
  "isnil x \<equiv> scmp T x (snil T) = 0"

lemma cmp_0_left: "scmp T x y = 0 \<Longrightarrow> sgn (scmp T x z) = sgn (scmp T y z)"
  using cmp_trans [of x y z] cmp_trans [of y x z] cmp_ge_trans [of x y z] cmp_ge_trans [of y x z] cmp_eq_swap [of x y]
  by (smt (verit) sgn_if)

lemma isnil_eq: "scmp T x y = 0 \<Longrightarrow> isnil x \<longleftrightarrow> isnil y"
  using cmp_0_left [of x y "snil T"] by (auto simp: sgn_if split: if_splits)

lemma not_nil_less: "dom x \<Longrightarrow> \<not> isnil x \<longleftrightarrow> scmp T (snil T) x < 0"
  using nil_least [of x] cmp_eq_swap [of x "snil T"] by linarith

lemma not_nil_mono: "dom x \<Longrightarrow> dom y \<Longrightarrow> \<not> isnil x \<Longrightarrow> scmp T x y \<le> 0 \<Longrightarrow> \<not> isnil y"
  using not_nil_less [of x] not_nil_less [of y] cmp_lt_le_trans [of "snil T" x y] by blast

text \<open>What holds of the variables before they are normalised.\<close>

definition args_ok :: "'a selstate \<Rightarrow> bool" where
  "args_ok s \<longleftrightarrow>
     (\<exists>a c. s_tl s = Arg a \<and> s_th s = Arg c \<and> dom a \<and> dom c \<and>
       (s_equi s \<longrightarrow> s_lval s \<and> s_hval s \<and> \<not> s_anti s \<and> scmp T a c = 0 \<and> s_lnil s = isnil a) \<and>
       (s_anti s \<longrightarrow> s_lval s \<and> s_hval s \<and> (scmp T a c = 0 \<longrightarrow> s_li s \<and> s_hi s)) \<and>
       (\<not> s_equi s \<longrightarrow> (s_lval s \<longrightarrow> \<not> isnil a) \<and> (s_hval s \<longrightarrow> \<not> isnil c)) \<and>
       (\<not> s_equi s \<longrightarrow> \<not> s_anti s \<longrightarrow> s_lval s \<longrightarrow> s_hval s \<longrightarrow> scmp T a c \<noteq> 0))"

definition empty_range :: "'a selstate \<Rightarrow> bool" where
  "empty_range s \<longleftrightarrow> s_hval s \<and> (s_equi s \<and> \<not> (s_li s \<and> s_hi s) \<or> 0 < scmp T (lo s) (up s))"

text \<open>The two halves of the test of a range; \<open>covers\<close> says that no value fails both.\<close>

definition above_lo :: "'a selstate \<Rightarrow> 'a \<Rightarrow> bool" where
  "above_lo s x \<longleftrightarrow> (s_lval s \<longrightarrow> scmp T (lo s) x < 0 \<or> s_li s \<and> scmp T (lo s) x = 0)"

definition below_up :: "'a selstate \<Rightarrow> 'a \<Rightarrow> bool" where
  "below_up s x \<longleftrightarrow> (s_hval s \<longrightarrow> 0 < scmp T (up s) x \<or> s_hi s \<and> scmp T (up s) x = 0)"

definition covers :: "'a selstate \<Rightarrow> bool" where
  "covers s \<longleftrightarrow> (\<forall>x. dom x \<longrightarrow> \<not> isnil x \<longrightarrow> above_lo s x \<or> below_up s x)"

lemma start_point:
  assumes "hv = None \<or> (\<exists>h. hv = Some h \<and> \<not> isnil lv \<and> scmp T lv h = 0 \<and> li = hi)"
  shows "select_start T lv hv li hi anti = \<lparr>s_tl = Arg lv, s_th = Arg lv, s_li = li, s_hi = li, s_anti = anti,
    s_lval = True, s_hval = True, s_equi = True, s_lnil = isnil lv, s_vl = snil T, s_vh = snil T\<rparr>"
  using assms by (auto simp: select_start_def Let_def)

lemma start_range:
  assumes "hv = Some h" "\<not> (isnil lv \<and> isnil h)" "isnil lv \<or> scmp T lv h \<noteq> 0"
  shows "select_start T lv hv li hi anti = \<lparr>s_tl = Arg lv, s_th = Arg h, s_li = li, s_hi = hi, s_anti = anti,
    s_lval = (\<not> isnil lv), s_hval = (\<not> isnil h), s_equi = False, s_lnil = isnil lv, s_vl = snil T, s_vh = snil T\<rparr>"
  using assms by (auto simp: select_start_def Let_def)

lemma select_point:
  assumes "dom lv" "hv = None \<or> (\<exists>h. hv = Some h \<and> \<not> isnil lv \<and> scmp T lv h = 0 \<and> li = hi)"
    and "hv = None \<longrightarrow> isnil lv \<longrightarrow> anti \<or> li"
  shows "\<exists>s. select_anti T (select_start T lv hv li hi anti) = Some s \<and> args_ok s \<and>
    (\<forall>x. dom x \<longrightarrow> (if empty_range s then \<not> selects T lv hv li hi anti x
                  else any_test T s x = selects T lv hv li hi anti x))"
proof -
  have "selects T lv hv li hi anti x =
    (if isnil lv then isnil x \<noteq> anti
     else if anti then \<not> isnil x \<and> \<not> (li \<and> scmp T lv x = 0) else li \<and> scmp T lv x = 0)" for x
  proof (cases hv)
    case (Some h)
    then have h: "\<not> isnil lv" "scmp T lv h = 0" "li = hi" using assms(2) by auto
    then have "\<not> isnil h" "sgn (scmp T lv x) = sgn (scmp T h x)" "\<not> isnil x \<or> scmp T lv x \<noteq> 0"
      using isnil_eq [of lv h] cmp_0_left [of lv h x] isnil_eq [of lv x] by auto
    then show ?thesis using h Some
      by (auto simp: selects_def sgn_if split: if_splits)
  qed (simp add: selects_def)
  note sel = this
  note st = start_point [OF assms(2), of anti]
  have nil: "isnil x \<longleftrightarrow> scmp T lv x = 0" if "isnil lv" for x
    using cmp_0_left [OF that, of x] cmp_eq_swap [of x "snil T"] by (auto simp: sgn_if split: if_splits)
  have li: "isnil lv \<longrightarrow> anti \<or> li" using assms(2,3) by auto
  have less: "scmp T lv x \<noteq> 0 \<longleftrightarrow> 0 < scmp T lv x \<or> scmp T lv x < 0" for x by linarith
  show ?thesis
  proof (cases anti)
    case False
    then show ?thesis unfolding sel st using assms(1) nil li
      by (auto simp: select_anti_def args_ok_def empty_range_def any_test_def deref_def)
  next
    case True
    then show ?thesis unfolding sel st using assms(1) nil
      by (auto simp: select_anti_def args_ok_def empty_range_def any_test_def deref_def less)
  qed
qed

lemma select_range:
  assumes "dom lv" "hv = Some h" "dom h" "\<not> (isnil lv \<and> isnil h)" "isnil lv \<or> scmp T lv h \<noteq> 0"
  shows "\<exists>s. select_anti T (select_start T lv hv li hi anti) = Some s \<and> args_ok s \<and>
    (\<forall>x. dom x \<longrightarrow> (if empty_range s then \<not> selects T lv hv li hi anti x
                  else any_test T s x = selects T lv hv li hi anti x))"
proof -
  note st = start_range [OF assms(2,4,5), of li hi anti]
  have nil_lv: "scmp T lv h \<le> 0" if "isnil lv"
    using nil_least [OF assms(3)] cmp_0_left [OF that, of h] by (auto simp: sgn_if split: if_splits)
  have nil_h: "0 < scmp T lv h" if "isnil h" "\<not> isnil lv"
    using not_nil_less [OF assms(1)] that cmp_0_left [OF that(1), of lv] cmp_swap [of h lv]
    by (auto simp: sgn_if split: if_splits)
  show ?thesis
  proof (cases "anti \<and> isnil lv \<noteq> isnil h")
    case True
    then have s: "select_anti T (select_start T lv hv li hi anti) = Some \<lparr>s_tl = Arg h, s_th = Arg lv, s_li = (\<not> hi),
      s_hi = (\<not> li), s_anti = False, s_lval = (\<not> isnil h), s_hval = (\<not> isnil lv), s_equi = False,
      s_lnil = isnil h, s_vl = snil T, s_vh = snil T\<rparr>" (is "_ = Some ?s")
      using st by (simp add: select_anti_def deref_def)
    have "\<not> empty_range ?s"
      using True nil_lv nil_h cmp_swap [of lv h] by (auto simp: empty_range_def deref_def)
    moreover have "args_ok ?s" using assms(1,3) True by (auto simp: args_ok_def)
    moreover have "any_test T ?s x = selects T lv hv li hi anti x" for x
      using True assms(2) by (auto simp: any_test_def selects_def deref_def)
    ultimately show ?thesis using s by auto
  next
    case False
    then have s: "select_anti T (select_start T lv hv li hi anti) = Some \<lparr>s_tl = Arg lv, s_th = Arg h, s_li = li,
      s_hi = hi, s_anti = anti, s_lval = (\<not> isnil lv), s_hval = (\<not> isnil h), s_equi = False,
      s_lnil = isnil lv, s_vl = snil T, s_vh = snil T\<rparr>" (is "_ = Some ?s")
      using st assms(4) by (auto simp: select_anti_def)
    have "args_ok ?s" using assms False by (auto simp: args_ok_def)
    moreover have "if empty_range ?s then \<not> selects T lv hv li hi anti x else any_test T ?s x = selects T lv hv li hi anti x" for x
      using False assms(2,4) nil_lv by (auto simp: any_test_def selects_def deref_def empty_range_def)
    ultimately show ?thesis using s by auto
  qed
qed

section \<open>Normalising\<close>

text \<open>A range that is not a complement, in the middle of \<open>NORMALIZE\<close>.\<close>

definition plain_range :: "'a selstate \<Rightarrow> bool" where
  "plain_range s \<longleftrightarrow>
     \<not> s_equi s \<and> \<not> s_anti s \<and> s_th s \<noteq> VL \<and> s_tl s \<noteq> VH \<and> dom (lo s) \<and> dom (up s) \<and>
     (s_lval s \<longrightarrow> \<not> isnil (lo s)) \<and> (s_hval s \<longrightarrow> \<not> isnil (up s))"

lemma above_not_nil: "dom x \<Longrightarrow> \<not> isnil y \<Longrightarrow> dom y \<Longrightarrow> scmp T y x \<le> 0 \<Longrightarrow> \<not> isnil x"
  using not_nil_mono by blast

lemma normalize_lo_ok:
  assumes "normal T" "plain_range s"
  shows "case normalize_lo T s of
     None \<Rightarrow> \<forall>x. dom x \<longrightarrow> \<not> any_test T s x
   | Some s' \<Rightarrow> plain_range s' \<and> s_lval s' \<and> s_li s' \<and>
       (\<forall>x. dom x \<longrightarrow> any_test T s' x = any_test T s x) \<and>
       (\<forall>x. dom x \<longrightarrow> \<not> isnil x \<longrightarrow> above_lo s' x = above_lo s x \<and> below_up s' x = below_up s x)"
proof -
  consider "s_lval s" "s_li s" | "s_lval s" "\<not> s_li s" "scmp T (lo s) (maxval T) = 0"
    | "s_lval s" "\<not> s_li s" "scmp T (lo s) (maxval T) \<noteq> 0" | "\<not> s_lval s"
    by blast
  then show ?thesis
  proof cases
    case 1
    then show ?thesis using assms(2) by (simp add: normalize_lo_def)
  next
    case 2
    have "\<not> scmp T (lo s) x < 0" if "dom x" for x
      using max_greatest [OF assms(1) that] cmp_0_left [OF 2(3), of x] cmp_le_swap [of x "maxval T"]
      by (auto simp: sgn_if split: if_splits)
    then show ?thesis using 2 assms(2) by (auto simp: normalize_lo_def any_test_def plain_range_def above_lo_def below_up_def)
  next
    case 3
    have x: "dom (lo s)" "\<not> isnil (lo s)" using assms(2) 3(1) by (auto simp: plain_range_def)
    note nxt = next_dom [OF assms(1) x 3(3)] next_iff [OF assms(1) x 3(3)]
    show ?thesis using 3 assms(2) nxt
      by (simp add: normalize_lo_def any_test_def plain_range_def above_lo_def below_up_def) (simp add: le_less)
  next
    case 4
    then show ?thesis using assms(2) min_dom [OF assms(1)] min_least [OF assms(1)]
      by (auto simp: normalize_lo_def any_test_def plain_range_def above_lo_def below_up_def le_less)
  qed
qed

lemma normalize_hi_ok:
  assumes "normal T" "plain_range s" "s_lval s" "s_li s"
  shows "case normalize_hi T s of
     None \<Rightarrow> \<forall>x. dom x \<longrightarrow> \<not> any_test T s x
   | Some s' \<Rightarrow> plain_range s' \<and> s_lval s' \<and> s_li s' \<and> s_hval s' \<and> s_hi s' \<and>
       (\<forall>x. dom x \<longrightarrow> any_test T s' x = any_test T s x) \<and>
       (\<forall>x. dom x \<longrightarrow> \<not> isnil x \<longrightarrow> above_lo s' x = above_lo s x \<and> below_up s' x = below_up s x)"
proof -
  consider "s_hval s" "s_hi s" | "s_hval s" "\<not> s_hi s" "scmp T (up s) (minval T) = 0"
    | "s_hval s" "\<not> s_hi s" "scmp T (up s) (minval T) \<noteq> 0" | "\<not> s_hval s"
    by blast
  then show ?thesis
  proof cases
    case 1
    then show ?thesis using assms by (simp add: normalize_hi_def)
  next
    case 2
    have "\<not> 0 < scmp T (up s) x" if "dom x" "\<not> isnil x" for x
      using min_least [OF assms(1) that] cmp_0_left [OF 2(3), of x] by (auto simp: sgn_if split: if_splits)
    then show ?thesis using 2 assms(2) by (auto simp: normalize_hi_def any_test_def plain_range_def above_lo_def below_up_def)
  next
    case 3
    have x: "dom (up s)" "\<not> isnil (up s)" using assms(2) 3(1) by (auto simp: plain_range_def)
    note prv = prev_dom [OF assms(1) x 3(3)] prev_iff [OF assms(1) x 3(3)]
    show ?thesis using 3 assms(2-4) prv
      by (simp add: normalize_hi_def any_test_def plain_range_def above_lo_def below_up_def) (auto simp: le_less)
  next
    case 4
    have "0 \<le> scmp T (maxval T) x" if "dom x" for x
      using max_greatest [OF assms(1) that] cmp_le_swap by blast
    then show ?thesis using 4 assms(2-4) max_dom [OF assms(1)]
      by (auto simp: normalize_hi_def any_test_def plain_range_def above_lo_def below_up_def le_less)
  qed
qed

text \<open>The case in which \<open>th\<close> points to \<open>vl\<close> when \<open>vl\<close> is overwritten.\<close>

definition clobbered :: "'a selstate \<Rightarrow> bool" where
  "clobbered s \<longleftrightarrow>
     s_anti s \<and> s_li s \<and> s_hi s \<and> scmp T (lo s) (minval T) \<noteq> 0 \<and> scmp T (up s) (maxval T) = 0"

text \<open>What holds of the variables when they are used.\<close>

definition bounds_ok :: "'a selstate \<Rightarrow> bool" where
  "bounds_ok s \<longleftrightarrow>
     dom (lo s) \<and> dom (up s) \<and>
     (s_equi s \<longrightarrow> s_lval s \<and> s_hval s \<and> s_li s \<and> s_hi s \<and> \<not> s_anti s \<and> scmp T (lo s) (up s) = 0) \<and>
     (s_anti s \<longrightarrow> s_lval s \<and> s_hval s \<and> (scmp T (lo s) (up s) < 0 \<or> scmp T (lo s) (up s) = 0 \<and> s_li s \<and> s_hi s)) \<and>
     (\<not> s_equi s \<longrightarrow> (s_lval s \<longrightarrow> \<not> isnil (lo s)) \<and> (s_hval s \<longrightarrow> \<not> isnil (up s))) \<and>
     (\<not> s_equi s \<longrightarrow> \<not> s_anti s \<longrightarrow> covers s)"

definition closed :: "'a selstate \<Rightarrow> bool" where
  "closed s \<longleftrightarrow> s_lval s \<and> s_hval s \<and> s_li s = (\<not> s_anti s) \<and> s_hi s = (\<not> s_anti s)"

lemma args_covers:
  assumes "args_ok s" "\<not> empty_range s" "\<not> s_equi s" "\<not> s_anti s"
  shows "covers s"
proof -
  have "scmp T (lo s) x < 0" if "s_lval s" "s_hval s" "scmp T (up s) x \<le> 0" for x
  proof -
    have "scmp T (lo s) (up s) < 0" using assms that(1,2) by (auto simp: args_ok_def empty_range_def)
    then show ?thesis using that(3) by (rule cmp_lt_le_trans)
  qed
  then show ?thesis by (auto simp: covers_def above_lo_def below_up_def not_less)
qed

lemma args_bounds:
  assumes "args_ok s" "\<not> empty_range s"
  shows "bounds_ok s"
proof -
  have "\<not> s_equi s \<longrightarrow> \<not> s_anti s \<longrightarrow> covers s" using args_covers [OF assms] by blast
  then show ?thesis using assms by (fastforce simp: args_ok_def bounds_ok_def empty_range_def not_less)
qed

lemma plain_normalizes:
  assumes "normal T" "plain_range s" "NORMALIZE T s0 = (case normalize_lo T s of None \<Rightarrow> None | Some s \<Rightarrow> normalize_hi T s)"
    and "\<not> s_equi s0" "\<And>x. dom x \<Longrightarrow> any_test T s x = any_test T s0 x" "covers s"
  shows "case NORMALIZE T s0 of
     None \<Rightarrow> \<forall>x. dom x \<longrightarrow> \<not> any_test T s0 x
   | Some s' \<Rightarrow> bounds_ok s' \<and> closed s' \<and> (\<forall>x. dom x \<longrightarrow> any_test T s' x = any_test T s0 x)"
proof (cases "normalize_lo T s")
  case None
  then show ?thesis using normalize_lo_ok [OF assms(1,2)] assms(3,5) by simp
next
  case (Some s1)
  then have s1: "plain_range s1" "s_lval s1" "s_li s1" "\<And>x. dom x \<Longrightarrow> any_test T s1 x = any_test T s x" "covers s1"
    using normalize_lo_ok [OF assms(1,2)] assms(6) by (auto simp: covers_def)
  show ?thesis
    using normalize_hi_ok [OF assms(1) s1(1-3)] s1(4,5) assms(3,5) Some
    by (cases "normalize_hi T s1") (auto simp: plain_range_def bounds_ok_def closed_def covers_def)
qed

lemma anti_lo_least:
  assumes "normal T" "s_anti s" "args_ok s" "s_li s" "scmp T (lo s) (minval T) = 0"
  defines "s' \<equiv> normalize_anti_lo T s"
  shows "plain_range s'" "covers s'" "dom x \<Longrightarrow> any_test T s' x = any_test T s x" "normalize_anti_hi T s' = s'"
proof -
  have s': "s' = s\<lparr>s_anti := False, s_tl := s_th s, s_li := \<not> s_hi s, s_hval := False\<rparr>"
    using assms by (simp add: normalize_anti_lo_def)
  have nl: "\<not> 0 < scmp T (lo s) x" if "dom x" "\<not> isnil x" for x
    using min_least [OF assms(1) that] cmp_0_left [OF assms(5), of x] by (auto simp: sgn_if split: if_splits)
  show "plain_range s'" "covers s'" "dom x \<Longrightarrow> any_test T s' x = any_test T s x" "normalize_anti_hi T s' = s'"
    using assms(2-4) nl by (auto simp: s' covers_def above_lo_def below_up_def plain_range_def args_ok_def any_test_def normalize_anti_hi_def)
qed

lemma anti_hi_greatest:
  assumes "normal T" "s_anti s" "args_ok s" "\<not> s_li s" "s_hi s" "scmp T (up s) (maxval T) = 0"
  defines "s' \<equiv> normalize_anti_hi T s"
  shows "plain_range s'" "covers s'" "dom x \<Longrightarrow> any_test T s' x = any_test T s x" "normalize_anti_lo T s = s"
proof -
  have s': "s' = s\<lparr>s_anti := False, s_th := s_tl s, s_hi := \<not> s_li s, s_lval := False\<rparr>"
    using assms by (simp add: normalize_anti_hi_def)
  have nl: "\<not> scmp T (up s) x < 0" if "dom x" for x
    using max_greatest [OF assms(1) that] cmp_0_left [OF assms(6), of x] cmp_le_swap [of x "maxval T"]
    by (auto simp: sgn_if split: if_splits)
  show "plain_range s'" "covers s'" "dom x \<Longrightarrow> any_test T s' x = any_test T s x" "normalize_anti_lo T s = s"
    using assms(2-5) nl by (auto simp: s' covers_def above_lo_def below_up_def plain_range_def args_ok_def any_test_def normalize_anti_lo_def)
qed

lemma anti_both:
  assumes "normal T" "s_anti s" "args_ok s" "\<not> empty_range s"
    and lo: "\<not> (s_li s \<and> scmp T (lo s) (minval T) = 0)" and hi: "\<not> (s_hi s \<and> scmp T (up s) (maxval T) = 0)"
  defines "s' \<equiv> normalize_anti_hi T (normalize_anti_lo T s)"
  shows "bounds_ok s'" "closed s'" "s_anti s'" "dom x \<Longrightarrow> any_test T s' x = any_test T s x"
proof -
  obtain a c where s: "s_tl s = Arg a" "s_th s = Arg c" "dom a" "dom c" "s_lval s" "s_hval s" "\<not> s_equi s"
    "\<not> isnil a" "\<not> isnil c" and eq: "scmp T a c = 0 \<longrightarrow> s_li s \<and> s_hi s"
    using assms(2,3) by (auto simp: args_ok_def)
  define a' where "a' = (if s_li s then prevval T a else a)"
  define c' where "c' = (if s_hi s then nextval T c else c)"
  have a': "dom a'" "\<not> isnil a'" "dom x \<Longrightarrow> 0 \<le> scmp T a' x \<longleftrightarrow> 0 < scmp T a x \<or> \<not> s_li s \<and> scmp T a x = 0" for x
    using prev_dom [OF assms(1) s(3,8)] prev_iff [OF assms(1) s(3,8)] lo s by (auto simp: a'_def le_less)
  have c': "dom c'" "\<not> isnil c'" "dom x \<Longrightarrow> scmp T c' x \<le> 0 \<longleftrightarrow> scmp T c x < 0 \<or> \<not> s_hi s \<and> scmp T c x = 0" for x
    using next_dom [OF assms(1) s(4,9)] next_iff [OF assms(1) s(4,9)] hi s by (auto simp: c'_def le_less)
  have form: "s_lval s'" "s_hval s'" "\<not> s_equi s'" "s_anti s'" "\<not> s_li s'" "\<not> s_hi s'" "lo s' = a'" "up s' = c'"
    using assms(2) lo hi s by (auto simp: s'_def normalize_anti_lo_def normalize_anti_hi_def a'_def c'_def)
  have ac: "scmp T a c \<le> 0" using assms(4) s by (simp add: empty_range_def not_less)
  have "scmp T a' c < 0" using a'(3) [OF s(4)] ac eq by linarith
  moreover have "scmp T c c' \<le> 0" using c'(3) [OF s(4)] cmp_le_swap [of c c'] cmp_swap [of c' c]
    by (cases "s_hi s") (auto simp: c'_def)
  ultimately have "scmp T a' c' < 0" by (rule cmp_lt_le_trans)
  then show "bounds_ok s'" "closed s'" using form a' c' by (simp_all add: bounds_ok_def closed_def)
  show "s_anti s'" by fact
  show "any_test T s' x = any_test T s x" if "dom x"
    using form s assms(2) a'(3) [OF that] c'(3) [OF that] by (auto simp: any_test_def le_less)
qed

lemma NORMALIZE_ok:
  assumes "normal T" "args_ok s" "\<not> empty_range s" "\<not> clobbered s"
  shows "case NORMALIZE T s of
     None \<Rightarrow> \<forall>x. dom x \<longrightarrow> \<not> any_test T s x
   | Some s' \<Rightarrow> bounds_ok s' \<and> closed s' \<and> (\<forall>x. dom x \<longrightarrow> any_test T s' x = any_test T s x)"
proof -
  have bo: "bounds_ok s" by (rule args_bounds [OF assms(2,3)])
  consider "s_equi s" | "\<not> s_equi s" "\<not> s_anti s" | "s_anti s" "s_li s" "scmp T (lo s) (minval T) = 0"
    | "s_anti s" "\<not> s_li s" "s_hi s" "scmp T (up s) (maxval T) = 0"
    | "s_anti s" "\<not> (s_li s \<and> scmp T (lo s) (minval T) = 0)" "\<not> (s_hi s \<and> scmp T (up s) (maxval T) = 0)"
    using assms(4) by (auto simp: clobbered_def)
  then show ?thesis
  proof cases
    case 1
    then have "NORMALIZE T s = Some s"
      using bo by (simp add: NORMALIZE_def normalize_anti_lo_def normalize_anti_hi_def normalize_lo_def normalize_hi_def
          bounds_ok_def Let_def)
    then show ?thesis using 1 bo by (simp add: bounds_ok_def closed_def)
  next
    case 2
    then have "plain_range s" using assms(2) by (auto simp: plain_range_def args_ok_def)
    then show ?thesis
      by (rule plain_normalizes [OF assms(1)])
        (use 2 args_covers [OF assms(2,3)] in \<open>simp_all add: NORMALIZE_def normalize_anti_lo_def normalize_anti_hi_def Let_def\<close>)
  next
    case 3
    note A = anti_lo_least [OF assms(1) 3(1) assms(2) 3(2,3)]
    show ?thesis
      by (rule plain_normalizes [OF assms(1) A(1)])
        (use A bo 3(1) in \<open>auto simp: NORMALIZE_def plain_range_def bounds_ok_def Let_def\<close>)
  next
    case 4
    note A = anti_hi_greatest [OF assms(1) 4(1) assms(2) 4(2-4)]
    show ?thesis
      by (rule plain_normalizes [OF assms(1) A(1)])
        (use A bo 4(1) in \<open>auto simp: NORMALIZE_def plain_range_def bounds_ok_def Let_def\<close>)
  next
    case 5
    note A = anti_both [OF assms(1) 5(1) assms(2,3) 5(2,3)]
    then have "NORMALIZE T s = Some (normalize_anti_hi T (normalize_anti_lo T s))"
      by (simp add: NORMALIZE_def Let_def)
    then show ?thesis using A by simp
  qed
qed

end

end
