(* ===== verification/Gdk_Select_Rows.thy ===== *)
theory Gdk_Select_Rows
  imports Gdk_Select_Props
begin

text \<open>
  The rows of a selection: slices of candidate lists, and the detection of the order of a column.
\<close>

section \<open>Candidate lists\<close>

definition result_ok :: "nat list \<Rightarrow> nat column \<Rightarrow> bool" where
  "result_ok os bn \<longleftrightarrow> cand_ok bn \<and> tail_oids bn = os"

text \<open>Candidates that are object identifiers with some room above them.\<close>

definition cand_fits :: "nat column \<Rightarrow> bool" where
  "cand_fits c \<longleftrightarrow>
     cand_ok c \<and> (case ttail c of TVoid seq \<Rightarrow> seq + batCount c < oid_nil | TVals os \<Rightarrow> \<forall>x\<in>set os. x < oid_nil)"

lemma dense_ok: "seq < oid_nil \<Longrightarrow> seq + n \<le> oid_nil \<Longrightarrow> n < BUN_NONE \<Longrightarrow> result_ok [seq..<seq + n] (BATdense seq n)"
  by (simp add: result_ok_def BATdense_def cand_ok_def column_ok_def tail_oids_def)

lemma cand_sorted: "cand_ok c \<Longrightarrow> sorted_wrt (<) (tail_oids c)"
  using cand_ok_vals(1) [of c] by (auto simp: tail_oids_def sorted_wrt_upt split: tail.splits)

lemma oid_list_ok:
  assumes "sorted_wrt (<) os" "length os < BUN_NONE"
  shows "result_ok os (oid_list os)"
proof -
  have "sorted_wrt (\<lambda>x y. 0 \<le> simple_CMP x y) os" if "length os \<le> 1"
    using that by (cases os; cases "tl os") auto
  moreover have "sorted_wrt (\<lambda>x y. simple_CMP x y \<le> 0) os" "sorted_wrt (\<lambda>x y. simple_CMP x y \<noteq> 0) os"
    using assms(1) by (auto intro: sorted_wrt_mono_rel [of os "(<)"] simp: simple_CMP_sign)
  ultimately show ?thesis
    using assms(2) by (auto simp: result_ok_def oid_list_def cand_ok_def column_ok_def tail_oids_def)
qed

lemma strict_from_to:
  assumes "sorted_wrt (<) (x # os)" "x + length os = last (x # os)"
  shows "x # os = [x..<Suc (x + length os)]"
  using assms
proof (induction os arbitrary: x)
  case (Cons y os)
  have grow: "z + length zs \<le> last (z # zs)" if "sorted_wrt (<) (z # zs)" for z :: nat and zs
    using that by (induction zs arbitrary: z) fastforce+
  have "x < y" "y + length os \<le> last (y # os)" using Cons.prems(1) grow [of y os] by auto
  then have y: "y = Suc x" "y + length os = last (y # os)" using Cons.prems(2) by auto
  then show ?case using Cons.IH [OF _ y(2)] Cons.prems(1) by (simp add: upt_conv_Cons)
qed simp

lemma consecutive:
  assumes "sorted_wrt (<) os" "os \<noteq> []" "length os \<le> 1 \<or> hd os + length os - 1 = last os"
  shows "os = [hd os..<hd os + length os]"
proof -
  obtain x xs where os: "os = x # xs" using assms(2) by (cases os) auto
  then have "x + length xs = last (x # xs)" using assms(3) by (cases xs) auto
  from strict_from_to [OF _ this] show ?thesis using assms(1) os by (metis add_Suc_right length_Cons list.sel(1))
qed

lemma virtualize_ok:
  assumes "result_ok os bn" "\<forall>x\<in>set os. x < oid_nil"
  shows "result_ok os (virtualize bn)"
proof (cases "ttail bn")
  case (TVals vs)
  have bn: "cand_ok bn" "vs = os" "length os = batCount bn" "sorted_wrt (<) os"
    using assms(1) TVals cand_ok_vals(1,2) [of bn vs] by (auto simp: result_ok_def tail_oids_def)
  consider "os = []" | "os \<noteq> []" "length os \<le> 1 \<or> hd os + length os - 1 = last os"
    | "os \<noteq> []" "\<not> (length os \<le> 1 \<or> hd os + length os - 1 = last os)"
    by blast
  then show ?thesis
  proof cases
    case 1
    then show ?thesis using bn TVals
      by (auto simp: virtualize_def result_ok_def cand_ok_def column_ok_def tail_oids_def oid_nil_def)
  next
    case 2
    then have v: "virtualize bn = bn\<lparr>ttail := TVoid (hd os)\<rparr>"
      using TVals bn by (auto simp: virtualize_def)
    have os: "os = [hd os..<hd os + length os]" by (rule consecutive [OF bn(4) 2])
    have "hd os + length os - 1 \<in> set [hd os..<hd os + length os]" using 2(1) by (cases os) auto
    then have "hd os + length os - 1 < oid_nil" using assms(2) os by metis
    then have "hd os < oid_nil" "hd os + batCount bn \<le> oid_nil" using 2(1) bn(3) by (cases os; simp)+
    then show ?thesis using v bn os by (simp add: result_ok_def cand_ok_def column_ok_def tail_oids_def)
  next
    case 3
    then show ?thesis using assms(1) TVals bn by (simp add: virtualize_def)
  qed
qed (use assms(1) in \<open>simp add: virtualize_def\<close>)

lemma cand_pos_eq:
  assumes "cand_ok c" "v < oid_nil"
  shows "cand_pos c v = length (takeWhile (\<lambda>y. y < v) (tail_oids c))"
proof (cases "ttail c")
  case (TVals vs)
  then show ?thesis using cand_ok_vals(3) [OF assms(1) TVals, of v] by (simp add: cand_pos_def tail_oids_def)
next
  case (TVoid seq)
  then show ?thesis
    using assms by (auto simp: cand_pos_def tail_oids_def cand_ok_def SORTfndfirst_def SORTfndwhich_def BATtdense_def
        SORTfnd_dense_def BUNfirst_def BUNlast_def takeWhile_upt)
qed

lemma slice_member:
  assumes "x \<in> set (drop l (take h xs))" "h \<le> length xs"
  shows "\<exists>i. l \<le> i \<and> i < h \<and> x = xs ! i"
proof -
  obtain k where "k < length (drop l (take h xs))" "x = drop l (take h xs) ! k"
    using assms(1) by (metis in_set_conv_nth)
  then show ?thesis using assms(2) by (intro exI [of _ "l + k"]) auto
qed

lemma doubleslice_ok:
  assumes fits: "cand_fits c" and "l1 \<le> h1" "h1 \<le> l2" "l2 \<le> h2" "h2 \<le> length (tail_oids c)"
  shows "result_ok (take (h1 - l1) (drop l1 (tail_oids c)) @ take (h2 - l2) (drop l2 (tail_oids c)))
    (doubleslice c l1 h1 l2 h2)"
proof -
  let ?os = "tail_oids c"
  let ?r = "take (h1 - l1) (drop l1 ?os) @ take (h2 - l2) (drop l2 ?os)"
  have c: "cand_ok c" and small: "\<forall>x\<in>set ?os. x < oid_nil"
    using fits by (auto simp: cand_fits_def tail_oids_def split: tail.splits)
  have count: "length ?os = batCount c" "batCount c < BUN_NONE"
    using c cand_ok_vals(2) [OF c] by (auto simp: tail_oids_def cand_ok_def column_ok_def split: tail.splits)
  have srt: "sorted_wrt (<) ?os" by (rule cand_sorted [OF c])
  have "sorted_wrt (<) (drop l1 (take h1 ?os) @ drop l2 (take h2 ?os))"
  proof -
    have "x < y" if "x \<in> set (drop l1 (take h1 ?os))" "y \<in> set (drop l2 (take h2 ?os))" for x y
    proof -
      note xy = that
      obtain i j where "l1 \<le> i" "i < h1" "x = ?os ! i" "l2 \<le> j" "j < h2" "y = ?os ! j"
        using slice_member [OF xy(1)] slice_member [OF xy(2)] assms(2-5) by auto
      then show ?thesis using sorted_wrt_nth_less [OF srt, of i j] assms(2-5) by simp
    qed
    moreover have "sorted_wrt (<) (drop l (take h ?os))" for l h by (rule sorted_wrt_drop [OF sorted_wrt_take [OF srt]])
    ultimately show ?thesis unfolding sorted_wrt_append by blast
  qed
  then have "sorted_wrt (<) ?r" by (simp only: drop_take)
  moreover have "length ?r < BUN_NONE" using assms(2-5) count by simp
  moreover have "\<forall>x\<in>set ?r. x < oid_nil" using small by (auto dest: in_set_takeD in_set_dropD)
  ultimately have r: "sorted_wrt (<) ?r" "length ?r < BUN_NONE" "\<forall>x\<in>set ?r. x < oid_nil" by blast+
  show ?thesis
  proof (cases "ttail c")
    case (TVals vs)
    then have "doubleslice c l1 h1 l2 h2 = virtualize (oid_list ?r)"
      by (simp add: doubleslice_def tail_oids_def)
    then show ?thesis using virtualize_ok [OF oid_list_ok [OF r(1,2)] r(3)] by simp
  next
    case (TVoid seq)
    have os: "?os = [seq..<seq + batCount c]" "seq < oid_nil" "seq + batCount c \<le> oid_nil"
      using TVoid c by (auto simp: tail_oids_def cand_ok_def column_ok_def)
    have slices: "take (h1 - l1) (drop l1 ?os) = [l1 + seq..<h1 + seq]" "take (h2 - l2) (drop l2 ?os) = [l2 + seq..<h2 + seq]"
      using assms(2-5) count os(1) by (simp_all add: drop_upt take_upt add.commute)
    show ?thesis
    proof (cases "l1 = h1 \<or> l2 = h2")
      case True
      let ?b = "if l1 = h1 then l2 + seq else l1 + seq" and ?n = "h1 - l1 + (h2 - l2)"
      have n: "doublerange (l1 + seq) (h1 + seq) (l2 + seq) (h2 + seq) = BATdense ?b ?n"
        using True assms(2-4) by (auto simp: doublerange_def)
      have bound: "?b + ?n \<le> seq + batCount c" using assms(2-5) count(1) by auto
      have "seq + batCount c < oid_nil" using fits TVoid by (simp add: cand_fits_def)
      then show ?thesis
        using dense_ok [of ?b ?n] n bound count True assms(2-5) slices TVoid
        by (auto simp: doubleslice_def add.commute [of _ seq] split: if_splits)
    next
      case False
      then show ?thesis
        using oid_list_ok [OF r(1,2)] slices TVoid by (simp add: doubleslice_def doublerange_def)
    qed
  qed
qed

text \<open>The rows of a column of \<open>cnt\<close> rows from \<open>hseq\<close> on that are candidates.\<close>

definition candidates :: "nat \<Rightarrow> nat \<Rightarrow> nat column option \<Rightarrow> nat list" where
  "candidates hseq cnt so =
     (case so of
        None \<Rightarrow> [hseq..<hseq + cnt]
      | Some c \<Rightarrow> filter (\<lambda>x. hseq \<le> x \<and> x < hseq + cnt) (tail_oids c))"

lemma filter_two_ranges:
  assumes "sorted_wrt (<) os" "l1 \<le> h1" "h1 \<le> l2" "l2 \<le> (h2 :: nat)"
  shows "filter (\<lambda>x. l1 \<le> x \<and> x < h1) os @ filter (\<lambda>x. l2 \<le> x \<and> x < h2) os =
    filter (\<lambda>x. l1 \<le> x \<and> x < h1 \<or> l2 \<le> x \<and> x < h2) os"
  using assms(1)
proof (induction os)
  case (Cons x os)
  show ?case
  proof (cases "h1 \<le> x")
    case True
    then have "filter (\<lambda>x. l1 \<le> x \<and> x < h1) os = []" using Cons.prems by (auto simp: filter_empty_conv)
    then show ?thesis using True Cons by auto
  qed (use Cons assms(2-4) in auto)
qed simp

lemma two_slices_ok:
  assumes "cand_fits c" "l1 \<le> h1" "h1 \<le> l2" "l2 \<le> h2" "h2 \<le> cnt" "hseq + cnt < oid_nil"
  shows "result_ok (filter (\<lambda>x. l1 \<le> x - hseq \<and> x - hseq < h1 \<or> l2 \<le> x - hseq \<and> x - hseq < h2)
      (candidates hseq cnt (Some c)))
    (doubleslice c (cand_pos c (l1 + hseq)) (cand_pos c (h1 + hseq)) (cand_pos c (l2 + hseq)) (cand_pos c (h2 + hseq)))"
proof -
  let ?os = "tail_oids c"
  have c: "cand_ok c" using assms(1) by (simp add: cand_fits_def)
  note srt = cand_sorted [OF c]
  have pos: "cand_pos c (k + hseq) = length (takeWhile (\<lambda>y. y < k + hseq) ?os)" if "k \<le> cnt" for k
    using cand_pos_eq [OF c, of "k + hseq"] that assms(6) by simp
  have mono: "cand_pos c (k + hseq) \<le> cand_pos c (m + hseq)" if "k \<le> m" "m \<le> cnt" for k m
    using that length_takeWhile_mono [of "\<lambda>y. y < k + hseq" "\<lambda>y. y < m + hseq" ?os] by (simp add: pos)
  have slice: "take (cand_pos c (m + hseq) - cand_pos c (k + hseq)) (drop (cand_pos c (k + hseq)) ?os) =
    filter (\<lambda>x. k + hseq \<le> x \<and> x < m + hseq) ?os" if "k \<le> m" "m \<le> cnt" for k m
    using sorted_take_drop_filter [OF srt, of "k + hseq" "m + hseq"] that by (simp add: pos)
  have "result_ok (filter (\<lambda>x. l1 + hseq \<le> x \<and> x < h1 + hseq) ?os @ filter (\<lambda>x. l2 + hseq \<le> x \<and> x < h2 + hseq) ?os)
    (doubleslice c (cand_pos c (l1 + hseq)) (cand_pos c (h1 + hseq)) (cand_pos c (l2 + hseq)) (cand_pos c (h2 + hseq)))"
    using doubleslice_ok [OF assms(1) mono [of l1 h1] mono [of h1 l2] mono [of l2 h2]] assms(2-5) slice
      length_takeWhile_le [of _ ?os] by (simp add: pos)
  moreover have "filter (\<lambda>x. l1 + hseq \<le> x \<and> x < h1 + hseq) ?os @ filter (\<lambda>x. l2 + hseq \<le> x \<and> x < h2 + hseq) ?os =
    filter (\<lambda>x. l1 \<le> x - hseq \<and> x - hseq < h1 \<or> l2 \<le> x - hseq \<and> x - hseq < h2) (candidates hseq cnt (Some c))"
    using filter_two_ranges [OF srt, of "l1 + hseq" "h1 + hseq" "l2 + hseq" "h2 + hseq"] assms(2-5)
    by (auto simp: candidates_def intro!: filter_cong)
  ultimately show ?thesis by simp
qed

lemma no_slice:
  assumes "cand_fits c" "l \<le> h" "h \<le> cnt" "hseq + cnt < oid_nil"
  shows "result_ok (filter (\<lambda>x. l \<le> x - hseq \<and> x - hseq < h) (candidates hseq cnt (Some c)))
    (doubleslice c 0 0 (cand_pos c (l + hseq)) (cand_pos c (h + hseq)))"
proof -
  let ?os = "tail_oids c"
  have c: "cand_ok c" using assms(1) by (simp add: cand_fits_def)
  have pos: "cand_pos c (k + hseq) = length (takeWhile (\<lambda>y. y < k + hseq) ?os)" if "k \<le> cnt" for k
    using cand_pos_eq [OF c, of "k + hseq"] that assms(4) by simp
  have "cand_pos c (l + hseq) \<le> cand_pos c (h + hseq)"
    using assms(2,3) length_takeWhile_mono [of "\<lambda>y. y < l + hseq" "\<lambda>y. y < h + hseq" ?os] by (simp add: pos)
  from doubleslice_ok [OF assms(1) order_refl _ this, of 0]
  have "result_ok (filter (\<lambda>x. l + hseq \<le> x \<and> x < h + hseq) ?os)
    (doubleslice c 0 0 (cand_pos c (l + hseq)) (cand_pos c (h + hseq)))"
    using sorted_take_drop_filter [OF cand_sorted [OF c], of "l + hseq" "h + hseq"] assms(2,3)
      length_takeWhile_le [of _ ?os] by (simp add: pos)
  moreover have "filter (\<lambda>x. l + hseq \<le> x \<and> x < h + hseq) ?os =
    filter (\<lambda>x. l \<le> x - hseq \<and> x - hseq < h) (candidates hseq cnt (Some c))"
    using assms(2,3) by (auto simp: candidates_def intro!: filter_cong)
  ultimately show ?thesis by simp
qed

lemma all_rows:
  assumes "hseq + cnt < oid_nil" "cnt < BUN_NONE"
  shows "cand_fits (BATdense hseq cnt)" "candidates hseq cnt (Some (BATdense hseq cnt)) = candidates hseq cnt None"
    "k \<le> cnt \<Longrightarrow> cand_pos (BATdense hseq cnt) (k + hseq) = k"
proof -
  show fits: "cand_fits (BATdense hseq cnt)"
    using dense_ok [of hseq cnt] assms by (simp add: cand_fits_def result_ok_def BATdense_def)
  have os: "tail_oids (BATdense hseq cnt) = [hseq..<hseq + cnt]" by (simp add: tail_oids_def BATdense_def)
  then show "candidates hseq cnt (Some (BATdense hseq cnt)) = candidates hseq cnt None"
    by (auto simp: candidates_def)
  show "cand_pos (BATdense hseq cnt) (k + hseq) = k" if "k \<le> cnt"
    using cand_pos_eq [of "BATdense hseq cnt" "k + hseq"] fits that assms(1) os
    by (simp add: cand_fits_def takeWhile_upt)
qed

section \<open>Detecting the order\<close>

context atom_order
begin

abbreviation ascending :: "'a list \<Rightarrow> bool" where
  "ascending \<equiv> sorted_wrt (\<lambda>x y. cmp x y \<le> 0)"

abbreviation descending_list :: "'a list \<Rightarrow> bool" where
  "descending_list \<equiv> sorted_wrt (\<lambda>x y. 0 \<le> cmp x y)"

lemma ascending_Cons2: "ascending (x # y # ys) \<longleftrightarrow> cmp x y \<le> 0 \<and> ascending (y # ys)"
  by (intro sorted_wrt2 transpI) (rule cmp_trans)

lemma descending_Cons2: "descending_list (x # y # ys) \<longleftrightarrow> 0 \<le> cmp x y \<and> descending_list (y # ys)"
  by (intro sorted_wrt2 transpI) (rule cmp_ge_trans)

lemma order_scan_ok:
  assumes "0 < p" "order_scan cmp rv p x ys nr = (ns, nr')"
  shows "(ns = 0 \<longleftrightarrow> ascending (x # ys)) \<and> (nr \<noteq> 0 \<or> rv \<longrightarrow> nr' = nr) \<and>
    (nr = 0 \<longrightarrow> nr' \<noteq> 0 \<longrightarrow> \<not> descending_list (x # ys)) \<and>
    (ns = 0 \<longrightarrow> nr' = 0 \<longrightarrow> \<not> rv \<longrightarrow> descending_list (x # ys))"
  using assms
proof (induction ys arbitrary: p x nr)
  case (Cons y ys)
  show ?case
  proof (cases "0 < cmp x y")
    case True
    then have "ns = p" "nr' = nr" using Cons.prems(2) by auto
    then show ?thesis using True Cons.prems(1) by (simp add: ascending_Cons2)
  next
    case False
    define nr1 where "nr1 = (if \<not> rv \<and> nr = 0 \<and> cmp x y < 0 then p else nr)"
    have IH: "(ns = 0 \<longleftrightarrow> ascending (y # ys)) \<and> (nr1 \<noteq> 0 \<or> rv \<longrightarrow> nr' = nr1) \<and>
      (nr1 = 0 \<longrightarrow> nr' \<noteq> 0 \<longrightarrow> \<not> descending_list (y # ys)) \<and>
      (ns = 0 \<longrightarrow> nr' = 0 \<longrightarrow> \<not> rv \<longrightarrow> descending_list (y # ys))"
      using Cons.prems False by (intro Cons.IH [of "Suc p"]) (simp_all add: nr1_def)
    have asc: "ascending (x # y # ys) \<longleftrightarrow> ascending (y # ys)" using False by (simp only: ascending_Cons2) linarith
    show ?thesis
      using IH Cons.prems(1) False unfolding asc descending_Cons2
      by (auto simp: nr1_def split: if_splits)
  qed
qed auto

lemma rev_scan_ok: "0 < p \<Longrightarrow> rev_scan cmp p x ys = 0 \<longleftrightarrow> descending_list (x # ys)"
proof (induction ys arbitrary: p x)
  case (Cons y ys)
  then show ?case unfolding descending_Cons2 by (simp add: not_less)
qed simp

end

text \<open>A column whose descriptor is true, evidence included.\<close>

definition select_column :: "'a seltype \<Rightarrow> ('a \<Rightarrow> bool) \<Rightarrow> 'a obat \<Rightarrow> bool" where
  "select_column T valid b \<longleftrightarrow>
     batFirst b + batCount b < BUN_NONE \<and> hseqbase b + batCount b < oid_nil \<and>
     flags_ok (scmp T) (oid_val T) (snil T) b \<and> (\<forall>v\<in>set (BATvals (oid_val T) (snil T) b). valid v) \<and>
     (case ttail b of
        TVoid seq \<Rightarrow> is_oid T \<and> tsorted b \<and> (seq = oid_nil \<or> seq + batCount b \<le> oid_nil \<and> tnonil b)
      | TVals vs \<Rightarrow>
          (nosorted b \<noteq> 0 \<longrightarrow> \<not> sorted_wrt (\<lambda>x y. scmp T x y \<le> 0) vs) \<and>
          (norevsorted b \<noteq> 0 \<longrightarrow> \<not> sorted_wrt (\<lambda>x y. 0 \<le> scmp T x y) vs))"

text \<open>What detecting the order leaves of a column.\<close>

definition same_rows :: "'a obat \<Rightarrow> 'a obat \<Rightarrow> bool" where
  "same_rows b b' \<longleftrightarrow>
     batFirst b' = batFirst b \<and> batCount b' = batCount b \<and> ttail b' = ttail b \<and> tkey b' = tkey b \<and>
     hseqbase b' = hseqbase b \<and> tnonil b' = tnonil b \<and> tnil b' = tnil b"

lemma same_rows_vals: "same_rows b b' \<Longrightarrow> BATvals f n b' = BATvals f n b"
  by (simp add: same_rows_def BATvals_def split: tail.splits)

context seltype_ok
begin

lemma BATordered_ok:
  assumes "select_column T dom b" "BATordered (scmp T) b = (r, b')"
  shows "select_column T dom b'" "same_rows b b'" "r \<Longrightarrow> tsorted b'"
    "r \<longleftrightarrow> (case ttail b of TVoid _ \<Rightarrow> True | TVals vs \<Rightarrow> ascending vs)"
proof -
  have "select_column T dom b' \<and> same_rows b b' \<and> (r \<longrightarrow> tsorted b') \<and>
    (r \<longleftrightarrow> (case ttail b of TVoid _ \<Rightarrow> True | TVals vs \<Rightarrow> ascending vs))"
  proof (cases "ttail b")
    case (TVoid seq)
    then show ?thesis using assms by (auto simp: BATordered_def same_rows_def select_column_def)
  next
    case (TVals vs)
    have col: "nosorted b \<noteq> 0 \<longrightarrow> \<not> ascending vs" "norevsorted b \<noteq> 0 \<longrightarrow> \<not> descending_list vs"
      "tsorted b \<longrightarrow> ascending vs" "trevsorted b \<longrightarrow> descending_list vs"
      using assms(1) TVals by (auto simp: select_column_def flags_ok_def BATvals_def)
    show ?thesis
    proof (cases "\<not> tsorted b \<and> nosorted b = 0")
      case False
      then show ?thesis using assms TVals col by (auto simp: BATordered_def same_rows_def)
    next
      case True
      define sc where "sc = (case vs of [] \<Rightarrow> (0, norevsorted b)
        | x # xs \<Rightarrow> order_scan (scmp T) (trevsorted b) (batFirst b + 1) x xs (norevsorted b))"
      obtain ns nr where sc': "sc = (ns, nr)" by (cases sc)
      have scan: "(ns = 0 \<longleftrightarrow> ascending vs) \<and> (norevsorted b \<noteq> 0 \<or> trevsorted b \<longrightarrow> nr = norevsorted b) \<and>
        (norevsorted b = 0 \<longrightarrow> nr \<noteq> 0 \<longrightarrow> \<not> descending_list vs) \<and>
        (ns = 0 \<longrightarrow> nr = 0 \<longrightarrow> \<not> trevsorted b \<longrightarrow> descending_list vs)"
      proof (cases vs)
        case (Cons x xs)
        then show ?thesis
          using order_scan_ok [of "batFirst b + 1" "trevsorted b" x xs "norevsorted b" ns nr] sc' by (simp add: sc_def)
      qed (use sc' in \<open>auto simp: sc_def\<close>)
      have b': "b' = (if ns \<noteq> 0 then b\<lparr>nosorted := ns, norevsorted := nr\<rparr>
          else b\<lparr>norevsorted := nr, tsorted := True, trevsorted := trevsorted b \<or> nr = 0\<rparr>)" "r = tsorted b'"
        using assms(2) True TVals sc' unfolding sc_def by (auto simp: BATordered_def Let_def split: if_splits)
      have nr: "nr \<noteq> 0 \<longrightarrow> \<not> descending_list vs" using scan col(2) by auto
      have same: "same_rows b b'" by (simp add: b'(1) same_rows_def)
      have tail: "ttail b' = TVals vs" using same TVals by (simp add: same_rows_def)
      have "select_column T dom b'"
        using assms(1) TVals scan nr col tail same same_rows_vals [OF same, of "oid_val T" "snil T"] True b'(1)
        by (auto simp: select_column_def flags_ok_def same_rows_def BATvals_def split: if_splits)
      then show ?thesis using same b' TVals scan True by auto
    qed
  qed
  then show "select_column T dom b'" "same_rows b b'" "r \<Longrightarrow> tsorted b'"
    "r \<longleftrightarrow> (case ttail b of TVoid _ \<Rightarrow> True | TVals vs \<Rightarrow> ascending vs)" by blast+
qed

lemma BATordered_rev_ok:
  assumes "select_column T dom b" "BATordered_rev (scmp T) b = (r, b')"
  shows "select_column T dom b'" "same_rows b b'" "ttail b = TVals vs \<Longrightarrow> r \<longleftrightarrow> trevsorted b'"
proof -
  have "select_column T dom b' \<and> same_rows b b' \<and> (\<forall>vs. ttail b = TVals vs \<longrightarrow> r = trevsorted b')"
  proof (cases "ttail b")
    case (TVoid seq)
    then show ?thesis using assms by (auto simp: BATordered_rev_def same_rows_def)
  next
    case (TVals vs)
    show ?thesis
    proof (cases "\<not> trevsorted b \<and> norevsorted b = 0")
      case False
      then show ?thesis using assms TVals by (auto simp: BATordered_rev_def same_rows_def)
    next
      case True
      define nr where "nr = (case vs of [] \<Rightarrow> 0 | x # xs \<Rightarrow> rev_scan (scmp T) (batFirst b + 1) x xs)"
      have nr: "nr = 0 \<longleftrightarrow> descending_list vs"
        using rev_scan_ok [of "batFirst b + 1"] by (cases vs) (auto simp: nr_def)
      have b': "b' = (if nr \<noteq> 0 then b\<lparr>norevsorted := nr\<rparr> else b\<lparr>trevsorted := True\<rparr>)" "r = trevsorted b'"
        using assms(2) True TVals unfolding nr_def by (auto simp: BATordered_rev_def Let_def split: if_splits)
      then have "select_column T dom b'"
        using assms(1) TVals nr by (auto simp: select_column_def flags_ok_def BATvals_def)
      then show ?thesis using b' by (auto simp: same_rows_def)
    qed
  qed
  then show "select_column T dom b'" "same_rows b b'" "ttail b = TVals vs \<Longrightarrow> r \<longleftrightarrow> trevsorted b'" by blast+
qed

end

end
