(* ===== verification/Gdk_Select_Result.thy ===== *)
theory Gdk_Select_Result
  imports Gdk_Select_Rows
begin

text \<open>
  Searching an ordered column: the two positions that binary search, or arithmetic on a dense
  column, gives for the bounds of a range, and the rows before, between and after them.
\<close>

section \<open>Positions in an ordered column\<close>

lemma takeWhile_mono_iff:
  assumes "\<And>i j. i \<le> j \<Longrightarrow> j < length xs \<Longrightarrow> P (xs ! j) \<Longrightarrow> P (xs ! i)" "i < length xs"
  shows "i < length (takeWhile P xs) \<longleftrightarrow> P (xs ! i)"
proof
  assume "i < length (takeWhile P xs)"
  then show "P (xs ! i)" by (metis nth_mem set_takeWhileD takeWhile_nth)
next
  assume P: "P (xs ! i)"
  show "i < length (takeWhile P xs)"
  proof (rule ccontr)
    assume "\<not> i < length (takeWhile P xs)"
    then have "length (takeWhile P xs) \<le> i" "length (takeWhile P xs) < length xs" using assms(2) by simp_all
    then show False using nth_length_takeWhile [of P xs] assms(1) [of "length (takeWhile P xs)" i] assms(2) P by simp
  qed
qed

context seltype_ok
begin

abbreviation vals :: "'a obat \<Rightarrow> 'a list" where
  "vals b \<equiv> BATvals (oid_val T) (snil T) b"

lemma vals_length: "select_column T dom b \<Longrightarrow> length (vals b) = batCount b"
  by (simp add: select_column_def flags_ok_def)

lemma vals_dom: "select_column T dom b \<Longrightarrow> i < batCount b \<Longrightarrow> dom (vals b ! i)"
  using vals_length [of b] by (auto simp: select_column_def)

lemma vals_ordered:
  assumes "select_column T dom b" "i \<le> j" "j < batCount b"
  shows "tsorted b \<Longrightarrow> scmp T (vals b ! i) (vals b ! j) \<le> 0" "trevsorted b \<Longrightarrow> 0 \<le> scmp T (vals b ! i) (vals b ! j)"
proof -
  have "tsorted b \<Longrightarrow> i < j \<Longrightarrow> scmp T (vals b ! i) (vals b ! j) \<le> 0"
    "trevsorted b \<Longrightarrow> i < j \<Longrightarrow> 0 \<le> scmp T (vals b ! i) (vals b ! j)"
    using assms sorted_wrt_nth_less [of _ "vals b" i j] by (auto simp: select_column_def flags_ok_def)
  then show "tsorted b \<Longrightarrow> scmp T (vals b ! i) (vals b ! j) \<le> 0" "trevsorted b \<Longrightarrow> 0 \<le> scmp T (vals b ! i) (vals b ! j)"
    using assms(2) by (cases "i = j"; simp)+
qed

lemma column_ok_truncate:
  "select_column T dom b \<Longrightarrow> ttail b = TVals vs \<Longrightarrow> column_ok (scmp T) (column.truncate b)"
  by (auto simp: select_column_def flags_ok_def column_ok_def BATvals_def column.defs)

definition in_order :: "'a obat \<Rightarrow> bool" where
  "in_order b \<longleftrightarrow> tsorted b \<or> trevsorted b"

text \<open>How a value compares with another in the order of the column.\<close>

definition dir :: "'a obat \<Rightarrow> 'a \<Rightarrow> 'a \<Rightarrow> int" where
  "dir b x v = (if tsorted b then scmp T x v else - scmp T x v)"

lemma fnd_vals:
  assumes b: "select_column T dom b" and "in_order b" "ttail b = TVals vs" "i < batCount b"
  shows "i < fndfirst T b v \<longleftrightarrow> dir b (vals b ! i) v < 0" "i < fndlast T b v \<longleftrightarrow> dir b (vals b ! i) v \<le> 0"
    "fndfirst T b v \<le> batCount b" "fndlast T b v \<le> batCount b"
proof -
  let ?c = "column.truncate b"
  have c: "column_ok (scmp T) ?c" "ttail ?c = TVals vs" "tsorted ?c \<or> trevsorted ?c" "batFirst ?c = batFirst b"
    "tsorted ?c = tsorted b"
    using column_ok_truncate [OF b assms(3)] assms(2,3) by (simp_all add: in_order_def column.defs)
  have vs: "vals b = vs" "length vs = batCount b" using vals_length [OF b] assms(3) by (simp_all add: BATvals_def)
  have first: "fndfirst T b v = length (takeWhile (before (scmp T) ?c v) vs)"
    using which_first [OF c(1-3), of "val_oid T" v] c(4) by (simp add: fndfirst_def SORTfndfirst_def)
  have last: "fndlast T b v = length (takeWhile (not_after (scmp T) ?c v) vs)"
    using which_last [OF c(1-3), of "val_oid T" v] c(4) by (simp add: fndlast_def SORTfndlast_def)
  have P: "before (scmp T) ?c v x \<longleftrightarrow> dir b x v < 0" "not_after (scmp T) ?c v x \<longleftrightarrow> dir b x v \<le> 0" for x
    using c(5) by (auto simp: before_def not_after_def dir_def)
  have mono: "dir b (vs ! i) v < 0" if "i \<le> j" "j < length vs" "dir b (vs ! j) v < 0" for i j
    using vals_ordered [OF b that(1)] that(2,3) vs assms(2) cmp_le_lt_trans [of "vs ! i" "vs ! j" v]
      cmp_lt_le_trans [of v "vs ! j" "vs ! i"] cmp_swap [of v] cmp_le_swap [of "vs ! j" "vs ! i"]
    by (auto simp: dir_def in_order_def split: if_splits)
  have mono': "dir b (vs ! i) v \<le> 0" if "i \<le> j" "j < length vs" "dir b (vs ! j) v \<le> 0" for i j
    using vals_ordered [OF b that(1)] that(2,3) vs assms(2) cmp_trans [of "vs ! i" "vs ! j" v]
      cmp_ge_trans [of "vs ! i" "vs ! j" v]
    by (auto simp: dir_def in_order_def split: if_splits)
  show "i < fndfirst T b v \<longleftrightarrow> dir b (vals b ! i) v < 0" "i < fndlast T b v \<longleftrightarrow> dir b (vals b ! i) v \<le> 0"
    using takeWhile_mono_iff [of vs "before (scmp T) ?c v" i] takeWhile_mono_iff [of vs "not_after (scmp T) ?c v" i]
      mono mono' assms(4) vs unfolding first last P by auto
  show "fndfirst T b v \<le> batCount b" "fndlast T b v \<le> batCount b"
    unfolding first last vs(2) [symmetric] by (rule length_takeWhile_le)+
qed

lemma fnd_void:
  assumes b: "select_column T dom b" and "ttail b = TVoid seq" "i < batCount b" "dom v"
  shows "i < fndfirst T b v \<longleftrightarrow> dir b (vals b ! i) v < 0" "i < fndlast T b v \<longleftrightarrow> dir b (vals b ! i) v \<le> 0"
    "fndfirst T b v \<le> batCount b" "fndlast T b v \<le> batCount b"
proof -
  have t: "is_oid T" "tsorted b" "seq = oid_nil \<or> seq + batCount b \<le> oid_nil"
    using b assms(2) by (auto simp: select_column_def)
  have nv: "isnil v \<longleftrightarrow> val_oid T v = oid_nil"
    using oid_of_nil [OF t(1) assms(4)] oid_range [OF t(1) assms(4)] by (metis less_irrefl)
  have "i < fndfirst T b v \<longleftrightarrow> dir b (vals b ! i) v < 0" "i < fndlast T b v \<longleftrightarrow> dir b (vals b ! i) v \<le> 0"
    "fndfirst T b v \<le> batCount b" "fndlast T b v \<le> batCount b" if nil: "seq = oid_nil"
  proof -
    have x: "dir b (vals b ! i) v = scmp T (snil T) v" using nil assms(2,3) t(2) by (simp add: BATvals_def dir_def)
    have le: "scmp T (snil T) v \<le> 0" by (rule nil_least [OF assms(4)])
    have f: "fndfirst T b v = (if isnil v then 0 else batCount b)" "fndlast T b v = batCount b"
      using nil assms(2) t(2) nv by (simp_all add: fndfirst_def fndlast_def SORTfndfirst_def SORTfndlast_def
          SORTfndwhich_def BATtdense_def SORTfnd_nilvoid_def column.defs BUNfirst_def BUNlast_def)
    have "isnil v \<longleftrightarrow> scmp T (snil T) v = 0" by (rule cmp_eq_swap)
    then show "i < fndfirst T b v \<longleftrightarrow> dir b (vals b ! i) v < 0" "i < fndlast T b v \<longleftrightarrow> dir b (vals b ! i) v \<le> 0"
      "fndfirst T b v \<le> batCount b" "fndlast T b v \<le> batCount b"
      using x le f assms(3) by auto
  qed
  moreover have "i < fndfirst T b v \<longleftrightarrow> dir b (vals b ! i) v < 0" "i < fndlast T b v \<longleftrightarrow> dir b (vals b ! i) v \<le> 0"
    "fndfirst T b v \<le> batCount b" "fndlast T b v \<le> batCount b" if dense: "seq \<noteq> oid_nil"
  proof -
    have x: "dir b (vals b ! i) v = scmp T (oid_val T (seq + i)) v"
      using dense assms(2,3) t(2) by (simp add: BATvals_def dir_def)
    have less: "seq + i < oid_nil" using dense t(3) assms(3) by simp
    have f: "fndfirst T b v = (if val_oid T v < seq \<or> isnil v then 0 else min (batCount b) (val_oid T v - seq))"
      "fndlast T b v = (if val_oid T v < seq \<or> isnil v then 0 else min (batCount b) (Suc (val_oid T v) - seq))"
      using dense assms(2) t(2) nv by (auto simp: fndfirst_def fndlast_def SORTfndfirst_def SORTfndlast_def
          SORTfndwhich_def BATtdense_def SORTfnd_dense_def column.defs BUNfirst_def BUNlast_def)
    show "i < fndfirst T b v \<longleftrightarrow> dir b (vals b ! i) v < 0" "i < fndlast T b v \<longleftrightarrow> dir b (vals b ! i) v \<le> 0"
    proof -
      have "i < fndfirst T b v \<longleftrightarrow> dir b (vals b ! i) v < 0" "i < fndlast T b v \<longleftrightarrow> dir b (vals b ! i) v \<le> 0" if "\<not> isnil v"
        using oid_cmp [OF t(1) assms(4) that less] that f x assms(3)
        by (auto simp: sgn_if simple_CMP_def split: if_splits)
      moreover have "0 < scmp T (oid_val T (seq + i)) v" if "isnil v"
        using oid_dom [OF t(1) less] not_nil_less [of "oid_val T (seq + i)"] cmp_0_left [OF that, of "oid_val T (seq + i)"]
          cmp_swap [of v "oid_val T (seq + i)"] by (auto simp: sgn_if split: if_splits)
      ultimately show "i < fndfirst T b v \<longleftrightarrow> dir b (vals b ! i) v < 0" "i < fndlast T b v \<longleftrightarrow> dir b (vals b ! i) v \<le> 0"
        using f x by fastforce+
    qed
    show "fndfirst T b v \<le> batCount b" "fndlast T b v \<le> batCount b" using f by auto
  qed
  ultimately show "i < fndfirst T b v \<longleftrightarrow> dir b (vals b ! i) v < 0" "i < fndlast T b v \<longleftrightarrow> dir b (vals b ! i) v \<le> 0"
    "fndfirst T b v \<le> batCount b" "fndlast T b v \<le> batCount b" by blast+
qed

lemma fnd_ok:
  assumes "select_column T dom b" "in_order b" "i < batCount b" "dom v"
  shows "i < fndfirst T b v \<longleftrightarrow> dir b (vals b ! i) v < 0" "i < fndlast T b v \<longleftrightarrow> dir b (vals b ! i) v \<le> 0"
    "fndfirst T b v \<le> batCount b" "fndlast T b v \<le> batCount b"
  using fnd_vals [OF assms(1,2) _ assms(3), of _ v] fnd_void [OF assms(1) _ assms(3,4)] by (cases "ttail b"; blast)+

section \<open>The rows of an ordered column\<close>

text \<open>The halves of the test, with nil out of every range.\<close>

definition from_lo :: "'a selstate \<Rightarrow> 'a \<Rightarrow> bool" where
  "from_lo s x \<longleftrightarrow> (if s_lval s then above_lo s x else \<not> isnil x)"

lemma above_not_isnil: "dom y \<Longrightarrow> dom x \<Longrightarrow> \<not> isnil y \<Longrightarrow> scmp T y x \<le> 0 \<Longrightarrow> \<not> isnil x"
  using not_nil_mono by blast

lemma halves_overlap:
  assumes "bounds_ok s" "dom x" "\<not> from_lo s x"
  shows "below_up s x"
proof -
  consider "s_equi s" | "s_anti s" "\<not> s_equi s" | "\<not> s_anti s" "\<not> s_equi s" by blast
  then show ?thesis
  proof cases
    case 1
    then have "0 < scmp T (lo s) x" "scmp T (lo s) (up s) = 0"
      using assms(1,3) by (auto simp: bounds_ok_def from_lo_def above_lo_def)
    then show ?thesis using cmp_0_left [of "lo s" "up s" x] by (auto simp: below_up_def sgn_if split: if_splits)
  next
    case 2
    then have b: "s_lval s" "scmp T (lo s) (up s) < 0 \<or> scmp T (lo s) (up s) = 0 \<and> s_li s \<and> s_hi s"
      using assms(1) by (auto simp: bounds_ok_def)
    have x: "scmp T x (lo s) \<le> 0" "s_li s \<longrightarrow> scmp T x (lo s) < 0"
      using assms(3) b(1) cmp_le_swap [of x "lo s"] cmp_swap [of x "lo s"] by (auto simp: from_lo_def above_lo_def)
    have "scmp T x (up s) < 0"
      using b(2) cmp_le_lt_trans [OF x(1), of "up s"] cmp_lt_le_trans [of x "lo s" "up s"] x(2) by auto
    then show ?thesis using cmp_swap [of x "up s"] by (simp add: below_up_def)
  next
    case 3
    have "0 < scmp T (up s) x" if "s_hval s" "isnil x"
      using assms(1) that 3 not_nil_less [of "up s"] cmp_swap [of "up s" x] cmp_0_left [OF that(2), of "up s"]
        cmp_swap [of x "up s"] by (auto simp: bounds_ok_def sgn_if split: if_splits)
    moreover have "below_up s x" if "\<not> isnil x"
      using assms that 3 by (auto simp: bounds_ok_def covers_def from_lo_def split: if_splits)
    ultimately show ?thesis by (auto simp: below_up_def)
  qed
qed

lemma halves_test:
  assumes "bounds_ok s" "dom x"
  shows "\<not> s_anti s \<Longrightarrow> from_lo s x \<and> below_up s x \<longleftrightarrow> any_test T s x"
    "s_anti s \<Longrightarrow> \<not> isnil x \<and> \<not> from_lo s x \<or> \<not> below_up s x \<longleftrightarrow> any_test T s x"
    "s_anti s \<Longrightarrow> \<not> below_up s x \<Longrightarrow> \<not> isnil x" "s_anti s \<Longrightarrow> isnil x \<Longrightarrow> \<not> from_lo s x"
proof -
  have nil: "\<not> isnil x" if "\<not> s_equi s" "s_lval s" "above_lo s x"
    using assms that above_not_isnil [of "lo s" x] by (auto simp: bounds_ok_def above_lo_def)
  show "from_lo s x \<and> below_up s x \<longleftrightarrow> any_test T s x" if "\<not> s_anti s"
  proof (cases "s_equi s")
    case True
    then have e: "s_lval s" "s_hval s" "s_li s" "s_hi s" "scmp T (lo s) (up s) = 0"
      using assms(1) by (auto simp: bounds_ok_def)
    then show ?thesis using True cmp_0_left [OF e(5), of x]
      by (auto simp: from_lo_def above_lo_def below_up_def any_test_def sgn_if split: if_splits)
  next
    case False
    then show ?thesis using that nil by (auto simp: from_lo_def above_lo_def below_up_def any_test_def)
  qed
  show up_nil: "\<not> isnil x" if "s_anti s" "\<not> below_up s x"
  proof -
    have "s_hval s" "dom (up s)" "\<not> isnil (up s)" "scmp T (up s) x \<le> 0"
      using assms(1) that by (auto simp: bounds_ok_def below_up_def)
    then show ?thesis using above_not_isnil [of "up s" x] assms(2) by blast
  qed
  show "\<not> from_lo s x" if "s_anti s" "isnil x"
    using that nil assms(1) by (auto simp: from_lo_def bounds_ok_def)
  show "\<not> isnil x \<and> \<not> from_lo s x \<or> \<not> below_up s x \<longleftrightarrow> any_test T s x" if "s_anti s"
  proof -
    have "s_lval s" "s_hval s" "\<not> s_equi s" using assms(1) that by (auto simp: bounds_ok_def)
    then show ?thesis using that up_nil
      by (auto simp: from_lo_def above_lo_def below_up_def any_test_def)
  qed
qed

definition order_bounds :: "'a obat \<Rightarrow> 'a selstate \<Rightarrow> nat \<times> nat" where
  "order_bounds b s =
     (case ttail b of
        TVoid seq \<Rightarrow> if seq \<noteq> oid_nil then dense_bounds T b seq s else sorted_bounds T b s
      | TVals _ \<Rightarrow> sorted_bounds T b s)"

text \<open>What the two positions mean: the rows before \<open>low\<close> and those from \<open>high\<close> on.\<close>

definition bounds_rows :: "'a obat \<Rightarrow> 'a selstate \<Rightarrow> nat \<Rightarrow> nat \<Rightarrow> bool" where
  "bounds_rows b s low high \<longleftrightarrow>
     low \<le> batCount b \<and> high \<le> batCount b \<and>
     (\<forall>i<batCount b.
        if tsorted b then (low \<le> i \<longleftrightarrow> from_lo s (vals b ! i)) \<and> (i < high \<longleftrightarrow> below_up s (vals b ! i))
        else (low \<le> i \<longleftrightarrow> below_up s (vals b ! i)) \<and> (i < high \<longleftrightarrow> from_lo s (vals b ! i)))"

lemma fnd_le:
  assumes "select_column T dom b" "in_order b" "dom v" "0 < batCount b"
  shows "fndfirst T b v \<le> batCount b" "fndlast T b v \<le> batCount b"
  using fnd_ok(3,4) [OF assms(1,2,4,3)] .

lemma dir_simps:
  "tsorted b \<Longrightarrow> dir b x v < 0 \<longleftrightarrow> 0 < scmp T v x" "tsorted b \<Longrightarrow> dir b x v \<le> 0 \<longleftrightarrow> 0 \<le> scmp T v x"
  "\<not> tsorted b \<Longrightarrow> dir b x v < 0 \<longleftrightarrow> scmp T v x < 0" "\<not> tsorted b \<Longrightarrow> dir b x v \<le> 0 \<longleftrightarrow> scmp T v x \<le> 0"
  using cmp_swap [of x v] cmp_swap [of v x] cmp_le_swap [of x v] cmp_le_swap [of v x] by (auto simp: dir_def)

lemma sorted_bounds_rows:
  assumes b: "select_column T dom b" "in_order b" "0 < batCount b" and s: "bounds_ok s"
  shows "bounds_rows b s (fst (sorted_bounds T b s)) (snd (sorted_bounds T b s))"
proof -
  have d: "dom (lo s)" "dom (up s)" using s by (simp_all add: bounds_ok_def)
  note le = fnd_le [OF b(1,2) _ b(3)]
  have nil: "isnil (vals b ! i) \<longleftrightarrow> 0 \<le> scmp T (snil T) (vals b ! i)" if "i < batCount b" for i
    using not_nil_less [OF vals_dom [OF b(1) that]] by (simp add: not_le [symmetric])
  note fnd = fnd_ok(1,2) [OF b(1,2)]
  have ge: "k \<le> i \<longleftrightarrow> \<not> i < k" for k i :: nat by linarith
  have first: "i < fndfirst T b v \<longleftrightarrow> (if tsorted b then 0 < scmp T v (vals b ! i) else scmp T v (vals b ! i) < 0)"
    if "i < batCount b" "dom v" for i v
    using fnd(1) [OF that] dir_simps [of b "vals b ! i" v] by simp
  have last: "i < fndlast T b v \<longleftrightarrow> (if tsorted b then 0 \<le> scmp T v (vals b ! i) else scmp T v (vals b ! i) \<le> 0)"
    if "i < batCount b" "dom v" for i v
    using fnd(2) [OF that] dir_simps [of b "vals b ! i" v] by simp
  show ?thesis
    unfolding bounds_rows_def
  proof (intro conjI allI impI)
    show "fst (sorted_bounds T b s) \<le> batCount b" "snd (sorted_bounds T b s) \<le> batCount b"
      using le [OF d(1)] le [OF d(2)] le [OF dom_nil] by (auto simp: sorted_bounds_def)
    fix i assume i: "i < batCount b"
    have neg: "\<not> 0 < a \<longleftrightarrow> a < 0 \<or> a = 0" "\<not> 0 \<le> a \<longleftrightarrow> a < 0" "\<not> a < 0 \<longleftrightarrow> 0 < a \<or> a = 0" "\<not> a \<le> 0 \<longleftrightarrow> 0 < a"
      "a \<le> 0 \<longleftrightarrow> a < 0 \<or> a = 0" "0 \<le> a \<longleftrightarrow> 0 < a \<or> a = 0" for a :: int by linarith+
    show "if tsorted b
      then (fst (sorted_bounds T b s) \<le> i \<longleftrightarrow> from_lo s (vals b ! i)) \<and> (i < snd (sorted_bounds T b s) \<longleftrightarrow> below_up s (vals b ! i))
      else (fst (sorted_bounds T b s) \<le> i \<longleftrightarrow> below_up s (vals b ! i)) \<and> (i < snd (sorted_bounds T b s) \<longleftrightarrow> from_lo s (vals b ! i))"
      using i nil [OF i]
      by (cases "tsorted b"; cases "s_lval s"; cases "s_hval s")
        (auto simp: sorted_bounds_def ge first last d dom_nil from_lo_def above_lo_def below_up_def)
  qed
qed


lemma dense_bounds_rows:
  assumes b: "select_column T dom b" "ttail b = TVoid seq" "seq \<noteq> oid_nil"
    and s: "bounds_ok s" "closed s" "\<not> isnil (lo s)" "\<not> isnil (up s)"
  shows "bounds_rows b s (fst (dense_bounds T b seq s)) (snd (dense_bounds T b seq s))"
proof -
  have t: "is_oid T" "tsorted b" "seq + batCount b \<le> oid_nil" using b by (auto simp: select_column_def)
  have d: "dom (lo s)" "dom (up s)" using s(1) by (simp_all add: bounds_ok_def)
  have c: "s_lval s" "s_hval s" "s_li s = (\<not> s_anti s)" "s_hi s = (\<not> s_anti s)" using s(2) by (simp_all add: closed_def)
  have halves: "(from_lo s (vals b ! i) \<longleftrightarrow> val_oid T (lo s) + (if s_li s then 0 else 1) \<le> seq + i) \<and>
      (below_up s (vals b ! i) \<longleftrightarrow> seq + i < val_oid T (up s) + (if s_hi s then 1 else 0))" if i: "i < batCount b" for i
  proof -
    have x: "vals b ! i = oid_val T (seq + i)" using b i by (simp add: BATvals_def)
    have less: "seq + i < oid_nil" using i t(3) by simp
    note cmp = oid_cmp [OF t(1) d(1) s(3) less] oid_cmp [OF t(1) d(2) s(4) less]
    have flip: "scmp T v y < 0 \<longleftrightarrow> 0 < scmp T y v" "0 < scmp T v y \<longleftrightarrow> scmp T y v < 0" "scmp T v y = 0 \<longleftrightarrow> scmp T y v = 0" for v y
      using cmp_swap [of v y] cmp_swap [of y v] cmp_eq_swap [of v y] by auto
    show ?thesis using cmp c unfolding x from_lo_def above_lo_def below_up_def flip [of "lo s"] flip [of "up s"]
      by (auto simp: sgn_if simple_CMP_def split: if_splits)
  qed
  have "\<not> from_lo s (vals b ! i) \<Longrightarrow> below_up s (vals b ! i)" if "i < batCount b" for i
    using halves_overlap [OF s(1) vals_dom [OF b(1) that]] .
  then show ?thesis using halves t(2)
    by (fastforce simp: bounds_rows_def dense_bounds_def Let_def)
qed

lemma order_bounds_rows:
  assumes b: "select_column T dom b" "in_order b" "0 < batCount b" and s: "bounds_ok s" "normal T \<longrightarrow> closed s"
    and nil: "s_equi s \<longrightarrow> isnil (lo s) \<longrightarrow> \<not> tnonil b"
  shows "bounds_rows b s (fst (order_bounds b s)) (snd (order_bounds b s))"
proof (cases "\<exists>seq. ttail b = TVoid seq \<and> seq \<noteq> oid_nil")
  case True
  then obtain seq where seq: "ttail b = TVoid seq" "seq \<noteq> oid_nil" by blast
  then have t: "is_oid T" "tnonil b" using b(1) by (auto simp: select_column_def)
  have c: "closed s" using s(2) oid_normal [OF t(1)] by simp
  have "\<not> isnil (lo s) \<and> \<not> isnil (up s)"
    using s(1) c nil t(2) isnil_eq [of "lo s" "up s"] by (cases "s_equi s") (auto simp: bounds_ok_def closed_def)
  then show ?thesis using dense_bounds_rows [OF b(1) seq s(1) c] seq by (simp add: order_bounds_def)
next
  case False
  then have "order_bounds b s = sorted_bounds T b s" by (auto simp: order_bounds_def split: tail.splits)
  then show ?thesis using sorted_bounds_rows [OF b s(1)] by simp
qed

lemma bounds_rows_at:
  assumes "bounds_rows b s low high" "i < batCount b"
  shows "tsorted b \<Longrightarrow> (low \<le> i \<longleftrightarrow> from_lo s (vals b ! i)) \<and> (i < high \<longleftrightarrow> below_up s (vals b ! i))"
    "\<not> tsorted b \<Longrightarrow> (low \<le> i \<longleftrightarrow> below_up s (vals b ! i)) \<and> (i < high \<longleftrightarrow> from_lo s (vals b ! i))"
  using assms by (simp_all add: bounds_rows_def)

lemma bounds_ordered:
  assumes "select_column T dom b" "bounds_ok s" "bounds_rows b s low high"
  shows "low \<le> high"
proof (rule ccontr)
  assume "\<not> low \<le> high"
  then have h: "high < low" "high < batCount b" using assms(3) by (auto simp: bounds_rows_def)
  have "\<not> from_lo s (vals b ! high) \<and> \<not> below_up s (vals b ! high)"
    using bounds_rows_at [OF assms(3) h(2)] h(1) by (cases "tsorted b") auto
  then show False using halves_overlap [OF assms(2) vals_dom [OF assms(1) h(2)]] by blast
qed

text \<open>The rows that are not nil.\<close>

lemma not_nil_rows:
  assumes b: "select_column T dom b" "in_order b" and i: "i < batCount b"
  shows "tsorted b \<Longrightarrow> fndlast T b (snil T) \<le> i \<longleftrightarrow> \<not> isnil (vals b ! i)"
    "\<not> tsorted b \<Longrightarrow> i < fndfirst T b (snil T) \<longleftrightarrow> \<not> isnil (vals b ! i)"
proof -
  have x: "\<not> isnil (vals b ! i) \<longleftrightarrow> scmp T (snil T) (vals b ! i) < 0" by (rule not_nil_less [OF vals_dom [OF b(1) i]])
  show "fndlast T b (snil T) \<le> i \<longleftrightarrow> \<not> isnil (vals b ! i)" if "tsorted b"
    using fnd_ok(2) [OF b i dom_nil] dir_simps(2) [OF that] x by (simp add: not_less [symmetric] not_le)
  show "i < fndfirst T b (snil T) \<longleftrightarrow> \<not> isnil (vals b ! i)" if "\<not> tsorted b"
    using fnd_ok(1) [OF b i dom_nil] dir_simps(3) [OF that] x by simp
qed

lemma anti_rows:
  assumes b: "select_column T dom b" "in_order b" "0 < batCount b" and s: "bounds_ok s" "s_anti s"
    and r: "bounds_rows b s low high"
  defines "fst0 \<equiv> if tsorted b then fndlast T b (snil T) else 0"
  defines "lst \<equiv> if tsorted b then batCount b else fndfirst T b (snil T)"
  shows "fst0 \<le> low" "high \<le> lst" "lst \<le> batCount b"
    "i < batCount b \<Longrightarrow> fst0 \<le> i \<and> i < low \<or> high \<le> i \<and> i < lst \<longleftrightarrow> any_test T s (vals b ! i)"
proof -
  note nn = not_nil_rows [OF b(1,2)]
  note test = halves_test [OF s(1) vals_dom [OF b(1)]]
  have le: "fndfirst T b (snil T) \<le> batCount b" "fndlast T b (snil T) \<le> batCount b"
    using fnd_le [OF b(1,2) dom_nil b(3)] .
  have rows: "tsorted b \<Longrightarrow> (low \<le> i \<longleftrightarrow> from_lo s (vals b ! i)) \<and> (i < high \<longleftrightarrow> below_up s (vals b ! i))"
    "\<not> tsorted b \<Longrightarrow> (low \<le> i \<longleftrightarrow> below_up s (vals b ! i)) \<and> (i < high \<longleftrightarrow> from_lo s (vals b ! i))"
    if "i < batCount b" for i
    using bounds_rows_at [OF r that] by blast+
  show "fst0 \<le> low"
  proof (rule ccontr)
    assume "\<not> fst0 \<le> low"
    then have "tsorted b" "low < fndlast T b (snil T)" by (auto simp: fst0_def split: if_splits)
    then show False using nn(1) [of low] rows(1) [of low] test(4) [of low] le s(2) by auto
  qed
  show "high \<le> lst"
  proof (rule ccontr)
    assume "\<not> high \<le> lst"
    moreover have "high \<le> batCount b" using r by (simp add: bounds_rows_def)
    ultimately have "\<not> tsorted b" "fndfirst T b (snil T) < high" "high \<le> batCount b"
      by (auto simp: lst_def split: if_splits)
    then show False
      using nn(2) [of "fndfirst T b (snil T)"] rows(2) [of "fndfirst T b (snil T)"] test(4) [of "fndfirst T b (snil T)"] s(2) by auto
  qed
  show "lst \<le> batCount b" using le by (simp add: lst_def)
  show "fst0 \<le> i \<and> i < low \<or> high \<le> i \<and> i < lst \<longleftrightarrow> any_test T s (vals b ! i)" if i: "i < batCount b"
    using nn [OF i] rows [OF i] test(2,3) [OF i s(2)] i by (cases "tsorted b") (auto simp: fst0_def lst_def not_le [symmetric])
qed

end

end
