(* ===== verification/Gdk_Select_Correct.thy ===== *)
theory Gdk_Select_Correct
  imports Gdk_Select_Result
begin

text \<open>
  The result of \<open>BATselect\<close>: searching an ordered column and scanning any column give the candidates
  whose values pass the test, and the whole function gives the candidates that the table in its
  comment selects.
\<close>

section \<open>Searching\<close>

lemma candidates_range: "x \<in> set (candidates hseq cnt so) \<Longrightarrow> hseq \<le> x \<and> x < hseq + cnt"
  by (cases so) (auto simp: candidates_def)

definition cands_fit :: "nat column option \<Rightarrow> bool" where
  "cands_fit so \<longleftrightarrow> (case so of None \<Rightarrow> True | Some c \<Rightarrow> cand_fits c)"

context seltype_ok
begin

definition matching :: "'a obat \<Rightarrow> nat column option \<Rightarrow> 'a selstate \<Rightarrow> nat list" where
  "matching b so s =
     filter (\<lambda>ro. any_test T s (vals b ! (ro - hseqbase b))) (candidates (hseqbase b) (batCount b) so)"

lemma matching_rows:
  assumes "\<And>i. i < batCount b \<Longrightarrow> P i \<longleftrightarrow> any_test T s (vals b ! i)"
  shows "matching b so s = filter (\<lambda>x. P (x - hseqbase b)) (candidates (hseqbase b) (batCount b) so)"
  unfolding matching_def using assms candidates_range by (intro filter_cong refl) fastforce

text \<open>Without candidates the rows are those of the dense list of all rows.\<close>

definition cand_of :: "'a obat \<Rightarrow> nat column option \<Rightarrow> nat column" where
  "cand_of b so = (case so of Some c \<Rightarrow> c | None \<Rightarrow> BATdense (hseqbase b) (batCount b))"

lemma cand_of_ok:
  assumes "select_column T dom b" "cands_fit so"
  shows "cand_fits (cand_of b so)"
    "candidates (hseqbase b) (batCount b) so = candidates (hseqbase b) (batCount b) (Some (cand_of b so))"
    "hseqbase b + batCount b < oid_nil"
  using assms all_rows [of "hseqbase b" "batCount b"]
  by (cases so; simp add: cand_of_def cands_fit_def select_column_def)+

lemma select_ordered_ok:
  assumes b: "select_column T dom b" "in_order b" "0 < batCount b" and so: "cands_fit so"
    and s: "bounds_ok s" "normal T \<longrightarrow> closed s" "s_equi s \<longrightarrow> isnil (lo s) \<longrightarrow> \<not> tnonil b"
  shows "\<exists>bn. select_ordered T b so s = Done bn \<and> result_ok (matching b so s) bn"
proof -
  let ?h = "hseqbase b" and ?n = "batCount b"
  obtain low high where lh: "order_bounds b s = (low, high)" by (cases "order_bounds b s")
  have r: "bounds_rows b s low high" using order_bounds_rows [OF b s] lh by simp
  have lh_le: "low \<le> high" by (rule bounds_ordered [OF b(1) s(1) r])
  have high: "high \<le> ?n" using r by (simp add: bounds_rows_def)
  define c where "c = cand_of b so"
  note c = cand_of_ok [OF b(1) so, folded c_def]
  have pos: "cand_pos c (k + ?h) = k" if "so = None" "k \<le> ?n" for k
    using all_rows(3) [of ?h ?n k] b(1) that by (simp add: c_def cand_of_def select_column_def)
  have dense: "doubleslice c l1 h1 l2 h2 = doublerange (l1 + ?h) (h1 + ?h) (l2 + ?h) (h2 + ?h)" if "so = None" for l1 h1 l2 h2
    using that by (simp add: c_def cand_of_def doubleslice_def BATdense_def)
  have small: "\<forall>x\<in>set (matching b so s). x < oid_nil"
    using candidates_range [of _ ?h ?n so] c(3) by (fastforce simp: matching_def)
  have ord: "(case ttail b of TVoid seq \<Rightarrow> if seq \<noteq> oid_nil then dense_bounds T b seq s else sorted_bounds T b s
      | TVals _ \<Rightarrow> sorted_bounds T b s) = (low, high)"
    using lh by (simp add: order_bounds_def)
  show ?thesis
  proof (cases "s_anti s")
    case True
    define fst0 where "fst0 = (if tsorted b then fndlast T b (snil T) else 0)"
    define lst where "lst = (if tsorted b then ?n else fndfirst T b (snil T))"
    note A = anti_rows [OF b s(1) True r, folded fst0_def lst_def]
    define r where "r = doubleslice c (cand_pos c (fst0 + ?h)) (cand_pos c (low + ?h)) (cand_pos c (high + ?h)) (cand_pos c (lst + ?h))"
    have "select_ordered T b so s = Done (virtualize r)"
    proof -
      have "select_ordered T b so s = Done (virtualize
          (case so of
             Some c \<Rightarrow> doubleslice c (cand_pos c (fst0 + ?h)) (cand_pos c (low + ?h))
                         (cand_pos c (high + ?h)) (cand_pos c (lst + ?h))
           | None \<Rightarrow> doublerange (fst0 + ?h) (low + ?h) (high + ?h) (lst + ?h)))"
        unfolding select_ordered_def ord Let_def prod.case fst0_def [symmetric] lst_def [symmetric]
        using True A(1,2) lh_le by (simp add: not_less)
      also have "\<dots> = Done (virtualize r)"
        using pos A(1-3) lh_le high dense by (cases so) (simp_all add: r_def c_def cand_of_def)
      finally show ?thesis .
    qed
    moreover have "matching b so s = filter (\<lambda>x. fst0 \<le> x - ?h \<and> x - ?h < low \<or> high \<le> x - ?h \<and> x - ?h < lst)
        (candidates ?h ?n (Some c))"
      using matching_rows [of b "\<lambda>i. fst0 \<le> i \<and> i < low \<or> high \<le> i \<and> i < lst"] A(4) c(2) by simp
    then have "result_ok (matching b so s) r"
      using two_slices_ok [OF c(1) A(1) lh_le A(2,3) c(3)] by (simp add: r_def)
    ultimately show ?thesis using virtualize_ok small by blast
  next
    case False
    define r where "r = doubleslice c 0 0 (cand_pos c (low + ?h)) (cand_pos c (high + ?h))"
    have res: "select_ordered T b so s = Done (virtualize r)"
      using False lh_le pos dense high
      by (cases so) (simp_all add: select_ordered_def ord Let_def r_def c_def cand_of_def doublerange_def)
    have rows: "low \<le> i \<and> i < high \<longleftrightarrow> any_test T s (vals b ! i)" if "i < ?n" for i
      using bounds_rows_at [OF r that] halves_test(1) [OF s(1) vals_dom [OF b(1) that] False] by (cases "tsorted b") auto
    have "matching b so s = filter (\<lambda>x. low \<le> x - ?h \<and> x - ?h < high) (candidates ?h ?n (Some c))"
      using matching_rows [of b "\<lambda>i. low \<le> i \<and> i < high"] rows c(2) by simp
    then have "result_ok (matching b so s) r"
      using no_slice [OF c(1) lh_le high c(3)] by (simp add: r_def)
    with res show ?thesis using virtualize_ok small by blast
  qed
qed

end

section \<open>Scanning\<close>

lemma scan_grow_eq: "scan_grow match os dst = dst @ filter match os"
  by (induction match os dst rule: scan_grow.induct) auto

text \<open>The fast loop is right while it does not write beyond the result.\<close>

lemma scan_fast_done: "scan_fast cap match os dst = Crash \<or> scan_fast cap match os dst = Done (dst @ filter match os)"
  by (induction cap match os dst rule: scan_fast.induct) auto

lemma scan_fast_room:
  "length dst + length os \<le> cap \<or> length dst + length (filter match os) < cap \<Longrightarrow>
    scan_fast cap match os dst = Done (dst @ filter match os)"
  by (induction cap match os dst rule: scan_fast.induct) auto

lemma sorted_range_length:
  assumes "sorted_wrt (<) os" "\<forall>x\<in>set os. h \<le> x \<and> x < h + (n :: nat)"
  shows "length os \<le> n"
proof -
  have "length os = card (set os)" using assms(1) distinct_card strict_sorted_iff by metis
  also have "\<dots> \<le> card {h..<h + n}" using assms(2) by (intro card_mono) auto
  finally show ?thesis by simp
qed

lemma scan_rows_ok:
  assumes "cands_fit so" "hseq + cnt < oid_nil"
  shows "scan_rows hseq cnt so = candidates hseq cnt so" "max_result hseq cnt so = length (candidates hseq cnt so)"
proof -
  have "scan_rows hseq cnt so = candidates hseq cnt so \<and> max_result hseq cnt so = length (candidates hseq cnt so)"
  proof (cases so)
    case None
    then show ?thesis by (simp add: scan_rows_def candidates_def max_result_def)
  next
    case (Some c)
    have c: "cand_ok c" using assms(1) Some by (simp add: cands_fit_def cand_fits_def)
    show ?thesis
    proof (cases "ttail c")
      case (TVoid seq)
      have "filter (\<lambda>x. hseq \<le> x \<and> x < hseq + cnt) [seq..<seq + batCount c] =
        [max seq hseq..<min (seq + batCount c) (hseq + cnt)]"
        by (rule sorted_distinct_set_unique) (auto simp: sorted_wrt_filter)
      then show ?thesis using Some TVoid by (simp add: scan_rows_def max_result_def candidates_def tail_oids_def)
    next
      case (TVals os)
      have os: "sorted_wrt (<) os" using cand_sorted [OF c] TVals by (simp add: tail_oids_def)
      have pos: "cand_pos c v = length (takeWhile (\<lambda>y. y < v) os)" if "v < oid_nil" for v
        using cand_pos_eq [OF c that] TVals by (simp add: tail_oids_def)
      have rows: "candidates hseq cnt so = filter (\<lambda>x. hseq \<le> x \<and> x < hseq + cnt) os"
        using Some TVals by (simp add: candidates_def tail_oids_def)
      have "scan_rows hseq cnt so = candidates hseq cnt so"
        using Some TVals sorted_take_drop_filter [OF os, of hseq "hseq + cnt"] pos assms(2) rows
        by (simp add: scan_rows_def)
      moreover have "length (scan_rows hseq cnt so) = cand_pos c (hseq + cnt) - cand_pos c hseq"
        using Some TVals pos assms(2) length_takeWhile_le [of "\<lambda>y. y < hseq + cnt" os]
        by (simp add: scan_rows_def)
      moreover have "length (candidates hseq cnt so) \<le> cnt"
        unfolding rows by (rule sorted_range_length [OF sorted_wrt_filter [OF os]]) auto
      ultimately show ?thesis using Some TVals by (simp add: max_result_def)
    qed
  qed
  then show "scan_rows hseq cnt so = candidates hseq cnt so" "max_result hseq cnt so = length (candidates hseq cnt so)"
    by blast+
qed

lemma candidates_sorted: "cands_fit so \<Longrightarrow> sorted_wrt (<) (candidates hseq cnt so)"
  by (cases so) (auto simp: candidates_def sorted_wrt_upt cands_fit_def cand_fits_def cand_sorted sorted_wrt_filter)

lemma BATnew_capacity_ge: "256 \<le> BATnew_capacity n"
  by (auto simp: BATnew_capacity_def BATTINY_def BUN_NONE_def Let_def)

lemma unique_filter: "distinct os \<Longrightarrow> (\<And>x y. x \<in> set os \<Longrightarrow> y \<in> set os \<Longrightarrow> P x \<Longrightarrow> P y \<Longrightarrow> x = y) \<Longrightarrow> length (filter P os) \<le> 1"
proof (induction os)
  case (Cons z os)
  have IH: "length (filter P os) \<le> 1" using Cons by auto
  show ?case
  proof (cases "P z")
    case True
    have "filter P os = []" using Cons.prems True by (fastforce simp: filter_empty_conv)
    then show ?thesis by simp
  qed (use IH in simp)
qed simp

context seltype_ok
begin

lemma typed_test_ok:
  assumes "bounds_ok s" "closed s" "dom x" "nonil \<longrightarrow> \<not> isnil x"
  shows "typed_test T nonil s x \<longleftrightarrow> any_test T s x"
proof -
  have flip: "scmp T x v \<le> 0 \<longleftrightarrow> 0 \<le> scmp T v x" "0 \<le> scmp T x v \<longleftrightarrow> scmp T v x \<le> 0" "scmp T x v = 0 \<longleftrightarrow> scmp T v x = 0" for v
    using cmp_le_swap [of x v] cmp_le_swap [of v x] cmp_eq_swap [of v x] by auto
  have c: "s_lval s" "s_hval s" "s_li s = (\<not> s_anti s)" "s_hi s = (\<not> s_anti s)" using assms(2) by (simp_all add: closed_def)
  have le: "a \<le> 0 \<longleftrightarrow> a < 0 \<or> a = 0" "0 \<le> a \<longleftrightarrow> 0 < a \<or> a = 0" for a :: int by linarith+
  consider "s_equi s" | "\<not> s_equi s" "s_anti s" | "\<not> s_equi s" "\<not> s_anti s" by blast
  then show ?thesis
  proof cases
    case 1
    then show ?thesis by (simp add: typed_test_def any_test_def flip(3) [of "lo s"])
  next
    case 2
    then show ?thesis using c assms(4) unfolding typed_test_def any_test_def flip(1) [of "lo s"] flip(2) [of "up s"]
      by (auto simp: le)
  next
    case 3
    have b: "dom (lo s)" "\<not> isnil (lo s)" "dom (up s)" "\<not> isnil (up s)" using assms(1) 3 c by (auto simp: bounds_ok_def)
    have nn: "scmp T (lo s) x \<le> 0 \<Longrightarrow> \<not> isnil x" using above_not_isnil [OF b(1) assms(3) b(2)] .
    have mn: "scan_min T (lo s) \<Longrightarrow> \<not> isnil x \<Longrightarrow> scmp T (lo s) x \<le> 0" using scan_min_least assms(3) by blast
    have mx: "scan_max T (up s) \<Longrightarrow> 0 \<le> scmp T (up s) x" using scan_max_greatest [of "up s" x] assms(3) flip by blast
    have "any_test T s x \<longleftrightarrow> \<not> isnil x \<and> scmp T (lo s) x \<le> 0 \<and> 0 \<le> scmp T (up s) x"
      using 3 c by (auto simp: any_test_def le)
    then show ?thesis using 3 c nn mn mx assms(4)
      unfolding typed_test_def flip(1) [of "up s"] flip(2) [of "lo s"] by auto
  qed
qed

text \<open>At most one row of a column without duplicates equals a value.\<close>

lemma keyed_point:
  assumes b: "select_column T dom b" "tkey b" and "s_equi s" "cands_fit so"
  shows "length (matching b so s) \<le> 1"
  unfolding matching_def
proof (rule unique_filter)
  let ?os = "candidates (hseqbase b) (batCount b) so"
  show "distinct ?os" using candidates_sorted [OF assms(4)] strict_sorted_iff by blast
  fix x y assume xy: "x \<in> set ?os" "y \<in> set ?os"
    "any_test T s (vals b ! (x - hseqbase b))" "any_test T s (vals b ! (y - hseqbase b))"
  have key: "sorted_wrt (\<lambda>v w. scmp T v w \<noteq> 0) (vals b)" using b by (simp add: select_column_def flags_ok_def)
  have same: "scmp T v w = 0" if "scmp T (lo s) v = 0" "scmp T (lo s) w = 0" for v w
    using cmp_0_left [OF that(1), of w] that(2) by (simp add: sgn_0_0)
  have eq: "scmp T (vals b ! (x - hseqbase b)) (vals b ! (y - hseqbase b)) = 0"
    "scmp T (vals b ! (y - hseqbase b)) (vals b ! (x - hseqbase b)) = 0"
    using xy(3,4) assms(3) by (auto simp: any_test_def intro: same)
  have "\<not> x - hseqbase b < y - hseqbase b" "\<not> y - hseqbase b < x - hseqbase b"
    using eq sorted_wrt_nth_less [OF key] candidates_range [OF xy(1)] candidates_range [OF xy(2)] vals_length [OF b(1)] by fastforce+
  then show "x = y" using candidates_range [OF xy(1)] candidates_range [OF xy(2)] by linarith
qed

text \<open>The columns for which the size of the result is estimated by the width of the range.\<close>

definition estimated :: "'a obat \<Rightarrow> 'a selstate \<Rightarrow> bool" where
  "estimated b s \<longleftrightarrow> typed T \<and> tkey b \<and> \<not> s_equi s \<and> width T \<noteq> None"

lemma select_scan_ok:
  assumes b: "select_column T dom b" and so: "cands_fit so" and s: "bounds_ok s" "normal T \<longrightarrow> closed s"
  shows "select_scan T b so s = Crash \<and> estimated b s \<or>
    (\<exists>bn. select_scan T b so s = Done bn \<and> result_ok (matching b so s) bn)"
proof -
  let ?h = "hseqbase b" and ?n = "batCount b"
  let ?os = "candidates ?h ?n so"
  have bound: "?h + ?n < oid_nil" "?n < BUN_NONE" using b by (simp_all add: select_column_def)
  note rows = scan_rows_ok [OF so bound(1)]
  have in_os: "x - ?h < ?n" if "x \<in> set ?os" for x using candidates_range [OF that] by linarith
  have len: "length ?os \<le> ?n"
    using sorted_range_length [OF candidates_sorted [OF so, of ?h ?n], of ?h ?n] candidates_range by blast
  have test: "filter (\<lambda>ro. typed_test T (tnonil b) s (vals b ! (ro - ?h))) ?os = matching b so s" if "typed T"
    unfolding matching_def
  proof (intro filter_cong refl)
    fix x assume x: "x \<in> set ?os"
    have "tnonil b \<longrightarrow> \<not> isnil (vals b ! (x - ?h))"
      using b in_os [OF x] vals_length [OF b] by (auto simp: select_column_def flags_ok_def)
    then show "typed_test T (tnonil b) s (vals b ! (x - ?h)) = any_test T s (vals b ! (x - ?h))"
      using typed_test_ok [OF s(1) _ vals_dom [OF b in_os [OF x]]] s(2) typed_normal that by blast
  qed
  have "sorted_wrt (<) (matching b so s)"
    unfolding matching_def by (rule sorted_wrt_filter [OF candidates_sorted [OF so]])
  moreover have "length (matching b so s) < BUN_NONE"
    unfolding matching_def using le_trans [OF length_filter_le len] bound(2) by (rule le_less_trans)
  moreover have "\<forall>x\<in>set (matching b so s). x < oid_nil"
    unfolding matching_def using candidates_range [of _ ?h ?n so] bound(1) by fastforce
  ultimately have fin: "result_ok (matching b so s) (virtualize (oid_list (matching b so s)))"
    using virtualize_ok [OF oid_list_ok] by blast
  define est where "est = key_estimate T b s"
  define mx where "mx = min (max_result ?h ?n so) est"
  define cap where "cap = BATnew_capacity (min (if est = BUN_NONE then 1000000 else est) mx)"
  have scan: "select_scan T b so s = andthen (BAT_scanselect T b so s cap mx) (\<lambda>bn. Done (virtualize bn))"
    by (simp add: select_scan_def est_def mx_def cap_def Let_def)
  show ?thesis
  proof (cases "typed T \<and> mx \<le> cap")
    case False
    then have "BAT_scanselect T b so s cap mx = Done (oid_list (matching b so s))"
      using test by (auto simp: BAT_scanselect_def rows scan_grow_eq Let_def matching_def)
    then show ?thesis using fin by (simp add: scan)
  next
    case True
    define P where "P = (\<lambda>ro. typed_test T (tnonil b) s (vals b ! (ro - ?h)))"
    have P: "filter P ?os = matching b so s" using test True by (simp add: P_def)
    have bs: "BAT_scanselect T b so s cap mx = andthen (scan_fast cap P ?os []) (\<lambda>os. Done (oid_list os))"
      using True by (simp add: BAT_scanselect_def rows P_def)
    consider "estimated b s" | "tkey b" "s_equi s" | "est = BUN_NONE"
      using True by (cases "tkey b"; cases "s_equi s"; cases "width T") (auto simp: estimated_def est_def key_estimate_def)
    then show ?thesis
    proof cases
      case 1
      then show ?thesis using scan_fast_done [of cap P ?os "[]"] P fin by (auto simp: scan bs)
    next
      case 2
      have "length (filter P ?os) < cap"
        using keyed_point [OF b 2(1,2) so] BATnew_capacity_ge [of "min (if est = BUN_NONE then 1000000 else est) mx"]
        unfolding P cap_def by linarith
      then show ?thesis using scan_fast_room [of "[]" ?os cap P] P fin by (simp add: scan bs)
    next
      case 3
      have "mx = length ?os" using 3 rows(2) len bound(2) by (simp add: mx_def)
      then show ?thesis using scan_fast_room [of "[]" ?os cap P] True P fin unfolding scan bs by simp
    qed
  qed
qed

text \<open>Detecting the order, as \<open>BATselect\<close> does.\<close>

definition detect :: "'a obat \<Rightarrow> bool \<times> 'a obat" where
  "detect b = (let (ordered, b) = BATordered (scmp T) b in if ordered then (True, b) else BATordered_rev (scmp T) b)"

lemma detect_ok:
  assumes b: "select_column T dom b" and "detect b = (ordered, b')"
  shows "select_column T dom b'" "same_rows b b'" "ordered \<Longrightarrow> in_order b'" "tsorted b \<Longrightarrow> ordered"
proof -
  obtain r b1 where r: "BATordered (scmp T) b = (r, b1)" by (cases "BATordered (scmp T) b")
  note one = BATordered_ok [OF b r]
  have srt: "r" if "tsorted b" using r that by (auto simp: BATordered_def split: tail.splits)
  have "select_column T dom b' \<and> same_rows b b' \<and> (ordered \<longrightarrow> in_order b') \<and> (tsorted b \<longrightarrow> ordered)"
  proof (cases r)
    case True
    then show ?thesis using one assms(2) r by (simp add: detect_def in_order_def)
  next
    case False
    then have r2: "BATordered_rev (scmp T) b1 = (ordered, b')" using assms(2) r by (simp add: detect_def)
    obtain vs where "ttail b1 = TVals vs" using one(2,4) False by (cases "ttail b") (auto simp: same_rows_def)
    then show ?thesis using BATordered_rev_ok [OF one(1) r2] one(2) srt False by (auto simp: in_order_def same_rows_def)
  qed
  then show "select_column T dom b'" "same_rows b b'" "ordered \<Longrightarrow> in_order b'" "tsorted b \<Longrightarrow> ordered" by blast+
qed

text \<open>The last step: the search or the scan.\<close>

lemma search_or_scan:
  assumes b: "select_column T dom b" "0 < batCount b" and so: "cands_fit so"
    and s: "bounds_ok s" "normal T \<longrightarrow> closed s" "s_equi s \<longrightarrow> isnil (lo s) \<longrightarrow> \<not> tnonil b"
    and d: "detect b = (ordered, b')"
  defines "r \<equiv> if ordered then select_ordered T b' so s else select_scan T b' so s"
  shows "r = Crash \<and> estimated b s \<and> \<not> tsorted b \<or> (\<exists>bn. r = Done bn \<and> result_ok (matching b so s) bn)"
proof -
  note D = detect_ok [OF b(1) d]
  have same: "hseqbase b' = hseqbase b" "batCount b' = batCount b" "tnonil b' = tnonil b" "tkey b' = tkey b"
    using D(2) by (simp_all add: same_rows_def)
  have m: "matching b' so s = matching b so s" "estimated b' s = estimated b s"
    by (simp_all add: matching_def estimated_def same same_rows_vals [OF D(2)])
  show ?thesis
  proof (cases ordered)
    case True
    then show ?thesis
      using select_ordered_ok [OF D(1) D(3) _ so s(1,2)] b(2) s(3) same m by (simp add: r_def)
  next
    case False
    then have "\<not> tsorted b" using D(4) by blast
    then show ?thesis using select_scan_ok [OF D(1) so s(1,2)] False m by (auto simp: r_def)
  qed
qed

end

section \<open>The arguments\<close>

text \<open>
  The arguments for which the table is unambiguous and followed: not both bounds nil; equal bounds
  are both included or both not; all nils are asked for with \<open>li\<close>.
\<close>

definition range_args :: "'a seltype \<Rightarrow> ('a \<Rightarrow> bool) \<Rightarrow> 'a \<Rightarrow> 'a option \<Rightarrow> bool \<Rightarrow> bool \<Rightarrow> bool \<Rightarrow> bool" where
  "range_args T valid lv hv li hi anti \<longleftrightarrow>
     valid lv \<and>
     (case hv of
        None \<Rightarrow> scmp T lv (snil T) = 0 \<longrightarrow> anti \<or> li
      | Some h \<Rightarrow> valid h \<and> \<not> (scmp T lv (snil T) = 0 \<and> scmp T h (snil T) = 0) \<and> (scmp T lv h = 0 \<longrightarrow> li = hi))"

text \<open>The complements of ranges that end with the greatest value, where the code loses a bound.\<close>

definition clobbers :: "'a seltype \<Rightarrow> 'a \<Rightarrow> 'a option \<Rightarrow> bool \<Rightarrow> bool \<Rightarrow> bool \<Rightarrow> bool" where
  "clobbers T lv hv li hi anti \<longleftrightarrow>
     normal T \<and> anti \<and> li \<and> scmp T lv (snil T) \<noteq> 0 \<and> scmp T lv (minval T) \<noteq> 0 \<and>
     (case hv of None \<Rightarrow> scmp T lv (maxval T) = 0 | Some h \<Rightarrow> hi \<and> scmp T h (maxval T) = 0)"

definition cands_within :: "nat \<Rightarrow> nat \<Rightarrow> nat column option \<Rightarrow> bool" where
  "cands_within hseq cnt so \<longleftrightarrow>
     (case so of None \<Rightarrow> True | Some c \<Rightarrow> \<forall>o'\<in>set (tail_oids c). hseq \<le> o' \<and> o' < hseq + cnt)"

text \<open>The rows that the table asks for.\<close>

definition wanted ::
  "'a seltype \<Rightarrow> 'a obat \<Rightarrow> nat column option \<Rightarrow> 'a \<Rightarrow> 'a option \<Rightarrow> bool \<Rightarrow> bool \<Rightarrow> bool \<Rightarrow> nat list" where
  "wanted T b so lv hv li hi anti =
     filter (\<lambda>ro. selects T lv hv li hi anti (BATvals (oid_val T) (snil T) b ! (ro - hseqbase b)))
       (candidates (hseqbase b) (batCount b) so)"

text \<open>
  How the code reads arguments that are not so: of equal bounds the lower one says whether both are
  included; with both bounds nil the complement is taken for the range and the range for the
  complement; the nils asked for without \<open>li\<close> are none.
\<close>

definition read_hi :: "'a seltype \<Rightarrow> 'a \<Rightarrow> 'a option \<Rightarrow> bool \<Rightarrow> bool \<Rightarrow> bool" where
  "read_hi T lv hv li hi =
     (case hv of None \<Rightarrow> hi | Some h \<Rightarrow> if scmp T lv (snil T) \<noteq> 0 \<and> scmp T lv h = 0 then li else hi)"

definition read_anti :: "'a seltype \<Rightarrow> 'a \<Rightarrow> 'a option \<Rightarrow> bool \<Rightarrow> bool" where
  "read_anti T lv hv anti =
     (case hv of None \<Rightarrow> anti | Some h \<Rightarrow> (scmp T lv (snil T) = 0 \<and> scmp T h (snil T) = 0) \<noteq> anti)"

definition read_rows ::
  "'a seltype \<Rightarrow> 'a obat \<Rightarrow> nat column option \<Rightarrow> 'a \<Rightarrow> 'a option \<Rightarrow> bool \<Rightarrow> bool \<Rightarrow> bool \<Rightarrow> nat list" where
  "read_rows T b so lv hv li hi anti =
     (if hv = None \<and> scmp T lv (snil T) = 0 \<and> \<not> anti \<and> \<not> li then []
      else wanted T b so lv hv li (read_hi T lv hv li hi) (read_anti T lv hv anti))"

text \<open>All values but nil are asked for.\<close>

definition all_asked :: "'a seltype \<Rightarrow> 'a \<Rightarrow> 'a option \<Rightarrow> bool \<Rightarrow> bool" where
  "all_asked T lv hv anti \<longleftrightarrow>
     anti \<and> scmp T lv (snil T) = 0 \<and> (case hv of None \<Rightarrow> True | Some h \<Rightarrow> scmp T h (snil T) = 0)"

context seltype_ok
begin

text \<open>A point or a range with two different bounds.\<close>

lemma args_cases:
  assumes "range_args T dom lv hv li hi anti"
  obtains "hv = None \<or> (\<exists>h. hv = Some h \<and> \<not> isnil lv \<and> scmp T lv h = 0 \<and> li = hi)" "hv = None \<longrightarrow> isnil lv \<longrightarrow> anti \<or> li"
  | h where "hv = Some h" "dom h" "\<not> (isnil lv \<and> isnil h)" "isnil lv \<or> scmp T lv h \<noteq> 0"
  using assms by (cases hv) (auto simp: range_args_def)

lemma select_args:
  assumes "range_args T dom lv hv li hi anti"
  shows "\<exists>s. select_anti T (select_start T lv hv li hi anti) = Some s \<and> args_ok s \<and>
    (\<forall>x. dom x \<longrightarrow> (if empty_range s then \<not> selects T lv hv li hi anti x
                  else any_test T s x = selects T lv hv li hi anti x))"
proof -
  have lv: "dom lv" using assms by (simp add: range_args_def)
  from assms show ?thesis
  proof (cases rule: args_cases)
    case 1
    then show ?thesis by (rule select_point [OF lv])
  next
    case (2 h)
    then show ?thesis by (rule select_range [OF lv])
  qed
qed

lemma clobbered_args:
  assumes "select_anti T (select_start T lv hv li hi anti) = Some s" "clobbered s" "normal T"
    and "range_args T dom lv hv li hi anti"
  shows "clobbers T lv hv li hi anti"
  using assms(4)
proof (cases rule: args_cases)
  case 1
  have s: "anti" "li" "\<not> isnil lv" "scmp T lv (minval T) \<noteq> 0" "scmp T lv (maxval T) = 0"
    using assms(1,2) unfolding start_point [OF 1(1)]
    by (auto simp: select_anti_def clobbered_def deref_def split: if_splits)
  have "scmp T h (maxval T) = 0" if "scmp T lv h = 0" for h
    using cmp_0_left [OF that, of "maxval T"] s(5) by (simp add: sgn_0_0)
  then show ?thesis using 1(1) s assms(3) by (fastforce simp: clobbers_def)
next
  case (2 h)
  have "anti" "li" "hi" "\<not> isnil lv" "scmp T lv (minval T) \<noteq> 0" "scmp T h (maxval T) = 0"
    using assms(1,2) unfolding start_range [OF 2(1,3,4)]
    by (auto simp: select_anti_def clobbered_def deref_def split: if_splits)
  then show ?thesis using 2(1) assms(3) by (simp add: clobbers_def)
qed

lemma everything_args:
  assumes "select_anti T (select_start T lv hv li hi anti) = Some s" "\<not> s_equi s" "\<not> s_lval s" "\<not> s_hval s" "s_lnil s"
    and "range_args T dom lv hv li hi anti"
  shows "hv = None" "anti" "isnil lv"
proof -
  have "hv = None \<and> anti \<and> isnil lv"
    using assms(6)
  proof (cases rule: args_cases)
    case 1
    then show ?thesis using assms(1-5) unfolding start_point [OF 1(1)] by (auto simp: select_anti_def split: if_splits)
  next
    case (2 h)
    then show ?thesis using assms(1-5) unfolding start_range [OF 2(1,3,4)] by (auto simp: select_anti_def split: if_splits)
  qed
  then show "hv = None" "anti" "isnil lv" by blast+
qed

lemma normalize_keeps_equi:
  "s_equi (normalize_anti_lo T s) = s_equi s" "s_equi (normalize_anti_hi T s) = s_equi s"
  "normalize_lo T s = Some s' \<Longrightarrow> s_equi s' = s_equi s" "normalize_hi T s = Some s' \<Longrightarrow> s_equi s' = s_equi s"
  by (auto simp: normalize_anti_lo_def normalize_anti_hi_def normalize_lo_def normalize_hi_def split: if_splits)

lemma NORMALIZE_equi: "NORMALIZE T s = Some s' \<Longrightarrow> s_equi s' = s_equi s"
  by (auto simp: NORMALIZE_def Let_def normalize_keeps_equi dest!: normalize_keeps_equi(3,4) split: if_splits option.splits)

lemma NORMALIZE_point: "bounds_ok s \<Longrightarrow> s_equi s \<Longrightarrow> NORMALIZE T s = Some s"
  by (simp add: NORMALIZE_def normalize_anti_lo_def normalize_anti_hi_def normalize_lo_def normalize_hi_def
      bounds_ok_def Let_def)

text \<open>The variables when the column is searched.\<close>

lemma normalized:
  assumes "args_ok s" "\<not> empty_range s" "normal T \<longrightarrow> \<not> clobbered s"
  shows "case (if normal T then NORMALIZE T s else Some s) of
     None \<Rightarrow> \<forall>x. dom x \<longrightarrow> \<not> any_test T s x
   | Some s' \<Rightarrow> bounds_ok s' \<and> (normal T \<longrightarrow> closed s') \<and> (\<forall>x. dom x \<longrightarrow> any_test T s' x = any_test T s x) \<and>
       (s_equi s' \<longrightarrow> s_equi s \<and> isnil (lo s') = s_lnil s)"
proof -
  have bo: "bounds_ok s" by (rule args_bounds [OF assms(1,2)])
  have ln: "s_equi s \<longrightarrow> isnil (lo s) = s_lnil s" using assms(1) by (auto simp: args_ok_def)
  show ?thesis
  proof (cases "normal T")
    case True
    have cl: "\<not> clobbered s" using True assms(3) by blast
    note N = NORMALIZE_ok [OF True assms(1,2) cl]
    show ?thesis
    proof (cases "NORMALIZE T s")
      case None
      then show ?thesis using N True by simp
    next
      case (Some s')
      have "s_equi s' \<longrightarrow> s_equi s \<and> isnil (lo s') = s_lnil s"
        using NORMALIZE_equi [OF Some] NORMALIZE_point [OF bo] ln Some by fastforce
      then show ?thesis using N True Some by simp
    qed
  qed (use bo ln in simp)
qed

lemma newempty_ok: "result_ok [] newempty"
  using dense_ok [of 0 0] by (simp add: newempty_def oid_nil_def BUN_NONE_def)

lemma candidate_value:
  assumes "select_column T dom b" "ro \<in> set (candidates (hseqbase b) (batCount b) so)"
  shows "dom (vals b ! (ro - hseqbase b))" "tnonil b \<Longrightarrow> \<not> isnil (vals b ! (ro - hseqbase b))"
proof -
  have "ro - hseqbase b < batCount b" using candidates_range [OF assms(2)] by linarith
  then show "dom (vals b ! (ro - hseqbase b))" "tnonil b \<Longrightarrow> \<not> isnil (vals b ! (ro - hseqbase b))"
    using vals_dom [OF assms(1)] vals_length [OF assms(1)] assms(1) by (auto simp: select_column_def flags_ok_def)
qed

lemma wanted_none:
  assumes "select_column T dom b" "\<forall>x. dom x \<longrightarrow> \<not> selects T lv hv li hi anti x"
  shows "wanted T b so lv hv li hi anti = []"
  using assms(2) candidate_value(1) [OF assms(1)] by (simp add: wanted_def filter_empty_conv)

lemma no_candidates:
  assumes "batCount b = 0 \<or> (case so of
           None \<Rightarrow> False
         | Some c \<Rightarrow> batCount c = 0 \<or>
             (case ttail c of
                TVals _ \<Rightarrow> False
              | TVoid seq \<Rightarrow> seq \<noteq> oid_nil \<and> (hseqbase b + batCount b \<le> seq \<or> seq + batCount c \<le> hseqbase b)))"
    and "cands_fit so"
  shows "candidates (hseqbase b) (batCount b) so = []"
proof (cases so)
  case (Some c)
  then have c: "cand_ok c" using assms(2) by (simp add: cands_fit_def cand_fits_def)
  then have "length (tail_oids c) = batCount c"
    using cand_ok_vals(2) [OF c] by (auto simp: tail_oids_def split: tail.splits)
  then show ?thesis
    using assms(1) Some by (auto simp: candidates_def filter_empty_conv tail_oids_def split: tail.splits)
qed (use assms in \<open>simp add: candidates_def\<close>)

text \<open>\<open>s\<close> are variables whose tests are those of the arguments.\<close>

definition reads_args :: "'a selstate \<Rightarrow> 'a \<Rightarrow> 'a option \<Rightarrow> bool \<Rightarrow> bool \<Rightarrow> bool \<Rightarrow> bool" where
  "reads_args s lv hv li hi anti \<longleftrightarrow>
     args_ok s \<and> \<not> empty_range s \<and> (\<forall>x. dom x \<longrightarrow> any_test T s x = selects T lv hv li hi anti x)"

lemma wanted_nils:
  assumes b: "select_column T dom b" and s: "reads_args s lv hv li hi anti" "s_equi s" "s_lnil s" "tnonil b"
  shows "wanted T b so lv hv li hi anti = []"
  unfolding wanted_def filter_empty_conv
proof
  let ?x = "\<lambda>ro. vals b ! (ro - hseqbase b)"
  fix ro assume ro: "ro \<in> set (candidates (hseqbase b) (batCount b) so)"
  note x = candidate_value [OF b ro]
  have "isnil (lo s)" using s by (auto simp: reads_args_def args_ok_def)
  then have "\<not> any_test T s (?x ro)" using s(2,4) x isnil_eq [of "lo s" "?x ro"] by (auto simp: any_test_def)
  then show "\<not> selects T lv hv li hi anti (?x ro)" using s(1) x(1) by (simp add: reads_args_def)
qed

lemma wanted_everything:
  assumes b: "select_column T dom b" and so: "cands_fit so" "cands_within (hseqbase b) (batCount b) so"
    and s: "reads_args s lv hv li hi anti" "\<not> s_equi s" "\<not> s_lval s" "\<not> s_hval s" "tnonil b"
  shows "result_ok (wanted T b so lv hv li hi anti) (cand_of b so)"
proof -
  have "wanted T b so lv hv li hi anti = candidates (hseqbase b) (batCount b) so"
    unfolding wanted_def filter_id_conv
  proof
    let ?x = "\<lambda>ro. vals b ! (ro - hseqbase b)"
    fix ro assume ro: "ro \<in> set (candidates (hseqbase b) (batCount b) so)"
    note x = candidate_value [OF b ro]
    have "any_test T s (?x ro)" using s x(2) by (auto simp: any_test_def reads_args_def args_ok_def)
    then show "selects T lv hv li hi anti (?x ro)" using s(1) x(1) by (simp add: reads_args_def)
  qed
  moreover have "result_ok (candidates (hseqbase b) (batCount b) so) (cand_of b so)"
    using cand_of_ok [OF b so(1)] so(2)
    by (cases so) (auto simp: cands_within_def cand_of_def result_ok_def candidates_def cand_fits_def filter_id_conv
        tail_oids_def BATdense_def)
  ultimately show ?thesis by simp
qed

text \<open>What the function does when no rows are candidates, and when some are.\<close>

lemma BATselect_trivial:
  assumes "batCount b = 0 \<or> (case so of
           None \<Rightarrow> False
         | Some c \<Rightarrow> batCount c = 0 \<or>
             (case ttail c of
                TVals _ \<Rightarrow> False
              | TVoid seq \<Rightarrow> seq \<noteq> oid_nil \<and> (hseqbase b + batCount b \<le> seq \<or> seq + batCount c \<le> hseqbase b)))"
    and "cands_fit so"
  shows "BATselect T b so lv hv li hi anti = Done (newempty, b)"
proof -
  have "\<not> (case so of None \<Rightarrow> False | Some c \<Rightarrow> (case ttail c of TVoid _ \<Rightarrow> False | TVals _ \<Rightarrow> \<not> tsorted c))"
    using assms(2) by (auto simp: cands_fit_def cand_fits_def cand_ok_def split: option.splits tail.splits)
  then show ?thesis unfolding BATselect_def using assms(1) by (simp only: if_True if_False)
qed

lemma BATselect_steps:
  assumes "cands_fit so" "select_anti T (select_start T lv hv li hi anti) = Some s"
    and "\<not> (batCount b = 0 \<or> (case so of
           None \<Rightarrow> False
         | Some c \<Rightarrow> batCount c = 0 \<or>
             (case ttail c of
                TVals _ \<Rightarrow> False
              | TVoid seq \<Rightarrow> seq \<noteq> oid_nil \<and> (hseqbase b + batCount b \<le> seq \<or> seq + batCount c \<le> hseqbase b))))"
  shows "BATselect T b so lv hv li hi anti =
    (if empty_range s then Done (newempty, b)
     else if s_equi s \<and> s_lnil s \<and> tnonil b then Done (newempty, b)
     else if \<not> s_equi s \<and> \<not> s_lval s \<and> \<not> s_hval s \<and> s_lnil s \<and> tnonil b then Done (cand_of b so, b)
     else case (if normal T then NORMALIZE T s else Some s) of
         None \<Rightarrow> Done (newempty, b)
       | Some s \<Rightarrow>
           let (ordered, b) = detect b
           in andthen (if ordered then select_ordered T b so s else select_scan T b so s) (\<lambda>bn. Done (bn, b)))"
proof -
  have "\<not> (case so of None \<Rightarrow> False | Some c \<Rightarrow> (case ttail c of TVoid _ \<Rightarrow> False | TVals _ \<Rightarrow> \<not> tsorted c))"
    using assms(1) by (auto simp: cands_fit_def cand_fits_def cand_ok_def split: option.splits tail.splits)
  moreover obtain r b1 where "BATordered (scmp T) b = (r, b1)" by (cases "BATordered (scmp T) b")
  ultimately show ?thesis
    using assms(3)
    by (simp only: BATselect_def assms(2) if_False if_True option.case empty_range_def [symmetric] cand_of_def detect_def Let_def)
       (simp split: option.split)
qed

text \<open>The outcome: the rows that are wanted, or a write beyond the result.\<close>

definition selection_ok :: "'a obat \<Rightarrow> nat list \<Rightarrow> (nat column \<times> 'a obat) outcome \<Rightarrow> bool" where
  "selection_ok b os r \<longleftrightarrow>
     r = Crash \<and> typed T \<and> tkey b \<and> width T \<noteq> None \<and> \<not> tsorted b \<or>
     (\<exists>bn b'. r = Done (bn, b') \<and> result_ok os bn \<and> same_rows b b' \<and> select_column T dom b')"

lemma selection_same: "select_column T dom b \<Longrightarrow> result_ok os bn \<Longrightarrow> selection_ok b os (Done (bn, b))"
  by (simp add: selection_ok_def same_rows_def)

lemma selection_normalized:
  assumes b: "select_column T dom b" "0 < batCount b" and so: "cands_fit so"
    and s: "reads_args s lv hv li hi anti" "normal T \<longrightarrow> \<not> clobbered s" "\<not> (s_equi s \<and> s_lnil s \<and> tnonil b)"
  shows "selection_ok b (wanted T b so lv hv li hi anti)
    (case (if normal T then NORMALIZE T s else Some s) of
         None \<Rightarrow> Done (newempty, b)
       | Some s \<Rightarrow>
           let (ordered, b) = detect b
           in andthen (if ordered then select_ordered T b so s else select_scan T b so s) (\<lambda>bn. Done (bn, b)))"
proof -
  have st: "args_ok s" "\<not> empty_range s" "\<And>x. dom x \<Longrightarrow> any_test T s x = selects T lv hv li hi anti x"
    using s(1) by (simp_all add: reads_args_def)
  note N = normalized [OF st(1,2) s(2)]
  show ?thesis
  proof (cases "if normal T then NORMALIZE T s else Some s")
    case None
    then show ?thesis using selection_same [OF b(1)] newempty_ok wanted_none [OF b(1)] N st(3) by simp
  next
    case (Some s')
    have s': "bounds_ok s'" "normal T \<longrightarrow> closed s'" "\<And>x. dom x \<Longrightarrow> any_test T s' x = any_test T s x"
      "s_equi s' \<longrightarrow> isnil (lo s') \<longrightarrow> \<not> tnonil b"
      using N s(3) Some by auto
    obtain ordered b' where d: "detect b = (ordered, b')" by (cases "detect b")
    have "matching b so s' = wanted T b so lv hv li hi anti"
      unfolding matching_def wanted_def using s'(3) st(3) candidate_value(1) [OF b(1)] by (intro filter_cong refl) simp
    then show ?thesis
      using search_or_scan [OF b so s'(1,2,4) d] detect_ok(1,2) [OF b(1) d] Some d
      by (auto simp: estimated_def selection_ok_def)
  qed
qed

text \<open>
  From the variables that the arguments lead to, whose tests are those of the arguments \<open>lv'\<close> to
  \<open>anti'\<close> of the table.
\<close>

lemma BATselect_read:
  assumes b: "select_column T dom b" and so: "cands_fit so"
    and s: "select_anti T (select_start T lv hv li hi anti) = Some s" "args_ok s" "normal T \<longrightarrow> \<not> clobbered s"
    and sel: "\<And>x. dom x \<Longrightarrow> (if empty_range s then \<not> selects T lv' hv' li' hi' anti' x
                  else any_test T s x = selects T lv' hv' li' hi' anti' x)"
    and within: "\<not> s_equi s \<Longrightarrow> \<not> s_lval s \<Longrightarrow> \<not> s_hval s \<Longrightarrow> s_lnil s \<Longrightarrow> tnonil b \<Longrightarrow>
      cands_within (hseqbase b) (batCount b) so"
  shows "selection_ok b (wanted T b so lv' hv' li' hi' anti') (BATselect T b so lv hv li hi anti)"
proof (cases "batCount b = 0 \<or> (case so of
           None \<Rightarrow> False
         | Some c \<Rightarrow> batCount c = 0 \<or>
             (case ttail c of
                TVals _ \<Rightarrow> False
              | TVoid seq \<Rightarrow> seq \<noteq> oid_nil \<and> (hseqbase b + batCount b \<le> seq \<or> seq + batCount c \<le> hseqbase b)))")
  case True
  then show ?thesis using BATselect_trivial [OF True so] selection_same [OF b newempty_ok] no_candidates [OF True so]
    by (simp add: wanted_def)
next
  case False
  note start = BATselect_steps [OF so s(1) False]
  show ?thesis
  proof (cases "empty_range s")
    case True
    then show ?thesis using selection_same [OF b newempty_ok] wanted_none [OF b] sel start by simp
  next
    case False
    then have r: "reads_args s lv' hv' li' hi' anti'" using s sel by (simp add: reads_args_def)
    have pos: "0 < batCount b" using \<open>\<not> (batCount b = 0 \<or> _)\<close> by simp
    consider "s_equi s" "s_lnil s" "tnonil b" | "\<not> s_equi s" "\<not> s_lval s" "\<not> s_hval s" "s_lnil s" "tnonil b"
      | "\<not> (s_equi s \<and> s_lnil s \<and> tnonil b)"
        "\<not> (\<not> s_equi s \<and> \<not> s_lval s \<and> \<not> s_hval s \<and> s_lnil s \<and> tnonil b)"
      by blast
    then show ?thesis
    proof cases
      case 1
      then show ?thesis using selection_same [OF b newempty_ok] wanted_nils [OF b r 1] start False by simp
    next
      case 2
      show ?thesis
        using selection_same [OF b wanted_everything [OF b so within [OF 2] r 2(1-3,5)]] start False 2 by simp
    next
      case 3
      have "BATselect T b so lv hv li hi anti =
        (case (if normal T then NORMALIZE T s else Some s) of
         None \<Rightarrow> Done (newempty, b)
       | Some s \<Rightarrow>
           let (ordered, b) = detect b
           in andthen (if ordered then select_ordered T b so s else select_scan T b so s) (\<lambda>bn. Done (bn, b)))"
        unfolding start using False 3 by (simp only: if_False)
      then show ?thesis using selection_normalized [OF b pos so r s(3) 3(1)] by simp
    qed
  qed
qed

text \<open>Arguments for which the table is followed.\<close>

lemma BATselect_ok:
  assumes b: "select_column T dom b" and so: "cands_fit so"
    and a: "range_args T dom lv hv li hi anti" "\<not> clobbers T lv hv li hi anti"
    and within: "hv = None \<and> anti \<and> isnil lv \<and> tnonil b \<longrightarrow> cands_within (hseqbase b) (batCount b) so"
  shows "selection_ok b (wanted T b so lv hv li hi anti) (BATselect T b so lv hv li hi anti)"
proof -
  obtain s where s: "select_anti T (select_start T lv hv li hi anti) = Some s" "args_ok s"
    "\<And>x. dom x \<Longrightarrow> (if empty_range s then \<not> selects T lv hv li hi anti x
                  else any_test T s x = selects T lv hv li hi anti x)"
    using select_args [OF a(1)] by blast
  show ?thesis
  proof (rule BATselect_read [OF b so s(1,2) _ s(3)])
    show "normal T \<longrightarrow> \<not> clobbered s" using clobbered_args [OF s(1) _ _ a(1)] a(2) by blast
    show "cands_within (hseqbase b) (batCount b) so" if "\<not> s_equi s" "\<not> s_lval s" "\<not> s_hval s" "s_lnil s" "tnonil b"
      using within everything_args [OF s(1) that(1-4) a(1)] that(5) by blast
  qed
qed

text \<open>The arguments that the code reads in its own way.\<close>

lemma BATselect_equal_bounds:
  assumes "\<not> isnil lv" "scmp T lv h = 0"
  shows "BATselect T b so lv (Some h) li hi anti = BATselect T b so lv (Some h) li li anti"
proof -
  have "select_start T lv (Some h) li hi anti = select_start T lv (Some h) li li anti"
    using assms by (simp add: select_start_def)
  then show ?thesis by (simp only: BATselect_def)
qed

lemma BATselect_nil_bounds:
  assumes b: "select_column T dom b" and so: "cands_fit so"
    and nils: "dom lv" "dom h" "isnil lv" "isnil h"
    and within: "anti \<and> tnonil b \<longrightarrow> cands_within (hseqbase b) (batCount b) so"
  shows "selection_ok b (wanted T b so lv (Some h) li hi (\<not> anti)) (BATselect T b so lv (Some h) li hi anti)"
proof (cases anti)
  case False
  then have "select_anti T (select_start T lv (Some h) li hi anti) = None"
    using nils by (simp add: select_start_def select_anti_def Let_def)
  then have "BATselect T b so lv (Some h) li hi anti = Done (newempty, b)"
    using so unfolding BATselect_def
    by (auto simp: cands_fit_def cand_fits_def cand_ok_def split: option.splits tail.splits)
  moreover have "wanted T b so lv (Some h) li hi (\<not> anti) = []"
    using False nils by (simp add: wanted_def selects_def)
  ultimately show ?thesis using selection_same [OF b newempty_ok] by simp
next
  case True
  define s where "s = \<lparr>s_tl = Arg lv, s_th = Arg h, s_li = li, s_hi = hi, s_anti = False, s_lval = False,
    s_hval = False, s_equi = False, s_lnil = True, s_vl = snil T, s_vh = snil T\<rparr>"
  show ?thesis
  proof (rule BATselect_read [OF b so])
    show "select_anti T (select_start T lv (Some h) li hi anti) = Some s"
      using nils True by (simp add: select_start_def select_anti_def Let_def s_def)
    show "args_ok s" "normal T \<longrightarrow> \<not> clobbered s" using nils by (auto simp: s_def args_ok_def clobbered_def)
    show "if empty_range s then \<not> selects T lv (Some h) li hi (\<not> anti) x
      else any_test T s x = selects T lv (Some h) li hi (\<not> anti) x" for x
      using nils True by (auto simp: s_def empty_range_def any_test_def selects_def)
    show "cands_within (hseqbase b) (batCount b) so" if "tnonil b" using within True that by blast
  qed
qed

lemma BATselect_no_nils:
  assumes b: "select_column T dom b" and so: "cands_fit so" and lv: "dom lv" "isnil lv"
  shows "selection_ok b [] (BATselect T b so lv None False hi False)"
proof -
  define s where "s = \<lparr>s_tl = Arg lv, s_th = Arg lv, s_li = False, s_hi = False, s_anti = False, s_lval = True,
    s_hval = True, s_equi = True, s_lnil = True, s_vl = snil T, s_vh = snil T\<rparr>"
  have "selection_ok b (wanted T b so lv (Some lv) False False True) (BATselect T b so lv None False hi False)"
  proof (rule BATselect_read [OF b so])
    show "select_anti T (select_start T lv None False hi False) = Some s"
      using lv by (simp add: select_start_def select_anti_def Let_def s_def)
    show "args_ok s" "normal T \<longrightarrow> \<not> clobbered s" using lv by (auto simp: s_def args_ok_def clobbered_def)
    show "if empty_range s then \<not> selects T lv (Some lv) False False True x
      else any_test T s x = selects T lv (Some lv) False False True x" for x
      using lv by (simp add: s_def empty_range_def selects_def)
  qed (simp add: s_def)
  moreover have "wanted T b so lv (Some lv) False False True = []" using lv by (simp add: wanted_def selects_def)
  ultimately show ?thesis by simp
qed

text \<open>All arguments, for every column and candidate list.\<close>

lemma BATselect_selected:
  assumes b: "select_column T dom b" and so: "cands_fit so"
    and a: "dom lv" "pred_option dom hv" "\<not> clobbers T lv hv li (read_hi T lv hv li hi) anti"
    and within: "all_asked T lv hv anti \<and> tnonil b \<longrightarrow> cands_within (hseqbase b) (batCount b) so"
  shows "selection_ok b (read_rows T b so lv hv li hi anti) (BATselect T b so lv hv li hi anti)"
proof (cases hv)
  case None
  show ?thesis
  proof (cases "isnil lv \<and> \<not> anti \<and> \<not> li")
    case True
    then show ?thesis using BATselect_no_nils [OF b so a(1)] None by (simp add: read_rows_def)
  next
    case False
    then have "range_args T dom lv hv li hi anti" using a(1) None by (auto simp: range_args_def)
    from BATselect_ok [OF b so this] show ?thesis
      using a(3) within False None by (auto simp: read_rows_def read_hi_def read_anti_def all_asked_def)
  qed
next
  case (Some h)
  have h: "dom h" using a(2) Some by simp
  consider "isnil lv" "isnil h" | "\<not> isnil lv" "scmp T lv h = 0"
    | "\<not> (isnil lv \<and> isnil h)" "isnil lv \<or> scmp T lv h \<noteq> 0" by blast
  then show ?thesis
  proof cases
    case 1
    then show ?thesis
      using BATselect_nil_bounds [OF b so a(1) h 1] within Some
      by (simp add: read_rows_def read_hi_def read_anti_def all_asked_def)
  next
    case 2
    then have "range_args T dom lv hv li li anti" using a(1) h Some by (simp add: range_args_def)
    from BATselect_ok [OF b so this] show ?thesis
      using a(3) 2 unfolding Some BATselect_equal_bounds [OF 2, of b so li hi anti]
      by (simp add: read_rows_def read_hi_def read_anti_def)
  next
    case 3
    have "scmp T lv h \<noteq> 0" if "isnil lv" using 3(1) that isnil_eq [of lv h] by blast
    then have "range_args T dom lv hv li hi anti" using a(1) h Some 3 by (auto simp: range_args_def)
    from BATselect_ok [OF b so this] show ?thesis
      using a(3) 3 Some by (auto simp: read_rows_def read_hi_def read_anti_def)
  qed
qed

end

end
