(* ===== verification/Gdk_Select_Types.thy ===== *)
theory Gdk_Select_Types
  imports Gdk_Select_Correct
begin

text \<open>
  The types that a selection is made on, with their macros (gdk/gdk_select.c), the properties of
  \<open>BATselect\<close> and \<open>BATthetaselect\<close> for every type that meets the contract, and the cases that the
  properties exclude.
\<close>

section \<open>Integer types and object identifiers\<close>

text \<open>
  The estimate \<open>(BUN) (*(TYPE *) th - *(TYPE *) tl)\<close>: types smaller than \<open>int\<close> are promoted to it; an overflow
  is taken to wrap around.
\<close>

definition type_width :: "atom_type \<Rightarrow> int \<Rightarrow> int \<Rightarrow> nat" where
  "type_width t h l = nat (c_cast (max 32 (atom_bits t)) (h - l) mod 2 ^ 64)"

definition int_seltype :: "atom_type \<Rightarrow> int seltype" where
  "int_seltype t = \<lparr>scmp = simple_CMP, snil = nil t, normal = True, minval = GDK_min t + 1, maxval = GDK_max t,
     prevval = (\<lambda>x. x - 1), nextval = (\<lambda>x. x + 1), typed = True, scan_min = (\<lambda>x. x = GDK_min t + 1),
     scan_max = (\<lambda>x. x = GDK_max t), width = Some (type_width t), is_oid = False, val_oid = nat, oid_val = int\<rparr>"

text \<open>An \<open>oid\<close> is compared and scanned as \<open>lng\<close>, its base type, and normalised as \<open>oid\<close>.\<close>

definition oid_lng :: "nat \<Rightarrow> int" where
  "oid_lng x = (if x = oid_nil then - (2 ^ 63) else int x)"

definition oid_seltype :: "nat seltype" where
  "oid_seltype = \<lparr>scmp = oid_cmp, snil = oid_nil, normal = True, minval = 0, maxval = oid_nil - 1,
     prevval = (\<lambda>x. x - 1), nextval = (\<lambda>x. x + 1), typed = True, scan_min = (\<lambda>x. oid_lng x = GDK_min TYPE_lng + 1),
     scan_max = (\<lambda>x. oid_lng x = GDK_max TYPE_lng), width = Some (\<lambda>h l. type_width TYPE_lng (oid_lng h) (oid_lng l)),
     is_oid = True, val_oid = id, oid_val = id\<rparr>"

interpretation int_select: seltype_ok "int_seltype t" "of_type t" for t
proof -
  have "GDK_min t + 1 \<le> GDK_max t" by (cases t) simp_all
  then show "seltype_ok (int_seltype t) (of_type t)"
    by unfold_locales (auto simp: int_seltype_def simple_CMP_sign of_type_def nil_def)
qed

lemma oid_cmp_sign:
  "oid_cmp x y < 0 \<longleftrightarrow> oid_lng x < oid_lng y" "oid_cmp x y = 0 \<longleftrightarrow> oid_lng x = oid_lng y"
  "0 < oid_cmp x y \<longleftrightarrow> oid_lng y < oid_lng x" "oid_cmp x y \<le> 0 \<longleftrightarrow> oid_lng x \<le> oid_lng y"
  "0 \<le> oid_cmp x y \<longleftrightarrow> oid_lng y \<le> oid_lng x"
  by (simp_all add: oid_cmp_def oid_lng_def simple_CMP_sign)

definition is_an_oid :: "nat \<Rightarrow> bool" where
  "is_an_oid x \<longleftrightarrow> x \<le> oid_nil"

interpretation oid_select: seltype_ok oid_seltype is_an_oid
proof unfold_locales
qed (auto simp: oid_seltype_def oid_cmp_sign oid_lng_def is_an_oid_def oid_nil_def oid_cmp_def simple_CMP_def split: if_splits)

section \<open>Comparing with one value\<close>

text \<open>The operators and their meaning, as in the comment before \<open>BATthetaselect\<close>.\<close>

definition theta_operators :: "string list" where
  "theta_operators = [''='', ''=='', ''!='', ''<>'', ''<'', ''<='', ''>'', ''>='']"

definition theta :: "'a seltype \<Rightarrow> string \<Rightarrow> 'a \<Rightarrow> 'a \<Rightarrow> bool" where
  "theta T opn v x \<longleftrightarrow>
     scmp T v (snil T) \<noteq> 0 \<and> scmp T x (snil T) \<noteq> 0 \<and>
     (if opn = ''<'' then scmp T x v < 0 else if opn = ''<='' then scmp T x v \<le> 0
      else if opn = ''>'' then 0 < scmp T x v else if opn = ''>='' then 0 \<le> scmp T x v
      else if opn = ''='' \<or> opn = ''=='' then scmp T x v = 0 else scmp T x v \<noteq> 0)"

text \<open>
  The operator in memory.  Of \<open>''=''\<close> the code also reads the character after the end of the string, which
  has to be zero for it to be recognised.
\<close>

definition operator_at :: "string \<Rightarrow> (nat \<Rightarrow> char) \<Rightarrow> bool" where
  "operator_at opn opr \<longleftrightarrow>
     list_all (\<lambda>i. opr i = opn ! i) [0..<length opn] \<and> opr (length opn) = CHR 0x00"

definition theta_rows :: "'a seltype \<Rightarrow> 'a obat \<Rightarrow> nat column option \<Rightarrow> string \<Rightarrow> 'a \<Rightarrow> nat list" where
  "theta_rows T b so opn v =
     filter (\<lambda>ro. theta T opn v (BATvals (oid_val T) (snil T) b ! (ro - hseqbase b)))
       (candidates (hseqbase b) (batCount b) so)"

text \<open>The rows with the least value of the type, and the comparison that selects these instead.\<close>

definition least_rows :: "'a seltype \<Rightarrow> 'a obat \<Rightarrow> nat column option \<Rightarrow> nat list" where
  "least_rows T b so =
     filter (\<lambda>ro. scmp T (minval T) (BATvals (oid_val T) (snil T) b ! (ro - hseqbase b)) = 0)
       (candidates (hseqbase b) (batCount b) so)"

definition unequal_greatest :: "'a seltype \<Rightarrow> string \<Rightarrow> 'a \<Rightarrow> bool" where
  "unequal_greatest T opn v \<longleftrightarrow>
     (opn = ''!='' \<or> opn = ''<>'') \<and> normal T \<and> scmp T v (snil T) \<noteq> 0 \<and> scmp T v (maxval T) = 0 \<and>
     scmp T v (minval T) \<noteq> 0"

text \<open>
  The complement of a range that ends with the greatest value: \<open>th\<close> comes to point to \<open>vl\<close>, which is
  then overwritten, and what is selected is the least value alone.
\<close>

lemma NORMALIZE_clobbers:
  assumes "s_anti s" "s_li s" "s_hi s" "s_lval s" "s_hval s" "s_th s = Arg c" "\<not> s_equi s"
    and "scmp T (lo s) (minval T) \<noteq> 0" "scmp T (up s) (maxval T) = 0"
  shows "\<exists>s'. NORMALIZE T s = Some s' \<and> lo s' = minval T \<and> up s' = minval T \<and> s_lval s' \<and> s_hval s' \<and>
    s_li s' \<and> s_hi s' \<and> \<not> s_anti s' \<and> \<not> s_equi s'"
proof -
  have lo: "normalize_anti_lo T s = s\<lparr>s_vl := prevval T (lo s), s_tl := VL, s_li := False\<rparr>" (is "_ = ?s")
    using assms by (simp add: normalize_anti_lo_def)
  have hi: "normalize_anti_hi T ?s = ?s\<lparr>s_anti := False, s_th := VL, s_hi := True, s_lval := False\<rparr>"
    using assms by (simp add: normalize_anti_hi_def)
  show ?thesis
    unfolding NORMALIZE_def lo hi Let_def by (simp add: normalize_lo_def normalize_hi_def assms deref_def)
qed

context seltype_ok
begin

lemma clobbers_start:
  assumes "clobbers T lv hv li hi anti" "range_args T dom lv hv li hi anti"
  shows "\<exists>s c. select_anti T (select_start T lv hv li hi anti) = Some s \<and> \<not> empty_range s \<and>
    s_anti s \<and> s_li s \<and> s_hi s \<and> s_lval s \<and> s_hval s \<and> s_th s = Arg c \<and> \<not> s_equi s \<and>
    scmp T (lo s) (minval T) \<noteq> 0 \<and> scmp T (up s) (maxval T) = 0"
  using assms(2)
proof (cases rule: args_cases)
  case 1
  have c: "anti" "li" "\<not> isnil lv" "scmp T lv (minval T) \<noteq> 0" using assms(1) by (auto simp: clobbers_def)
  have "scmp T lv (maxval T) = 0"
  proof (cases hv)
    case (Some h)
    then have "scmp T lv h = 0" "scmp T h (maxval T) = 0" using 1(1) assms(1) by (auto simp: clobbers_def)
    then show ?thesis using cmp_0_left [of lv h "maxval T"] by (simp add: sgn_0_0)
  qed (use assms(1) in \<open>simp add: clobbers_def\<close>)
  then show ?thesis using c unfolding start_point [OF 1(1)] by (simp add: select_anti_def empty_range_def deref_def)
next
  case (2 h)
  have c: "normal T" "anti" "li" "hi" "\<not> isnil lv" "scmp T lv (minval T) \<noteq> 0" "scmp T h (maxval T) = 0"
    using assms(1) 2(1) by (auto simp: clobbers_def)
  have h: "\<not> isnil h" using isnil_eq [OF c(7)] max_dom [OF c(1)] by blast
  have "dom lv" using assms(2) by (simp add: range_args_def)
  then have "scmp T lv h \<le> 0"
    using max_greatest [OF c(1)] cmp_0_left [OF c(7), of lv] cmp_le_swap [of lv "maxval T"] cmp_le_swap [of lv h]
    by (auto simp: sgn_if split: if_splits)
  then show ?thesis using c h unfolding start_range [OF 2(1,3,4)] by (simp add: select_anti_def empty_range_def deref_def)
qed

lemma BATselect_clobbered_ok:
  assumes b: "select_column T dom b" and so: "cands_fit so"
    and a: "range_args T dom lv hv li hi anti" "clobbers T lv hv li hi anti"
  shows "selection_ok b (least_rows T b so) (BATselect T b so lv hv li hi anti)"
proof (cases "batCount b = 0 \<or> (case so of
           None \<Rightarrow> False
         | Some c \<Rightarrow> batCount c = 0 \<or>
             (case ttail c of
                TVals _ \<Rightarrow> False
              | TVoid seq \<Rightarrow> seq \<noteq> oid_nil \<and> (hseqbase b + batCount b \<le> seq \<or> seq + batCount c \<le> hseqbase b)))")
  case True
  then show ?thesis using BATselect_trivial [OF True so] selection_same [OF b newempty_ok] no_candidates [OF True so]
    by (simp add: least_rows_def)
next
  case False
  have nm: "normal T" using a(2) by (simp add: clobbers_def)
  obtain s c where s: "select_anti T (select_start T lv hv li hi anti) = Some s" "\<not> empty_range s"
    "s_anti s" "s_li s" "s_hi s" "s_lval s" "s_hval s" "s_th s = Arg c" "\<not> s_equi s"
    "scmp T (lo s) (minval T) \<noteq> 0" "scmp T (up s) (maxval T) = 0"
    using clobbers_start [OF a(2,1)] by blast
  obtain s' where N: "NORMALIZE T s = Some s'" and s': "lo s' = minval T" "up s' = minval T" "s_lval s'" "s_hval s'"
    "s_li s'" "s_hi s'" "\<not> s_anti s'" "\<not> s_equi s'"
    using NORMALIZE_clobbers [OF s(3-11)] by blast
  note mn = min_dom [OF nm] min_least [OF nm]
  have bo: "bounds_ok s'" "normal T \<longrightarrow> closed s'"
    using s' mn by (auto simp: bounds_ok_def closed_def covers_def above_lo_def le_less)
  have test: "any_test T s' x \<longleftrightarrow> scmp T (minval T) x = 0" if "dom x" for x
    using s' mn(1) isnil_eq [of "minval T" x] by (auto simp: any_test_def)
  have m: "matching b so s' = least_rows T b so"
    unfolding matching_def least_rows_def using test candidate_value(1) [OF b] by (intro filter_cong refl) simp
  obtain ordered b' where d: "detect b = (ordered, b')" by (cases "detect b")
  have call: "BATselect T b so lv hv li hi anti =
      andthen (if ordered then select_ordered T b' so s' else select_scan T b' so s') (\<lambda>bn. Done (bn, b'))"
    unfolding BATselect_steps [OF so s(1) False] using s(2,6,9) nm N d by simp
  have "0 < batCount b" using False by simp
  then show ?thesis
    using search_or_scan [OF b _ so bo _ d] detect_ok(1,2) [OF b d] s'(8) m unfolding call
    by (auto simp: estimated_def selection_ok_def)
qed

lemma BATselect_least:
  assumes b: "select_column T dom b" and so: "cands_fit so"
    and a: "dom lv" "pred_option dom hv" "clobbers T lv hv li (read_hi T lv hv li hi) anti"
  shows "selection_ok b (least_rows T b so) (BATselect T b so lv hv li hi anti)"
proof -
  have nil: "\<not> isnil lv" using a(3) by (simp add: clobbers_def)
  then have "range_args T dom lv hv li (read_hi T lv hv li hi) anti"
    using a(1,2) by (auto simp: range_args_def read_hi_def split: option.splits)
  note ok = BATselect_clobbered_ok [OF b so this a(3)]
  have "BATselect T b so lv hv li hi anti = BATselect T b so lv hv li (read_hi T lv hv li hi) anti"
  proof (cases "\<exists>h. hv = Some h \<and> scmp T lv h = 0")
    case True
    then obtain h where h: "hv = Some h" "scmp T lv h = 0" by blast
    then have "read_hi T lv hv li hi = li" using nil by (simp add: read_hi_def)
    then show ?thesis using BATselect_equal_bounds [OF nil h(2), of b so li hi anti] h(1) by simp
  next
    case False
    then have "read_hi T lv hv li hi = hi" by (auto simp: read_hi_def split: option.splits)
    then show ?thesis by simp
  qed
  then show ?thesis using ok by simp
qed

lemma theta_args:
  assumes "dom v" "\<not> isnil v"
  shows "range_args T dom v None True True anti" "range_args T dom (snil T) (Some v) False hi False"
    "range_args T dom v (Some (snil T)) li False False"
proof -
  have "scmp T (snil T) v \<noteq> 0" "scmp T v (snil T) \<noteq> 0" using assms(2) cmp_eq_swap by blast+
  then show "range_args T dom v None True True anti" "range_args T dom (snil T) (Some v) False hi False"
    "range_args T dom v (Some (snil T)) li False False"
    using assms dom_nil by (simp_all add: range_args_def)
qed

lemma theta_selects:
  assumes v: "dom v" "\<not> isnil v" and x: "dom x"
  shows "opn = ''='' \<or> opn = ''=='' \<Longrightarrow> selects T v None True True False x = theta T opn v x"
    "opn = ''!='' \<or> opn = ''<>'' \<Longrightarrow> selects T v None True True True x = theta T opn v x"
    "selects T (snil T) (Some v) False False False x = theta T ''<'' v x"
    "selects T (snil T) (Some v) False True False x = theta T ''<='' v x"
    "selects T v (Some (snil T)) False False False x = theta T ''>'' v x"
    "selects T v (Some (snil T)) True False False x = theta T ''>='' v x"
proof -
  have flip: "scmp T x v < 0 \<longleftrightarrow> 0 < scmp T v x" "scmp T x v = 0 \<longleftrightarrow> scmp T v x = 0" "0 < scmp T x v \<longleftrightarrow> scmp T v x < 0"
    "scmp T x v \<le> 0 \<longleftrightarrow> 0 < scmp T v x \<or> scmp T v x = 0" "0 \<le> scmp T x v \<longleftrightarrow> scmp T v x < 0 \<or> scmp T v x = 0"
    using cmp_swap [of x v] cmp_swap [of v x] cmp_eq_swap [of x v] cmp_le_swap [of x v] cmp_le_swap [of v x] by linarith+
  have nil: "isnil x \<Longrightarrow> scmp T v x \<noteq> 0" using isnil_eq [of v x] v(2) by blast
  show "opn = ''='' \<or> opn = ''=='' \<Longrightarrow> selects T v None True True False x = theta T opn v x"
    "opn = ''!='' \<or> opn = ''<>'' \<Longrightarrow> selects T v None True True True x = theta T opn v x"
    "selects T (snil T) (Some v) False False False x = theta T ''<'' v x"
    "selects T (snil T) (Some v) False True False x = theta T ''<='' v x"
    "selects T v (Some (snil T)) False False False x = theta T ''>'' v x"
    "selects T v (Some (snil T)) True False False x = theta T ''>='' v x"
    using v(2) nil by (auto simp: selects_def theta_def flip Let_def)
qed

lemma theta_wanted:
  assumes "select_column T dom b" "\<And>x. dom x \<Longrightarrow> selects T lv hv li hi anti x = theta T opn v x"
  shows "wanted T b so lv hv li hi anti = theta_rows T b so opn v"
  unfolding wanted_def theta_rows_def using assms(2) candidate_value(1) [OF assms(1)] by (intro filter_cong refl) blast

text \<open>The call of \<open>BATselect\<close> for each operator.\<close>

lemma theta_call:
  assumes "opn \<in> set theta_operators" "operator_at opn opr" "\<not> isnil v" "opn = ''='' \<longrightarrow> opr 2 = CHR 0x00"
  shows "BATthetaselect T b so v opr =
    (if opn = ''='' \<or> opn = ''=='' then BATselect T b so v None True True False
     else if opn = ''!='' \<or> opn = ''<>'' then BATselect T b so v None True True True
     else if opn = ''<'' then BATselect T b so (snil T) (Some v) False False False
     else if opn = ''<='' then BATselect T b so (snil T) (Some v) False True False
     else if opn = ''>'' then BATselect T b so v (Some (snil T)) False False False
     else BATselect T b so v (Some (snil T)) True False False)"
proof -
  have two: "opr 2 = CHR 0x00" "opr 1 = opn ! 1" if "length opn = 2"
    using assms(2) that by (simp_all add: operator_at_def upt_rec numeral_2_eq_2)
  have one: "opr 1 = CHR 0x00" if "length opn = 1" using assms(2) that by (simp add: operator_at_def)
  have zero: "opr 0 = opn ! 0" if "length opn \<noteq> 0" using assms(2) that by (simp add: operator_at_def upt_rec)
  have eq: "opr 2 = CHR 0x00" if "opn = ''=''" using assms(4) that by simp
  have "opn = ''='' \<or> opn = ''=='' \<or> opn = ''!='' \<or> opn = ''<>'' \<or> opn = ''<'' \<or> opn = ''<='' \<or> opn = ''>'' \<or> opn = ''>=''"
    using assms(1) by (simp add: theta_operators_def)
  then show ?thesis
    by (elim disjE) (use assms(3) zero one two eq in \<open>simp_all add: BATthetaselect_def\<close>)
qed

lemma BATthetaselect_ok:
  assumes b: "select_column T dom b" and so: "cands_fit so" and v: "dom v"
    and opr: "opn \<in> set theta_operators" "operator_at opn opr"
    and eq: "opn = ''='' \<longrightarrow> opr 2 = CHR 0x00 \<or> isnil v"
  shows "selection_ok b (if unequal_greatest T opn v then least_rows T b so else theta_rows T b so opn v)
    (BATthetaselect T b so v opr)"
proof (cases "isnil v")
  case True
  then have "theta_rows T b so opn v = []" "\<not> unequal_greatest T opn v"
    by (simp_all add: theta_rows_def theta_def unequal_greatest_def)
  then show ?thesis using selection_same [OF b newempty_ok] True by (simp add: BATthetaselect_def)
next
  case False
  have eq: "opn = ''='' \<longrightarrow> opr 2 = CHR 0x00" using eq False by blast
  note args = theta_args [OF v False] and call = theta_call [OF opr False eq]
  note sel = BATselect_ok [OF b so]
  note rows = theta_wanted [OF b theta_selects(3) [OF v False]] theta_wanted [OF b theta_selects(4) [OF v False]]
    theta_wanted [OF b theta_selects(5) [OF v False]] theta_wanted [OF b theta_selects(6) [OF v False]]
  have nc: "\<not> clobbers T lv hv li hi False" for lv hv li hi by (simp add: clobbers_def)
  consider "opn = ''='' \<or> opn = ''==''" | "opn = ''!='' \<or> opn = ''<>''" | "opn = ''<''" | "opn = ''<=''"
    | "opn = ''>''" | "opn = ''>=''"
    using opr(1) by (auto simp: theta_operators_def)
  then show ?thesis
  proof cases
    case 1
    then have "\<not> unequal_greatest T opn v" by (auto simp: unequal_greatest_def)
    then show ?thesis using sel [OF args(1) nc] theta_wanted [OF b theta_selects(1) [OF v False _ 1]] call 1 by simp
  next
    case 2
    have op: "opn \<noteq> ''=''" "opn \<noteq> ''==''" using 2 by auto
    show ?thesis
    proof (cases "unequal_greatest T opn v")
      case True
      then have "clobbers T v None True (read_hi T v None True True) True"
        using False by (simp add: clobbers_def unequal_greatest_def)
      from BATselect_least [OF b so v _ this] show ?thesis using True op call 2 by simp
    next
      case ok: False
      then have nc: "\<not> clobbers T v None True True True" using 2 False by (auto simp: clobbers_def unequal_greatest_def)
      then show ?thesis
        using sel [OF args(1) nc] theta_wanted [OF b theta_selects(2) [OF v False _ 2]] call 2 op ok False by simp
    qed
  next
    case 3
    then show ?thesis using sel [OF args(2) [of False] nc] rows(1) call by (simp add: unequal_greatest_def)
  next
    case 4
    then show ?thesis using sel [OF args(2) [of True] nc] rows(2) call by (simp add: unequal_greatest_def)
  next
    case 5
    then show ?thesis using sel [OF args(3) [of False] nc] rows(3) call by (simp add: unequal_greatest_def)
  next
    case 6
    then show ?thesis using sel [OF args(3) [of True] nc] rows(4) call by (simp add: unequal_greatest_def)
  qed
qed

end

section \<open>The properties\<close>

text \<open>C4. \<open>BATselect\<close>: whatever the type, the order of the column, the candidate list and the bounds, the
  result is a candidate list of the candidates whose values are selected, in their order; the rows of
  the column are unchanged and what its descriptor has learnt of its order is true.  What is selected is
  given by the table in the function's comment, except that of two equal bounds \<open>hi\<close> is read as \<open>li\<close>, that
  for two nil bounds \<open>anti\<close> is read the other way round, and that nil without \<open>li\<close> selects nothing.  The
  one other outcome is a write beyond the result, possible only for a column that is known to have no
  duplicates, is not known to be sorted, and is of an integer type.  Left out are the complements
  of ranges that end with the greatest value of the type, both bounds included and the lower one not the
  least value (\<open>clobbers\<close>, the subject of the last section), and candidates that are not rows of the column when all values but
  nil of a column without nils are asked for.\<close>
theorem BATselect_correct:
  assumes "seltype_ok T valid" "select_column T valid b" "cands_fit so" "valid lv" "pred_option valid hv"
    and "\<not> clobbers T lv hv li (read_hi T lv hv li hi) anti"
    and "all_asked T lv hv anti \<and> tnonil b \<longrightarrow> cands_within (hseqbase b) (batCount b) so"
  shows "(\<exists>bn b'. BATselect T b so lv hv li hi anti = Done (bn, b') \<and> result_ok (read_rows T b so lv hv li hi anti) bn \<and>
      same_rows b b' \<and> select_column T valid b') \<or>
    BATselect T b so lv hv li hi anti = Crash \<and> typed T \<and> tkey b \<and> width T \<noteq> None \<and> \<not> tsorted b"
  using seltype_ok.BATselect_selected [OF assms] unfolding seltype_ok.selection_ok_def [OF assms(1)] by blast

text \<open>An \<open>int\<close> column in no order, with a nil.\<close>

definition int_column :: "int obat" where
  "int_column = \<lparr>batFirst = 0, batCount = 4, ttail = TVals [7, nil TYPE_int, 3, 5], tsorted = False, trevsorted = False,
     tkey = False, hseqbase = 10, tnonil = False, tnil = False, nosorted = 0, norevsorted = 0\<rparr>"

lemma int_column_ok: "select_column (int_seltype TYPE_int) (of_type TYPE_int) int_column"
  by (simp add: select_column_def flags_ok_def int_column_def BATvals_def of_type_def nil_def BUN_NONE_def oid_nil_def)

lemma BATselect_correct_witness:
  "\<exists>bn b'. BATselect (int_seltype TYPE_int) int_column None 3 (Some 7) True False False = Done (bn, b') \<and>
     tail_oids bn = [12, 13]"
proof -
  have T: "seltype_ok (int_seltype TYPE_int) (of_type TYPE_int)" by (rule int_select.seltype_ok_axioms)
  have "of_type TYPE_int 3" "pred_option (of_type TYPE_int) (Some 7)"
    "\<not> clobbers (int_seltype TYPE_int) 3 (Some 7) True (read_hi (int_seltype TYPE_int) 3 (Some 7) True False) False"
    "\<not> all_asked (int_seltype TYPE_int) 3 (Some 7) False" "cands_fit None" "\<not> tkey int_column"
    by (simp_all add: clobbers_def cands_fit_def int_column_def all_asked_def of_type_def)
  moreover have "read_rows (int_seltype TYPE_int) int_column None 3 (Some 7) True False False = [12, 13]"
    by (simp add: read_rows_def read_hi_def read_anti_def wanted_def selects_def candidates_def int_column_def BATvals_def int_seltype_def simple_CMP_sign
        nil_def upt_rec)
  ultimately show ?thesis
    using BATselect_correct [OF T int_column_ok, of None 3 "Some 7" True False False]
    by (auto simp: result_ok_def simp del: option.pred_inject)
qed

lemma equals_fails:
  assumes "operator_at ''='' opr" "opr 2 \<noteq> CHR 0x00" "scmp T v (snil T) \<noteq> 0"
  shows "BATthetaselect T b so v opr = Failed"
  using assms by (simp add: BATthetaselect_def operator_at_def)

text \<open>C14. \<open>BATthetaselect\<close>: for each of its operators the result has the candidates whose values compare so
  with the value, none of them nil, and none at all for the value nil.  There are three exceptions.
  The operators \<open>!=\<close> and \<open><>\<close> with the greatest value of a type give the rows with the least value of
  the type (\<open>unequal_greatest\<close>).  For the operator \<open>=\<close> the character behind the end of the string is
  read, and unless it is zero the function fails.  For a column that is known to have no duplicates,
  is not known to be sorted, and is of an integer type, it may write beyond the result.\<close>
theorem BATthetaselect_correct:
  assumes "seltype_ok T valid" "select_column T valid b" "cands_fit so" "valid v"
    and "opn \<in> set theta_operators" "operator_at opn opr"
  shows "if opn = ''='' \<and> opr 2 \<noteq> CHR 0x00 \<and> scmp T v (snil T) \<noteq> 0 then BATthetaselect T b so v opr = Failed
    else (\<exists>bn b'. BATthetaselect T b so v opr = Done (bn, b') \<and>
      result_ok (if unequal_greatest T opn v then least_rows T b so else theta_rows T b so opn v) bn \<and>
      same_rows b b' \<and> select_column T valid b') \<or>
    BATthetaselect T b so v opr = Crash \<and> typed T \<and> tkey b \<and> width T \<noteq> None \<and> \<not> tsorted b"
proof (cases "opn = ''='' \<and> opr 2 \<noteq> CHR 0x00 \<and> scmp T v (snil T) \<noteq> 0")
  case True
  then show ?thesis using equals_fails [of opr T v b so] assms(6) by simp
next
  case False
  then have "opn = ''='' \<longrightarrow> opr 2 = CHR 0x00 \<or> scmp T v (snil T) = 0" by blast
  from seltype_ok.BATthetaselect_ok [OF assms this] show ?thesis
    unfolding seltype_ok.selection_ok_def [OF assms(1)] if_not_P [OF False] by blast
qed

lemma BATthetaselect_correct_witness:
  "\<exists>bn b'. BATthetaselect (int_seltype TYPE_int) int_column None 5 ((\<lambda>_. CHR 0x00)(0 := CHR ''>'', 1 := CHR ''='')) =
     Done (bn, b') \<and> tail_oids bn = [10, 13]"
proof -
  have T: "seltype_ok (int_seltype TYPE_int) (of_type TYPE_int)" by (rule int_select.seltype_ok_axioms)
  have "''>='' \<in> set theta_operators" "operator_at ''>='' ((\<lambda>_. CHR 0x00)(0 := CHR ''>'', 1 := CHR ''=''))"
    "cands_fit None" "of_type TYPE_int 5" "\<not> tkey int_column"
    by (simp_all add: theta_operators_def operator_at_def cands_fit_def int_column_def of_type_def upt_rec)
  moreover have "\<not> unequal_greatest (int_seltype TYPE_int) ''>='' 5" by (simp add: unequal_greatest_def)
  moreover have "theta_rows (int_seltype TYPE_int) int_column None ''>='' 5 = [10, 13]"
    by (simp add: theta_rows_def theta_def candidates_def int_column_def BATvals_def int_seltype_def simple_CMP_sign
        nil_def upt_rec)
  ultimately show ?thesis
    using BATthetaselect_correct [OF T int_column_ok, of None 5 "''>=''" "(\<lambda>_. CHR 0x00)(0 := CHR ''>'', 1 := CHR ''='')"]
    by (auto simp: result_ok_def)
qed

section \<open>Where the code departs from its comments\<close>

text \<open>C40. The complement of a range that ends with the greatest value of the type, where both bounds are
  in the range and the lower bound is not the least value: instead of the rows below the range,
  \<open>BATselect\<close> gives the rows with the least value of the type.  The same holds for the complement of the
  greatest value alone, \<open>x <> MAX\<close>.  The one other outcome is a write beyond the result, as for other ranges.\<close>
theorem BATselect_clobbered:
  assumes "seltype_ok T valid" "select_column T valid b" "cands_fit so" "valid lv" "pred_option valid hv"
    and "clobbers T lv hv li (read_hi T lv hv li hi) anti"
  shows "(\<exists>bn b'. BATselect T b so lv hv li hi anti = Done (bn, b') \<and> result_ok (least_rows T b so) bn \<and>
      same_rows b b' \<and> select_column T valid b') \<or>
    BATselect T b so lv hv li hi anti = Crash \<and> typed T \<and> tkey b \<and> width T \<noteq> None \<and> \<not> tsorted b"
  using seltype_ok.BATselect_least [OF assms] unfolding seltype_ok.selection_ok_def [OF assms(1)] by blast

definition bte_column :: "int obat" where
  "bte_column = \<lparr>batFirst = 0, batCount = 3, ttail = TVals [1, 2, 127], tsorted = True, trevsorted = False,
     tkey = False, hseqbase = 0, tnonil = True, tnil = False, nosorted = 0, norevsorted = 0\<rparr>"

lemma BATselect_clobbered_witness:
  "(\<exists>bn b'. BATselect (int_seltype TYPE_bte) bte_column None 127 None True True True = Done (bn, b') \<and> tail_oids bn = []) \<and>
   wanted (int_seltype TYPE_bte) bte_column None 127 None True True True = [0, 1]"
proof -
  have T: "seltype_ok (int_seltype TYPE_bte) (of_type TYPE_bte)" by (rule int_select.seltype_ok_axioms)
  have "select_column (int_seltype TYPE_bte) (of_type TYPE_bte) bte_column" "cands_fit None" "\<not> tkey bte_column"
    "of_type TYPE_bte 127" "clobbers (int_seltype TYPE_bte) 127 None True (read_hi (int_seltype TYPE_bte) 127 None True True) True"
    by (simp_all add: select_column_def flags_ok_def bte_column_def BATvals_def BUN_NONE_def oid_nil_def
        clobbers_def cands_fit_def int_seltype_def simple_CMP_sign of_type_def nil_def)
  moreover have "least_rows (int_seltype TYPE_bte) bte_column None = []"
    by (simp add: least_rows_def candidates_def bte_column_def BATvals_def int_seltype_def simple_CMP_sign upt_rec)
  moreover have "wanted (int_seltype TYPE_bte) bte_column None 127 None True True True = [0, 1]"
    by (simp add: wanted_def selects_def candidates_def bte_column_def BATvals_def int_seltype_def simple_CMP_sign
        nil_def upt_rec)
  ultimately show ?thesis
    using BATselect_clobbered [OF T, of bte_column None 127 None True True True] by (auto simp: result_ok_def)
qed

text \<open>The fast loop of a scan writes beyond a result that is full, whether the next row matches or not.\<close>

lemma scan_fast_overflow:
  "cap \<le> length dst + length (filter match os) \<Longrightarrow> scan_fast cap match (os @ x # xs) dst = Crash"
  by (induction cap match os dst rule: scan_fast.induct) auto

text \<open>All values but nil of a column without nils: the candidates themselves, rows or not.\<close>

lemma everything_keeps_candidates:
  assumes "ttail c = TVals vs" "tsorted c" "0 < batCount b" "0 < batCount c" "tnonil b" "scmp T (snil T) (snil T) = 0"
  shows "BATselect T b (Some c) (snil T) None li hi True = Done (c, b)"
  using assms by (simp add: BATselect_def select_start_def select_anti_def Let_def)

end
