(* ===== verification/Gdk_Convert.thy ===== *)
theory Gdk_Convert
  imports Gdk_BatCalc
begin

text \<open>
  Conversion between the integer types (gdk/gdk_calc.c): the element steps of
  \<open>convertimpl_copy\<close>, \<open>convertimpl_enlarge\<close> and \<open>convertimpl_reduce\<close>, the type switch, and the
  entry points \<open>BATconvert\<close> and \<open>VARconvert\<close>.  The loops are those of the arithmetic kernels with
  one operand.
\<close>

definition convert_copy :: "atom_type \<Rightarrow> int \<Rightarrow> step_result" where
  "convert_copy t x = Inr (x, if x = nil t then 1 else 0)"

definition convert_enlarge :: "atom_type \<Rightarrow> atom_type \<Rightarrow> int \<Rightarrow> step_result" where
  "convert_enlarge t1 t2 x = (if x = nil t1 then Inr (nil t2, 1) else Inr (to_type t2 x, 0))"

definition convert_reduce :: "atom_type \<Rightarrow> atom_type \<Rightarrow> bool \<Rightarrow> int \<Rightarrow> step_result" where
  "convert_reduce t1 t2 ab x =
     (if x = nil t1 then Inr (nil t2, 1)
      else if x \<le> to_type t1 (GDK_min t2) \<or> to_type t1 (GDK_max t2) < x
      then (if ab then Inl BUN_NONE else Inr (nil t2, 1))
      else Inr (to_type t2 x, 0))"

definition convert_switch :: "bool \<Rightarrow> atom_type \<Rightarrow> atom_type \<Rightarrow> bool \<Rightarrow> (int \<Rightarrow> step_result) option" where
  "convert_switch hge stp dtp ab =
     (if \<not> (available hge stp \<and> available hge dtp) then None
      else if stp = dtp then Some (convert_copy stp)
      else if stp < dtp then Some (convert_enlarge stp dtp)
      else Some (convert_reduce stp dtp ab))"

definition convert_typeswitchloop ::
  "bool \<Rightarrow> int list \<Rightarrow> atom_type \<Rightarrow> int list \<Rightarrow> atom_type \<Rightarrow> nat \<Rightarrow> nat \<Rightarrow> nat \<Rightarrow> nat list option \<Rightarrow> nat \<Rightarrow>
   bool \<Rightarrow> nat + (int list \<times> nat)" where
  "convert_typeswitchloop hge src stp dst dtp cnt start end cand candoff ab =
     (case convert_switch hge stp dtp ab of
        None \<Rightarrow> Inl (BUN_NONE + 1)
      | Some step \<Rightarrow> calc_kernel (\<lambda>x _. step x) (nil dtp) src 1 src 1 dst cnt start end cand candoff)"

definition BATconvert :: "bool \<Rightarrow> nbat \<Rightarrow> nat column option \<Rightarrow> atom_type \<Rightarrow> bool \<Rightarrow> nbat option" where
  "BATconvert hge b s tp ab =
     (let r = CANDINIT (hseq b) (length (vals b)) s
      in if s = None \<and> ntype b = tp then Some b
         else
           case convert_typeswitchloop hge (vals b) (ntype b) (BATnew_tail (length (vals b))) tp (length (vals b))
                  (c_start r) (c_end r) (c_cand r) (hseq b) ab of
             Inl e \<Rightarrow> None
           | Inr (vs, nils) \<Rightarrow>
               Some \<lparr>hseq = hseq b, ntype = tp, vals = vs, nsorted = (nils = 0 \<and> nsorted b),
                 nrevsorted = (nils = 0 \<and> nrevsorted b), nkey = (nkey b \<and> nils \<le> 1),
                 has_nil = (nils \<noteq> 0), nonil = (nils = 0)\<rparr>)"

definition VARconvert :: "bool \<Rightarrow> valrecord \<Rightarrow> atom_type \<Rightarrow> bool \<Rightarrow> valrecord option" where
  "VARconvert hge v tp ab =
     (case convert_typeswitchloop hge [vval v] (vtype v) [0] tp 1 0 1 None 0 ab of
        Inl e \<Rightarrow> None
      | Inr (vs, nils) \<Rightarrow> Some \<lparr>vtype = tp, vval = hd vs\<rparr>)"

section \<open>The values\<close>

text \<open>The value when it fits, else nil; and when it does not fit.\<close>

definition converted :: "atom_type \<Rightarrow> atom_type \<Rightarrow> int \<Rightarrow> int" where
  "converted t1 t2 x = (if x = nil t1 \<or> GDK_max t2 < \<bar>x\<bar> then nil t2 else x)"

definition convert_overflow :: "atom_type \<Rightarrow> atom_type \<Rightarrow> int \<Rightarrow> bool" where
  "convert_overflow t1 t2 x \<longleftrightarrow> x \<noteq> nil t1 \<and> GDK_max t2 < \<bar>x\<bar>"

lemma convert_step:
  assumes "convert_switch hge t1 t2 ab = Some step" "of_type t1 x"
  shows "step x = (if ab \<and> convert_overflow t1 t2 x then Inl BUN_NONE
    else Inr (converted t1 t2 x, if converted t1 t2 x = nil t2 then 1 else 0))"
proof -
  have nn: "\<bar>y\<bar> \<le> GDK_max t \<Longrightarrow> y \<noteq> nil t" for y t
    using nil_not_non_nil [of t] by (auto simp: non_nil_iff abs_le_iff)
  have x: "x = nil t1 \<or> \<bar>x\<bar> \<le> GDK_max t1"
    using assms(2) by (auto simp: of_type_def nil_def GDK_min_max abs_le_iff)
  consider "t1 = t2" "step = convert_copy t1" | "t1 < t2" "step = convert_enlarge t1 t2"
    | "t2 < t1" "step = convert_reduce t1 t2 ab"
    using assms(1) by (auto simp: convert_switch_def split: if_splits)
  then show ?thesis
  proof cases
    case 1
    then show ?thesis using x nn [of x t1] by (auto simp: convert_copy_def converted_def convert_overflow_def)
  next
    case 2
    have "of_type t2 x" "\<bar>x\<bar> \<le> GDK_max t2" if "x \<noteq> nil t1"
      using x that GDK_max_mono [OF less_imp_le [OF 2(1)]] by (auto intro!: of_type_between simp: abs_le_iff)
    then show ?thesis using 2 nn [of x t2] by (cases "x = nil t1") (auto simp: convert_enlarge_def converted_def convert_overflow_def)
  next
    case 3
    have m: "GDK_max t2 < GDK_max t1" using 3(1) by (cases t1; cases t2) (simp_all add: less_atom_type_def)
    then have "to_type t1 (GDK_min t2) = GDK_min t2" "to_type t1 (GDK_max t2) = GDK_max t2"
      using GDK_max_pos [of t2] by (auto intro!: to_type_id of_type_between simp: GDK_min_max simp del: GDK_max_pos)
    moreover have "x \<le> GDK_min t2 \<or> GDK_max t2 < x \<longleftrightarrow> GDK_max t2 < \<bar>x\<bar>" by (auto simp: GDK_min_max)
    moreover have "\<bar>x\<bar> \<le> GDK_max t2 \<Longrightarrow> to_type t2 x = x"
      using of_type_between [of t2 x] by (simp add: abs_le_iff)
    ultimately show ?thesis
      using 3 nn [of x t2] by (auto simp: convert_reduce_def converted_def convert_overflow_def not_less)
  qed
qed

lemma convert_switch_None: "convert_switch hge t1 t2 ab = None \<longleftrightarrow> \<not> (available hge t1 \<and> available hge t2)"
  by (simp add: convert_switch_def)

lemma converted_type: "of_type t2 (converted t1 t2 x)"
  by (auto simp: converted_def not_less abs_le_iff intro!: of_type_between)

lemma convert_loop:
  assumes "cands_ok s" "\<forall>x\<in>set src. of_type t1 x" "length src = cnt" "available hge t1" "available hge t2"
  shows "convert_typeswitchloop hge src t1 (BATnew_tail cnt) t2 cnt (c_start (CANDINIT hs cnt s))
      (c_end (CANDINIT hs cnt s)) (c_cand (CANDINIT hs cnt s)) hs ab =
    (if ab \<and> (\<exists>k\<in>set (selected hs cnt s). convert_overflow t1 t2 (src ! k)) then Inl BUN_NONE
     else let vs = map (\<lambda>k. if k \<in> set (selected hs cnt s) then converted t1 t2 (src ! k) else nil t2) [0..<cnt]
          in Inr (vs, count_list vs (nil t2)))"
proof -
  let ?sel = "\<lambda>k. k \<in> set (selected hs cnt s)"
  let ?val = "\<lambda>k. if ?sel k then converted t1 t2 (src ! k) else nil t2"
  obtain step where step: "convert_switch hge t1 t2 ab = Some step"
    using assms(4,5) convert_switch_None [of hge t1 t2 ab] by (cases "convert_switch hge t1 t2 ab") auto
  have "cand_ok c" if "s = Some c" for c using assms(1) that by (simp add: cands_ok_def)
  from calc_kernel_rows [OF this, of s "BATnew_tail cnt" cnt _ hs "\<lambda>x _. step x" "nil t2" src 1 src 1, OF _ _ refl]
  have run: "convert_typeswitchloop hge src t1 (BATnew_tail cnt) t2 cnt (c_start (CANDINIT hs cnt s))
      (c_end (CANDINIT hs cnt s)) (c_cand (CANDINIT hs cnt s)) hs ab =
      collect (map (calc_row (\<lambda>x _. step x) (nil t2) src 1 src 1 ?sel) [0..<cnt])"
    using step by (simp add: convert_typeswitchloop_def BATnew_tail_def)
  have row: "calc_row (\<lambda>x _. step x) (nil t2) src 1 src 1 ?sel k =
      (if ?sel k \<and> ab \<and> convert_overflow t1 t2 (src ! k) then Inl BUN_NONE
       else Inr (?val k, if ?val k = nil t2 then 1 else 0))" if "k < cnt" for k
    using convert_step [OF step, of "src ! k"] assms(2,3) that by (simp add: calc_row_def)
  have "collect (map (calc_row (\<lambda>x _. step x) (nil t2) src 1 src 1 ?sel) [0..<cnt]) =
      (if \<exists>k\<in>set [0..<cnt]. ?sel k \<and> ab \<and> convert_overflow t1 t2 (src ! k) then Inl BUN_NONE
       else Inr (map ?val [0..<cnt], sum_list (map (\<lambda>k. if ?val k = nil t2 then 1 else 0) [0..<cnt])))"
    by (rule collect_uniform) (use row in simp)
  moreover have "sum_list (map (\<lambda>k. if ?val k = nil t2 then 1 else 0) ks) = count_list (map ?val ks) (nil t2)" for ks
    by (induction ks) auto
  ultimately show ?thesis
    unfolding run Let_def using selected_less [of _ hs cnt s] by (auto cong: map_cong)
qed

lemma two_occurrences:
  assumes "count_list xs y \<le> 1" "i < length xs" "j < length xs" "xs ! i = y" "xs ! j = y"
  shows "i = j"
proof -
  have "card {k. k < length xs \<and> y = xs ! k} \<le> 1"
    using assms(1) by (simp add: count_list_eq_length_filter length_filter_conv_card)
  then show ?thesis
    using assms(2-5) card_le_Suc0_iff_eq [of "{k. k < length xs \<and> y = xs ! k}"] by auto
qed

lemma converted_distinct:
  assumes "distinct src" "length src = cnt" "\<forall>x\<in>set src. of_type t1 x"
    and vs: "vs = map (\<lambda>k. if k \<in> S then converted t1 t2 (src ! k) else nil t2) [0..<cnt]"
    and "count_list vs (nil t2) \<le> 1"
  shows "distinct vs"
  unfolding distinct_conv_nth
proof (intro allI impI)
  fix i j assume ij: "i < length vs" "j < length vs" "i \<noteq> j"
  have len: "length vs = cnt" by (simp add: vs)
  have val: "vs ! k = nil t2 \<or> vs ! k = src ! k" if "k < cnt" for k
    using that by (auto simp: vs converted_def)
  show "vs ! i \<noteq> vs ! j"
  proof
    assume eq: "vs ! i = vs ! j"
    then have "vs ! i \<noteq> nil t2" using two_occurrences [OF assms(5) ij(1,2)] ij(3) by auto
    then have "src ! i = src ! j" using val [of i] val [of j] eq ij len by auto
    then show False using assms(1,2) ij len by (simp add: nth_eq_iff_index_eq)
  qed
qed

lemma no_nil_converted:
  assumes "length src = cnt" "vs = map (\<lambda>k. if k \<in> S then converted t1 t2 (src ! k) else nil t2) [0..<cnt]"
    and "count_list vs (nil t2) = 0"
  shows "vs = src"
proof (rule nth_equalityI)
  fix i assume i: "i < length vs"
  have "nil t2 \<notin> set vs" using assms(3) by (simp add: count_list_0_iff)
  then have "vs ! i \<noteq> nil t2" using i by (metis nth_mem)
  then show "vs ! i = src ! i" using i assms(2) by (auto simp: converted_def split: if_splits)
qed (use assms in simp)

lemma BATconvert_rows:
  assumes "nbat_ok b" "cands_ok s" "available hge (ntype b)" "available hge tp"
  shows "if ab \<and> (\<exists>k\<in>set (selected (hseq b) (length (vals b)) s). convert_overflow (ntype b) tp (vals b ! k))
    then BATconvert hge b s tp ab = None
    else \<exists>bn. BATconvert hge b s tp ab = Some bn \<and> nbat_ok bn \<and> ntype bn = tp \<and> hseq bn = hseq b \<and>
      vals bn = map (\<lambda>k. if k \<in> set (selected (hseq b) (length (vals b)) s)
         then converted (ntype b) tp (vals b ! k) else nil tp) [0..<length (vals b)]"
proof -
  let ?n = "length (vals b)" and ?S = "set (selected (hseq b) (length (vals b)) s)"
  define vs where "vs = map (\<lambda>k. if k \<in> ?S then converted (ntype b) tp (vals b ! k) else nil tp) [0..<?n]"
  have ty: "\<forall>x\<in>set (vals b). of_type (ntype b) x" using assms(1) by (simp add: nbat_ok_def)
  show ?thesis
  proof (cases "s = None \<and> ntype b = tp")
    case True
    have "vs = vals b"
      using True ty nil_of_type [of tp] by (intro nth_equalityI)
        (auto simp: vs_def selected_def converted_def of_type_def nil_def GDK_min_max dest!: nth_mem)
    moreover have "\<not> convert_overflow tp tp (vals b ! k)" if "k \<in> ?S" for k
      using True ty selected_less [OF that]
      by (auto simp: convert_overflow_def of_type_def nil_def GDK_min_max dest!: nth_mem)
    ultimately show ?thesis using True assms(1) by (auto simp: BATconvert_def Let_def vs_def)
  next
    case False
    note loop = convert_loop [OF assms(2) ty refl assms(3,4), of "hseq b" ab, folded vs_def]
    have call: "BATconvert hge b s tp ab =
      (if ab \<and> (\<exists>k\<in>?S. convert_overflow (ntype b) tp (vals b ! k)) then None
       else Some \<lparr>hseq = hseq b, ntype = tp, vals = vs, nsorted = (count_list vs (nil tp) = 0 \<and> nsorted b),
         nrevsorted = (count_list vs (nil tp) = 0 \<and> nrevsorted b), nkey = (nkey b \<and> count_list vs (nil tp) \<le> 1),
         has_nil = (count_list vs (nil tp) \<noteq> 0), nonil = (count_list vs (nil tp) = 0)\<rparr>)"
      using False unfolding BATconvert_def Let_def loop by auto
    have "\<forall>v\<in>set vs. of_type tp v" by (auto simp: vs_def converted_type)
    moreover have "count_list vs (nil tp) = 0 \<longrightarrow> vs = vals b" using no_nil_converted [OF refl vs_def] by blast
    moreover have "nkey b \<longrightarrow> count_list vs (nil tp) \<le> 1 \<longrightarrow> distinct vs"
      using converted_distinct [OF _ refl ty vs_def] assms(1) by (auto simp: nbat_ok_def)
    ultimately have "nbat_ok \<lparr>hseq = hseq b, ntype = tp, vals = vs, nsorted = (count_list vs (nil tp) = 0 \<and> nsorted b),
         nrevsorted = (count_list vs (nil tp) = 0 \<and> nrevsorted b), nkey = (nkey b \<and> count_list vs (nil tp) \<le> 1),
         has_nil = (count_list vs (nil tp) \<noteq> 0), nonil = (count_list vs (nil tp) = 0)\<rparr>"
      using assms(1) by (auto simp: nbat_ok_def count_list_0_iff)
    then show ?thesis unfolding call by (simp add: vs_def)
  qed
qed

text \<open>C19. \<open>BATconvert\<close> between any two integer types: it fails only when a selected value does not fit and
  errors are to be reported (or the type is not compiled in); otherwise every selected row holds
  the value, or nil when it is nil or does not fit, every other row nil, and the flags of the result
  are true.\<close>
theorem BATconvert_exact:
  assumes "nbat_ok b" "cands_ok s" "available hge (ntype b)" "available hge tp"
  shows "case BATconvert hge b s tp ab of
     None \<Rightarrow> ab \<and> (\<exists>k\<in>set (selected (hseq b) (length (vals b)) s). convert_overflow (ntype b) tp (vals b ! k))
   | Some bn \<Rightarrow> nbat_ok bn \<and> ntype bn = tp \<and> hseq bn = hseq b \<and>
       vals bn = map (\<lambda>k. if k \<in> set (selected (hseq b) (length (vals b)) s)
         then converted (ntype b) tp (vals b ! k) else nil tp) [0..<length (vals b)]"
  using BATconvert_rows [OF assms, of ab] by (auto split: if_splits option.splits)

definition sht_bat :: nbat where
  "sht_bat = \<lparr>hseq = 5, ntype = TYPE_sht, vals = [3, nil TYPE_sht, 1000], nsorted = False, nrevsorted = False,
     nkey = True, has_nil = True, nonil = False\<rparr>"

lemma BATconvert_exact_witness:
  "map_option vals (BATconvert True sht_bat None TYPE_bte False) = Some [3, nil TYPE_bte, nil TYPE_bte] \<and>
   map_option vals (BATconvert True sht_bat None TYPE_int True) = Some [3, nil TYPE_int, 1000]"
proof -
  have b: "nbat_ok sht_bat" "cands_ok None" by (auto simp: nbat_ok_def sht_bat_def of_type_def nil_def cands_ok_def)
  show ?thesis
    using BATconvert_exact [OF b, of True TYPE_bte False] BATconvert_exact [OF b, of True TYPE_int True]
    by (auto simp: available_def sht_bat_def selected_def converted_def convert_overflow_def nil_def upt_rec
        less_Suc_eq numeral_3_eq_3 split: option.splits)
qed

end
