(* ===== verification/Gdk_Aggr.thy ===== *)
theory Gdk_Aggr
  imports Gdk_Convert Gdk_Project "HOL-Library.Word"
begin

text \<open>
  Grouped aggregates (gdk/gdk_aggr.c): sum, product, count, size, minimum and maximum of the values
  of a column \<open>b\<close> per group, where the column \<open>g\<close> gives the group of each row, \<open>e\<close> the range of group
  identifiers (its first identifier and their number; only these are used of the column) and \<open>s\<close>
  the candidates.

  Values are of the integer types; counts and minima work on any type.  Columns \<open>b\<close> are not
  virtual.  Allocations succeed.  \<open>Crash\<close> is an access outside the array of the results or of the
  group identifiers, \<open>Failed\<close> an error that is reported.
\<close>

section \<open>Groups and rows\<close>

record aggr_init =
  a_min :: nat
  a_max :: nat
  a_ngrp :: nat
  a_range :: cand_range

definition group_ids :: "nat bat \<Rightarrow> nat list" where
  "group_ids g = (case ttail g of TVals ids \<Rightarrow> ids | TVoid seq \<Rightarrow> [seq..<seq + batCount g])"

text \<open>The scans for the least and the greatest identifier; arithmetic is unsigned.\<close>

fun minmax_scan :: "nat list \<Rightarrow> nat \<Rightarrow> nat \<Rightarrow> nat \<times> nat" where
  "minmax_scan [] mn mx = (mn, mx)"
| "minmax_scan (i # ids) mn mx =
     (if i \<noteq> oid_nil then minmax_scan ids (if i < mn then i else mn) (if mx < i then i else mx)
      else minmax_scan ids mn mx)"

definition group_range :: "nat bat \<Rightarrow> nat \<times> nat" where
  "group_range g =
     (case ttail g of
        TVoid seq \<Rightarrow> (seq, (seq + batCount g + (2 ^ 64 - 1)) mod 2 ^ 64)
      | TVals ids \<Rightarrow>
          if tsorted g
          then (case dropWhile (\<lambda>i. i = oid_nil) ids of
                  [] \<Rightarrow> (oid_nil, 0)
                | i # _ \<Rightarrow> (i, last ids))
          else minmax_scan ids oid_nil 0)"

definition BATgroupaggrinit ::
  "nat \<Rightarrow> nat \<Rightarrow> nat bat option \<Rightarrow> (nat \<times> nat) option \<Rightarrow> nat column option \<Rightarrow> aggr_init option" where
  "BATgroupaggrinit hs cnt g e s =
     (if \<exists>g'\<in>set_option g. batCount g' \<noteq> cnt \<or> cnt \<noteq> 0 \<and> hs \<noteq> hseqbase g' then None
      else
        let (mn, mx, n) =
          (case g of
             None \<Rightarrow> (0, 0, 1)
           | Some g \<Rightarrow>
               (case e of
                  None \<Rightarrow>
                    let (mn, mx) = group_range g
                    in (mn, mx, if mx < mn then 0 else (mx - mn + 1) mod 2 ^ 64)
                | Some (eseq, ecnt) \<Rightarrow> (eseq, (eseq + ecnt + (2 ^ 64 - 1)) mod 2 ^ 64, ecnt)))
        in Some \<lparr>a_min = mn, a_max = mx, a_ngrp = n, a_range = CANDINIT hs cnt s\<rparr>)"

text \<open>The rows that the loops visit.\<close>

definition aggr_rows :: "nat \<Rightarrow> cand_range \<Rightarrow> nat list" where
  "aggr_rows hs r =
     (case c_cand r of
        None \<Rightarrow> [c_start r..<c_end r]
      | Some cs \<Rightarrow> takeWhile (\<lambda>i. i < c_end r) (map (\<lambda>o'. o' - hs) cs))"

text \<open>
  The pointer to the group identifiers: it starts at the first row of the range, as if the rows
  were counted from there.
\<close>

definition gids_of :: "nat bat \<Rightarrow> cand_range \<Rightarrow> nat list option" where
  "gids_of g r = (if BATtdense (column.truncate g) then None else Some (drop (c_start r) (group_ids g)))"

text \<open>The group of row \<open>i\<close>, if it is in the range of groups.\<close>

definition group_of :: "nat list option \<Rightarrow> nat \<Rightarrow> nat \<Rightarrow> nat \<Rightarrow> nat option outcome" where
  "group_of gids mn mx i =
     (case gids of
        None \<Rightarrow> Done (Some i)
      | Some ids \<Rightarrow>
          if length ids \<le> i then Crash
          else if mn \<le> ids ! i \<and> ids ! i \<le> mx then Done (Some (ids ! i - mn)) else Done None)"

fun aggr_loop ::
  "(nat \<Rightarrow> nat \<Rightarrow> 's \<Rightarrow> 's outcome) \<Rightarrow> (nat \<Rightarrow> nat option outcome) \<Rightarrow> nat list \<Rightarrow> 's \<Rightarrow> 's outcome" where
  "aggr_loop step grp [] st = Done st"
| "aggr_loop step grp (i # rows) st =
     andthen (grp i) (\<lambda>gid.
       case gid of
         None \<Rightarrow> aggr_loop step grp rows st
       | Some gid \<Rightarrow> andthen (step gid i st) (aggr_loop step grp rows))"

section \<open>Sums and products\<close>

record aggr_state =
  results :: "int list"
  seen :: "32 word list"
  nils :: nat

text \<open>The bitmask of the groups that have been seen.\<close>

definition seen_bit :: "32 word list \<Rightarrow> nat \<Rightarrow> bool" where
  "seen_bit sn gid \<longleftrightarrow> bit (sn ! (gid div 32)) (gid mod 32)"

definition see :: "32 word list \<Rightarrow> nat \<Rightarrow> 32 word list" where
  "see sn gid = sn[gid div 32 := or (sn ! (gid div 32)) (push_bit (gid mod 32) 1)]"

definition unseen_group :: "nat \<Rightarrow> 32 word list \<Rightarrow> bool" where
  "unseen_group ngrp sn =
     (let sn = (if ngrp mod 32 \<noteq> 0 then sn[ngrp div 32 := or (sn ! (ngrp div 32)) (push_bit (ngrp mod 32) (- 1))] else sn)
      in list_ex (\<lambda>w. w \<noteq> - 1) sn)"

text \<open>
  The body of \<open>AGGR_SUM\<close> for several groups, of \<open>AGGR_PROD\<close> and of \<open>AGGR_PROD_LNG\<close>: \<open>unit\<close> is 0 or 1, \<open>check\<close>
  the checked addition or multiplication.
\<close>

definition aggr_step ::
  "atom_type \<Rightarrow> atom_type \<Rightarrow> int \<Rightarrow> (int \<Rightarrow> int \<Rightarrow> (int \<times> nat) option) \<Rightarrow> bool \<Rightarrow> bool \<Rightarrow> int list \<Rightarrow>
    nat \<Rightarrow> nat \<Rightarrow> aggr_state \<Rightarrow> aggr_state outcome" where
  "aggr_step t1 t2 unit check skip_nils nil_if_empty vs gid i st =
     (let x = vs ! i in
      if x = nil t1
      then if skip_nils then Done st
           else if length (results st) \<le> gid then Crash
           else Done (st\<lparr>results := (results st)[gid := nil t2], nils := nils st + 1\<rparr>)
      else if length (results st) \<le> gid then Crash
      else
        let st = (if nil_if_empty \<and> \<not> seen_bit (seen st) gid
                  then st\<lparr>seen := see (seen st) gid, results := (results st)[gid := unit]\<rparr> else st)
        in if results st ! gid = nil t2 then Done st
           else case check x (results st ! gid) of
                  None \<Rightarrow> Failed
                | Some (v, n) \<Rightarrow> Done (st\<lparr>results := (results st)[gid := v], nils := nils st + n\<rparr>))"

text \<open>The body of \<open>AGGR_PROD_HGE\<close>.\<close>

definition prod_hge_step ::
  "atom_type \<Rightarrow> (int \<Rightarrow> int \<Rightarrow> (int \<times> nat) option) \<Rightarrow> bool \<Rightarrow> bool \<Rightarrow> int list \<Rightarrow>
    nat \<Rightarrow> nat \<Rightarrow> aggr_state \<Rightarrow> aggr_state outcome" where
  "prod_hge_step t1 check skip_nils nil_if_empty vs gid i st =
     (if length (results st) \<le> gid then Crash
      else
        let st = (if nil_if_empty \<and> \<not> seen_bit (seen st) gid
                  then st\<lparr>seen := see (seen st) gid, results := (results st)[gid := 1]\<rparr> else st);
            x = vs ! i
        in if x = nil t1
           then Done (if skip_nils then st
                      else st\<lparr>results := (results st)[gid := nil TYPE_hge], nils := nils st + 1\<rparr>)
           else if results st ! gid = nil TYPE_hge then Done st
           else case check x (results st ! gid) of
                  None \<Rightarrow> Failed
                | Some (v, n) \<Rightarrow> Done (st\<lparr>results := (results st)[gid := v], nils := nils st + n\<rparr>))"

text \<open>
  The loops of \<open>AGGR_SUM\<close> for a single group, over the values: \<open>sum\<close>, whether a value has been seen,
  and \<open>nils\<close>, which ends the loop.
\<close>

fun sum_values ::
  "atom_type \<Rightarrow> atom_type \<Rightarrow> bool \<Rightarrow> bool \<Rightarrow> bool \<Rightarrow> int list \<Rightarrow> int \<Rightarrow> bool \<Rightarrow> nat \<Rightarrow> (int \<times> bool \<times> nat) outcome" where
  "sum_values t1 t2 nn skip_nils ab [] sm seenval nls = Done (sm, seenval, nls)"
| "sum_values t1 t2 nn skip_nils ab (x # xs) sm seenval nls =
     (if nls \<noteq> 0 then Done (sm, seenval, nls)
      else if \<not> nn \<and> x = nil t1
      then (if skip_nils then sum_values t1 t2 nn skip_nils ab xs sm seenval nls
            else sum_values t1 t2 nn skip_nils ab xs (nil t2) seenval 1)
      else case ADD_WITH_CHECK t2 x sm (GDK_max t2) ab of
             None \<Rightarrow> Failed
           | Some (v, n) \<Rightarrow> sum_values t1 t2 nn skip_nils ab xs v True (nls + n))"

definition sum_single ::
  "atom_type \<Rightarrow> atom_type \<Rightarrow> bool \<Rightarrow> bool \<Rightarrow> bool \<Rightarrow> nat \<Rightarrow> int list \<Rightarrow> cand_range \<Rightarrow> aggr_state \<Rightarrow> aggr_state outcome" where
  "sum_single t1 t2 bnonil skip_nils ab hs vs r st =
     (let rows = aggr_rows hs r;
          nn = (c_cand r = None \<and> bnonil)
      in andthen (sum_values t1 t2 nn skip_nils ab (map ((!) vs) rows) 0 False 0)
           (\<lambda>(sm, seenval, nls).
              let sn = (if nn then c_start r < c_end r else seenval)
              in Done (st\<lparr>results := (if sn then (results st)[0 := sm] else results st),
                          seen := (if c_cand r = None then (seen st)[0 := of_bool sn] else seen st),
                          nils := nls\<rparr>)))"

definition finish_nils :: "bool \<Rightarrow> nat \<Rightarrow> aggr_state \<Rightarrow> (int list \<times> nat) outcome" where
  "finish_nils nil_if_empty ngrp st =
     Done (results st, if nils st = 0 \<and> nil_if_empty \<and> unseen_group ngrp (seen st) then 1 else nils st)"

definition dosum ::
  "bool \<Rightarrow> int list \<Rightarrow> bool \<Rightarrow> nat \<Rightarrow> cand_range \<Rightarrow> int list \<Rightarrow> nat \<Rightarrow> atom_type \<Rightarrow> atom_type \<Rightarrow> nat list option \<Rightarrow>
    nat \<Rightarrow> nat \<Rightarrow> bool \<Rightarrow> bool \<Rightarrow> bool \<Rightarrow> (int list \<times> nat) outcome" where
  "dosum hge vs bnonil hs r res ngrp t1 t2 gids mn mx skip_nils ab nil_if_empty =
     (let st = \<lparr>results = res, seen = replicate ((ngrp + 31) div 32) 0, nils = 0\<rparr>
      in if \<not> (available hge t1 \<and> available hge t2 \<and> t1 \<le> t2) then Failed
         else andthen
           (if ngrp = 1 then sum_single t1 t2 bnonil skip_nils ab hs vs r st
            else aggr_loop (aggr_step t1 t2 0 (\<lambda>x a. ADD_WITH_CHECK t2 x a (GDK_max t2) ab) skip_nils nil_if_empty vs)
                   (group_of gids mn mx) (aggr_rows hs r) st)
           (finish_nils nil_if_empty ngrp))"

text \<open>\<open>gidincr\<close>: the rows have groups; otherwise all are in group 0.\<close>

definition doprod ::
  "bool \<Rightarrow> int list \<Rightarrow> nat \<Rightarrow> cand_range \<Rightarrow> int list \<Rightarrow> nat \<Rightarrow> atom_type \<Rightarrow> atom_type \<Rightarrow> nat list option \<Rightarrow> bool \<Rightarrow>
    nat \<Rightarrow> nat \<Rightarrow> bool \<Rightarrow> bool \<Rightarrow> bool \<Rightarrow> (int list \<times> nat) outcome" where
  "doprod hge vs hs r res ngrp t1 t2 gids gidincr mn mx skip_nils ab nil_if_empty =
     (let st = \<lparr>results = res, seen = replicate ((ngrp + 31) div 32) 0, nils = 0\<rparr>;
          mx2 = GDK_max t2;
          step = (if t2 = TYPE_hge then prod_hge_step t1 (\<lambda>x a. HGEMUL_CHECK x a mx2 ab) skip_nils nil_if_empty vs
                  else if t2 = TYPE_lng \<and> \<not> hge
                  then aggr_step t1 t2 1 (\<lambda>x a. LNGMUL_CHECK x a mx2 ab) skip_nils nil_if_empty vs
                  else aggr_step t1 t2 1 (\<lambda>x a. MUL4_WITH_CHECK t2 (the (next_type t2)) x a mx2 ab)
                         skip_nils nil_if_empty vs)
      in if \<not> (available hge t1 \<and> available hge t2 \<and> t1 \<le> t2) then Failed
         else andthen
           (aggr_loop step (if gidincr then group_of gids mn mx else (\<lambda>_. Done (Some 0))) (aggr_rows hs r) st)
           (finish_nils nil_if_empty ngrp))"

text \<open>\<open>BATconstant\<close>, and the descriptor of a result with one row per group.\<close>

definition BATconstant :: "nat \<Rightarrow> atom_type \<Rightarrow> int \<Rightarrow> nat \<Rightarrow> nbat" where
  "BATconstant hs tp v n =
     \<lparr>hseq = hs, ntype = tp, vals = replicate n v, nsorted = True, nrevsorted = True, nkey = (n \<le> 1),
      has_nil = (1 \<le> n \<and> v = nil tp), nonil = (\<not> (1 \<le> n \<and> v = nil tp))\<rparr>"

definition group_bat :: "nat \<Rightarrow> atom_type \<Rightarrow> nat \<Rightarrow> int list \<Rightarrow> nat \<Rightarrow> nbat" where
  "group_bat hs tp n vs nls =
     \<lparr>hseq = hs, ntype = tp, vals = vs, nsorted = (n \<le> 1), nrevsorted = (n \<le> 1), nkey = (n \<le> 1),
      has_nil = (nls \<noteq> 0), nonil = (nls = 0)\<rparr>"

text \<open>What \<open>BATgroupsum\<close> and \<open>BATgroupprod\<close> share.\<close>

definition BATgroup_arith ::
  "bool \<Rightarrow> (nat bat \<Rightarrow> aggr_init \<Rightarrow> (int list \<times> nat) outcome) \<Rightarrow> nbat \<Rightarrow> nat bat option \<Rightarrow> (nat \<times> nat) option \<Rightarrow>
    nat column option \<Rightarrow> atom_type \<Rightarrow> bool \<Rightarrow> nbat outcome" where
  "BATgroup_arith hge dogroups b g e s tp ab =
     (case BATgroupaggrinit (hseq b) (length (vals b)) g e s of
        None \<Rightarrow> Failed
      | Some a \<Rightarrow>
          (case g of
             None \<Rightarrow> Failed
           | Some g \<Rightarrow>
               if length (vals b) = 0 \<or> a_ngrp a = 0
               then Done (BATconstant (if a_ngrp a = 0 then 0 else a_min a) tp (nil tp) (a_ngrp a))
               else if (case e of None \<Rightarrow> True | Some (eseq, ecnt) \<Rightarrow> ecnt = length (vals b) \<and> eseq = hseq b) \<and>
                 (BATtdense (column.truncate g) \<or> tkey g \<and> tnonil g)
               then (case BATconvert hge b s tp ab of None \<Rightarrow> Failed | Some bn \<Rightarrow> Done bn)
               else andthen (dogroups g a) (\<lambda>(vs, nls). Done (group_bat (a_min a) tp (a_ngrp a) vs nls))))"

definition BATgroupsum ::
  "bool \<Rightarrow> nbat \<Rightarrow> nat bat option \<Rightarrow> (nat \<times> nat) option \<Rightarrow> nat column option \<Rightarrow> atom_type \<Rightarrow> bool \<Rightarrow> bool \<Rightarrow> nbat outcome" where
  "BATgroupsum hge b g e s tp skip_nils ab =
     BATgroup_arith hge
       (\<lambda>g a. dosum hge (vals b) (nonil b) (hseq b) (a_range a) (replicate (a_ngrp a) (nil tp)) (a_ngrp a)
          (ntype b) tp (gids_of g (a_range a)) (a_min a) (a_max a) skip_nils ab True)
       b g e s tp ab"

definition BATgroupprod ::
  "bool \<Rightarrow> nbat \<Rightarrow> nat bat option \<Rightarrow> (nat \<times> nat) option \<Rightarrow> nat column option \<Rightarrow> atom_type \<Rightarrow> bool \<Rightarrow> bool \<Rightarrow> nbat outcome" where
  "BATgroupprod hge b g e s tp skip_nils ab =
     BATgroup_arith hge
       (\<lambda>g a. doprod hge (vals b) (hseq b) (a_range a) (replicate (a_ngrp a) (nil tp)) (a_ngrp a)
          (ntype b) tp (gids_of g (a_range a)) True (a_min a) (a_max a) skip_nils ab True)
       b g e s tp ab"

text \<open>The whole column as one group; the result is the value.\<close>

definition BATsum :: "bool \<Rightarrow> atom_type \<Rightarrow> nbat \<Rightarrow> nat column option \<Rightarrow> bool \<Rightarrow> bool \<Rightarrow> bool \<Rightarrow> int outcome" where
  "BATsum hge tp b s skip_nils ab nil_if_empty =
     (case BATgroupaggrinit (hseq b) (length (vals b)) None None s of
        None \<Rightarrow> Failed
      | Some a \<Rightarrow>
          let res = (if nil_if_empty then nil tp else 0)
          in if \<not> available hge tp then Failed
             else if length (vals b) = 0 then Done res
             else andthen
               (dosum hge (vals b) (nonil b) (hseq b) (a_range a) [res] 1 (ntype b) tp (Some [a_min a]) (a_min a) (a_max a)
                  skip_nils ab nil_if_empty)
               (\<lambda>(vs, nls). Done (hd vs)))"

definition BATprod :: "bool \<Rightarrow> atom_type \<Rightarrow> nbat \<Rightarrow> nat column option \<Rightarrow> bool \<Rightarrow> bool \<Rightarrow> bool \<Rightarrow> int outcome" where
  "BATprod hge tp b s skip_nils ab nil_if_empty =
     (case BATgroupaggrinit (hseq b) (length (vals b)) None None s of
        None \<Rightarrow> Failed
      | Some a \<Rightarrow>
          let res = (if nil_if_empty then nil tp else 1)
          in if \<not> available hge tp then Failed
             else if length (vals b) = 0 then Done res
             else andthen
               (doprod hge (vals b) (hseq b) (a_range a) [res] 1 (ntype b) tp (Some [a_min a]) False (a_min a) (a_max a)
                  skip_nils ab nil_if_empty)
               (\<lambda>(vs, nls). Done (hd vs)))"

section \<open>Counts\<close>

definition count_step :: "(nat \<Rightarrow> bool) \<Rightarrow> nat \<Rightarrow> nat \<Rightarrow> int list \<Rightarrow> int list outcome" where
  "count_step counted gid i cnts =
     (if counted i then (if length cnts \<le> gid then Crash else Done (cnts[gid := cnts ! gid + 1])) else Done cnts)"

definition count_bat :: "nat \<Rightarrow> nat \<Rightarrow> int list \<Rightarrow> nbat" where
  "count_bat hs n cnts =
     \<lparr>hseq = hs, ntype = TYPE_lng, vals = cnts, nsorted = (n \<le> 1), nrevsorted = (n \<le> 1), nkey = (n \<le> 1),
      has_nil = False, nonil = True\<rparr>"

definition BATgroupcount ::
  "('a \<Rightarrow> bool) \<Rightarrow> nat \<Rightarrow> 'a list \<Rightarrow> nat bat option \<Rightarrow> (nat \<times> nat) option \<Rightarrow> nat column option \<Rightarrow> bool \<Rightarrow> nbat outcome" where
  "BATgroupcount isnil hs vs g e s skip_nils =
     (case BATgroupaggrinit hs (length vs) g e s of
        None \<Rightarrow> Failed
      | Some a \<Rightarrow>
          (case g of
             None \<Rightarrow> Failed
           | Some g \<Rightarrow>
               if length vs = 0 \<or> a_ngrp a = 0
               then Done (BATconstant (if a_ngrp a = 0 then 0 else a_min a) TYPE_lng 0 (a_ngrp a))
               else andthen
                 (aggr_loop (count_step (\<lambda>i. \<not> skip_nils \<or> \<not> isnil (vs ! i)))
                    (group_of (gids_of g (a_range a)) (a_min a) (a_max a)) (aggr_rows hs (a_range a)) (replicate (a_ngrp a) 0))
                 (\<lambda>cnts. Done (count_bat (a_min a) (a_ngrp a) cnts))))"

text \<open>The number of values that are true, 1; the group of other rows is not looked at.\<close>

definition BATgroupsize ::
  "nat \<Rightarrow> int list \<Rightarrow> nat bat option \<Rightarrow> (nat \<times> nat) option \<Rightarrow> nat column option \<Rightarrow> nbat outcome" where
  "BATgroupsize hs bits g e s =
     (case BATgroupaggrinit hs (length bits) g e s of
        None \<Rightarrow> Failed
      | Some a \<Rightarrow>
          (case g of
             None \<Rightarrow> Failed
           | Some g \<Rightarrow>
               if length bits = 0 \<or> a_ngrp a = 0
               then Done (BATconstant (if a_ngrp a = 0 then 0 else a_min a) TYPE_lng 0 (a_ngrp a))
               else andthen
                 (aggr_loop (count_step (\<lambda>_. True))
                    (\<lambda>i. if bits ! i = 1 then group_of (gids_of g (a_range a)) (a_min a) (a_max a) i else Done None)
                    (aggr_rows hs (a_range a)) (replicate (a_ngrp a) 0))
                 (\<lambda>cnts. Done (count_bat (a_min a) (a_ngrp a) cnts))))"

section \<open>Minima and maxima\<close>

text \<open>
  The position of a least (\<open>better x y\<close> is \<open>x < y\<close>) or greatest value of each group.  \<open>typed\<close>: the type has
  a loop of its own, which takes as many groups as rows to be one group for each row; the loop for
  any other type takes a virtual \<open>g\<close> for that.
\<close>

definition place :: "nat \<Rightarrow> nat \<Rightarrow> nat \<Rightarrow> nat list \<times> nat \<Rightarrow> (nat list \<times> nat) outcome" where
  "place hs gid i st =
     (case st of (oids, nls) \<Rightarrow> if length oids \<le> gid then Crash else Done (oids[gid := i + hs], nls - 1))"

definition minmax_step ::
  "('a \<Rightarrow> 'a \<Rightarrow> bool) \<Rightarrow> ('a \<Rightarrow> bool) \<Rightarrow> bool \<Rightarrow> nat \<Rightarrow> 'a list \<Rightarrow> nat \<Rightarrow> nat \<Rightarrow> nat list \<times> nat \<Rightarrow> (nat list \<times> nat) outcome" where
  "minmax_step better isnil skip_nils hs vs gid i st =
     (case st of (oids, nls) \<Rightarrow>
        if skip_nils \<and> isnil (vs ! i) then Done (oids, nls)
        else if length oids \<le> gid then Crash
        else if oids ! gid = oid_nil then place hs gid i (oids, nls)
        else if \<not> isnil (vs ! (oids ! gid - hs)) \<and> (isnil (vs ! i) \<or> better (vs ! i) (vs ! (oids ! gid - hs)))
        then Done (oids[gid := i + hs], nls)
        else Done (oids, nls))"

definition do_groupminmax ::
  "('a \<Rightarrow> 'a \<Rightarrow> bool) \<Rightarrow> ('a \<Rightarrow> bool) \<Rightarrow> bool \<Rightarrow> nat \<Rightarrow> 'a list \<Rightarrow> nat list option \<Rightarrow> nat \<Rightarrow> nat \<Rightarrow> nat \<Rightarrow> cand_range \<Rightarrow>
    bool \<Rightarrow> bool \<Rightarrow> (nat list \<times> nat) outcome" where
  "do_groupminmax better isnil typed hs vs gids ngrp mn mx r skip_nils gdense =
     (let st = (replicate ngrp oid_nil, ngrp); rows = aggr_rows hs r
      in if c_cnt r = 0 then Done st
         else if (if typed then ngrp = c_cnt r else gdense)
         then aggr_loop (\<lambda>gid i st. if skip_nils \<and> isnil (vs ! i) then Done st else place hs gid i st)
                (\<lambda>i. Done (Some i)) rows st
         else aggr_loop (minmax_step better isnil skip_nils hs vs)
                (if gids = None then (\<lambda>_. Done (Some 0)) else group_of gids mn mx) rows st)"

definition oid_bat :: "nat \<Rightarrow> nat \<Rightarrow> nat list \<Rightarrow> nat \<Rightarrow> nat bat" where
  "oid_bat hs n oids nls =
     \<lparr>batFirst = 0, batCount = n, ttail = TVals oids, tsorted = (n \<le> 1), trevsorted = (n \<le> 1), tkey = (n \<le> 1),
      hseqbase = hs, tnonil = (nls = 0), tnil = (nls \<noteq> 0)\<rparr>"

definition BATgroupminmax ::
  "('a \<Rightarrow> 'a \<Rightarrow> bool) \<Rightarrow> ('a \<Rightarrow> bool) \<Rightarrow> bool \<Rightarrow> nat \<Rightarrow> 'a list \<Rightarrow> nat bat option \<Rightarrow> (nat \<times> nat) option \<Rightarrow>
    nat column option \<Rightarrow> bool \<Rightarrow> nat bat outcome" where
  "BATgroupminmax better isnil typed hs vs g e s skip_nils =
     (case BATgroupaggrinit hs (length vs) g e s of
        None \<Rightarrow> Failed
      | Some a \<Rightarrow>
          if length vs = 0 \<or> a_ngrp a = 0
          then Done (BATconstant_nil (if a_ngrp a = 0 then 0 else a_min a) oid_nil (TVals []) (a_ngrp a))
          else
            let gids = (case g of None \<Rightarrow> None | Some g \<Rightarrow> gids_of g (a_range a));
                gdense = (case g of None \<Rightarrow> False | Some g \<Rightarrow> BATtdense (column.truncate g))
            in andthen
                 (do_groupminmax better isnil typed hs vs gids (a_ngrp a) (a_min a) (a_max a) (a_range a) skip_nils gdense)
                 (\<lambda>(oids, nls). Done (oid_bat (a_min a) (a_ngrp a) oids nls)))"

text \<open>\<open>BATmin\<close> and \<open>BATmax\<close>: the value, or nil; imprints are not used.\<close>

definition BATminmax :: "('a \<Rightarrow> 'a \<Rightarrow> bool) \<Rightarrow> ('a \<Rightarrow> bool) \<Rightarrow> bool \<Rightarrow> 'a \<Rightarrow> nat \<Rightarrow> 'a list \<Rightarrow> 'a outcome" where
  "BATminmax better isnil typed nl hs vs =
     andthen (do_groupminmax better isnil typed hs vs None 1 0 0
                \<lparr>c_start = 0, c_end = length vs, c_cnt = length vs, c_cand = None\<rparr> True False)
       (\<lambda>(oids, nls). Done (if hd oids = oid_nil then nl else vs ! (hd oids - hs)))"

end
