(* ===== verification/Gdk_Aggr_Props.thy ===== *)
theory Gdk_Aggr_Props
  imports Gdk_Aggr
begin

text \<open>
  Correctness of the grouped aggregates: the loop over rows is an independent fold over the rows of
  each group (locale \<open>group_cells\<close>), for sums, products, counts, minima and maxima; the groups and rows
  that the entry points pass to it; the results.
\<close>

section \<open>One fold for each group\<close>

fun ofold :: "('i \<Rightarrow> 'c \<Rightarrow> 'c option) \<Rightarrow> 'i list \<Rightarrow> 'c \<Rightarrow> 'c option" where
  "ofold f [] c = Some c"
| "ofold f (i # js) c = (case f i c of None \<Rightarrow> None | Some c' \<Rightarrow> ofold f js c')"

definition rows_of :: "(nat \<Rightarrow> nat option) \<Rightarrow> nat list \<Rightarrow> nat \<Rightarrow> nat list" where
  "rows_of gr rows k = filter (\<lambda>i. gr i = Some k) rows"

lemma rows_of_simps [simp]:
  "rows_of gr [] k = []"
  "rows_of gr (i # rows) k = (if gr i = Some k then i # rows_of gr rows k else rows_of gr rows k)"
  by (simp_all add: rows_of_def)

text \<open>
  The state consists of \<open>n\<close> cells, and the step for a group changes its cell only; \<open>inv\<close> holds of all
  states.
\<close>

locale group_cells =
  fixes step :: "nat \<Rightarrow> nat \<Rightarrow> 's \<Rightarrow> 's outcome"
    and one :: "nat \<Rightarrow> 'c \<Rightarrow> 'c option"
    and cell :: "'s \<Rightarrow> nat \<Rightarrow> 'c"
    and inv :: "'s \<Rightarrow> bool"
    and n :: nat
    and row_ok :: "nat \<Rightarrow> bool"
  assumes step_fails: "inv st \<Longrightarrow> gid < n \<Longrightarrow> row_ok i \<Longrightarrow> one i (cell st gid) = None \<Longrightarrow> step gid i st = Failed"
    and step_done: "inv st \<Longrightarrow> gid < n \<Longrightarrow> row_ok i \<Longrightarrow> one i (cell st gid) = Some c \<Longrightarrow>
      \<exists>st'. step gid i st = Done st' \<and> inv st' \<and> cell st' gid = c \<and> (\<forall>k<n. k \<noteq> gid \<longrightarrow> cell st' k = cell st k)"
begin

lemma loop_cells:
  assumes "inv st" "\<And>i. i \<in> set rows \<Longrightarrow> row_ok i \<and> grp i = Done (gr i) \<and> (\<forall>k. gr i = Some k \<longrightarrow> k < n)"
  shows "(\<exists>k<n. ofold one (rows_of gr rows k) (cell st k) = None) \<and> aggr_loop step grp rows st = Failed \<or>
    (\<exists>st'. aggr_loop step grp rows st = Done st' \<and> inv st' \<and>
      (\<forall>k<n. ofold one (rows_of gr rows k) (cell st k) = Some (cell st' k)))"
  using assms
proof (induction rows arbitrary: st)
  case (Cons i rows)
  have i: "row_ok i" "grp i = Done (gr i)" "\<And>k. gr i = Some k \<Longrightarrow> k < n" using Cons.prems(2) by auto
  have rest: "\<And>j. j \<in> set rows \<Longrightarrow> row_ok j \<and> grp j = Done (gr j) \<and> (\<forall>k. gr j = Some k \<longrightarrow> k < n)"
    using Cons.prems(2) by auto
  show ?case
  proof (cases "gr i")
    case None
    then show ?thesis using Cons.IH [OF Cons.prems(1) rest] i(2) by simp
  next
    case (Some gid)
    note gid = i(3) [OF Some]
    show ?thesis
    proof (cases "one i (cell st gid)")
      case None
      then have "ofold one (rows_of gr (i # rows) gid) (cell st gid) = None" using Some by simp
      then show ?thesis using step_fails [OF Cons.prems(1) gid i(1) None] Some i(2) gid by auto
    next
      case (Some c)
      obtain st' where st': "step gid i st = Done st'" "inv st'" "cell st' gid = c"
        "\<forall>k<n. k \<noteq> gid \<longrightarrow> cell st' k = cell st k"
        using step_done [OF Cons.prems(1) gid i(1) Some] by blast
      have fold: "ofold one (rows_of gr (i # rows) k) (cell st k) = ofold one (rows_of gr rows k) (cell st' k)" if "k < n" for k
        using that Some st'(3,4) \<open>gr i = Some gid\<close> by auto
      have call: "aggr_loop step grp (i # rows) st = aggr_loop step grp rows st'"
        using i(2) \<open>gr i = Some gid\<close> st'(1) by simp
      note IH = Cons.IH [OF st'(2) rest]
      show ?thesis
      proof (cases "aggr_loop step grp rows st' = Failed")
        case True
        then obtain k where "k < n" "ofold one (rows_of gr rows k) (cell st' k) = None" using IH by auto
        then show ?thesis using fold call True by metis
      next
        case False
        then show ?thesis using IH fold call by simp
      qed
    qed
  qed
qed simp

end

section \<open>The bitmask\<close>

lemma see_bit:
  assumes "gid < 32 * length sn" "k < 32 * length sn"
  shows "seen_bit (see sn gid) k \<longleftrightarrow> k = gid \<or> seen_bit sn k"
proof -
  have k: "k div 32 < length sn" "gid div 32 < length sn" "k mod 32 < 32" using assms by auto
  have eq: "k = gid \<longleftrightarrow> k div 32 = gid div 32 \<and> k mod 32 = gid mod 32" by (metis div_mult_mod_eq)
  show ?thesis
  proof (cases "k div 32 = gid div 32")
    case True
    then have "k = gid \<longleftrightarrow> k mod 32 = gid mod 32" using eq by simp
    then show ?thesis using True k by (auto simp: seen_bit_def see_def bit_or_iff bit_exp_iff)
  qed (use k eq in \<open>auto simp: seen_bit_def see_def\<close>)
qed

lemma word_all_bits: "w \<noteq> - 1 \<longleftrightarrow> (\<exists>j<32. \<not> bit (w :: 32 word) j)"
proof
  assume "w \<noteq> - 1"
  then show "\<exists>j<32. \<not> bit w j" using bit_word_eqI [of w "- 1"] by auto
qed auto

lemma slots_32: "(n + 31) div 32 = (if n mod 32 = 0 then n div 32 else n div 32 + 1 :: nat)"
proof -
  define q r where "q = n div 32" and "r = n mod 32"
  have n: "n = 32 * q + r" "r < 32" by (simp_all add: q_def r_def)
  have "(n + 31) div 32 = q + (r + 31) div 32" unfolding n(1) by (metis add.assoc div_mult_self4 zero_neq_numeral add.commute)
  moreover have "(r + 31) div 32 = (if r = 0 then 0 else 1)" using n(2) by auto
  ultimately show ?thesis by (simp add: q_def r_def)
qed

lemma unseen_group_iff:
  assumes "length sn = (n + 31) div 32"
  shows "unseen_group n sn \<longleftrightarrow> (\<exists>k<n. \<not> seen_bit sn k)"
proof -
  define sn' where "sn' = (if n mod 32 \<noteq> 0 then sn[n div 32 := or (sn ! (n div 32)) (push_bit (n mod 32) (- 1))] else sn)"
  have len: "length sn' = length sn" by (simp add: sn'_def)
  have last: "n mod 32 \<noteq> 0 \<Longrightarrow> n div 32 < length sn" using assms slots_32 [of n] by simp
  have bit: "bit (sn' ! q) j \<longleftrightarrow> bit (sn ! q) j \<or> n \<le> 32 * q + j" if "q < length sn" "j < 32" for q j
  proof (cases "n mod 32 \<noteq> 0 \<and> q = n div 32")
    case True
    have "n = 32 * q + n mod 32" using True mult_div_mod_eq [of 32 n] by simp
    then have "n mod 32 \<le> j \<longleftrightarrow> n \<le> 32 * q + j" by linarith
    then show ?thesis using True that last by (auto simp: sn'_def bit_or_iff bit_not_iff bit_mask_iff)
  next
    case False
    have n: "n = 32 * (n div 32) + n mod 32" by simp
    have "q < n div 32" using False that(1) assms slots_32 [of n] by (auto split: if_splits)
    then have "32 * q + 32 \<le> 32 * (n div 32)" by linarith
    then have "32 * q + j < n" using that(2) n by linarith
    then show ?thesis using False by (auto simp: sn'_def nth_list_update)
  qed
  have "unseen_group n sn \<longleftrightarrow> (\<exists>q<length sn'. \<exists>j<32. \<not> bit (sn' ! q) j)"
    unfolding unseen_group_def Let_def sn'_def [symmetric] list_ex_length word_all_bits ..
  also have "\<dots> \<longleftrightarrow> (\<exists>q<length sn. \<exists>j<32. \<not> bit (sn ! q) j \<and> 32 * q + j < n)"
    using bit len by (metis not_le)
  also have "\<dots> \<longleftrightarrow> (\<exists>k<n. \<not> seen_bit sn k)"
  proof
    assume "\<exists>q<length sn. \<exists>j<32. \<not> bit (sn ! q) j \<and> 32 * q + j < n"
    then obtain q j where "j < 32" "\<not> bit (sn ! q) j" "32 * q + j < n" by blast
    then show "\<exists>k<n. \<not> seen_bit sn k" by (intro exI [of _ "32 * q + j"]) (simp add: seen_bit_def)
  next
    assume "\<exists>k<n. \<not> seen_bit sn k"
    then obtain k where "k < n" "\<not> seen_bit sn k" by blast
    then show "\<exists>q<length sn. \<exists>j<32. \<not> bit (sn ! q) j \<and> 32 * q + j < n"
      using assms by (intro exI [of _ "k div 32"] conjI exI [of _ "k mod 32"]) (auto simp: seen_bit_def)
  qed
  finally show ?thesis .
qed

section \<open>Checked folds\<close>

text \<open>Whether no partial result exceeds the limit.\<close>

fun fits :: "(int \<Rightarrow> int \<Rightarrow> int) \<Rightarrow> int \<Rightarrow> int \<Rightarrow> int list \<Rightarrow> bool" where
  "fits f mx acc [] = True"
| "fits f mx acc (x # xs) = (\<bar>f x acc\<bar> \<le> mx \<and> fits f mx (f x acc) xs)"

text \<open>The aggregate of the values of a group, with nils left out: nil if there are none or if it overflows.\<close>

definition aggregate :: "(int \<Rightarrow> int \<Rightarrow> int) \<Rightarrow> int \<Rightarrow> atom_type \<Rightarrow> int list \<Rightarrow> int" where
  "aggregate f unit t ys = (if ys = [] \<or> \<not> fits f (GDK_max t) unit ys then nil t else fold f ys unit)"

definition values_in :: "atom_type \<Rightarrow> int list \<Rightarrow> int list" where
  "values_in t xs = filter (\<lambda>x. x \<noteq> nil t) xs"

lemma values_in_simps [simp]: "values_in t [] = []" "values_in t (x # xs) = (if x = nil t then values_in t xs else x # values_in t xs)"
  by (simp_all add: values_in_def)

text \<open>The step on the result and the mark of one group; \<open>early\<close>: a nil marks the group, too.\<close>

definition agg_one ::
  "bool \<Rightarrow> atom_type \<Rightarrow> atom_type \<Rightarrow> int \<Rightarrow> (int \<Rightarrow> int \<Rightarrow> (int \<times> nat) option) \<Rightarrow> bool \<Rightarrow> bool \<Rightarrow> int \<Rightarrow> int \<times> bool \<Rightarrow> (int \<times> bool) option" where
  "agg_one early t1 t2 unit check skip_nils nil_if_empty x c =
     (let c = (if nil_if_empty \<and> \<not> snd c \<and> (early \<or> x \<noteq> nil t1) then (unit, True) else c)
      in if x = nil t1 then Some (if skip_nils then c else (nil t2, snd c))
         else if fst c = nil t2 then Some c
         else map_option (\<lambda>(v, n). (v, snd c)) (check x (fst c)))"

locale checked_agg =
  fixes t1 t2 :: atom_type and unit :: int and f :: "int \<Rightarrow> int \<Rightarrow> int" and ab :: bool
    and check :: "int \<Rightarrow> int \<Rightarrow> (int \<times> nat) option"
  assumes check_result: "non_nil t1 x \<Longrightarrow> non_nil t2 acc \<Longrightarrow> check x acc = checked_result t2 (f x acc) (GDK_max t2) ab"
    and unit_fits: "non_nil t2 unit"
begin

lemma small_non_nil: "\<bar>v\<bar> \<le> GDK_max t \<Longrightarrow> non_nil t v"
  by (auto simp: non_nil_iff abs_le_iff)

lemma non_nilD: "non_nil t v \<Longrightarrow> v \<noteq> nil t"
  by (auto simp: non_nil_def)

lemma fold_nil: "ofold (agg_one early t1 t2 unit check True nie) xs (nil t2, True) = Some (nil t2, True)"
  by (induction xs) (simp_all add: agg_one_def Let_def)

lemma fold_seen:
  assumes "\<forall>x\<in>set xs. of_type t1 x" "non_nil t2 acc"
  shows "ofold (agg_one early t1 t2 unit check True nie) xs (acc, True) =
    (if fits f (GDK_max t2) acc (values_in t1 xs) then Some (fold f (values_in t1 xs) acc, True)
     else if ab then None else Some (nil t2, True))"
  using assms
proof (induction xs arbitrary: acc)
  case (Cons x xs)
  show ?case
  proof (cases "x = nil t1")
    case True
    then show ?thesis using Cons by (simp add: agg_one_def)
  next
    case False
    then have x: "non_nil t1 x" using Cons.prems(1) by (simp add: non_nil_def)
    have one: "agg_one early t1 t2 unit check True nie x (acc, True) =
      (if \<bar>f x acc\<bar> \<le> GDK_max t2 then Some (f x acc, True) else if ab then None else Some (nil t2, True))"
      using False non_nilD [OF Cons.prems(2)] check_result [OF x Cons.prems(2)]
      by (auto simp: agg_one_def checked_result_def)
    show ?thesis
      using Cons.IH [OF _ small_non_nil] Cons.prems(1) False one fold_nil by auto
  qed
qed simp

lemma fold_group:
  assumes "\<forall>x\<in>set xs. of_type t1 x"
  shows "ofold (agg_one False t1 t2 unit check True True) xs (nil t2, False) =
    (if \<not> fits f (GDK_max t2) unit (values_in t1 xs) \<and> ab then None
     else Some (aggregate f unit t2 (values_in t1 xs), values_in t1 xs \<noteq> []))"
  using assms
proof (induction xs)
  case (Cons x xs)
  show ?case
  proof (cases "x = nil t1")
    case True
    then show ?thesis using Cons by (simp add: agg_one_def)
  next
    case False
    have "agg_one False t1 t2 unit check True True x (nil t2, False) = agg_one False t1 t2 unit check True True x (unit, True)"
      using False by (simp add: agg_one_def)
    then have "ofold (agg_one False t1 t2 unit check True True) (x # xs) (nil t2, False) =
      ofold (agg_one False t1 t2 unit check True True) (x # xs) (unit, True)"
      by simp
    then show ?thesis using fold_seen [OF Cons.prems unit_fits, of False True] False by (auto simp: aggregate_def)
  qed
qed (simp add: aggregate_def)

text \<open>
  What holds of the state: an unmarked group has no result yet, and \<open>nils\<close> tells whether a marked one
  has become nil, as far as nils are left out.
\<close>

definition state_ok :: "bool \<Rightarrow> bool \<Rightarrow> nat \<Rightarrow> aggr_state \<Rightarrow> bool" where
  "state_ok skip_nils nil_if_empty n st \<longleftrightarrow>
     length (results st) = n \<and> length (seen st) = (n + 31) div 32 \<and> (\<forall>k<n. of_type t2 (results st ! k)) \<and>
     (nils st = 0 \<longrightarrow> (\<forall>k<n. nil_if_empty \<longrightarrow> seen_bit (seen st) k \<longrightarrow> results st ! k \<noteq> nil t2)) \<and>
     (skip_nils \<longrightarrow> nils st \<noteq> 0 \<longrightarrow> (\<exists>k<n. results st ! k = nil t2 \<and> (nil_if_empty \<longrightarrow> seen_bit (seen st) k))) \<and>
     (nil_if_empty \<longrightarrow> (\<forall>k<n. \<not> seen_bit (seen st) k \<longrightarrow> results st ! k = nil t2))"

definition agg_cell :: "aggr_state \<Rightarrow> nat \<Rightarrow> int \<times> bool" where
  "agg_cell st k = (results st ! k, seen_bit (seen st) k)"

text \<open>Marking a group, and storing a result.\<close>

lemma mark_ok:
  assumes "state_ok skip True n st" "gid < n" "\<not> seen_bit (seen st) gid"
  defines "st' \<equiv> st\<lparr>seen := see (seen st) gid, results := (results st)[gid := unit]\<rparr>"
  shows "state_ok skip True n st'" "agg_cell st' gid = (unit, True)" "k < n \<Longrightarrow> k \<noteq> gid \<Longrightarrow> agg_cell st' k = agg_cell st k"
proof -
  have st: "length (results st) = n" "length (seen st) = (n + 31) div 32" "\<forall>k<n. of_type t2 (results st ! k)"
    "nils st = 0 \<longrightarrow> (\<forall>k<n. seen_bit (seen st) k \<longrightarrow> results st ! k \<noteq> nil t2)"
    "skip \<longrightarrow> nils st \<noteq> 0 \<longrightarrow> (\<exists>k<n. results st ! k = nil t2 \<and> seen_bit (seen st) k)"
    "\<forall>k<n. \<not> seen_bit (seen st) k \<longrightarrow> results st ! k = nil t2"
    using assms(1) by (simp_all add: state_ok_def)
  have bit: "seen_bit (see (seen st) gid) k \<longleftrightarrow> k = gid \<or> seen_bit (seen st) k" if "k < n" for k
    using see_bit [of gid "seen st" k] that assms(2) st(2) by simp
  have u: "of_type t2 unit" "unit \<noteq> nil t2" using unit_fits by (auto simp: non_nil_def)
  have len: "length (see (seen st) gid) = length (seen st)" by (simp add: see_def)
  have "\<exists>k<n. (results st)[gid := unit] ! k = nil t2 \<and> seen_bit (see (seen st) gid) k" if sk: skip "nils st \<noteq> 0"
  proof -
    obtain k where "k < n" "results st ! k = nil t2" "seen_bit (seen st) k" using st(5) sk by blast
    moreover have "k \<noteq> gid" using \<open>seen_bit (seen st) k\<close> assms(3) by blast
    ultimately show ?thesis using bit by (intro exI [of _ k]) simp
  qed
  then show "state_ok skip True n st'"
    using st assms(2) u len bit by (auto simp: state_ok_def st'_def nth_list_update)
  show "agg_cell st' gid = (unit, True)" "k < n \<Longrightarrow> k \<noteq> gid \<Longrightarrow> agg_cell st' k = agg_cell st k"
    using st assms(2) bit by (auto simp: agg_cell_def st'_def)
qed

lemma store_ok:
  assumes "state_ok skip nie n st" "gid < n" "of_type t2 v" "nie \<longrightarrow> seen_bit (seen st) gid \<or> v = nil t2"
    and "results st ! gid \<noteq> nil t2 \<or> \<not> skip" "v = nil t2 \<longrightarrow> m \<noteq> 0" "skip \<longrightarrow> m \<noteq> 0 \<longrightarrow> v = nil t2 \<and> (nie \<longrightarrow> seen_bit (seen st) gid)"
  defines "st' \<equiv> st\<lparr>results := (results st)[gid := v], nils := nils st + m\<rparr>"
  shows "state_ok skip nie n st'" "agg_cell st' gid = (v, seen_bit (seen st) gid)"
    "k < n \<Longrightarrow> k \<noteq> gid \<Longrightarrow> agg_cell st' k = agg_cell st k"
proof -
  have st: "length (results st) = n" "length (seen st) = (n + 31) div 32" "\<forall>k<n. of_type t2 (results st ! k)"
    "nils st = 0 \<longrightarrow> (\<forall>k<n. nie \<longrightarrow> seen_bit (seen st) k \<longrightarrow> results st ! k \<noteq> nil t2)"
    "skip \<longrightarrow> nils st \<noteq> 0 \<longrightarrow> (\<exists>k<n. results st ! k = nil t2 \<and> (nie \<longrightarrow> seen_bit (seen st) k))"
    "nie \<longrightarrow> (\<forall>k<n. \<not> seen_bit (seen st) k \<longrightarrow> results st ! k = nil t2)"
    using assms(1) by (simp_all add: state_ok_def)
  have "\<exists>k<n. (results st)[gid := v] ! k = nil t2 \<and> (nie \<longrightarrow> seen_bit (seen st) k)" if sk: skip "nils st + m \<noteq> 0"
  proof (cases "m = 0")
    case True
    then obtain k where k: "k < n" "results st ! k = nil t2" "nie \<longrightarrow> seen_bit (seen st) k" using st(5) sk by auto
    then have "k \<noteq> gid" using assms(5) sk(1) by auto
    then show ?thesis using k by (intro exI [of _ k]) simp
  next
    case False
    then show ?thesis using assms(2,7) sk(1) st(1) by (intro exI [of _ gid]) simp
  qed
  then show "state_ok skip nie n st'"
    using st assms(2-4,6) by (auto simp: state_ok_def st'_def nth_list_update)
  show "agg_cell st' gid = (v, seen_bit (seen st) gid)" "k < n \<Longrightarrow> k \<noteq> gid \<Longrightarrow> agg_cell st' k = agg_cell st k"
    using st assms(2) by (simp_all add: agg_cell_def st'_def)
qed

text \<open>The step once the group is marked.\<close>

definition value_step :: "bool \<Rightarrow> int \<Rightarrow> nat \<Rightarrow> aggr_state \<Rightarrow> aggr_state outcome" where
  "value_step skip_nils x gid st =
     (if x = nil t1
      then Done (if skip_nils then st else st\<lparr>results := (results st)[gid := nil t2], nils := nils st + 1\<rparr>)
      else if results st ! gid = nil t2 then Done st
      else case check x (results st ! gid) of
             None \<Rightarrow> Failed
           | Some (v, m) \<Rightarrow> Done (st\<lparr>results := (results st)[gid := v], nils := nils st + m\<rparr>))"

lemma value_step_ok:
  assumes st: "state_ok skip nie n st" and gid: "gid < n" and x: "of_type t1 x"
    and "nie \<longrightarrow> x \<noteq> nil t1 \<longrightarrow> seen_bit (seen st) gid"
  shows "case agg_one early t1 t2 unit check skip False x (agg_cell st gid) of
     None \<Rightarrow> value_step skip x gid st = Failed
   | Some c \<Rightarrow> \<exists>st'. value_step skip x gid st = Done st' \<and> state_ok skip nie n st' \<and> agg_cell st' gid = c \<and>
       (\<forall>k<n. k \<noteq> gid \<longrightarrow> agg_cell st' k = agg_cell st k)"
proof -
  consider "x = nil t1" skip | "x = nil t1" "\<not> skip" | "x \<noteq> nil t1" "results st ! gid = nil t2"
    | "x \<noteq> nil t1" "results st ! gid \<noteq> nil t2"
    by blast
  then show ?thesis
  proof cases
    case 2
    then show ?thesis using store_ok [OF st gid, of "nil t2" 1] by (auto simp: agg_one_def value_step_def agg_cell_def)
  next
    case 4
    have "non_nil t1 x" "non_nil t2 (results st ! gid)" using 4 x st gid by (auto simp: non_nil_def state_ok_def)
    note c = check_result [OF this]
    show ?thesis
    proof (cases "\<bar>f x (results st ! gid)\<bar> \<le> GDK_max t2")
      case True
      then have v: "non_nil t2 (f x (results st ! gid))" by (rule small_non_nil)
      then have v': "of_type t2 (f x (results st ! gid))" "f x (results st ! gid) \<noteq> nil t2" by (auto simp: non_nil_def)
      show ?thesis
        using store_ok [OF st gid v'(1), of 0] v' 4 assms(4) True c
        by (auto simp: agg_one_def value_step_def agg_cell_def checked_result_def)
    next
      case False
      then show ?thesis
        using store_ok [OF st gid, of "nil t2" 1] 4 assms(4) c
        by (auto simp: agg_one_def value_step_def agg_cell_def checked_result_def)
    qed
  qed (use st in \<open>auto simp: agg_one_def value_step_def agg_cell_def\<close>)
qed

lemma aggr_step_value:
  assumes "length (results st) = n" "gid < n"
  shows "aggr_step t1 t2 unit check skip nie vs gid i st =
    value_step skip (vs ! i) gid (if vs ! i \<noteq> nil t1 \<and> nie \<and> \<not> seen_bit (seen st) gid
      then st\<lparr>seen := see (seen st) gid, results := (results st)[gid := unit]\<rparr> else st)"
  using assms by (cases "vs ! i = nil t1"; cases nie; cases "seen_bit (seen st) gid")
    (simp_all add: aggr_step_def value_step_def Let_def)

lemma aggr_step_ok:
  assumes st: "state_ok skip nie n st" and gid: "gid < n" and x: "of_type t1 (vs ! i)"
  shows "case agg_one False t1 t2 unit check skip nie (vs ! i) (agg_cell st gid) of
     None \<Rightarrow> aggr_step t1 t2 unit check skip nie vs gid i st = Failed
   | Some c \<Rightarrow> \<exists>st'. aggr_step t1 t2 unit check skip nie vs gid i st = Done st' \<and> state_ok skip nie n st' \<and>
       agg_cell st' gid = c \<and> (\<forall>k<n. k \<noteq> gid \<longrightarrow> agg_cell st' k = agg_cell st k)"
proof -
  have len: "length (results st) = n" using st by (simp add: state_ok_def)
  note step = aggr_step_value [OF len gid, of skip nie vs i]
  show ?thesis
  proof (cases "vs ! i \<noteq> nil t1 \<and> nie \<and> \<not> seen_bit (seen st) gid")
    case False
    have "agg_one False t1 t2 unit check skip nie (vs ! i) (agg_cell st gid) =
      agg_one False t1 t2 unit check skip False (vs ! i) (agg_cell st gid)"
      using False by (auto simp: agg_one_def agg_cell_def)
    then show ?thesis using value_step_ok [OF st gid x, of False] False unfolding step by auto
  next
    case True
    define s2 where "s2 = st\<lparr>seen := see (seen st) gid, results := (results st)[gid := unit]\<rparr>"
    have nie: nie using True by blast
    note m = mark_ok [OF st [unfolded nie [THEN eqTrueI]] gid, folded s2_def]
    have "agg_one False t1 t2 unit check skip nie (vs ! i) (agg_cell st gid) =
      agg_one False t1 t2 unit check skip False (vs ! i) (agg_cell s2 gid)"
      using True m(2) by (simp add: agg_one_def agg_cell_def)
    then show ?thesis
      using value_step_ok [OF m(1) gid x, of False] m(2,3) True nie unfolding step s2_def [symmetric]
      by (auto simp: agg_cell_def split: option.splits)
  qed
qed

end

sublocale checked_agg \<subseteq> cells: group_cells "aggr_step t1 t2 unit check skip nie vs"
  "\<lambda>i. agg_one False t1 t2 unit check skip nie (vs ! i)" agg_cell "state_ok skip nie n" n "\<lambda>i. of_type t1 (vs ! i)"
  for skip nie vs n
proof
  fix st gid i c
  assume a: "state_ok skip nie n st" "gid < n" "of_type t1 (vs ! i)"
  note ok = aggr_step_ok [OF a]
  show "agg_one False t1 t2 unit check skip nie (vs ! i) (agg_cell st gid) = None \<Longrightarrow>
      aggr_step t1 t2 unit check skip nie vs gid i st = Failed"
    using ok by simp
  show "agg_one False t1 t2 unit check skip nie (vs ! i) (agg_cell st gid) = Some c \<Longrightarrow>
      \<exists>st'. aggr_step t1 t2 unit check skip nie vs gid i st = Done st' \<and> state_ok skip nie n st' \<and>
        agg_cell st' gid = c \<and> (\<forall>k<n. k \<noteq> gid \<longrightarrow> agg_cell st' k = agg_cell st k)"
    using ok by simp
qed

lemma ofold_map: "ofold (\<lambda>i. g (h i)) js c = ofold g (map h js) c"
  by (induction js arbitrary: c) (auto split: option.splits)

text \<open>What a loop over groups gives: the results, and a count that tells whether one of them is nil.\<close>

definition groups_result :: "atom_type \<Rightarrow> nat \<Rightarrow> (nat \<Rightarrow> int) \<Rightarrow> int list \<times> nat \<Rightarrow> bool" where
  "groups_result t n value r \<longleftrightarrow> fst r = map value [0..<n] \<and> (snd r \<noteq> 0 \<longleftrightarrow> nil t \<in> set (fst r))"

context checked_agg
begin

definition group_values :: "int list \<Rightarrow> (nat \<Rightarrow> nat option) \<Rightarrow> nat list \<Rightarrow> nat \<Rightarrow> int list" where
  "group_values vs gr rows k = values_in t1 (map ((!) vs) (rows_of gr rows k))"

lemma start_ok: "state_ok True True n \<lparr>results = replicate n (nil t2), seen = replicate ((n + 31) div 32) 0, nils = 0\<rparr>"
proof -
  have "\<not> seen_bit (replicate ((n + 31) div 32) 0) k" if "k < n" for k
  proof -
    have "k div 32 < (n + 31) div 32" using that slots_32 [of n] div_le_mono [of k n 32]
      by (cases "k div 32 = n div 32") (auto simp: mod_eq_0_iff_dvd)
    then show ?thesis by (simp add: seen_bit_def)
  qed
  then show ?thesis by (simp add: state_ok_def)
qed

lemma start_cell: "k < n \<Longrightarrow>
    agg_cell \<lparr>results = replicate n (nil t2), seen = replicate ((n + 31) div 32) 0, nils = 0\<rparr> k = (nil t2, False)"
  using start_ok [of n] by (auto simp: agg_cell_def state_ok_def)

lemma finish_ok:
  assumes "state_ok True True n st" "\<And>k. k < n \<Longrightarrow> results st ! k = value k"
  shows "\<exists>r. finish_nils True n st = Done r \<and> groups_result t2 n value r"
proof -
  have st: "length (results st) = n" "length (seen st) = (n + 31) div 32"
    "nils st = 0 \<longrightarrow> (\<forall>k<n. seen_bit (seen st) k \<longrightarrow> results st ! k \<noteq> nil t2)"
    "nils st \<noteq> 0 \<longrightarrow> (\<exists>k<n. results st ! k = nil t2 \<and> seen_bit (seen st) k)"
    "\<forall>k<n. \<not> seen_bit (seen st) k \<longrightarrow> results st ! k = nil t2"
    using assms(1) by (simp_all add: state_ok_def)
  have "results st = map value [0..<n]" using st(1) assms(2) by (intro nth_equalityI) simp_all
  moreover have "(if nils st = 0 \<and> unseen_group n (seen st) then 1 else nils st) \<noteq> 0 \<longleftrightarrow> nil t2 \<in> set (results st)"
    unfolding in_set_conv_nth using st unseen_group_iff [OF st(2)] by auto
  ultimately show ?thesis by (simp add: finish_nils_def groups_result_def)
qed

lemma group_loop:
  assumes "\<And>i. i \<in> set rows \<Longrightarrow> of_type t1 (vs ! i) \<and> grp i = Done (gr i) \<and> (\<forall>k. gr i = Some k \<longrightarrow> k < n)"
  defines "loop \<equiv> andthen (aggr_loop (aggr_step t1 t2 unit check True True vs) grp rows
      \<lparr>results = replicate n (nil t2), seen = replicate ((n + 31) div 32) 0, nils = 0\<rparr>) (finish_nils True n)"
  shows "if ab \<and> (\<exists>k<n. \<not> fits f (GDK_max t2) unit (group_values vs gr rows k)) then loop = Failed
    else \<exists>r. loop = Done r \<and> groups_result t2 n (\<lambda>k. aggregate f unit t2 (group_values vs gr rows k)) r"
proof -
  have typed: "\<forall>x\<in>set (map ((!) vs) (rows_of gr rows k)). of_type t1 x" for k
    using assms(1) by (auto simp: rows_of_def)
  have group: "ofold (\<lambda>i. agg_one False t1 t2 unit check True True (vs ! i)) (rows_of gr rows k) (nil t2, False) =
    (if \<not> fits f (GDK_max t2) unit (group_values vs gr rows k) \<and> ab then None
     else Some (aggregate f unit t2 (group_values vs gr rows k), group_values vs gr rows k \<noteq> []))" for k
    unfolding ofold_map fold_group [OF typed] group_values_def ..
  have C: "(\<exists>k<n. ofold (\<lambda>i. agg_one False t1 t2 unit check True True (vs ! i)) (rows_of gr rows k) (nil t2, False) = None) \<and>
      aggr_loop (aggr_step t1 t2 unit check True True vs) grp rows
        \<lparr>results = replicate n (nil t2), seen = replicate ((n + 31) div 32) 0, nils = 0\<rparr> = Failed \<or>
    (\<exists>st'. aggr_loop (aggr_step t1 t2 unit check True True vs) grp rows
        \<lparr>results = replicate n (nil t2), seen = replicate ((n + 31) div 32) 0, nils = 0\<rparr> = Done st' \<and> state_ok True True n st' \<and>
      (\<forall>k<n. ofold (\<lambda>i. agg_one False t1 t2 unit check True True (vs ! i)) (rows_of gr rows k) (nil t2, False) =
        Some (agg_cell st' k)))"
  proof -
    define st0 where "st0 = \<lparr>results = replicate n (nil t2), seen = replicate ((n + 31) div 32) 0, nils = 0\<rparr>"
    have cell: "agg_cell st0 k = (nil t2, False)" if "k < n" for k using start_cell [OF that] by (simp add: st0_def)
    have ok: "state_ok True True n st0" unfolding st0_def by (rule start_ok)
    have "(\<exists>k<n. ofold (\<lambda>i. agg_one False t1 t2 unit check True True (vs ! i)) (rows_of gr rows k) (agg_cell st0 k) = None) \<and>
        aggr_loop (aggr_step t1 t2 unit check True True vs) grp rows st0 = Failed \<or>
      (\<exists>st'. aggr_loop (aggr_step t1 t2 unit check True True vs) grp rows st0 = Done st' \<and> state_ok True True n st' \<and>
        (\<forall>k<n. ofold (\<lambda>i. agg_one False t1 t2 unit check True True (vs ! i)) (rows_of gr rows k) (agg_cell st0 k) =
          Some (agg_cell st' k)))"
      by (rule cells.loop_cells [OF ok]) (rule assms(1))
    then show ?thesis using cell unfolding st0_def [symmetric] by metis
  qed
  then show ?thesis
  proof (elim disjE conjE exE)
    fix st' assume st': "aggr_loop (aggr_step t1 t2 unit check True True vs) grp rows
        \<lparr>results = replicate n (nil t2), seen = replicate ((n + 31) div 32) 0, nils = 0\<rparr> = Done st'" "state_ok True True n st'"
      and v: "\<forall>k<n. ofold (\<lambda>i. agg_one False t1 t2 unit check True True (vs ! i)) (rows_of gr rows k) (nil t2, False) =
        Some (agg_cell st' k)"
    have "results st' ! k = aggregate f unit t2 (group_values vs gr rows k)" if "k < n" for k
      using v that group by (auto simp: agg_cell_def split: if_splits)
    moreover have "\<not> (ab \<and> (\<exists>k<n. \<not> fits f (GDK_max t2) unit (group_values vs gr rows k)))"
      using v group by (auto split: if_splits)
    ultimately show ?thesis using finish_ok [OF st'(2)] st'(1) by (subst if_not_P) (simp_all add: loop_def)
  qed (use group in \<open>auto simp: loop_def split: if_splits\<close>)
qed

end

end
