(* ===== verification/Gdk_Aggr_Sum.thy ===== *)
theory Gdk_Aggr_Sum
  imports Gdk_Aggr_Props
begin

text \<open>
  The grouped sum and product from the entry points: the groups and rows that they pass to the
  loops, the interpretations of \<open>checked_agg\<close> on the checked operations, and the results.
\<close>

section \<open>The checked operations of the aggregates\<close>





section \<open>Rows and groups\<close>















section \<open>The result of an aggregate per group\<close>



text \<open>The values of the selected rows with an identifier, without nils.\<close>

definition agg_values :: "atom_type \<Rightarrow> int list \<Rightarrow> nat list \<Rightarrow> nat list \<Rightarrow> nat \<Rightarrow> int list" where
  "agg_values t vs ids rows i = values_in t (map ((!) vs) (filter (\<lambda>k. ids ! k = i) rows))"



definition agg_rows :: "nbat \<Rightarrow> nat column option \<Rightarrow> nat list" where
  "agg_rows b s = selected (hseq b) (length (vals b)) s"

definition group_aggregate ::
  "(int \<Rightarrow> int \<Rightarrow> int) \<Rightarrow> int \<Rightarrow> atom_type \<Rightarrow> nbat \<Rightarrow> nat bat \<Rightarrow> nat column option \<Rightarrow> nat \<Rightarrow> int" where
  "group_aggregate f unit tp b g s i = aggregate f unit tp (agg_values (ntype b) (vals b) (group_ids g) (agg_rows b s) i)"













section \<open>Sums\<close>













section \<open>Examples\<close>

definition agg_bat :: nbat where
  "agg_bat = \<lparr>hseq = 5, ntype = TYPE_bte, vals = [100, 3, 100, nil TYPE_bte, 5], nsorted = False, nrevsorted = False,
     nkey = False, has_nil = True, nonil = False\<rparr>"

definition agg_ids :: "nat list \<Rightarrow> nat bat" where
  "agg_ids ids = \<lparr>batFirst = 0, batCount = length ids, ttail = TVals ids, tsorted = False, trevsorted = False, tkey = False,
     hseqbase = 5, tnonil = False, tnil = False\<rparr>"










text \<open>The candidates \<open>[6, 7]\<close>, the second and the third row; and from the third row on.\<close>

definition agg_cands :: "nat \<Rightarrow> nat \<Rightarrow> nat column" where
  "agg_cands o' n = \<lparr>batFirst = 0, batCount = n, ttail = TVoid o', tsorted = True, trevsorted = False, tkey = True\<rparr>"

lemma agg_cands_range: "CANDINIT 5 5 (Some (agg_cands 6 2)) = \<lparr>c_start = 1, c_end = 3, c_cnt = 5, c_cand = None\<rparr>"
  "CANDINIT 5 5 (Some (agg_cands 7 3)) = \<lparr>c_start = 2, c_end = 5, c_cnt = 5, c_cand = None\<rparr>"
  by (simp_all add: CANDINIT_def agg_cands_def BATtdense_def oid_nil_def adjust_start_def adjust_end_def)

lemma BATgroupsum_example:
  "BATgroupsum hge agg_bat (Some (agg_ids [7, 8, 7, 8, 10])) None s TYPE_sht True ab =
    andthen (let r = CANDINIT 5 5 s
       in dosum hge (vals agg_bat) False 5 r (replicate 4 (nil TYPE_sht)) 4 TYPE_bte TYPE_sht
            (Some (drop (c_start r) [7, 8, 7, 8, 10])) 7 10 True ab True)
      (\<lambda>(vs, nls). Done (group_bat 7 TYPE_sht 4 vs nls))"
proof -
  have b: "hseq agg_bat = 5" "ntype agg_bat = TYPE_bte" "nonil agg_bat = False" "length (vals agg_bat) = 5"
    by (simp_all add: agg_bat_def)
  have g: "batCount (agg_ids [7, 8, 7, 8, 10]) = 5" "hseqbase (agg_ids [7, 8, 7, 8, 10]) = 5"
    "group_range (agg_ids [7, 8, 7, 8, 10]) = (7, 10)" "group_ids (agg_ids [7, 8, 7, 8, 10]) = [7, 8, 7, 8, 10]"
    "\<not> BATtdense (column.truncate (agg_ids [7, 8, 7, 8, 10]))" "\<not> tkey (agg_ids [7, 8, 7, 8, 10])"
    by (simp_all add: agg_ids_def group_range_def oid_nil_def group_ids_def BATtdense_def column.defs)
  show ?thesis by (simp add: BATgroupsum_def BATgroup_arith_def BATgroupaggrinit_def b g gids_of_def Let_def)
qed

lemma replicate_4: "replicate 4 x = [x, x, x, x]"
  by (simp add: numeral_eq_Suc)

lemma sht_add_example: "ADD_WITH_CHECK TYPE_sht 3 0 32767 ab = Some (3, 0)" "ADD_WITH_CHECK TYPE_sht 100 0 32767 ab = Some (100, 0)"
  by (simp_all add: ADD_WITH_CHECK_def to_type_def c_cast_def nil_def)

text \<open>For a candidate list that does not start with the first row, the identifiers are looked up at the wrong
  rows: the pointer to them is moved to the first candidate and then indexed by the row.  The second and the third
  row, of groups 8 and 7, are added to groups 7 and 8; and with the candidates from the third row on the loop
  reads behind the end of the identifiers.\<close>
lemma BATgroupsum_wrong_groups:
  "cands_ok (Some (agg_cands 6 2)) \<and> cands_ok (Some (agg_cands 7 3)) \<and>
   map (group_aggregate (+) 0 TYPE_sht agg_bat (agg_ids [7, 8, 7, 8, 10]) (Some (agg_cands 6 2))) [7..<11] =
     [100, 3, nil TYPE_sht, nil TYPE_sht] \<and>
   (\<exists>bn. BATgroupsum True agg_bat (Some (agg_ids [7, 8, 7, 8, 10])) None (Some (agg_cands 6 2)) TYPE_sht True True = Done bn \<and>
     hseq bn = 7 \<and> vals bn = [3, 100, nil TYPE_sht, nil TYPE_sht]) \<and>
   BATgroupsum True agg_bat (Some (agg_ids [7, 8, 7, 8, 10])) None (Some (agg_cands 7 3)) TYPE_sht True True = Crash"
proof (intro conjI)
  show "cands_ok (Some (agg_cands 6 2))" "cands_ok (Some (agg_cands 7 3))"
    by (simp_all add: cands_ok_def cand_ok_def column_ok_def agg_cands_def oid_nil_def BUN_NONE_def)
  show "map (group_aggregate (+) 0 TYPE_sht agg_bat (agg_ids [7, 8, 7, 8, 10]) (Some (agg_cands 6 2))) [7..<11] =
     [100, 3, nil TYPE_sht, nil TYPE_sht]"
    by (simp add: group_aggregate_def agg_values_def agg_rows_def selected_def agg_cands_def tail_oids_def agg_bat_def
        agg_ids_def group_ids_def aggregate_def nil_def upt_rec)
  show "\<exists>bn. BATgroupsum True agg_bat (Some (agg_ids [7, 8, 7, 8, 10])) None (Some (agg_cands 6 2)) TYPE_sht True True = Done bn \<and>
     hseq bn = 7 \<and> vals bn = [3, 100, nil TYPE_sht, nil TYPE_sht]"
    unfolding BATgroupsum_example agg_cands_range
    by (simp add: dosum_def available_def less_eq_atom_type_def aggr_rows_def upt_rec agg_bat_def aggr_step_def group_of_def
        sht_add_example nil_def seen_bit_def see_def finish_nils_def group_bat_def replicate_4)
  show "BATgroupsum True agg_bat (Some (agg_ids [7, 8, 7, 8, 10])) None (Some (agg_cands 7 3)) TYPE_sht True True = Crash"
    unfolding BATgroupsum_example agg_cands_range
    by (simp add: dosum_def available_def less_eq_atom_type_def aggr_rows_def upt_rec agg_bat_def aggr_step_def group_of_def
        sht_add_example nil_def seen_bit_def see_def finish_nils_def group_bat_def replicate_4)
qed

end
