(* ===== verification/Spec2Isabelle.thy ===== *)
theory Spec2Isabelle
  imports Gdk_BatCalc Mtime_Zone Mal_Dflow_Serial Sql_Sequence Gdk_BatSort Gdk_Select_Types
    Gdk_Aggr_Sum
begin

text \<open>
  A model of the core of MonetDBLite, an embedded column store.

  The program.  A SQL query is translated to a MAL program; the MAL interpreter runs its
  instructions, in parallel inside a dataflow block; the instructions call the operations of
  the kernel GDK on columns (BATs).  A column is an array of values of one type, or virtual (a
  range of object identifiers), with a descriptor that promises properties of the values:
  ordered, without duplicates, without nil.  The kernel relies on these promises to choose
  faster algorithms and has to establish them for its results.  The modules of MAL add types
  such as dates; the SQL storage layer keeps, among others, the sequences that number rows.

  Theories and code (all paths under src/src/):

  \<^item> \<open>Monet_Prelude\<close>: C division and conversion, the contract of a comparison function
    (locale \<open>atom_order\<close>) and of a codec (locale \<open>codec\<close>), lemmas on lists.
  \<^item> \<open>Gdk_Atoms\<close> (gdk/gdk_atoms.h, gdk/gdk.h): the integer types, their nil and ranges.
  \<^item> \<open>Gdk_Search\<close> (gdk/gdk_search.c): columns (\<open>record column\<close>) and binary search in ordered ones,
    \<open>SORTfnd\<close>, \<open>SORTfndfirst\<close>, \<open>SORTfndlast\<close>, for both directions, with and without duplicates.
  \<^item> \<open>Gdk_Cand\<close> (gdk/gdk_cand.h): candidate lists, \<open>CANDINIT\<close>.
  \<^item> \<open>Gdk_Checked\<close> (gdk/gdk_calc_private.h), \<open>Gdk_Calc\<close> and \<open>Gdk_BatCalc\<close> (gdk/gdk_calc.c):
    arithmetic on single values with overflow checks, the kernels that loop over candidates, and
    the entry points \<open>BATcalcadd\<close>, \<open>BATcalcsub\<close>, \<open>BATcalcmul\<close>, \<open>BATcalcdiv\<close>, \<open>BATcalcmod\<close>,
    \<open>BATcalcincr\<close>, \<open>BATcalcdecr\<close> with their type switches and the flags of the result.
  \<^item> \<open>Gdk_Ssort\<close> (gdk/gdk_ssort.c, gdk/gdk_ssort_impl.h): timsort; \<open>Gdk_Ssort_Merge\<close> and
    \<open>Gdk_Ssort_Hi\<close> prove the two directions of merging, \<open>Gdk_Ssort_Runs\<close> finding, reversing and
    extending runs, \<open>Gdk_Ssort_Props\<close> the stack of runs and the whole sort.
  \<^item> \<open>Gdk_Qsort\<close>, \<open>Gdk_Qsort_Props\<close> (gdk/gdk_qsort.c, gdk/gdk_qsort_impl.h): quicksort.
  \<^item> \<open>Gdk_Project\<close> (gdk/gdk_project.c, parts of gdk/gdk_batop.c): fetching by position, slices.
  \<^item> \<open>Gdk_BatSort\<close> (gdk/gdk_batop.c): \<open>BATsort\<close>, which composes fetching with the two sorts.
  \<^item> \<open>Gdk_Select\<close> (gdk/gdk_select.c, the detection of order of gdk/gdk_batop.c): \<open>BATselect\<close> and
    \<open>BATthetaselect\<close>, from the arguments to the candidate list they return. \<open>Gdk_Select_Props\<close>
    states the table of the comment before \<open>BATselect\<close> (\<open>selects\<close>) and proves the normalisation of a
    range, \<open>Gdk_Select_Rows\<close> the slices of candidate lists and the detection of order,
    \<open>Gdk_Select_Result\<close> the search of an ordered column, \<open>Gdk_Select_Correct\<close> the scans and the whole
    function, \<open>Gdk_Select_Types\<close> has the types it is used on and the theorems.
  \<^item> \<open>Gdk_Convert\<close> (gdk/gdk_calc.c): conversion between the integer types, \<open>BATconvert\<close>, \<open>VARconvert\<close>.
  \<^item> \<open>Gdk_Aggr\<close> (gdk/gdk_aggr.c): the range of groups \<open>BATgroupaggrinit\<close>, and per group the sum,
    product, count, size, minimum and maximum. \<open>Gdk_Aggr_Props\<close> proves that a loop over rows is one
    fold per group, and the bitmask of groups that tells whether some group has no value; \<open>Gdk_Aggr_Sum\<close> has the
    rows and groups that the entry points pass to the loops and the theorems on sums and products.
  \<^item> \<open>Mtime_Date\<close>, \<open>Mtime_Arith\<close>, \<open>Mtime_Zone\<close> (mal/modules/atoms/mtime.c): the calendar, dates,
    daytimes and timestamps with their arithmetic, daylight-saving rules and time zones.
  \<^item> \<open>Mal_Dflow_Graph\<close> (\<open>DFLOWinitBlk\<close> of mal/mal/mal_dataflow.c): the dependency graph of a block;
    \<open>Mal_Dataflow\<close> (the rest of the file, admission of mal/mal/mal_resource.c): scheduler, workers
    and queues as a step relation; \<open>Mal_Dflow_Inv\<close> the invariant, \<open>Mal_Dflow_Live\<close> progress,
    \<open>Mal_Dflow_Props\<close> the theorems over the graph the code builds, \<open>Mal_Dflow_Serial\<close> the
    equivalence with sequential execution.
  \<^item> \<open>Sql_Sequence\<close> (sql/storage/store_sequence.c): sequences over a log that survives restarts.

  Interfaces.  A locale states what a component relies on, and is interpreted on the model:
  \<open>atom_order\<close> (the comparison of a type is a total preorder) carries searching and sorting;
  \<open>value_type\<close> extends it by nil and the reading of object identifiers, for fetching;
  \<open>seltype_ok\<close> extends \<open>atom_order\<close> by the least, greatest, next and previous values that
  selection needs, for every integer type and for object identifiers;
  \<open>column_sort\<close> extends \<open>value_type\<close> for sorting; \<open>weak_order\<close> and \<open>sort_order\<close> carry the
  merges and are given by the strict part of every comparison in both directions;
  \<open>group_cells\<close> is the contract of a loop whose steps change the cell of one group, and
  \<open>checked_agg\<close>, which gives it, that of an operation with an overflow test that aggregates, met by
  the additions and by each of the multiplications;
  \<open>wakeup_graph\<close> is the contract between the dataflow scheduler and the graph, provided by
  \<open>DFLOWinitBlk\<close>; \<open>codec\<close> is interpreted for dates and for clock times.

  What is shown.  Search finds the first, the last or some equal position for every flag the
  descriptor can have.  Candidate lists visit exactly the selected rows.  The overflow tests
  are exact, so the arithmetic entry points give the row-by-row results or report an error, and
  every flag they set is true; increment and decrement likewise, for whole columns.  Timsort and
  quicksort return ordered permutations, timsort
  stable, without a failed assertion and inside its 85-entry stack for fewer than \<open>2 ^ 32\<close> items of
  less than 16 bytes, quicksort with at most
  logarithmically many nested activations; \<open>BATsort\<close> sorts by group and value with true flags, but
  for two kinds of arguments, named in the theorem, for which it crashes.
  Selection returns, for ordered and for unordered columns, with and without candidates, the
  candidate list of the rows that its documented table or its operator asks for.  The theorems spell
  out where the code departs from the table: rows of the table that it reads differently
  (\<open>read_hi\<close>, \<open>read_anti\<close>, \<open>read_rows\<close>), a write beyond the result, the complement of a range
  that ends with the greatest value (\<open>BATselect_clobbered\<close>), and the operators \<open>!=\<close> and \<open><>\<close> with
  that value (\<open>unequal_greatest\<close>).  The one case left out is that of candidates outside a nil-free
  column when all values but nil are asked for (\<open>everything_keeps_candidates\<close>).
  Conversion gives the value or nil, or reports that it does not fit.  The sum and the product per
  group are those of the selected values of the group, nil for none and on overflow, with true
  flags, when nils are skipped, the candidates start with the first row and a single group has all of
  them; \<open>BATgroupsum_wrong_groups\<close> says what happens otherwise.
  Dates and clock times round trip with their calendar fields, but for February 29 of a year before 1;
  arithmetic on them is exact or nil, for distances of less than about \<open>2 ^ 31\<close> days, and years are counted
  as they are shown.  Rules of daylight saving in a zone come back as they were unless two bits that
  their day and minutes share differ.  A parallel run of a dataflow block respects all dependencies, cannot get stuck, and
  leaves the stack of the sequential interpreter.  Sequences never hand out a value twice,
  restarts included.  Some lemmas and theorems show where the code departs from this; their
  names say so (\<open>wrong\<close>, \<open>loses\<close>, \<open>crash\<close>, \<open>repeats\<close>, \<open>clobbered\<close>, \<open>overflow\<close>).

  Bounds and fuel.  Loops that C runs to a condition are recursive functions with a termination
  proof.  Timsort is total because its merges are (each consumes one item); \<open>None\<close> stands for a
  failed assertion, or the overflow of the counter of a copy at \<open>2 ^ 31\<close> items, and is excluded by the theorems.  \<open>compute_rule\<close>, whose loop walks from day to
  day until a weekday matches, returns an option and is proved to return; quicksort counts the depth of its
  recursion.  Machine integers are integers with the wrap-around or the overflow test written
  out where the code can reach it; timsort has fewer than \<open>2 ^ 32\<close> items,
  so that no merge copies \<open>2 ^ 31\<close> of them.

  Parameters.  Types of values enter by their comparison, nil and width.  Memory allocation is a
  function that grants or denies each request, new memory has arbitrary contents.  The function
  an instruction computes and the memory it claims are parameters of the dataflow model.

  Not modelled.  Columns in memory-mapped files with shared heaps and reference counts (gdk_bat.c,
  gdk_bbp.c, gdk_heap.c): the models take a column as its values and its descriptor.  Joins,
  grouping, hash tables and imprints, and so the output \<open>groups\<close> of \<open>BATsort\<close> and the selections on
  persistent columns that use a hash or imprints; selections on strings; the floating point
  instances of selection, whose next and previous values come from the C library.  Floating
  point kernels of gdk_calc.c; averages, quantiles and deviations, the aggregates of floating point and of virtual
  columns.  Text conversion of dates (scanning and printing).  The MAL parser,
  type resolution, profiler and the rewriting optimizers, which need a semantics of all MAL
  modules.  The SQL front end (the parser is generated; the translation to MAL works on mutable trees), the catalog and
  the delta storage, streams, options and the bindings to R: input, output and glue.
\<close>

end
